(* ===== verification/Kernel_Prelude.thy ===== *)
theory Kernel_Prelude
  imports Main "HOL-Library.Word" "HOL-Library.Multiset"
begin

text \<open>
  What every component of the development shares: the ways a kernel call can fail to
  return, the sequencing of calls that may fail, the C integer conversions the code
  relies on, and generic facts on lists and rotations.

  A C function that can panic is modelled as a function into \<open>fault + 'a\<close>:
  \<open>Inr\<close> carries the result (usually paired with the new state), \<open>Inl\<close> says how the
  call failed to return.
\<close>

section \<open>Calls that may not return\<close>

datatype fault =
    Panic string      \<comment> \<open>\<open>panic(msg)\<close>: the machine stops\<close>
  | Hang string       \<comment> \<open>the caller waits for an event that only it could cause\<close>
  | Overrun string    \<comment> \<open>an access outside the object: undefined behaviour in C\<close>

type_synonym 'a res = "fault + 'a"

definition bindR :: "'a res \<Rightarrow> ('a \<Rightarrow> 'b res) \<Rightarrow> 'b res" where
  "bindR m f = (case m of Inl e \<Rightarrow> Inl e | Inr x \<Rightarrow> f x)"

definition guardR :: "bool \<Rightarrow> fault \<Rightarrow> 'b res \<Rightarrow> 'b res" where
  "guardR ok e m = (if ok then m else Inl e)"

definition returns :: "'a res \<Rightarrow> bool" where
  "returns m \<longleftrightarrow> (case m of Inl _ \<Rightarrow> False | Inr _ \<Rightarrow> True)"

text \<open>How a system call leaves its loop: it returns a value, or it sleeps with some work still to be
  done when it is woken.\<close>

datatype 'a outcome = Returns int 'a | Sleeps 'a

named_theorems res_simps \<open>evaluation and inversion of calls that may fail\<close>

lemma bindR_Inl [simp, res_simps]: "bindR (Inl e) f = Inl e"
  by (simp add: bindR_def)

lemma bindR_Inr [simp, res_simps]: "bindR (Inr x) f = f x"
  by (simp add: bindR_def)

lemma bindR_eq_Inr [res_simps]:
  "(bindR m f = Inr y) = (\<exists>x. m = Inr x \<and> f x = Inr y)"
  by (cases m) auto

lemma bindR_eq_Inl [res_simps]:
  "(bindR m f = Inl e) = (m = Inl e \<or> (\<exists>x. m = Inr x \<and> f x = Inl e))"
  by (cases m) auto

lemma bindR_assoc: "bindR (bindR m f) g = bindR m (\<lambda>x. bindR (f x) g)"
  by (cases m) auto

lemma bindR_Inr_right [simp]: "bindR m Inr = m"
  by (cases m) auto

lemma bindR_cong [fundef_cong]:
  "\<lbrakk>m = m'; \<And>x. m' = Inr x \<Longrightarrow> f x = g x\<rbrakk> \<Longrightarrow> bindR m f = bindR m' g"
  by (cases m') auto

lemma guardR_True [simp]: "guardR True e m = m"
  by (simp add: guardR_def)

lemma guardR_False [simp]: "guardR False e m = Inl e"
  by (simp add: guardR_def)

lemma guardR_eq_Inr [res_simps]: "(guardR ok e m = Inr y) = (ok \<and> m = Inr y)"
  by (simp add: guardR_def)

lemma returns_simps [simp]: "returns (Inr x)" "\<not> returns (Inl e)"
  by (simp_all add: returns_def)

lemma returns_iff: "returns m \<longleftrightarrow> (\<exists>x. m = Inr x)"
  by (cases m) auto

section \<open>C integers\<close>

text \<open>
  An \<open>uint\<close> is a natural number below \<open>2 ^ 32\<close>; \<open>wrap32\<close> is what an unsigned
  operation leaves. An \<open>int\<close> the code never overflows is an \<open>int\<close>.
\<close>

definition wrap32 :: "nat \<Rightarrow> nat" where
  "wrap32 n = n mod 2 ^ 32"

definition sub32 :: "nat \<Rightarrow> nat \<Rightarrow> nat" where
  "sub32 a b = (a + (2 ^ 32 - b mod 2 ^ 32)) mod 2 ^ 32"

definition uint_of_int :: "int \<Rightarrow> nat" where
  "uint_of_int i = nat (i mod 2 ^ 32)"

definition int_of_uint :: "nat \<Rightarrow> int" where
  "int_of_uint n = (if n < 2 ^ 31 then int n else int n - 2 ^ 32)"

lemma wrap32_small [simp]: "n < 4294967296 \<Longrightarrow> wrap32 n = n"
  by (simp add: wrap32_def)

lemma wrap32_bound: "wrap32 n < 4294967296"
  by (simp add: wrap32_def)

lemma sub32_small: "b \<le> a \<Longrightarrow> a < 4294967296 \<Longrightarrow> sub32 a b = a - b"
proof -
  assume "b \<le> a" "a < 4294967296"
  then have "a + (4294967296 - b mod 4294967296) = (a - b) + 4294967296" by simp
  then show ?thesis using \<open>a < 4294967296\<close>
    by (simp add: sub32_def)
qed

section \<open>Lists\<close>

lemma nth_update_iff: "i < length xs \<Longrightarrow> xs[i := x] ! j = (if i = j then x else xs ! j)"
  by (simp add: nth_list_update)

lemma map_update_idem: "f (xs ! i) = f x \<Longrightarrow> map f (xs[i := x]) = map f xs"
  by (metis list_update_id map_update)

lemma rotate1_hd_tl: "xs \<noteq> [] \<Longrightarrow> rotate1 xs = tl xs @ [hd xs]"
  by (cases xs) auto

lemma rotate_snoc_front: "rotate (length xs) (xs @ [x]) = x # xs"
proof -
  have "rotate (length xs) (xs @ [x]) = [x] @ xs"
    by (rule rotate_append)
  then show ?thesis by simp
qed

text \<open>The first slot of a table that satisfies a test, as the \<open>for\<close> loops over the tables look
  for one.\<close>

fun find_idx :: "('a \<Rightarrow> bool) \<Rightarrow> 'a list \<Rightarrow> nat option" where
  "find_idx P [] = None"
| "find_idx P (x # xs) = (if P x then Some 0 else map_option Suc (find_idx P xs))"

lemma find_idx_None: "find_idx P xs = None \<longleftrightarrow> (\<forall>x\<in>set xs. \<not> P x)"
  by (induction xs) auto

lemma find_idx_Some:
  "find_idx P xs = Some i \<longleftrightarrow> i < length xs \<and> P (xs ! i) \<and> (\<forall>j<i. \<not> P (xs ! j))"
proof (induction xs arbitrary: i)
  case Nil
  then show ?case by simp
next
  case (Cons x xs)
  then show ?case by (cases i) (auto simp: less_Suc_eq_0_disj)
qed

lemma find_idx_SomeD: "find_idx P xs = Some i \<Longrightarrow> i < length xs \<and> P (xs ! i)"
  by (simp add: find_idx_Some)

lemma funpow_swap: "f ((f ^^ n) x) = (f ^^ n) (f x)"
  by (simp add: funpow_swap1)

text \<open>Distinct positions of a ring of \<open>n\<close> slots, counted from \<open>f\<close>.\<close>

lemma ring_distinct:
  fixes f n i j :: nat
  assumes "i < j" "j < n"
  shows "(f + i) mod n \<noteq> (f + j) mod n"
proof
  assume eq: "(f + i) mod n = (f + j) mod n"
  have "n dvd (f + j) - (f + i)"
    using mod_eq_dvd_iff_nat [of "f + i" "f + j" n] eq assms by simp
  moreover have "(f + j) - (f + i) = j - i" by simp
  ultimately have "n dvd j - i" by simp
  moreover have "0 < j - i" "j - i < n" using assms by auto
  ultimately show False by (auto dest: dvd_imp_le)
qed

end
