(* ===== verification/Fifo.thy ===== *)
theory Fifo
  imports Kernel_Prelude
begin

text \<open>
  The contract of a bounded first-in first-out queue, as the schedulers and the thread
  library use it: the level queues of Project01-MLFQ/proc.c (\<open>enQ\<close>, \<open>deQ\<close>) and
  the queue of freed stacks of Project02-Thread/proc.c both provide it. What the clients
  need beyond the contract is proved here once: taking the head and putting it back is a
  rotation, and appending an element and then cycling through the old ones moves it to
  the front.
\<close>

locale bounded_fifo =
  fixes enq :: "'a \<Rightarrow> 'q \<Rightarrow> 'q"
    and deq :: "'q \<Rightarrow> 'a \<times> 'q"
    and elems :: "'q \<Rightarrow> 'a list"
    and good :: "'q \<Rightarrow> bool"
    and cap :: nat
  assumes cap_bound: "good q \<Longrightarrow> length (elems q) \<le> cap"
    and enq_good: "good q \<Longrightarrow> length (elems q) < cap \<Longrightarrow> good (enq x q)"
    and enq_elems: "good q \<Longrightarrow> length (elems q) < cap \<Longrightarrow> elems (enq x q) = elems q @ [x]"
    and deq_good: "good q \<Longrightarrow> elems q \<noteq> [] \<Longrightarrow> good (snd (deq q))"
    and deq_fst: "good q \<Longrightarrow> elems q \<noteq> [] \<Longrightarrow> fst (deq q) = hd (elems q)"
    and deq_elems: "good q \<Longrightarrow> elems q \<noteq> [] \<Longrightarrow> elems (snd (deq q)) = tl (elems q)"
begin

lemma deq_room: "good q \<Longrightarrow> elems q \<noteq> [] \<Longrightarrow> length (elems (snd (deq q))) < cap"
  using cap_bound [of q] by (cases "elems q") (simp_all add: deq_elems)

lemma cycle_good: "good q \<Longrightarrow> elems q \<noteq> [] \<Longrightarrow> good (enq (fst (deq q)) (snd (deq q)))"
  by (simp add: enq_good deq_good deq_room)

lemma cycle_elems:
  "good q \<Longrightarrow> elems q \<noteq> [] \<Longrightarrow> elems (enq (fst (deq q)) (snd (deq q))) = rotate1 (elems q)"
  using enq_elems [OF deq_good deq_room, of q "fst (deq q)"]
  by (simp add: deq_elems deq_fst rotate1_hd_tl)

lemma cycles:
  assumes "good q" and "elems q \<noteq> []"
  shows "good (((\<lambda>q. enq (fst (deq q)) (snd (deq q))) ^^ n) q) \<and>
         elems (((\<lambda>q. enq (fst (deq q)) (snd (deq q))) ^^ n) q) = rotate n (elems q)"
proof (induction n)
  case 0
  then show ?case using assms by simp
next
  case (Suc n)
  let ?q = "((\<lambda>q. enq (fst (deq q)) (snd (deq q))) ^^ n) q"
  have "elems ?q \<noteq> []" using Suc.IH assms(2) by simp
  then show ?case using Suc.IH
    by (simp add: cycle_good cycle_elems rotate_def)
qed

lemma to_front:
  assumes "good q" and "length (elems q) < cap"
  shows "elems (((\<lambda>q. enq (fst (deq q)) (snd (deq q))) ^^ length (elems q)) (enq x q)) = x # elems q"
proof -
  have "good (enq x q)" "elems (enq x q) = elems q @ [x]"
    using assms by (simp_all add: enq_good enq_elems)
  then show ?thesis
    using cycles [of "enq x q" "length (elems q)"] by (simp add: rotate_snoc_front)
qed

lemma to_front_good:
  assumes "good q" and "length (elems q) < cap"
  shows "good (((\<lambda>q. enq (fst (deq q)) (snd (deq q))) ^^ n) (enq x q))"
  using cycles [of "enq x q" n] assms by (simp add: enq_good enq_elems)

lemma enq_then_deq:
  assumes "good q" and "elems q = []" and "0 < cap"
  shows "fst (deq (enq x q)) = x \<and> elems (snd (deq (enq x q))) = []"
  using assms by (simp add: enq_good enq_elems deq_fst deq_elems)

end

end
