(* ===== verification/Kernel_Types.thy ===== *)
theory Kernel_Types
  imports Kernel_Prelude
begin

text \<open>
  Types that the process managements of Project01-MLFQ and Project02-Thread share:
  sleep channels, the trap frame, kernel code addresses and the sizes of param.h.
  A null pointer is \<open>None\<close>; a pointer into a table is the index of its slot.
\<close>

abbreviation NPROC :: nat where "NPROC \<equiv> 64"
abbreviation NOFILE :: nat where "NOFILE \<equiv> 16"
abbreviation PGSIZE :: nat where "PGSIZE \<equiv> 4096"
abbreviation KSTACKSIZE :: nat where "KSTACKSIZE \<equiv> 4096"

text \<open>What a process can sleep on: the address of a table slot, the tick counter, or
  another kernel object.\<close>

datatype chan = ChSlot nat | ChTicks | ChOther nat

text \<open>Where a kernel context resumes: \<open>forkret\<close> for a new one, or where it left off.\<close>

datatype kaddr = Forkret | Saved

record trapframe =
  tf_eax :: nat
  tf_eip :: nat
  tf_esp :: nat
  tf_cs :: nat
  tf_ds :: nat
  tf_es :: nat
  tf_ss :: nat
  tf_eflags :: nat

definition tf_zero :: trapframe where
  "tf_zero = \<lparr>tf_eax = 0, tf_eip = 0, tf_esp = 0, tf_cs = 0, tf_ds = 0, tf_es = 0,
     tf_ss = 0, tf_eflags = 0\<rparr>"

text \<open>\<open>safestrcpy\<close> on the strings of the model, which carry no terminator.\<close>

definition safestr :: "string \<Rightarrow> nat \<Rightarrow> string" where
  "safestr t n = take (n - 1) t"

end
