(* ===== verification/Mlfq_State.thy ===== *)
theory Mlfq_State
  imports Fifo Kernel_Types
begin

text \<open>
  Project01-MLFQ/proc.h and the global state of Project01-MLFQ/proc.c: the process
  table, the three level queues \<open>mlfq[3]\<close>, the dictator of the locked scheduler, and the
  queue operations \<open>enQ\<close>, \<open>deQ\<close>, \<open>isEmpty\<close>.

  A queue is the code's circular array. \<open>fq_elems\<close> reads it as the list of process
  indices from front to back; the interpretation \<open>level_queue\<close> shows that the array
  operations are a bounded queue of 64 elements.
\<close>

section \<open>Data\<close>

datatype procstate = UNUSED | EMBRYO | SLEEPING | RUNNABLE | RUNNING | ZOMBIE

record mproc =
  m_sz :: nat
  m_pgdir :: nat
  m_kstack :: nat
  m_state :: procstate
  m_pid :: int
  m_parent :: "nat option"
  m_tf :: trapframe
  m_context :: kaddr
  m_chan :: "chan option"
  m_killed :: bool
  m_ofile :: "nat option list"
  m_cwd :: "nat option"
  m_priority :: int
  m_qlv :: int
  m_tq :: nat
  m_name :: string

record fq =
  proc_idx :: "int list"
  q_front :: nat
  q_back :: nat
  qsize :: nat

text \<open>What \<open>cprintf\<close> shows: a fixed message or the triple that the scheduler calls print.\<close>

datatype kmsg = Msg string | Triple int nat int

record kern =
  procs :: "mproc list"
  mlfq :: "fq list"
  nextpid :: int
  global_ticks :: nat
  ticks :: nat
  scheduler_dictator :: int
  is_dictated :: bool
  initproc :: nat
  running :: "(nat \<times> nat) option list"   \<comment> \<open>per CPU: \<open>c->proc\<close> and the local \<open>lv\<close>\<close>
  file_ref :: "nat \<Rightarrow> int"                 \<comment> \<open>\<open>f->ref\<close> of the file table\<close>
  inode_ref :: "nat \<Rightarrow> int"                \<comment> \<open>\<open>ip->ref\<close> of the inode cache\<close>
  console :: "kmsg list"

section \<open>The circular queue\<close>

definition fq_enq :: "int \<Rightarrow> fq \<Rightarrow> fq" where
  "fq_enq idx q = q\<lparr>proc_idx := (proc_idx q)[q_back q := idx],
     q_back := (q_back q + 1) mod NPROC, qsize := qsize q + 1\<rparr>"

definition fq_deq :: "fq \<Rightarrow> int \<times> fq" where
  "fq_deq q = (if qsize q = 0 then (-1, q)
     else (proc_idx q ! q_front q,
           q\<lparr>q_front := (q_front q + 1) mod NPROC, qsize := qsize q - 1\<rparr>))"

definition isEmpty :: "nat \<Rightarrow> kern \<Rightarrow> bool" where
  "isEmpty lv s \<longleftrightarrow> qsize (mlfq s ! lv) = 0"

definition enQ :: "nat \<Rightarrow> int \<Rightarrow> kern \<Rightarrow> int \<times> kern" where
  "enQ lv idx s = (idx, s\<lparr>mlfq := (mlfq s)[lv := fq_enq idx (mlfq s ! lv)]\<rparr>)"

definition deQ :: "nat \<Rightarrow> kern \<Rightarrow> int \<times> kern" where
  "deQ lv s = (if isEmpty lv s then (-1, s)
     else (fst (fq_deq (mlfq s ! lv)),
           s\<lparr>mlfq := (mlfq s)[lv := snd (fq_deq (mlfq s ! lv))]\<rparr>))"

definition fq_elems :: "fq \<Rightarrow> int list" where
  "fq_elems q = map (\<lambda>i. proc_idx q ! ((q_front q + i) mod NPROC)) [0..<qsize q]"

definition fq_good :: "fq \<Rightarrow> bool" where
  "fq_good q \<longleftrightarrow> length (proc_idx q) = NPROC \<and> q_front q < NPROC \<and> qsize q \<le> NPROC \<and>
     q_back q = (q_front q + qsize q) mod NPROC"

text \<open>A queue as the zero-initialised global holds it.\<close>

definition fq_zero :: fq where
  "fq_zero = \<lparr>proc_idx = replicate NPROC 0, q_front = 0, q_back = 0, qsize = 0\<rparr>"

lemma length_fq_elems [simp]: "length (fq_elems q) = qsize q"
  by (simp add: fq_elems_def)

lemma fq_elems_Nil: "fq_elems q = [] \<longleftrightarrow> qsize q = 0"
  by (simp add: fq_elems_def)

lemma fq_enq_elems: 
  assumes "fq_good q" "length (fq_elems q) < NPROC"
  shows "fq_elems (fq_enq x q) = fq_elems q @ [x]"
proof -
  have room: "qsize q < NPROC" using assms(2) by simp
  have b: "q_back q < length (proc_idx q)" using assms(1) by (simp add: fq_good_def)
  have old: "(proc_idx q)[q_back q := x] ! ((q_front q + i) mod NPROC)
      = proc_idx q ! ((q_front q + i) mod NPROC)" if "i < qsize q" for i
    using ring_distinct [OF that room, of "q_front q"] assms(1)
    by (simp add: fq_good_def)
  have new: "(proc_idx q)[q_back q := x] ! ((q_front q + qsize q) mod NPROC) = x"
    using b assms(1) by (simp add: fq_good_def)
  show ?thesis
    by (simp add: fq_elems_def fq_enq_def old new)
qed

lemma fq_enq_good:
  "fq_good q \<Longrightarrow> length (fq_elems q) < NPROC \<Longrightarrow> fq_good (fq_enq x q)"
  by (simp add: fq_good_def fq_enq_def mod_Suc_eq)

lemma fq_deq_elems:
  assumes "fq_good q" "fq_elems q \<noteq> []"
  shows "fst (fq_deq q) = hd (fq_elems q)" "fq_elems (snd (fq_deq q)) = tl (fq_elems q)"
proof -
  obtain n where n: "qsize q = Suc n" using assms(2) by (cases "qsize q") (auto simp: fq_elems_Nil)
  have e: "fq_elems q = proc_idx q ! (q_front q mod NPROC) #
      map (\<lambda>i. proc_idx q ! ((q_front q + Suc i) mod NPROC)) [0..<n]"
    by (simp add: fq_elems_def n upt_conv_Cons map_Suc_upt [symmetric] o_def del: upt_Suc)
  show "fst (fq_deq q) = hd (fq_elems q)"
    using assms(1) by (simp add: e fq_deq_def n fq_good_def)
  have "(Suc (q_front q) mod NPROC + i) mod NPROC = (q_front q + Suc i) mod NPROC" for i
    by (simp add: mod_add_left_eq)
  then show "fq_elems (snd (fq_deq q)) = tl (fq_elems q)"
    by (simp add: e) (simp add: fq_elems_def fq_deq_def n)
qed

lemma fq_deq_good: "fq_good q \<Longrightarrow> fq_elems q \<noteq> [] \<Longrightarrow> fq_good (snd (fq_deq q))"
proof -
  assume a: "fq_good q" "fq_elems q \<noteq> []"
  then obtain n where n: "qsize q = Suc n" by (cases "qsize q") (auto simp: fq_elems_Nil)
  have "(Suc (q_front q) mod NPROC + n) mod NPROC = (q_front q + Suc n) mod NPROC"
    by (simp add: mod_add_left_eq)
  with a n show ?thesis by (simp add: fq_good_def fq_deq_def)
qed

interpretation level_queue: bounded_fifo fq_enq fq_deq fq_elems fq_good NPROC
proof unfold_locales
  show "length (fq_elems q) \<le> NPROC" if "fq_good q" for q
    using that by (simp add: fq_good_def)
qed (simp_all add: fq_enq_good fq_enq_elems fq_deq_good fq_deq_elems del: length_fq_elems)

lemma fq_zero_good: "fq_good fq_zero" "fq_elems fq_zero = []"
  by (simp_all add: fq_good_def fq_zero_def fq_elems_def)

end
