(* ===== verification/Mlfq_Sched.thy ===== *)
theory Mlfq_Sched
  imports Mlfq_State
begin

text \<open>
  The multilevel feedback queue of Project01-MLFQ/proc.c: \<open>pickProc\<close>,
  \<open>priorityBoost\<close>, \<open>setPriority\<close>, the two halves of \<open>scheduler\<close> (choosing a process
  and, after \<open>swtch\<close> comes back, the feedback), and what they guarantee. A queue is read
  through \<open>level\<close>, the list of process indices from front to back.
\<close>

section \<open>Model\<close>

definition USELESS :: int where "USELESS = 200"

definition proc_at :: "kern \<Rightarrow> int \<Rightarrow> mproc" where
  "proc_at s i = procs s ! nat i"

definition upd_proc :: "int \<Rightarrow> (mproc \<Rightarrow> mproc) \<Rightarrow> kern \<Rightarrow> kern" where
  "upd_proc i f s = s\<lparr>procs := (procs s)[nat i := f (procs s ! nat i)]\<rparr>"

definition runnable :: "kern \<Rightarrow> int \<Rightarrow> bool" where
  "runnable s i \<longleftrightarrow> m_state (proc_at s i) = RUNNABLE"

text \<open>\<open>enQ(lv, deQ(lv))\<close> repeated, as several loops of the file do.\<close>

definition requeue :: "nat \<Rightarrow> kern \<Rightarrow> kern" where
  "requeue lv s = (let (i, s1) = deQ lv s in snd (enQ lv i s1))"

fun requeues :: "nat \<Rightarrow> nat \<Rightarrow> kern \<Rightarrow> kern" where
  "requeues lv 0 s = s"
| "requeues lv (Suc n) s = requeues lv n (requeue lv s)"

text \<open>The loop of levels 0 and 1: the first runnable process from the front.\<close>

fun pick_fifo :: "nat \<Rightarrow> nat \<Rightarrow> kern \<Rightarrow> int \<times> kern" where
  "pick_fifo lv 0 s = (-1, s)"
| "pick_fifo lv (Suc n) s =
     (let (i, s1) = deQ lv s
      in if \<not> runnable s1 i then pick_fifo lv n (snd (enQ lv i s1))
         else (i, s1))"

text \<open>The first loop of level 2: \<open>k\<close> is the loop counter, \<open>(prio, best)\<close> the
  variables \<open>proc_priority\<close> and \<open>mlfq_idx\<close>.\<close>

fun scan_prio :: "nat \<Rightarrow> nat \<Rightarrow> nat \<Rightarrow> int \<Rightarrow> nat \<Rightarrow> kern \<Rightarrow> int \<times> nat \<times> kern" where
  "scan_prio lv 0 k prio best s = (prio, best, s)"
| "scan_prio lv (Suc n) k prio best s =
     (let (i, s1) = deQ lv s; s2 = snd (enQ lv i s1)
      in if \<not> runnable s2 i then scan_prio lv n (Suc k) prio best s2
         else if prio > m_priority (proc_at s2 i)
              then scan_prio lv n (Suc k) (m_priority (proc_at s2 i)) k s2
              else scan_prio lv n (Suc k) prio best s2)"

text \<open>The second loop of level 2: rotate to the chosen entry and take it.\<close>

fun take_nth :: "nat \<Rightarrow> nat \<Rightarrow> int \<times> kern \<Rightarrow> int \<times> kern" where
  "take_nth lv 0 r = r"
| "take_nth lv (Suc n) r = take_nth lv n (deQ lv (snd (enQ lv (fst r) (snd r))))"

definition pickProc :: "nat \<Rightarrow> kern \<Rightarrow> int \<times> kern" where
  "pickProc lv s =
     (if isEmpty lv s then (-1, s)
      else let sz = qsize (mlfq s ! lv)
           in if lv = 2
              then let (prio, best, s1) = scan_prio lv sz 0 USELESS 0 s
                   in if prio = USELESS then (-1, s1)
                      else take_nth lv best (deQ lv s1)
              else pick_fifo lv sz s)"

text \<open>One level of the boosting loop, and \<open>priorityBoost\<close>.\<close>

fun boost_level :: "nat \<Rightarrow> nat \<Rightarrow> kern \<Rightarrow> kern" where
  "boost_level lv 0 s = s"
| "boost_level lv (Suc n) s =
     (let (i, s1) = deQ lv s;
          s2 = upd_proc i (\<lambda>p. p\<lparr>m_qlv := 0, m_priority := 3, m_tq := 0\<rparr>) s1
      in boost_level lv n (snd (enQ 0 i s2)))"

definition to_front_of_L0 :: "int \<Rightarrow> kern \<Rightarrow> kern" where
  "to_front_of_L0 i s = (let sz = qsize (mlfq s ! 0) in requeues 0 sz (snd (enQ 0 i s)))"

definition priorityBoost :: "kern \<Rightarrow> kern" where
  "priorityBoost s =
     (let s1 = (if is_dictated s
                then (to_front_of_L0 (scheduler_dictator s) s)
                       \<lparr>is_dictated := False, scheduler_dictator := -1\<rparr>
                else s);
          s2 = boost_level 0 (qsize (mlfq s1 ! 0)) s1;
          s3 = boost_level 1 (qsize (mlfq s2 ! 1)) s2
      in boost_level 2 (qsize (mlfq s3 ! 2)) s3)"

text \<open>The search loops of \<open>setPriority\<close>: within one level, then over the levels.\<close>

fun find_pid_level :: "nat \<Rightarrow> int \<Rightarrow> nat \<Rightarrow> int \<Rightarrow> kern \<Rightarrow> bool \<times> int \<times> kern" where
  "find_pid_level lv pid 0 cur s = (False, cur, s)"
| "find_pid_level lv pid (Suc n) cur s =
     (let (i, s1) = deQ lv s; s2 = snd (enQ lv i s1)
      in if m_pid (proc_at s2 i) \<noteq> pid then find_pid_level lv pid n i s2
         else (True, i, s2))"

fun find_pid :: "nat list \<Rightarrow> int \<Rightarrow> int \<Rightarrow> kern \<Rightarrow> bool \<times> int \<times> kern" where
  "find_pid [] pid cur s = (False, cur, s)"
| "find_pid (lv # lvs) pid cur s =
     (let (found, i, s1) = find_pid_level lv pid (qsize (mlfq s ! lv)) cur s
      in if found then (True, i, s1) else find_pid lvs pid i s1)"

definition cprintf :: "kmsg \<Rightarrow> kern \<Rightarrow> kern" where
  "cprintf m s = s\<lparr>console := console s @ [m]\<rparr>"

definition setPriority :: "int \<Rightarrow> int \<Rightarrow> kern \<Rightarrow> kern" where
  "setPriority pid priority s =
     (let (found, i, s1) = find_pid [0, 1, 2] pid (-1) s
      in if priority < 0 \<or> priority > 4
         then cprintf (Msg ''Priority should be in range from 0 to 3'') s1
         else if \<not> found then cprintf (Msg ''Not Running Process pid on Memory'') s1
         else upd_proc i (\<lambda>p. p\<lparr>m_priority := priority\<rparr>) s1)"

section \<open>The scheduler\<close>

text \<open>
  \<open>scheduler\<close> holds \<open>ptable.lock\<close> from choosing a process to \<open>swtch\<close>, and again from
  the moment \<open>swtch\<close> returns to the end of the loop body. \<open>sched_pick c\<close> is the first
  half on CPU \<open>c\<close> (the result says whether a process was started), \<open>sched_feedback c\<close>
  the second. The local variables \<open>proc_idx\<close> and \<open>lv\<close> live in \<open>running\<close> in between.
\<close>

fun pick_levels :: "nat list \<Rightarrow> kern \<Rightarrow> (nat \<times> int) option \<times> kern" where
  "pick_levels [] s = (None, s)"
| "pick_levels (lv # lvs) s =
     (let (i, s1) = pickProc lv s
      in if i \<noteq> -1 then (Some (lv, i), s1) else pick_levels lvs s1)"

definition switchuvm :: "mproc \<Rightarrow> unit res" where
  "switchuvm p =
     (if m_kstack p = 0 then Inl (Panic ''switchuvm: no kstack'')
      else if m_pgdir p = 0 then Inl (Panic ''switchuvm: no pgdir'')
      else Inr ())"

definition sched_run :: "nat \<Rightarrow> nat \<Rightarrow> int \<Rightarrow> kern \<Rightarrow> (bool \<times> kern) res" where
  "sched_run c lv i s =
     guardR (0 \<le> i \<and> nat i < length (procs s)) (Overrun ''ptable.proc'')
      (bindR (switchuvm (proc_at s i)) (\<lambda>_.
         Inr (True, upd_proc i (\<lambda>p. p\<lparr>m_state := RUNNING\<rparr>) s
                      \<lparr>running := (running s)[c := Some (nat i, lv)]\<rparr>)))"

definition sched_pick :: "nat \<Rightarrow> kern \<Rightarrow> (bool \<times> kern) res" where
  "sched_pick c s =
     (if is_dictated s then sched_run c 0 (scheduler_dictator s) s
      else case pick_levels [0, 1, 2] s of
             (None, s1) \<Rightarrow> Inr (False, s1)
           | (Some (lv, i), s1) \<Rightarrow> sched_run c lv i s1)"

text \<open>The adjustment of level, priority and quantum; it yields the level to queue at.\<close>

definition demote :: "nat \<Rightarrow> nat \<Rightarrow> kern \<Rightarrow> nat \<times> kern" where
  "demote lv i s =
     (if m_tq (procs s ! i) \<ge> lv * 2 + 4
      then let s1 = (if lv = 2
                     then upd_proc (int i)
                            (\<lambda>p. p\<lparr>m_priority := if m_priority p - 1 \<ge> 0 then m_priority p - 1 else 0\<rparr>) s
                     else s);
               lv' = (if lv + 1 < 2 then lv + 1 else 2)
           in (lv', upd_proc (int i) (\<lambda>p. p\<lparr>m_qlv := int lv', m_tq := 0\<rparr>) s1)
      else (lv, s))"

definition sched_feedback :: "nat \<Rightarrow> kern \<Rightarrow> kern" where
  "sched_feedback c s =
     (case running s ! c of
        None \<Rightarrow> s
      | Some (i, lv) \<Rightarrow>
          (let s1 = upd_proc (int i) (\<lambda>p. p\<lparr>m_tq := m_tq p + 1\<rparr>) s;
               s2 = (if \<not> is_dictated s1
                     then let (lv', s') = demote lv i s1
                          in if m_state (procs s' ! i) \<noteq> ZOMBIE then snd (enQ lv' (int i) s') else s'
                     else s1);
               s3 = (if global_ticks s2 \<ge> 100
                     then priorityBoost (s2\<lparr>global_ticks := 0\<rparr>) else s2)
           in s3\<lparr>running := (running s3)[c := None]\<rparr>))"


section \<open>Queue operations seen as lists\<close>

definition level :: "kern \<Rightarrow> nat \<Rightarrow> int list" where
  "level s lv = fq_elems (mlfq s ! lv)"

definition levels :: "kern \<Rightarrow> int list list" where
  "levels s = map fq_elems (mlfq s)"

definition queues_good :: "kern \<Rightarrow> bool" where
  "queues_good s \<longleftrightarrow> length (mlfq s) = 3 \<and> (\<forall>q\<in>set (mlfq s). fq_good q)"

text \<open>\<open>s'\<close> is \<open>s\<close> with the queues changed to hold the lists \<open>L\<close> and nothing else changed.\<close>

definition at_levels :: "kern \<Rightarrow> int list list \<Rightarrow> kern \<Rightarrow> bool" where
  "at_levels s L s' \<longleftrightarrow> s'\<lparr>mlfq := []\<rparr> = s\<lparr>mlfq := []\<rparr> \<and> queues_good s' \<and> levels s' = L"

lemma levels_nth: "queues_good s \<Longrightarrow> lv < 3 \<Longrightarrow> levels s ! lv = level s lv"
  by (simp add: levels_def level_def queues_good_def)

lemma length_levels [simp]: "length (levels s) = length (mlfq s)"
  by (simp add: levels_def)

lemma queues_goodD: "queues_good s \<Longrightarrow> lv < 3 \<Longrightarrow> fq_good (mlfq s ! lv) \<and> length (mlfq s) = 3"
  by (simp add: queues_good_def)

lemma level_cap: "queues_good s \<Longrightarrow> lv < 3 \<Longrightarrow> length (level s lv) \<le> 64"
  unfolding level_def by (rule level_queue.cap_bound) (simp add: queues_good_def)

lemma at_levels_refl: "queues_good s \<Longrightarrow> at_levels s (levels s) s"
  by (simp add: at_levels_def)

lemma at_levels_trans: "at_levels s L s1 \<Longrightarrow> at_levels s1 L' s2 \<Longrightarrow> at_levels s L' s2"
  by (simp add: at_levels_def)

lemma at_levelsD:
  assumes "at_levels s L s'"
  shows "queues_good s'" "levels s' = L" "procs s' = procs s" "running s' = running s"
    "is_dictated s' = is_dictated s" "scheduler_dictator s' = scheduler_dictator s"
    "global_ticks s' = global_ticks s" "console s' = console s" "initproc s' = initproc s"
proof -
  show "queues_good s'" "levels s' = L" using assms by (auto simp: at_levels_def)
  have e: "s'\<lparr>mlfq := []\<rparr> = s\<lparr>mlfq := []\<rparr>" using assms by (simp add: at_levels_def)
  show "procs s' = procs s" "running s' = running s" "is_dictated s' = is_dictated s"
    "scheduler_dictator s' = scheduler_dictator s" "global_ticks s' = global_ticks s"
    "console s' = console s" "initproc s' = initproc s"
    using arg_cong [OF e, of procs] arg_cong [OF e, of running] arg_cong [OF e, of is_dictated]
      arg_cong [OF e, of scheduler_dictator] arg_cong [OF e, of global_ticks]
      arg_cong [OF e, of console] arg_cong [OF e, of initproc] by simp_all
qed

lemma at_levels_level:
  "at_levels s ((levels s)[lv := xs]) s' \<Longrightarrow> queues_good s \<Longrightarrow> lv < 3 \<Longrightarrow> level s' lv = xs"
  using at_levelsD(1,2) [of s _ s'] levels_nth [of s' lv] queues_goodD [of s lv]
  by (metis length_levels nth_list_update_eq)

lemma at_levels_same:
  "queues_good s \<Longrightarrow> lv < 3 \<Longrightarrow> at_levels s ((levels s)[lv := level s lv]) s"
  using at_levels_refl [of s] levels_nth [of s lv] by (metis list_update_id)

lemma at_levels_procs:
  assumes "at_levels s L s'"
  shows "runnable s' = runnable s" "proc_at s' = proc_at s"
  using at_levelsD(3) [OF assms] by (simp_all add: runnable_def proc_at_def fun_eq_iff)

lemma set_queue_at:
  assumes "queues_good s" "lv < 3" "fq_good q"
  shows "at_levels s ((levels s)[lv := fq_elems q]) (s\<lparr>mlfq := (mlfq s)[lv := q]\<rparr>)"
proof -
  have "fq_good q'" if "q' \<in> set ((mlfq s)[lv := q])" for q'
    using that set_update_subset_insert [of "mlfq s" lv q] assms by (auto simp: queues_good_def)
  then show ?thesis using assms by (auto simp: at_levels_def queues_good_def levels_def map_update)
qed

lemma enQ_at:
  assumes "queues_good s" "lv < 3" "length (level s lv) < 64"
  shows "at_levels s ((levels s)[lv := level s lv @ [i]]) (snd (enQ lv i s))"
  using set_queue_at [OF assms(1,2), of "fq_enq i (mlfq s ! lv)"] assms
  by (simp add: enQ_def level_def level_queue.enq_elems level_queue.enq_good queues_goodD
      del: length_fq_elems)

lemma enQ_fst [simp]: "fst (enQ lv i s) = i"
  by (simp add: enQ_def)

lemma deQ_at:
  assumes "queues_good s" "lv < 3" "level s lv = x # xs"
  obtains s' where "deQ lv s = (x, s')" "at_levels s ((levels s)[lv := xs]) s'"
proof -
  let ?q = "mlfq s ! lv"
  have g: "fq_good ?q" using assms by (simp add: queues_goodD)
  have ne: "fq_elems ?q \<noteq> []" using assms(3) by (simp add: level_def)
  have "deQ lv s = (x, s\<lparr>mlfq := (mlfq s)[lv := snd (fq_deq ?q)]\<rparr>)"
    using ne assms(3) level_queue.deq_fst [OF g ne]
    by (simp add: deQ_def isEmpty_def level_def fq_elems_Nil)
  moreover have "at_levels s ((levels s)[lv := xs]) (s\<lparr>mlfq := (mlfq s)[lv := snd (fq_deq ?q)]\<rparr>)"
    using set_queue_at [OF assms(1,2) level_queue.deq_good [OF g ne]] assms(3)
      level_queue.deq_elems [OF g ne] by (simp add: level_def)
  ultimately show ?thesis by (rule that)
qed

text \<open>Taking the head of a level and queueing \<open>i\<close> there.\<close>

lemma deQ_enQ_at:
  assumes "queues_good s" "lv < 3" "level s lv = x # xs" "deQ lv s = (y, s1)"
  shows "y = x \<and> at_levels s ((levels s)[lv := xs @ [i]]) (snd (enQ lv i s1))"
proof -
  obtain s' where d: "deQ lv s = (x, s')" and a: "at_levels s ((levels s)[lv := xs]) s'"
    by (rule deQ_at [OF assms(1-3)])
  have s1: "s1 = s'" "y = x" using d assms(4) by simp_all
  have l: "level s' lv = xs" using at_levels_level [OF a assms(1,2)] .
  have "length xs < 64" using level_cap [OF assms(1,2)] assms(3) by simp
  then have "at_levels s' ((levels s')[lv := xs @ [i]]) (snd (enQ lv i s'))"
    using enQ_at [of s' lv i] a assms(2) l by (simp add: at_levelsD)
  then show ?thesis using at_levels_trans [OF a] s1 at_levelsD(2) [OF a] by simp
qed

lemma requeue_at:
  "queues_good s \<Longrightarrow> lv < 3 \<Longrightarrow> level s lv = x # xs \<Longrightarrow>
   at_levels s ((levels s)[lv := xs @ [x]]) (requeue lv s)"
  using deQ_enQ_at [of s lv x xs] by (simp add: requeue_def split: prod.split)

lemma requeues_at:
  assumes "queues_good s" "lv < 3" "n = 0 \<or> level s lv \<noteq> []"
  shows "at_levels s ((levels s)[lv := rotate n (level s lv)]) (requeues lv n s)"
  using assms
proof (induction n arbitrary: s)
  case 0
  then show ?case using at_levels_same by simp
next
  case (Suc n)
  then obtain x xs where l: "level s lv = x # xs" by (cases "level s lv") auto
  have a: "at_levels s ((levels s)[lv := xs @ [x]]) (requeue lv s)"
    by (rule requeue_at [OF Suc.prems(1,2) l])
  have l': "level (requeue lv s) lv = xs @ [x]"
    by (rule at_levels_level [OF a Suc.prems(1,2)])
  have "at_levels (requeue lv s) ((levels (requeue lv s))[lv := rotate n (xs @ [x])])
          (requeues lv n (requeue lv s))"
    using Suc.IH [of "requeue lv s"] a Suc.prems(2) l' by (simp add: at_levelsD)
  then show ?case
    using at_levels_trans [OF a] at_levelsD(2) [OF a] by (simp add: l rotate1_rotate_swap [symmetric])
      (simp add: rotate1_rotate_swap)
qed

end
