(* ===== verification/Mlfq_Pick.thy ===== *)
theory Mlfq_Pick
  imports Mlfq_Sched
begin

text \<open>
  What \<open>pickProc\<close> and \<open>priorityBoost\<close> of Project01-MLFQ/proc.c compute, stated on the
  list view of the level queues: levels 0 and 1 serve the first runnable process, level 2
  the first one of the least priority value, and boosting empties every level into level 0
  in order.
\<close>

section \<open>Levels 0 and 1\<close>

lemma pick_fifo_at:
  assumes "queues_good s" "lv < 3" "n \<le> length (level s lv)"
  shows "case find_idx (runnable s) (take n (level s lv)) of
      None \<Rightarrow> \<exists>s'. pick_fifo lv n s = (-1, s') \<and>
                at_levels s ((levels s)[lv := rotate n (level s lv)]) s'
    | Some k \<Rightarrow> \<exists>s'. pick_fifo lv n s = (level s lv ! k, s') \<and>
                at_levels s ((levels s)[lv := drop (Suc k) (level s lv) @ take k (level s lv)]) s'"
  using assms
proof (induction n arbitrary: s)
  case 0
  then show ?case using at_levels_same by simp
next
  case (Suc n)
  then obtain x xs where l: "level s lv = x # xs" by (cases "level s lv") auto
  obtain s1 where d: "deQ lv s = (x, s1)" and a1: "at_levels s ((levels s)[lv := xs]) s1"
    by (rule deQ_at [OF Suc.prems(1,2) l])
  have run1: "runnable s1 = runnable s" by (rule at_levels_procs(1) [OF a1])
  show ?case
  proof (cases "runnable s x")
    case True
    then show ?thesis using d a1 run1 by (simp add: l)
  next
    case False
    let ?s2 = "snd (enQ lv x s1)"
    have a2: "at_levels s ((levels s)[lv := xs @ [x]]) ?s2"
      using deQ_enQ_at [OF Suc.prems(1,2) l d] by simp
    have l2: "level ?s2 lv = xs @ [x]" by (rule at_levels_level [OF a2 Suc.prems(1,2)])
    have run2: "runnable ?s2 = runnable s" by (rule at_levels_procs(1) [OF a2])
    have n: "n \<le> length xs" using Suc.prems(3) l by simp
    have IH: "case find_idx (runnable s) (take n xs) of
        None \<Rightarrow> \<exists>s'. pick_fifo lv n ?s2 = (-1, s') \<and>
                at_levels ?s2 ((levels ?s2)[lv := rotate n (xs @ [x])]) s'
      | Some k \<Rightarrow> \<exists>s'. pick_fifo lv n ?s2 = ((xs @ [x]) ! k, s') \<and>
                at_levels ?s2 ((levels ?s2)[lv := drop (Suc k) (xs @ [x]) @ take k (xs @ [x])]) s'"
      using Suc.IH [OF at_levelsD(1) [OF a2] Suc.prems(2), unfolded l2 run2] n by simp
    have step: "pick_fifo lv (Suc n) s = pick_fifo lv n ?s2"
      using False d run1 by (simp add: split: prod.split)
    note tr = at_levels_trans [OF a2]
    have Suc_take: "take (Suc n) (x # xs) = x # take n xs" by simp
    show ?thesis
    proof (cases "find_idx (runnable s) (take n xs)")
      case None
      then show ?thesis using IH tr at_levelsD(2) [OF a2] False step
        by (auto simp: l rotate1_rotate_swap simp del: pick_fifo.simps)
    next
      case (Some k)
      then have "k < n" by (auto simp: find_idx_Some)
      then have "(xs @ [x]) ! k = xs ! k" "drop (Suc k) (xs @ [x]) = drop (Suc k) xs @ [x]"
        "take k (xs @ [x]) = take k xs" using n by (simp_all add: nth_append)
      then show ?thesis using IH tr at_levelsD(2) [OF a2] False step Some
        by (auto simp: l)
    qed
  qed
qed

lemma pick_fifo_full:
  assumes "queues_good s" "lv < 2"
  shows "case find_idx (runnable s) (level s lv) of
      None \<Rightarrow> \<exists>s'. pickProc lv s = (-1, s') \<and> at_levels s (levels s) s'
    | Some k \<Rightarrow> \<exists>s'. pickProc lv s = (level s lv ! k, s') \<and>
                at_levels s ((levels s)[lv := drop (Suc k) (level s lv) @ take k (level s lv)]) s'"
proof (cases "isEmpty lv s")
  case True
  then have "level s lv = []" by (simp add: level_def isEmpty_def fq_elems_Nil)
  then show ?thesis using True assms by (simp add: pickProc_def at_levels_refl)
next
  case False
  have sz: "qsize (mlfq s ! lv) = length (level s lv)" by (simp add: level_def)
  have p: "pickProc lv s = pick_fifo lv (length (level s lv)) s"
    using False assms by (simp add: pickProc_def sz)
  have idf: "(levels s)[lv := level s lv] = levels s"
    using assms by (metis levels_nth list_update_id less_SucI numeral_2_eq_2 numeral_3_eq_3)
  show ?thesis using pick_fifo_at [of s lv "length (level s lv)"] assms
    by (cases "find_idx (runnable s) (level s lv)") (simp_all add: p idf)
qed

section \<open>Level 2\<close>

text \<open>The scan as a function of the list alone.\<close>

fun scan_list :: "(int \<Rightarrow> bool) \<Rightarrow> (int \<Rightarrow> int) \<Rightarrow> nat \<Rightarrow> int \<Rightarrow> nat \<Rightarrow> int list \<Rightarrow> int \<times> nat" where
  "scan_list R pr k prio best [] = (prio, best)"
| "scan_list R pr k prio best (x # xs) =
     (if R x \<and> pr x < prio then scan_list R pr (Suc k) (pr x) k xs
      else scan_list R pr (Suc k) prio best xs)"

text \<open>\<open>k\<close> is the position of the first entry that has the least priority of the runnable ones.\<close>

definition first_least :: "(int \<Rightarrow> bool) \<Rightarrow> (int \<Rightarrow> int) \<Rightarrow> int list \<Rightarrow> nat \<Rightarrow> bool" where
  "first_least R pr xs k \<longleftrightarrow> k < length xs \<and> R (xs ! k) \<and>
     (\<forall>j<length xs. R (xs ! j) \<longrightarrow> pr (xs ! k) \<le> pr (xs ! j)) \<and>
     (\<forall>j<k. R (xs ! j) \<longrightarrow> pr (xs ! k) < pr (xs ! j))"

lemma scan_list_spec:
  "case scan_list R pr k prio best xs of (p, b) \<Rightarrow>
     (if \<exists>x\<in>set xs. R x \<and> pr x < prio
      then k \<le> b \<and> first_least R pr xs (b - k) \<and> p = pr (xs ! (b - k)) \<and> p < prio
      else p = prio \<and> b = best)"
proof (induction xs arbitrary: k prio best)
  case Nil
  then show ?case by simp
next
  case (Cons x xs)
  show ?case
  proof (cases "R x \<and> pr x < prio")
    case True
    obtain p b where pb: "scan_list R pr (Suc k) (pr x) k xs = (p, b)" by force
    note IH = Cons.IH [where k = "Suc k" and prio = "pr x" and best = k, unfolded pb prod.case]
    show ?thesis
    proof (cases "\<exists>y\<in>set xs. R y \<and> pr y < pr x")
      case t: True
      then have h: "Suc k \<le> b" "first_least R pr xs (b - Suc k)" "p = pr (xs ! (b - Suc k))" "p < pr x"
        using IH by auto
      then have bk: "b - k = Suc (b - Suc k)" by simp
      have "first_least R pr (x # xs) (b - k)"
        using h True unfolding first_least_def bk
        by (auto simp: nth_Cons split: nat.splits)
      then show ?thesis using True pb h bk t by auto
    next
      case f: False
      then have h: "p = pr x" "b = k" using IH by auto
      have "\<forall>j<length xs. R (xs ! j) \<longrightarrow> pr x \<le> pr (xs ! j)"
        using f by (meson not_le nth_mem)
      then have "first_least R pr (x # xs) 0"
        using True by (auto simp: first_least_def nth_Cons split: nat.splits)
      then show ?thesis using True pb h by auto
    qed
  next
    case False
    obtain p b where pb: "scan_list R pr (Suc k) prio best xs = (p, b)" by force
    note IH = Cons.IH [where k = "Suc k" and prio = prio and best = best, unfolded pb prod.case]
    show ?thesis
    proof (cases "\<exists>y\<in>set xs. R y \<and> pr y < prio")
      case t: True
      then have h: "Suc k \<le> b" "first_least R pr xs (b - Suc k)" "p = pr (xs ! (b - Suc k))" "p < prio"
        using IH by auto
      then have bk: "b - k = Suc (b - Suc k)" by simp
      have "first_least R pr (x # xs) (b - k)"
        using h False unfolding first_least_def bk
        by (auto simp: nth_Cons split: nat.splits)
      then show ?thesis using False pb h bk t by auto
    next
      case False
      then show ?thesis using \<open>\<not> (R x \<and> pr x < prio)\<close> pb IH by auto
    qed
  qed
qed

abbreviation prio_of :: "kern \<Rightarrow> int \<Rightarrow> int" where
  "prio_of s i \<equiv> m_priority (proc_at s i)"

lemma scan_prio_at:
  assumes "queues_good s" "lv < 3" "n \<le> length (level s lv)"
  shows "\<exists>s'. scan_prio lv n k prio best s =
        (case scan_list (runnable s) (prio_of s) k prio best (take n (level s lv)) of
           (p, b) \<Rightarrow> (p, b, s')) \<and>
     at_levels s ((levels s)[lv := rotate n (level s lv)]) s'"
  using assms
proof (induction n arbitrary: s k prio best)
  case 0
  then show ?case using at_levels_same by simp
next
  case (Suc n)
  then obtain x xs where l: "level s lv = x # xs" by (cases "level s lv") auto
  obtain s1 where d: "deQ lv s = (x, s1)" and a1: "at_levels s ((levels s)[lv := xs]) s1"
    by (rule deQ_at [OF Suc.prems(1,2) l])
  let ?s2 = "snd (enQ lv x s1)"
  have a2: "at_levels s ((levels s)[lv := xs @ [x]]) ?s2"
    using deQ_enQ_at [OF Suc.prems(1,2) l d] by simp
  have l2: "level ?s2 lv = xs @ [x]" by (rule at_levels_level [OF a2 Suc.prems(1,2)])
  have pa: "runnable ?s2 = runnable s" "proc_at ?s2 = proc_at s"
    by (rule at_levels_procs [OF a2])+
  have n: "n \<le> length xs" using Suc.prems(3) l by simp
  have IH: "\<exists>s'. scan_prio lv n k' prio' best' ?s2 =
        (case scan_list (runnable s) (prio_of s) k' prio' best' (take n xs) of (p, b) \<Rightarrow> (p, b, s')) \<and>
        at_levels ?s2 ((levels ?s2)[lv := rotate n (xs @ [x])]) s'" for k' prio' best'
    using Suc.IH [of ?s2 k' prio' best'] a2 Suc.prems(2) n by (simp add: at_levelsD l2 pa)
  have tr: "at_levels s ((levels s)[lv := rotate (Suc n) (x # xs)]) s'"
    if "at_levels ?s2 ((levels ?s2)[lv := rotate n (xs @ [x])]) s'" for s'
    using at_levels_trans [OF a2 that] at_levelsD(2) [OF a2] by (simp add: rotate1_rotate_swap)
  have step: "scan_prio lv (Suc n) k prio best s =
      (if runnable s x \<and> prio_of s x < prio then scan_prio lv n (Suc k) (prio_of s x) k ?s2
       else scan_prio lv n (Suc k) prio best ?s2)"
    using d by (simp add: pa Let_def)
  show ?case
  proof (cases "runnable s x \<and> prio_of s x < prio")
    case True
    then show ?thesis using IH [of "Suc k" "prio_of s x" k] tr
      unfolding step l take_Suc_Cons scan_list.simps by (auto simp del: scan_prio.simps rotate_Suc)
  next
    case False
    then show ?thesis using IH [of "Suc k" prio best] tr
      unfolding step l take_Suc_Cons scan_list.simps by (auto simp del: scan_prio.simps rotate_Suc)
  qed
qed

lemma take_nth_at:
  assumes "queues_good s" "lv < 3" "deQ lv s = (x, s1)" "level s lv = x # xs" "k \<le> length xs"
  shows "\<exists>s'. take_nth lv k (x, s1) = ((x # xs) ! k, s') \<and>
     at_levels s ((levels s)[lv := drop (Suc k) (x # xs) @ take k (x # xs)]) s'"
  using assms
proof (induction k arbitrary: s x s1 xs)
  case 0
  obtain s' where "deQ lv s = (x, s')" "at_levels s ((levels s)[lv := xs]) s'"
    by (rule deQ_at [OF 0(1,2,4)])
  then show ?case using 0(3) by simp
next
  case (Suc k)
  then obtain y ys where xs: "xs = y # ys" by (cases xs) auto
  let ?s2 = "snd (enQ lv x s1)"
  have a2: "at_levels s ((levels s)[lv := xs @ [x]]) ?s2"
    using deQ_enQ_at [OF Suc.prems(1,2,4,3)] by simp
  have l2: "level ?s2 lv = y # (ys @ [x])" using at_levels_level [OF a2 Suc.prems(1,2)] xs by simp
  obtain s3 where d3: "deQ lv ?s2 = (y, s3)"
    by (rule deQ_at [OF at_levelsD(1) [OF a2] Suc.prems(2) l2])
  have kl: "k \<le> length ys" using Suc.prems(5) xs by simp
  obtain s' where r: "take_nth lv k (y, s3) = ((y # ys @ [x]) ! k, s')"
     "at_levels ?s2 ((levels ?s2)[lv := drop (Suc k) (y # ys @ [x]) @ take k (y # ys @ [x])]) s'"
    using Suc.IH [OF at_levelsD(1) [OF a2] Suc.prems(2) d3 l2] kl by auto
  have e: "(y # ys @ [x]) ! k = (x # xs) ! Suc k"
    "drop (Suc k) (y # ys @ [x]) @ take k (y # ys @ [x]) = drop (Suc (Suc k)) (x # xs) @ take (Suc k) (x # xs)"
    using kl xs by (cases k; simp add: nth_append)+
  have "at_levels s ((levels s)[lv := drop (Suc (Suc k)) (x # xs) @ take (Suc k) (x # xs)]) s'"
    using at_levels_trans [OF a2 r(2)] at_levelsD(2) [OF a2] e(2) by simp
  then show ?case using r(1) d3 e(1) by simp
qed

lemma pick_prio_none:
  assumes "queues_good s" "\<forall>i\<in>set (level s 2). runnable s i \<longrightarrow> USELESS \<le> prio_of s i"
  shows "\<exists>s'. pickProc 2 s = (-1, s') \<and> at_levels s (levels s) s'"
proof (cases "isEmpty 2 s")
  case True
  then show ?thesis using assms by (simp add: pickProc_def at_levels_refl)
next
  case False
  have sz: "qsize (mlfq s ! 2) = length (level s 2)" by (simp add: level_def)
  obtain s' where r: "scan_prio 2 (length (level s 2)) 0 USELESS 0 s =
        (case scan_list (runnable s) (prio_of s) 0 USELESS 0 (level s 2) of (p, b) \<Rightarrow> (p, b, s'))"
     "at_levels s ((levels s)[2 := level s 2]) s'"
    using scan_prio_at [OF assms(1), of 2 "length (level s 2)" 0 USELESS 0] by auto
  have "scan_list (runnable s) (prio_of s) 0 USELESS 0 (level s 2) = (USELESS, 0)"
    using scan_list_spec [where R = "runnable s" and pr = "prio_of s" and k = 0 and prio = USELESS and best = 0 and xs = "level s 2"] assms(2)
    by (auto split: if_splits prod.splits)
  then show ?thesis using False r levels_nth [OF assms(1), of 2]
      list_update_id [of "levels s" 2] by (auto simp: pickProc_def sz)
qed

lemma pick_prio_some:
  assumes "queues_good s" "i0 \<in> set (level s 2)" "runnable s i0" "prio_of s i0 < USELESS"
  shows "\<exists>k s'. first_least (runnable s) (prio_of s) (level s 2) k \<and>
     pickProc 2 s = (level s 2 ! k, s') \<and>
     at_levels s ((levels s)[2 := drop (Suc k) (level s 2) @ take k (level s 2)]) s'"
proof -
  let ?xs = "level s 2"
  have ne: "\<not> isEmpty 2 s" using assms(2)
    by (auto simp: isEmpty_def level_def fq_elems_Nil [symmetric])
  have sz: "qsize (mlfq s ! 2) = length ?xs" by (simp add: level_def)
  obtain p k where pk: "scan_list (runnable s) (prio_of s) 0 USELESS 0 ?xs = (p, k)" by force
  have h: "first_least (runnable s) (prio_of s) ?xs k" "p < USELESS"
    using scan_list_spec [where R = "runnable s" and pr = "prio_of s" and k = 0 and prio = USELESS and best = 0 and xs = ?xs] assms(2-4) pk
    by (auto split: if_splits)
  obtain s1 where r: "scan_prio 2 (length ?xs) 0 USELESS 0 s = (p, k, s1)"
     "at_levels s ((levels s)[2 := ?xs]) s1"
    using scan_prio_at [OF assms(1), of 2 "length ?xs" 0 USELESS 0] pk by auto
  have a1: "at_levels s (levels s) s1"
    using r(2) levels_nth [OF assms(1), of 2] list_update_id [of "levels s" 2] by simp
  obtain x xs where xs: "?xs = x # xs" using assms(2) by (cases ?xs) auto
  have l1: "level s1 2 = x # xs"
    using at_levelsD(1,2) [OF a1] levels_nth [of s1 2] levels_nth [of s 2] assms(1) xs by simp
  obtain s2 where d: "deQ 2 s1 = (x, s2)"
    by (rule deQ_at [OF at_levelsD(1) [OF a1] _ l1]) simp
  have "k \<le> length xs" using h(1) xs by (simp add: first_least_def)
  then obtain s' where t: "take_nth 2 k (x, s2) = (?xs ! k, s')"
     "at_levels s1 ((levels s1)[2 := drop (Suc k) ?xs @ take k ?xs]) s'"
    using take_nth_at [OF at_levelsD(1) [OF a1] _ d l1] xs by auto
  have "at_levels s ((levels s)[2 := drop (Suc k) ?xs @ take k ?xs]) s'"
    using at_levels_trans [OF a1 t(2)] at_levelsD(2) [OF a1] by simp
  moreover have "pickProc 2 s = (?xs ! k, s')"
    using ne r(1) h(2) d t(1) by (simp add: pickProc_def sz)
  ultimately show ?thesis using h(1) by blast
qed

end
