(* ===== verification/Mlfq_Boost.thy ===== *)
theory Mlfq_Boost
  imports Mlfq_Pick
begin

text \<open>
  What \<open>priorityBoost\<close> and \<open>setPriority\<close> of Project01-MLFQ/proc.c do to the queues and
  the process table: boosting concatenates the levels into level 0 (the dictator of a
  locked scheduler first) and resets every queued process; setting a priority changes that
  one field, but leaves the searched queue rotated.
\<close>

section \<open>Boosting\<close>

definition boosted :: "mproc \<Rightarrow> mproc" where
  "boosted p = p\<lparr>m_qlv := 0, m_priority := 3, m_tq := 0\<rparr>"

text \<open>\<open>s'\<close> is \<open>s\<close> with the queues changed to \<open>L\<close> and the processes of \<open>A\<close> boosted.\<close>

definition boost_rel :: "kern \<Rightarrow> int set \<Rightarrow> int list list \<Rightarrow> kern \<Rightarrow> bool" where
  "boost_rel s A L s' \<longleftrightarrow> s'\<lparr>mlfq := [], procs := []\<rparr> = s\<lparr>mlfq := [], procs := []\<rparr> \<and>
     queues_good s' \<and> levels s' = L \<and>
     length (procs s') = length (procs s) \<and>
     (\<forall>j<length (procs s). procs s' ! j =
        (if int j \<in> A then boosted (procs s ! j) else procs s ! j))"

lemma boosted_idem [simp]: "boosted (boosted p) = boosted p"
  by (simp add: boosted_def)

lemma boost_rel_trans:
  "boost_rel s A L s1 \<Longrightarrow> boost_rel s1 B L' s2 \<Longrightarrow> boost_rel s (A \<union> B) L' s2"
  by (auto simp: boost_rel_def)

lemma at_levels_boost:
  assumes "at_levels s L s'"
  shows "boost_rel s {} L s'"
proof -
  have "s'\<lparr>mlfq := []\<rparr> = s\<lparr>mlfq := []\<rparr>" using assms by (simp add: at_levels_def)
  from arg_cong [OF this, of "\<lambda>t. t\<lparr>procs := []\<rparr>"] show ?thesis
    using at_levelsD(1-3) [OF assms] by (simp add: boost_rel_def)
qed

lemma boost_relD:
  assumes "boost_rel s A L s'"
  shows "queues_good s'" "levels s' = L" "is_dictated s' = is_dictated s"
    "scheduler_dictator s' = scheduler_dictator s" "length (procs s') = length (procs s)"
    "running s' = running s" "global_ticks s' = global_ticks s" "initproc s' = initproc s"
proof -
  show "queues_good s'" "levels s' = L" "length (procs s') = length (procs s)"
    using assms by (auto simp: boost_rel_def)
  have e: "s'\<lparr>mlfq := [], procs := []\<rparr> = s\<lparr>mlfq := [], procs := []\<rparr>"
    using assms by (simp add: boost_rel_def)
  show "is_dictated s' = is_dictated s" "scheduler_dictator s' = scheduler_dictator s"
    "running s' = running s" "global_ticks s' = global_ticks s" "initproc s' = initproc s"
    using arg_cong [OF e, of is_dictated] arg_cong [OF e, of scheduler_dictator]
      arg_cong [OF e, of running] arg_cong [OF e, of global_ticks] arg_cong [OF e, of initproc]
    by simp_all
qed

lemma boost_one:
  assumes "queues_good s" "0 \<le> i"
  shows "boost_rel s {i} (levels s) (upd_proc i (\<lambda>p. p\<lparr>m_qlv := 0, m_priority := 3, m_tq := 0\<rparr>) s)"
  using assms by (auto simp: boost_rel_def upd_proc_def queues_good_def levels_def boosted_def nth_list_update)

lemma level_upd_proc [simp]: "level (upd_proc i f s) lv = level s lv"
  by (simp add: level_def upd_proc_def)

lemma queues_good_upd_proc [simp]: "queues_good (upd_proc i f s) = queues_good s"
  by (simp add: queues_good_def upd_proc_def)

lemma levels_upd_proc [simp]: "levels (upd_proc i f s) = levels s"
  by (simp add: levels_def upd_proc_def)

text \<open>One turn of the boosting loop.\<close>

lemma boost_step:
  assumes "queues_good s" "lv < 3" "level s lv = x # xs" "0 \<le> x"
    and "lv = 0 \<or> length (level s 0) < 64"
  shows "\<exists>s'. boost_level lv (Suc n) s = boost_level lv n s' \<and>
    boost_rel s {x} ((levels s)[lv := xs, 0 := (if lv = 0 then xs else level s 0) @ [x]]) s'"
proof -
  obtain s1 where d: "deQ lv s = (x, s1)" and a1: "at_levels s ((levels s)[lv := xs]) s1"
    by (rule deQ_at [OF assms(1-3)])
  note g1 = at_levelsD(1,2) [OF a1]
  define s2 where "s2 = upd_proc x (\<lambda>p. p\<lparr>m_qlv := 0, m_priority := 3, m_tq := 0\<rparr>) s1"
  have b2: "boost_rel s {x} ((levels s)[lv := xs]) s2"
    using boost_rel_trans [OF at_levels_boost [OF a1] boost_one [OF g1(1) assms(4)]]
    by (simp add: s2_def g1(2))
  have l0: "level s1 0 = (if lv = 0 then xs else level s 0)"
    using levels_nth [OF g1(1), of 0] g1(2) levels_nth [OF assms(1), of 0] queues_goodD [OF assms(1,2)]
    by (auto simp: nth_list_update)
  have "length (level s2 0) < 64"
    using assms(5) level_cap [OF assms(1,2)] assms(3) by (auto simp: s2_def l0)
  then have a3: "at_levels s2 ((levels s2)[0 := level s2 0 @ [x]]) (snd (enQ 0 x s2))"
    using enQ_at [of s2 0 x] g1(1) by (simp add: s2_def)
  have "boost_rel s {x} ((levels s)[lv := xs, 0 := (if lv = 0 then xs else level s 0) @ [x]])
          (snd (enQ 0 x s2))"
    using boost_rel_trans [OF b2 at_levels_boost [OF a3]] boost_relD(2) [OF b2]
    by (simp add: s2_def l0)
  moreover have "boost_level lv (Suc n) s = boost_level lv n (snd (enQ 0 x s2))"
    using d by (simp add: s2_def)
  ultimately show ?thesis by blast
qed

lemma boost_level_0:
  assumes "queues_good s" "n \<le> length (level s 0)" "\<forall>i\<in>set (level s 0). 0 \<le> i"
  shows "boost_rel s (set (take n (level s 0))) ((levels s)[0 := rotate n (level s 0)]) (boost_level 0 n s)"
  using assms
proof (induction n arbitrary: s)
  case 0
  then show ?case using at_levels_boost [OF at_levels_same [OF 0(1), of 0]] by simp
next
  case (Suc n)
  then obtain x xs where l: "level s 0 = x # xs" by (cases "level s 0") auto
  obtain s' where s': "boost_level 0 (Suc n) s = boost_level 0 n s'"
     "boost_rel s {x} ((levels s)[0 := xs, 0 := xs @ [x]]) s'"
    using boost_step [OF Suc.prems(1) _ l, of n] Suc.prems(3) l by auto
  note g = boost_relD(1,2) [OF s'(2)]
  have l': "level s' 0 = xs @ [x]"
    using levels_nth [OF g(1), of 0] g(2) queues_goodD [OF Suc.prems(1), of 0] by simp
  have n: "n \<le> length xs" using Suc.prems(2) l by simp
  have "boost_rel s' (set (take n xs)) ((levels s')[0 := rotate n (xs @ [x])]) (boost_level 0 n s')"
    using Suc.IH [OF g(1)] Suc.prems(3) n by (simp add: l' l)
  from boost_rel_trans [OF s'(2) this] show ?case
    by (simp add: s'(1) l g(2) rotate1_rotate_swap del: boost_level.simps)
qed

lemma boost_level_up:
  assumes "queues_good s" "lv \<in> {1, 2}" "level s lv = xs" "\<forall>i\<in>set xs. 0 \<le> i"
    and "length (level s 0) + length xs \<le> 64"
  shows "boost_rel s (set xs) ((levels s)[lv := [], 0 := level s 0 @ xs]) (boost_level lv (length xs) s)"
  using assms
proof (induction xs arbitrary: s)
  case Nil
  have "levels s ! lv = []" "levels s ! 0 = level s 0"
    using Nil.prems(1-3) levels_nth [OF Nil.prems(1), of 0] levels_nth [OF Nil.prems(1), of lv] by auto
  then have "(levels s)[lv := [], 0 := level s 0] = levels s"
    by (metis list_update_id)
  then show ?case using at_levels_boost [OF at_levels_refl [OF Nil.prems(1)]] by simp
next
  case (Cons x xs)
  have lv: "lv < 3" "lv \<noteq> 0" using Cons.prems(2) by auto
  obtain s' where s': "boost_level lv (Suc (length xs)) s = boost_level lv (length xs) s'"
     "boost_rel s {x} ((levels s)[lv := xs, 0 := level s 0 @ [x]]) s'"
    using boost_step [OF Cons.prems(1) lv(1) Cons.prems(3), of "length xs"] Cons.prems(4,5) lv(2) by auto
  note g = boost_relD(1,2) [OF s'(2)]
  have len: "length (levels s) = 3" using queues_goodD [OF Cons.prems(1), of 0] by simp
  have l': "level s' lv = xs" "level s' 0 = level s 0 @ [x]"
    using levels_nth [OF g(1), of 0] levels_nth [OF g(1), of lv] g(2) lv len
    by (simp_all add: nth_list_update)
  have r: "boost_rel s' (set xs) ((levels s')[lv := [], 0 := level s' 0 @ xs])
      (boost_level lv (length xs) s')"
    using Cons.IH [OF g(1) Cons.prems(2) l'(1)] Cons.prems(4,5) by (simp add: l'(2))
  have "(levels s')[lv := [], 0 := level s' 0 @ xs] = (levels s)[lv := [], 0 := level s 0 @ x # xs]"
    using lv len by (simp add: g(2) l'(2) list_update_swap)
  with boost_rel_trans [OF s'(2) r] show ?case
    by (simp add: s'(1) del: boost_level.simps)
qed

definition queued :: "kern \<Rightarrow> int list" where
  "queued s = level s 0 @ level s 1 @ level s 2"

lemma levels_three: "queues_good s \<Longrightarrow> levels s = [level s 0, level s 1, level s 2]"
  using queues_goodD [of s 0]
  by (auto simp: levels_def level_def numeral_3_eq_3 length_Suc_conv numeral_2_eq_2)

lemma boost_all:
  assumes "queues_good s" "\<forall>i\<in>set (queued s). 0 \<le> i" "length (queued s) \<le> 64" "\<not> is_dictated s"
  shows "boost_rel s (set (queued s)) [queued s, [], []] (priorityBoost s)"
proof -
  let ?a = "level s 0" and ?b = "level s 1" and ?c = "level s 2"
  have L: "levels s = [?a, ?b, ?c]" by (rule levels_three [OF assms(1)])
  define s2 where "s2 = boost_level 0 (length ?a) s"
  define s3 where "s3 = boost_level 1 (length ?b) s2"
  define s4 where "s4 = boost_level 2 (length ?c) s3"
  have r2: "boost_rel s (set ?a) [?a, ?b, ?c] s2"
    using boost_level_0 [OF assms(1), of "length ?a"] assms(2) by (simp add: s2_def L queued_def)
  note g2 = boost_relD(1,2) [OF r2]
  have l2: "level s2 0 = ?a" "level s2 1 = ?b" "level s2 2 = ?c"
    using levels_three [OF g2(1)] g2(2) by simp_all
  have r3: "boost_rel s2 (set ?b) [?a @ ?b, [], ?c] s3"
    using boost_level_up [OF g2(1) _ l2(2)] assms(2,3) by (simp add: s3_def g2(2) l2 queued_def)
  note g3 = boost_relD(1,2) [OF r3]
  have l3: "level s3 0 = ?a @ ?b" "level s3 1 = []" "level s3 2 = ?c"
    using levels_three [OF g3(1)] g3(2) by simp_all
  have r4: "boost_rel s3 (set ?c) [?a @ ?b @ ?c, [], []] s4"
    using boost_level_up [OF g3(1) _ l3(3)] assms(2,3) by (simp add: s4_def g3(2) l3 queued_def)
  have sz: "qsize (mlfq s ! 0) = length ?a" "qsize (mlfq s2 ! 1) = length ?b" "qsize (mlfq s3 ! 2) = length ?c"
    using l2 l3 by (simp_all add: level_def flip: length_fq_elems)
  have "priorityBoost s = s4"
    by (simp only: priorityBoost_def Let_def assms(4) if_False sz(1) s2_def [symmetric]
        sz(2) s3_def [symmetric] sz(3) s4_def [symmetric])
  moreover have "boost_rel s (set ?a \<union> set ?b \<union> set ?c) [?a @ ?b @ ?c, [], []] s4"
    by (rule boost_rel_trans [OF boost_rel_trans [OF r2 r3] r4])
  ultimately show ?thesis by (simp add: queued_def Un_assoc)
qed

section \<open>Moving a process to the front of level 0\<close>

lemma to_front_at:
  assumes "queues_good s" "length (level s 0) < 64"
  shows "at_levels s ((levels s)[0 := i # level s 0]) (to_front_of_L0 i s)"
proof -
  let ?s1 = "snd (enQ 0 i s)"
  have a1: "at_levels s ((levels s)[0 := level s 0 @ [i]]) ?s1"
    using enQ_at [OF assms(1) _ assms(2)] by simp
  note g = at_levelsD(1,2) [OF a1]
  have l: "level ?s1 0 = level s 0 @ [i]" using at_levels_level [OF a1 assms(1)] by simp
  have "at_levels ?s1 ((levels ?s1)[0 := rotate (length (level s 0)) (level s 0 @ [i])])
          (requeues 0 (length (level s 0)) ?s1)"
    using requeues_at [OF g(1), of 0 "length (level s 0)"] l by simp
  moreover have "to_front_of_L0 i s = requeues 0 (length (level s 0)) ?s1"
    by (simp add: to_front_of_L0_def level_def)
  ultimately show ?thesis
    using at_levels_trans [OF a1] by (simp add: rotate_snoc_front g(2))
qed

lemma unlock_cong:
  "t\<lparr>mlfq := [], procs := []\<rparr> = s\<lparr>mlfq := [], procs := []\<rparr> \<Longrightarrow>
   t\<lparr>is_dictated := b, scheduler_dictator := d, mlfq := [], procs := []\<rparr> =
   s\<lparr>is_dictated := b, scheduler_dictator := d, mlfq := [], procs := []\<rparr>"
  by (cases t; cases s) simp

lemma boost_dictated:
  assumes "queues_good s" "is_dictated s" "\<forall>i\<in>set (queued s). 0 \<le> i" "0 \<le> scheduler_dictator s"
    and "length (queued s) < 64"
  defines "d \<equiv> scheduler_dictator s"
  shows "boost_rel (s\<lparr>is_dictated := False, scheduler_dictator := -1\<rparr>) (set (d # queued s))
           [d # queued s, [], []] (priorityBoost s)"
proof -
  let ?t = "to_front_of_L0 d s"
  let ?u = "?t\<lparr>is_dictated := False, scheduler_dictator := -1\<rparr>"
  let ?r = "s\<lparr>is_dictated := False, scheduler_dictator := -1\<rparr>"
  have a: "at_levels s ((levels s)[0 := d # level s 0]) ?t"
    using to_front_at [OF assms(1)] assms(5) by (simp add: queued_def)
  note g = at_levelsD(1,2) [OF a]
  have l: "level ?t 0 = d # level s 0" "level ?t 1 = level s 1" "level ?t 2 = level s 2"
    using levels_three [OF g(1)] g(2) levels_three [OF assms(1)] by simp_all
  have q: "queued ?u = d # queued s" using l by (simp add: queued_def level_def)
  have gu: "queues_good ?u" using g(1) by (simp add: queues_good_def)
  have "boost_rel ?u (set (d # queued s)) [d # queued s, [], []] (priorityBoost ?u)"
    using boost_all [OF gu] assms(3-5) q by (simp add: d_def)
  moreover have "priorityBoost s = priorityBoost ?u"
    using assms(2) by (simp add: priorityBoost_def d_def)
  moreover have "boost_rel ?r {} (levels ?t) ?u"
  proof -
    have e: "?t\<lparr>mlfq := [], procs := []\<rparr> = s\<lparr>mlfq := [], procs := []\<rparr>"
      using at_levels_boost [OF a] by (simp add: boost_rel_def)
    show ?thesis
      using unlock_cong [OF e] g(1) at_levelsD(3) [OF a]
      by (simp add: boost_rel_def queues_good_def levels_def)
  qed
  ultimately show ?thesis using boost_rel_trans [of ?r "{}" "levels ?t" ?u] by simp
qed

end
