(* ===== verification/Mlfq_Proc.thy ===== *)
theory Mlfq_Proc
  imports Mlfq_Boost
begin

text \<open>
  Processes of Project01-MLFQ/proc.c: creation, exit, waiting, sleeping, killing, and the
  system calls that lock and unlock the scheduler. \<open>cur\<close> is \<open>myproc()\<close> as its slot in the
  process table. Calls into other files appear by their effect on this state: a page of
  \<open>kalloc\<close> or a page directory of \<open>copyuvm\<close> and \<open>setupkvm\<close> is an argument (\<open>None\<close> when
  the call failed), \<open>filedup\<close>, \<open>fileclose\<close>, \<open>idup\<close> and \<open>iput\<close> count references.
  Everything runs under \<open>ptable.lock\<close>, so each definition is one atomic step.
\<close>

section \<open>Creation\<close>

definition allocproc :: "nat option \<Rightarrow> kern \<Rightarrow> nat option \<times> kern" where
  "allocproc kst s =
     (case find_idx (\<lambda>p. m_state p = UNUSED) (procs s) of
        None \<Rightarrow> (None, s)
      | Some i \<Rightarrow>
          let s1 = (upd_proc (int i) (\<lambda>p. p\<lparr>m_state := EMBRYO, m_pid := nextpid s\<rparr>) s)
                     \<lparr>nextpid := nextpid s + 1\<rparr>
          in (case kst of
                None \<Rightarrow> (None, upd_proc (int i) (\<lambda>p. p\<lparr>m_kstack := 0, m_state := UNUSED\<rparr>) s1)
              | Some k \<Rightarrow> (Some i, upd_proc (int i) (\<lambda>p. p\<lparr>m_kstack := k, m_context := Forkret\<rparr>) s1)))"

definition start_in_L0 :: "nat \<Rightarrow> kern \<Rightarrow> kern" where
  "start_in_L0 i s = snd (enQ 0 (int i)
     (upd_proc (int i) (\<lambda>p. p\<lparr>m_state := RUNNABLE, m_priority := 3, m_qlv := 0, m_tq := 0\<rparr>) s))"

definition userinit :: "nat option \<Rightarrow> nat option \<Rightarrow> nat \<Rightarrow> kern \<Rightarrow> kern res" where
  "userinit kst pgd root s =
     (case allocproc kst s of
        (None, s1) \<Rightarrow> Inl (Overrun ''userinit: null proc'')
      | (Some i, s1) \<Rightarrow>
          (case pgd of
             None \<Rightarrow> Inl (Panic ''userinit: out of memory?'')
           | Some d \<Rightarrow>
               Inr (start_in_L0 i
                 ((upd_proc (int i) (\<lambda>p. p\<lparr>m_pgdir := d, m_sz := PGSIZE,
                      m_tf := tf_zero\<lparr>tf_cs := 27, tf_ds := 35, tf_es := 35, tf_ss := 35,
                                       tf_eflags := 512, tf_esp := PGSIZE, tf_eip := 0\<rparr>,
                      m_name := safestr ''initcode'' 16, m_cwd := Some root\<rparr>) s1)
                    \<lparr>initproc := i\<rparr>))))"

fun dup_files :: "nat option list \<Rightarrow> kern \<Rightarrow> kern res" where
  "dup_files [] s = Inr s"
| "dup_files (None # fs) s = dup_files fs s"
| "dup_files (Some f # fs) s =
     (if file_ref s f < 1 then Inl (Panic ''filedup'')
      else dup_files fs (s\<lparr>file_ref := (file_ref s)(f := file_ref s f + 1)\<rparr>))"

definition idup :: "nat \<Rightarrow> kern \<Rightarrow> kern" where
  "idup ip s = s\<lparr>inode_ref := (inode_ref s)(ip := inode_ref s ip + 1)\<rparr>"

definition iput :: "nat \<Rightarrow> kern \<Rightarrow> kern" where
  "iput ip s = s\<lparr>inode_ref := (inode_ref s)(ip := inode_ref s ip - 1)\<rparr>"

text \<open>The loop over \<open>ofile\<close>: the child gets the open ones, and keeps its own slot otherwise.\<close>

definition inherit :: "nat option list \<Rightarrow> nat option list \<Rightarrow> nat option list" where
  "inherit parent child = map2 (\<lambda>f g. if f = None then g else f) parent child"

definition fork :: "nat option \<Rightarrow> nat option \<Rightarrow> nat \<Rightarrow> kern \<Rightarrow> (int \<times> kern) res" where
  "fork kst pgd cur s =
     (case allocproc kst s of
        (None, s1) \<Rightarrow> Inr (-1, s1)
      | (Some np, s1) \<Rightarrow>
          (case pgd of
             None \<Rightarrow> Inr (-1, upd_proc (int np) (\<lambda>p. p\<lparr>m_kstack := 0, m_state := UNUSED\<rparr>) s1)
           | Some d \<Rightarrow>
               let par = procs s1 ! cur in
               bindR (dup_files (m_ofile par) s1) (\<lambda>s2.
                 case m_cwd par of
                   None \<Rightarrow> Inl (Overrun ''idup: null inode'')
                 | Some ip \<Rightarrow>
                     let s3 = upd_proc (int np) (\<lambda>p. p\<lparr>m_pgdir := d, m_sz := m_sz par,
                                m_parent := Some cur, m_tf := (m_tf par)\<lparr>tf_eax := 0\<rparr>,
                                m_ofile := inherit (m_ofile par) (m_ofile p), m_cwd := Some ip,
                                m_name := safestr (m_name par) 16\<rparr>) (idup ip s2)
                     in Inr (m_pid (procs s3 ! np), start_in_L0 np s3))))"

section \<open>Sleep and wakeup\<close>

definition wakeup1 :: "chan option \<Rightarrow> kern \<Rightarrow> kern" where
  "wakeup1 ch s = s\<lparr>procs := map (\<lambda>p. if m_state p = SLEEPING \<and> m_chan p = ch
                                        then p\<lparr>m_state := RUNNABLE\<rparr> else p) (procs s)\<rparr>"

definition wakeup :: "chan \<Rightarrow> kern \<Rightarrow> kern" where
  "wakeup ch s = wakeup1 (Some ch) s"

text \<open>\<open>sched\<close> refuses a process still marked running.\<close>

definition sched :: "nat \<Rightarrow> kern \<Rightarrow> kern res" where
  "sched cur s = guardR (m_state (procs s ! cur) \<noteq> RUNNING) (Panic ''sched running'') (Inr s)"

definition yield :: "nat \<Rightarrow> kern \<Rightarrow> kern res" where
  "yield cur s = sched cur (upd_proc (int cur) (\<lambda>p. p\<lparr>m_state := RUNNABLE\<rparr>) s)"

text \<open>\<open>sleep\<close> up to the switch to the scheduler, and what is left when it comes back.\<close>

definition sleep_begin :: "chan \<Rightarrow> nat \<Rightarrow> kern \<Rightarrow> kern res" where
  "sleep_begin ch cur s =
     sched cur (upd_proc (int cur) (\<lambda>p. p\<lparr>m_chan := Some ch, m_state := SLEEPING\<rparr>) s)"

definition sleep_end :: "nat \<Rightarrow> kern \<Rightarrow> kern" where
  "sleep_end cur s = upd_proc (int cur) (\<lambda>p. p\<lparr>m_chan := None\<rparr>) s"

definition kill :: "int \<Rightarrow> kern \<Rightarrow> int \<times> kern" where
  "kill pid s =
     (case find_idx (\<lambda>p. m_pid p = pid) (procs s) of
        None \<Rightarrow> (-1, s)
      | Some i \<Rightarrow> (0, upd_proc (int i) (\<lambda>p. p\<lparr>m_killed := True,
          m_state := (if m_state p = SLEEPING then RUNNABLE else m_state p)\<rparr>) s))"

section \<open>Exit and wait\<close>

fun close_files :: "nat option list \<Rightarrow> kern \<Rightarrow> kern res" where
  "close_files [] s = Inr s"
| "close_files (None # fs) s = close_files fs s"
| "close_files (Some f # fs) s =
     (if file_ref s f < 1 then Inl (Panic ''fileclose'')
      else close_files fs (s\<lparr>file_ref := (file_ref s)(f := file_ref s f - 1)\<rparr>))"

fun reparent :: "nat \<Rightarrow> nat list \<Rightarrow> kern \<Rightarrow> kern" where
  "reparent cur [] s = s"
| "reparent cur (i # is) s =
     (if m_parent (procs s ! i) = Some cur
      then let s1 = upd_proc (int i) (\<lambda>p. p\<lparr>m_parent := Some (initproc s)\<rparr>) s
           in reparent cur is (if m_state (procs s1 ! i) = ZOMBIE
                               then wakeup1 (Some (ChSlot (initproc s))) s1 else s1)
      else reparent cur is s)"

definition exit :: "nat \<Rightarrow> kern \<Rightarrow> kern res" where
  "exit cur s =
     guardR (cur \<noteq> initproc s) (Panic ''init exiting'')
       (bindR (close_files (m_ofile (procs s ! cur)) s) (\<lambda>s1.
          case m_cwd (procs s1 ! cur) of
            None \<Rightarrow> Inl (Overrun ''iput: null inode'')
          | Some ip \<Rightarrow>
              let s2 = upd_proc (int cur) (\<lambda>p. p\<lparr>m_ofile := map (\<lambda>_. None) (m_ofile p), m_cwd := None\<rparr>) (iput ip s1);
                  s3 = wakeup1 (map_option ChSlot (m_parent (procs s2 ! cur))) s2;
                  s4 = reparent cur [0..<length (procs s3)] s3;
                  s5 = upd_proc (int cur) (\<lambda>p. p\<lparr>m_state := ZOMBIE\<rparr>) s4;
                  s6 = (if scheduler_dictator s5 = int cur
                        then s5\<lparr>is_dictated := False, scheduler_dictator := -1\<rparr> else s5)
              in sched cur s6))"

datatype waited = Reaped int | NoChild | Asleep

definition wait :: "nat \<Rightarrow> kern \<Rightarrow> (waited \<times> kern) res" where
  "wait cur s =
     (case find_idx (\<lambda>p. m_parent p = Some cur \<and> m_state p = ZOMBIE) (procs s) of
        Some i \<Rightarrow>
          Inr (Reaped (m_pid (procs s ! i)),
               upd_proc (int i) (\<lambda>p. p\<lparr>m_kstack := 0, m_pid := 0, m_parent := None,
                 m_name := [], m_killed := False, m_state := UNUSED\<rparr>) s)
      | None \<Rightarrow>
          if find_idx (\<lambda>p. m_parent p = Some cur) (procs s) = None \<or> m_killed (procs s ! cur)
          then Inr (NoChild, s)
          else bindR (sleep_begin (ChSlot cur) cur s) (\<lambda>s1. Inr (Asleep, s1)))"

section \<open>Memory size\<close>

text \<open>\<open>allocuvm\<close> and \<open>deallocuvm\<close> are arguments: the new size from the old and the wanted.\<close>

definition growproc :: "(nat \<Rightarrow> nat \<Rightarrow> nat) \<Rightarrow> (nat \<Rightarrow> nat \<Rightarrow> nat) \<Rightarrow> int \<Rightarrow> nat \<Rightarrow> kern \<Rightarrow> (int \<times> kern) res" where
  "growproc alloc dealloc n cur s =
     (let sz = m_sz (procs s ! cur); want = wrap32 (sz + uint_of_int n);
          sz' = (if n > 0 then alloc sz want else if n < 0 then dealloc sz want else sz)
      in if n \<noteq> 0 \<and> sz' = 0 then Inr (-1, s)
         else let s1 = upd_proc (int cur) (\<lambda>p. p\<lparr>m_sz := sz'\<rparr>) s
              in bindR (switchuvm (procs s1 ! cur)) (\<lambda>_. Inr (0, s1)))"

section \<open>Level, lock and unlock\<close>

definition PASSWORD :: int where "PASSWORD = 2018008240"

definition getLevel :: "nat \<Rightarrow> kern \<Rightarrow> int" where
  "getLevel cur s = m_qlv (procs s ! cur)"

datatype call_end = Returned | Exited

definition report :: "nat \<Rightarrow> kern \<Rightarrow> kern" where
  "report cur s = cprintf (Triple (m_pid (procs s ! cur)) (m_tq (procs s ! cur)) (m_qlv (procs s ! cur))) s"

definition schedulerLock :: "int \<Rightarrow> nat \<Rightarrow> kern \<Rightarrow> (call_end \<times> kern) res" where
  "schedulerLock password cur s =
     (if is_dictated s
      then bindR (exit cur ((report cur s)\<lparr>scheduler_dictator := -1, is_dictated := False\<rparr>))
             (\<lambda>s1. Inr (Exited, s1))
      else if password \<noteq> PASSWORD
      then bindR (exit cur (report cur s)) (\<lambda>s1. Inr (Exited, s1))
      else Inr (Returned, upd_proc (int cur) (\<lambda>p. p\<lparr>m_tq := 0, m_qlv := -1\<rparr>)
             (s\<lparr>global_ticks := 0, scheduler_dictator := int cur, is_dictated := True\<rparr>)))"

definition schedulerUnlock :: "int \<Rightarrow> nat \<Rightarrow> kern \<Rightarrow> (call_end \<times> kern) res" where
  "schedulerUnlock password cur s =
     (if password \<noteq> PASSWORD
      then bindR (exit cur (report cur s)) (\<lambda>s1. Inr (Exited, s1))
      else if \<not> is_dictated s \<or> int cur \<noteq> scheduler_dictator s
      then Inr (Returned, s)
      else let s1 = upd_proc (int cur) (\<lambda>p. p\<lparr>m_priority := 3, m_qlv := 0, m_tq := 0\<rparr>) s
           in Inr (Returned, (to_front_of_L0 (int cur) s1)
                    \<lparr>scheduler_dictator := -1, is_dictated := False\<rparr>))"

section \<open>The timer interrupt\<close>

text \<open>The \<open>IRQ_TIMER\<close> case of \<open>trap\<close> (Project01-MLFQ/trap.c): only CPU 0 counts.\<close>

definition timer_irq :: "nat \<Rightarrow> kern \<Rightarrow> kern" where
  "timer_irq c s =
     (if c = 0
      then wakeup ChTicks (s\<lparr>ticks := wrap32 (ticks s + 1), global_ticks := wrap32 (global_ticks s + 1)\<rparr>)
      else s)"

end
