(* ===== verification/Mlfq_Inv.thy ===== *)
theory Mlfq_Inv
  imports Mlfq_Proc
begin

text \<open>
  The scheduler of Project01-MLFQ as a state machine on one CPU, and the invariant that no
  process is lost and none is queued twice: every sleeping or runnable process is in
  exactly one queue, unless it is the one on the CPU or the dictator of a locked scheduler.
  \<open>kstep\<close> has one rule per atomic step of the code; the invariant is stated on a small
  view of the state (which processes are queued, their states, the CPU and the dictator).
\<close>

section \<open>The view\<close>

definition queue_mset :: "kern \<Rightarrow> int multiset" where
  "queue_mset s = mset (concat (levels s))"

definition states :: "kern \<Rightarrow> procstate list" where
  "states s = map m_state (procs s)"

definition on_cpu :: "kern \<Rightarrow> nat option" where
  "on_cpu s = map_option fst (running s ! 0)"

definition dict :: "kern \<Rightarrow> nat option" where
  "dict s = (if is_dictated s then Some (nat (scheduler_dictator s)) else None)"

definition waiting :: "procstate \<Rightarrow> bool" where
  "waiting st \<longleftrightarrow> st = SLEEPING \<or> st = RUNNABLE"

text \<open>What holds of one slot: \<open>n\<close> is how often it is queued, \<open>r\<close> whether it is on the CPU,
  \<open>d\<close> whether it is the dictator.\<close>

definition slot_ok :: "nat \<Rightarrow> procstate \<Rightarrow> bool \<Rightarrow> bool \<Rightarrow> bool" where
  "slot_ok n st r d \<longleftrightarrow> n = (if r \<or> d then 0 else if waiting st then 1 else 0) \<and>
     (st = RUNNING \<longrightarrow> r) \<and> st \<noteq> EMBRYO \<and> (r \<longrightarrow> st \<noteq> UNUSED) \<and> (d \<longrightarrow> st \<noteq> ZOMBIE)"

definition view_ok :: "(nat \<Rightarrow> nat) \<Rightarrow> procstate list \<Rightarrow> nat option \<Rightarrow> nat option \<Rightarrow> bool" where
  "view_ok c st run d \<longleftrightarrow> length st = NPROC \<and>
     (\<forall>i<NPROC. slot_ok (c i) (st ! i) (run = Some i) (d = Some i)) \<and>
     (case run of None \<Rightarrow> True | Some i \<Rightarrow> i < NPROC) \<and>
     (case d of None \<Rightarrow> True
      | Some x \<Rightarrow> x < NPROC \<and> (case run of None \<Rightarrow> waiting (st ! x) | Some i \<Rightarrow> i = x))"

definition qcount :: "kern \<Rightarrow> nat \<Rightarrow> nat" where
  "qcount s i = count (queue_mset s) (int i)"

definition sched_inv :: "kern \<Rightarrow> bool" where
  "sched_inv s \<longleftrightarrow> queues_good s \<and> length (running s) = 1 \<and>
     (if is_dictated s then 0 \<le> scheduler_dictator s else scheduler_dictator s = -1) \<and>
     (\<forall>i lv. running s ! 0 = Some (i, lv) \<longrightarrow> lv < 3) \<and>
     (\<forall>x\<in>#queue_mset s. 0 \<le> x \<and> x < int NPROC) \<and>
     view_ok (qcount s) (states s) (on_cpu s) (dict s)"

section \<open>How queue operations change the view\<close>

lemma mset_concat_update:
  "lv < length L \<Longrightarrow> mset (concat (L[lv := ys])) + mset (L ! lv) = mset (concat L) + mset ys"
proof (induction L arbitrary: lv)
  case Nil
  then show ?case by simp
next
  case (Cons l L)
  then show ?case by (cases lv) (simp_all add: ac_simps)
qed

lemma at_levels_mset:
  assumes "at_levels s ((levels s)[lv := ys]) s'" "queues_good s" "lv < 3"
  shows "queue_mset s' + mset (level s lv) = queue_mset s + mset ys"
  using mset_concat_update [of lv "levels s" ys] at_levelsD(2) [OF assms(1)] assms(2,3)
    levels_nth [OF assms(2,3)] queues_goodD [OF assms(2,3)]
  by (simp add: queue_mset_def)

lemma at_levels_view:
  assumes "at_levels s L s'"
  shows "states s' = states s" "on_cpu s' = on_cpu s" "dict s' = dict s"
  using at_levelsD [OF assms] by (simp_all add: states_def on_cpu_def dict_def)

lemma less_three: "lv < (3::nat) \<Longrightarrow> lv = 0 \<or> lv = 1 \<or> lv = 2"
  by arith

lemma level_subset:
  "queues_good s \<Longrightarrow> lv < 3 \<Longrightarrow> x \<in> set (level s lv) \<Longrightarrow> x \<in># queue_mset s"
  using levels_three [of s] less_three [of lv] by (auto simp: queue_mset_def)

lemma level_size:
  "queues_good s \<Longrightarrow> lv < 3 \<Longrightarrow> length (level s lv) \<le> size (queue_mset s)"
  using levels_three [of s] less_three [of lv] by (auto simp: queue_mset_def)

lemma drop_nth_take: "k < length xs \<Longrightarrow> mset xs = add_mset (xs ! k) (mset (drop (Suc k) xs @ take k xs))"
proof -
  assume "k < length xs"
  then have "mset xs = mset (take k xs @ xs ! k # drop (Suc k) xs)"
    by (metis id_take_nth_drop)
  then show ?thesis by simp
qed

lemma taken_mset:
  assumes "at_levels s ((levels s)[lv := drop (Suc k) (level s lv) @ take k (level s lv)]) s'"
    and "queues_good s" "lv < 3" "k < length (level s lv)"
  shows "queue_mset s = add_mset (level s lv ! k) (queue_mset s')"
  using at_levels_mset [OF assms(1-3)] drop_nth_take [OF assms(4)] by simp

lemma enQ_mset:
  assumes "queues_good s" "lv < 3" "size (queue_mset s) < 64"
  shows "queue_mset (snd (enQ lv i s)) = add_mset i (queue_mset s)"
    "at_levels s ((levels s)[lv := level s lv @ [i]]) (snd (enQ lv i s))"
proof -
  have "length (level s lv) < 64" using level_size [OF assms(1,2)] assms(3) by simp
  then show a: "at_levels s ((levels s)[lv := level s lv @ [i]]) (snd (enQ lv i s))"
    by (rule enQ_at [OF assms(1,2)])
  show "queue_mset (snd (enQ lv i s)) = add_mset i (queue_mset s)"
    using at_levels_mset [OF a assms(1,2)] by simp
qed

text \<open>\<open>pickProc\<close> takes a runnable process out of its level, or changes no level.\<close>

lemma pickProc_view:
  assumes "queues_good s" "lv < 3" "pickProc lv s = (i, s')" "\<forall>x\<in>#queue_mset s. 0 \<le> x"
  shows "if i = -1 then at_levels s (levels s) s'
    else runnable s i \<and> queue_mset s = add_mset i (queue_mset s') \<and> (\<exists>L. at_levels s L s')"
proof (cases "lv = 2")
  case False
  then have lv: "lv < 2" using assms(2) by simp
  show ?thesis
  proof (cases "find_idx (runnable s) (level s lv)")
    case None
    then show ?thesis using pick_fifo_full [OF assms(1) lv] assms(3) by auto
  next
    case (Some k)
    then have k: "k < length (level s lv)" "runnable s (level s lv ! k)"
      using find_idx_SomeD by fastforce+
    have a: "i = level s lv ! k"
      "at_levels s ((levels s)[lv := drop (Suc k) (level s lv) @ take k (level s lv)]) s'"
      using pick_fifo_full [OF assms(1) lv] assms(3) Some by auto
    moreover have "i \<noteq> -1"
      using level_subset [OF assms(1,2), of i] assms(4) a(1) nth_mem [OF k(1)] by force
    ultimately show ?thesis using taken_mset [OF a(2) assms(1,2) k(1)] k(2) by auto
  qed
next
  case True
  show ?thesis
  proof (cases "\<forall>i\<in>set (level s 2). runnable s i \<longrightarrow> USELESS \<le> prio_of s i")
    case t: True
    then show ?thesis using pick_prio_none [OF assms(1) t] assms(3) True by auto
  next
    case False
    then obtain i0 where "i0 \<in> set (level s 2)" "runnable s i0" "prio_of s i0 < USELESS"
      by (auto simp: not_le)
    from pick_prio_some [OF assms(1) this] obtain k where
      k: "first_least (runnable s) (prio_of s) (level s 2) k" and a: "i = level s 2 ! k"
      "at_levels s ((levels s)[2 := drop (Suc k) (level s 2) @ take k (level s 2)]) s'"
      using assms(3) True by auto
    have kl: "k < length (level s 2)" "runnable s i" using k a(1) by (auto simp: first_least_def)
    have "i \<noteq> -1"
      using level_subset [OF assms(1), of 2 i] assms(4) a(1) nth_mem [OF kl(1)] by force
    then show ?thesis using taken_mset [OF a(2) assms(1) _ kl(1)] kl(2) a by auto
  qed
qed

lemma pick_levels_view:
  assumes "queues_good s" "\<forall>lv\<in>set lvs. lv < 3" "\<forall>x\<in>#queue_mset s. 0 \<le> x"
    and "pick_levels lvs s = (r, s')"
  shows "case r of None \<Rightarrow> at_levels s (levels s) s'
    | Some (lv, i) \<Rightarrow> lv \<in> set lvs \<and> runnable s i \<and> queue_mset s = add_mset i (queue_mset s') \<and>
        (\<exists>L. at_levels s L s')"
  using assms
proof (induction lvs arbitrary: s)
  case Nil
  then show ?case by (simp add: at_levels_refl)
next
  case (Cons lv lvs)
  obtain i s1 where p: "pickProc lv s = (i, s1)" by force
  have v: "if i = -1 then at_levels s (levels s) s1
    else runnable s i \<and> queue_mset s = add_mset i (queue_mset s1) \<and> (\<exists>L. at_levels s L s1)"
    using pickProc_view [OF Cons.prems(1) _ p Cons.prems(3)] Cons.prems(2) by simp
  show ?case
  proof (cases "i = -1")
    case True
    then have a: "at_levels s (levels s) s1" using v by simp
    then have q: "queue_mset s1 = queue_mset s" by (simp add: queue_mset_def at_levelsD(2))
    have "pick_levels lvs s1 = (r, s')" using Cons.prems(4) p True by simp
    from Cons.IH [OF at_levelsD(1) [OF a] _ _ this] Cons.prems(2,3) q show ?thesis
      using at_levels_trans [OF a] at_levels_procs(1) [OF a] at_levelsD(2) [OF a]
      by (auto split: option.splits)
  next
    case False
    then show ?thesis using v Cons.prems(4) p by auto
  qed
qed

section \<open>Preservation on the view\<close>

lemma slot_le: "slot_ok n st r d \<Longrightarrow> n \<le> 1"
  by (simp add: slot_ok_def)

lemma slot_zero: "slot_ok n st r d \<Longrightarrow> r \<or> d \<or> \<not> waiting st \<Longrightarrow> n = 0"
  by (auto simp: slot_ok_def)

lemma size_by_slots:
  assumes "\<forall>x\<in>#Q. 0 \<le> x \<and> x < int NPROC"
  shows "size Q = (\<Sum>i<NPROC. count Q (int i))"
proof -
  have sub: "set_mset Q \<subseteq> int ` {..<NPROC}"
  proof
    fix x assume "x \<in># Q"
    then have "0 \<le> x \<and> x < int NPROC" using assms by blast
    then show "x \<in> int ` {..<NPROC}" by (intro image_eqI [of _ _ "nat x"]) auto
  qed
  have "size Q = (\<Sum>x\<in>int ` {..<NPROC}. count Q x)"
    unfolding size_multiset_overloaded_eq
    by (rule sum.mono_neutral_left) (use sub in \<open>auto simp: not_in_iff\<close>)
  also have "\<dots> = (\<Sum>i<NPROC. count Q (int i))"
    by (rule sum.reindex_cong [of int]) (auto simp: inj_on_def)
  finally show ?thesis .
qed

lemma sum_slots:
  assumes "\<forall>i<n. (c i :: nat) \<le> 1"
  shows "(\<Sum>i<n. c i) \<le> n" "k < n \<Longrightarrow> c k = 0 \<Longrightarrow> (\<Sum>i<n. c i) < n"
proof -
  show "(\<Sum>i<n. c i) \<le> n" using sum_mono [of "{..<n}" c "\<lambda>_. 1"] assms by simp
  assume k: "k < n" "c k = 0"
  have "(\<Sum>i<n. c i) < (\<Sum>i<n. 1)"
    by (rule sum_strict_mono_ex1) (use assms k in auto)
  then show "(\<Sum>i<n. c i) < n" by simp
qed

lemma view_slot: "view_ok c st run d \<Longrightarrow> i < NPROC \<Longrightarrow> slot_ok (c i) (st ! i) (run = Some i) (d = Some i)"
  by (simp add: view_ok_def)

lemma view_pick:
  assumes "view_ok (c(i := Suc (c i))) st None None" "i < NPROC" "st ! i = RUNNABLE"
  shows "view_ok c (st[i := RUNNING]) (Some i) None"
  using assms by (auto simp: view_ok_def slot_ok_def nth_list_update split: if_splits)

lemma view_pick_dict:
  assumes "view_ok c st None (Some x)"
  shows "view_ok c (st[x := RUNNING]) (Some x) (Some x)"
  using assms by (auto simp: view_ok_def slot_ok_def nth_list_update split: if_splits)

lemma view_back:
  assumes "view_ok c st (Some i) None" "st ! i \<noteq> RUNNING"
  shows "view_ok (if waiting (st ! i) then c(i := Suc (c i)) else c) st None None"
proof -
  let ?c = "if waiting (st ! i) then c(i := Suc (c i)) else c"
  have "slot_ok (?c j) (st ! j) False False" if "j < NPROC" for j
    using view_slot [OF assms(1) that] assms(2) by (cases "j = i") (auto simp: slot_ok_def)
  then show ?thesis using assms(1) by (simp add: view_ok_def)
qed

lemma waiting_not: "waiting st \<Longrightarrow> st \<noteq> RUNNING \<and> st \<noteq> EMBRYO"
  by (auto simp: waiting_def)

lemma view_back_dict:
  assumes v: "view_ok c st (Some i) (Some x)" and w: "waiting (st ! i)"
  shows "view_ok c st None (Some x)"
proof -
  have x: "i = x" "x < NPROC" using v by (simp_all add: view_ok_def)
  have "slot_ok (c j) (st ! j) False (Some x = Some j)" if "j < NPROC" for j
    using view_slot [OF v that] waiting_not [OF w] x by (cases "j = x") (simp_all add: slot_ok_def)
  then show ?thesis using v w x by (simp add: view_ok_def)
qed

lemma view_boost_dict:
  assumes v: "view_ok c st None (Some x)"
  shows "view_ok (c(x := Suc (c x))) st None None"
proof -
  have x: "waiting (st ! x)" using v by (simp add: view_ok_def)
  have "slot_ok ((c(x := Suc (c x))) j) (st ! j) False False" if "j < NPROC" for j
    using view_slot [OF v that] x by (cases "j = x") (simp_all add: slot_ok_def)
  then show ?thesis using v by (simp add: view_ok_def)
qed

text \<open>Steps of the running process change states only, or start a child, or lock.\<close>

lemma view_states:
  assumes v: "view_ok c st run d" and l: "length st' = length st"
    and w: "\<And>i. i < NPROC \<Longrightarrow> waiting (st' ! i) = waiting (st ! i)"
    and r: "\<And>i. i < NPROC \<Longrightarrow> st' ! i = RUNNING \<Longrightarrow> run = Some i"
    and e: "\<And>i. i < NPROC \<Longrightarrow> st' ! i \<noteq> EMBRYO"
    and u: "\<And>i. i < NPROC \<Longrightarrow> run = Some i \<Longrightarrow> st' ! i \<noteq> UNUSED"
    and z: "\<And>i. i < NPROC \<Longrightarrow> d = Some i \<Longrightarrow> st' ! i \<noteq> ZOMBIE"
  shows "view_ok c st' run d"
proof -
  have "slot_ok (c i) (st' ! i) (run = Some i) (d = Some i)" if "i < NPROC" for i
    using view_slot [OF v that] w [OF that] r [OF that] e [OF that] u [OF that] z [OF that]
    by (auto simp: slot_ok_def)
  then show ?thesis using v l w by (auto simp: view_ok_def split: option.splits)
qed

lemma view_cur:
  assumes v: "view_ok c st (Some r) d" and e: "x \<noteq> EMBRYO" "x \<noteq> UNUSED" "d = Some r \<Longrightarrow> x \<noteq> ZOMBIE"
  shows "view_ok c (st[r := x]) (Some r) d"
proof -
  have "slot_ok (c i) (st[r := x] ! i) (Some r = Some i) (d = Some i)" if "i < NPROC" for i
    using view_slot [OF v that] v e that
    by (cases "i = r") (auto simp: slot_ok_def view_ok_def)
  then show ?thesis using v by (auto simp: view_ok_def split: option.splits)
qed

lemma view_start:
  assumes "view_ok c st (Some r) d" "i < NPROC" "st ! i = UNUSED" "i \<noteq> r"
  shows "view_ok (c(i := Suc (c i))) (st[i := RUNNABLE]) (Some r) d"
  using assms by (auto simp: view_ok_def slot_ok_def waiting_def nth_list_update split: option.splits)

lemma view_lock: "view_ok c st (Some r) None \<Longrightarrow> st ! r \<noteq> ZOMBIE \<Longrightarrow> view_ok c st (Some r) (Some r)"
  by (auto simp: view_ok_def slot_ok_def)

lemma view_free: "view_ok c st (Some r) d \<Longrightarrow> view_ok c st (Some r) None"
  by (auto simp: view_ok_def slot_ok_def split: option.splits)

lemma sched_inv_room:
  assumes "sched_inv s"
  shows "size (queue_mset s) \<le> 64"
    "i < NPROC \<Longrightarrow> on_cpu s = Some i \<or> dict s = Some i \<or> \<not> waiting (states s ! i) \<Longrightarrow>
       size (queue_mset s) < 64"
proof -
  have v: "view_ok (qcount s) (states s) (on_cpu s) (dict s)"
    and r: "\<forall>x\<in>#queue_mset s. 0 \<le> x \<and> x < int NPROC"
    using assms by (auto simp: sched_inv_def)
  have le: "\<forall>i<NPROC. qcount s i \<le> 1" using slot_le view_slot [OF v] by blast
  have sz: "size (queue_mset s) = (\<Sum>i<NPROC. qcount s i)"
    using size_by_slots [OF r] by (simp add: qcount_def)
  show "size (queue_mset s) \<le> 64" using sum_slots(1) [OF le] sz by simp
  assume "i < NPROC" "on_cpu s = Some i \<or> dict s = Some i \<or> \<not> waiting (states s ! i)"
  then have "qcount s i = 0" using slot_zero [OF view_slot [OF v]] by blast
  then show "size (queue_mset s) < 64" using sum_slots(2) [OF le \<open>i < NPROC\<close>] sz by simp
qed

end
