(* ===== verification/Mlfq_Steps.thy ===== *)
theory Mlfq_Steps
  imports Mlfq_Inv
begin

text \<open>
  The step relation of the Project01-MLFQ kernel on one CPU and the proof that its steps
  keep \<open>sched_inv\<close>. \<open>kstep\<close> leaves out \<open>schedulerUnlock\<close>, which is treated on its own in
  \<open>Mlfq_Props\<close>: it breaks the invariant.
\<close>

section \<open>The step relation\<close>

definition cur_runs :: "kern \<Rightarrow> nat \<Rightarrow> bool" where
  "cur_runs s i \<longleftrightarrow> on_cpu s = Some i \<and> m_state (procs s ! i) = RUNNING"

inductive kstep :: "kern \<Rightarrow> kern \<Rightarrow> bool" where
  pick: "on_cpu s = None \<Longrightarrow> sched_pick 0 s = Inr (b, s') \<Longrightarrow> kstep s s'"
| feedback: "on_cpu s = Some i \<Longrightarrow> m_state (procs s ! i) \<noteq> RUNNING \<Longrightarrow> kstep s (sched_feedback 0 s)"
| fork: "cur_runs s i \<Longrightarrow> fork kst pgd i s = Inr (r, s') \<Longrightarrow> kstep s s'"
| exit: "cur_runs s i \<Longrightarrow> exit i s = Inr s' \<Longrightarrow> kstep s s'"
| wait: "cur_runs s i \<Longrightarrow> wait i s = Inr (w, s') \<Longrightarrow> kstep s s'"
| yield: "cur_runs s i \<Longrightarrow> yield i s = Inr s' \<Longrightarrow> kstep s s'"
| sleep: "cur_runs s i \<Longrightarrow> sleep_begin ch i s = Inr s' \<Longrightarrow> kstep s s'"
| resume: "cur_runs s i \<Longrightarrow> kstep s (sleep_end i s)"
| wakeup: "kstep s (wakeup ch s)"
| kill: "cur_runs s i \<Longrightarrow> kill pid s = (r, s') \<Longrightarrow> kstep s s'"
| prio: "cur_runs s i \<Longrightarrow> kstep s (setPriority pid p s)"
| grow: "cur_runs s i \<Longrightarrow> growproc al de n i s = Inr (r, s') \<Longrightarrow> kstep s s'"
| lock: "cur_runs s i \<Longrightarrow> schedulerLock pw i s = Inr (e, s') \<Longrightarrow> kstep s s'"
| timer: "kstep s (timer_irq 0 s)"

inductive kreach :: "kern \<Rightarrow> kern \<Rightarrow> bool" where
  start: "kreach s s"
| step: "kreach s t \<Longrightarrow> kstep t u \<Longrightarrow> kreach s u"

section \<open>Frames\<close>

text \<open>The part of the state the invariant reads.\<close>

definition core :: "kern \<Rightarrow> fq list \<times> procstate list \<times> (nat \<times> nat) option list \<times> bool \<times> int" where
  "core s = (mlfq s, states s, running s, is_dictated s, scheduler_dictator s)"

lemma sched_inv_core: "core s' = core s \<Longrightarrow> sched_inv s' = sched_inv s"
  unfolding sched_inv_def core_def queues_good_def queue_mset_def qcount_def levels_def on_cpu_def dict_def
  by simp

lemma sched_inv_states:
  assumes inv: "sched_inv s" and eq: "mlfq s' = mlfq s" "running s' = running s"
    "is_dictated s' = is_dictated s" "scheduler_dictator s' = scheduler_dictator s"
    and v: "view_ok (qcount s) (states s') (on_cpu s) (dict s)"
  shows "sched_inv s'"
proof -
  have q: "queue_mset s' = queue_mset s" using eq(1) by (simp add: queue_mset_def levels_def)
  then have "qcount s' = qcount s" by (simp add: qcount_def fun_eq_iff)
  moreover have "on_cpu s' = on_cpu s" "dict s' = dict s" "queues_good s' = queues_good s"
    using eq by (simp_all add: on_cpu_def dict_def queues_good_def)
  ultimately show ?thesis using inv v q eq by (simp add: sched_inv_def)
qed

lemma core_upd_proc:
  "(\<And>p. m_state (f p) = m_state p) \<Longrightarrow> core (upd_proc i f s) = core s"
  by (simp add: core_def states_def upd_proc_def map_update_idem)

text \<open>Steps that leave queues, CPU and dictator alone and only wake sleepers.\<close>

definition calm :: "kern \<Rightarrow> kern \<Rightarrow> bool" where
  "calm s s' \<longleftrightarrow> mlfq s' = mlfq s \<and> running s' = running s \<and> is_dictated s' = is_dictated s \<and>
     scheduler_dictator s' = scheduler_dictator s \<and> length (procs s') = length (procs s) \<and>
     (\<forall>i<length (procs s). m_state (procs s' ! i) = m_state (procs s ! i) \<or>
        (waiting (m_state (procs s ! i)) \<and> waiting (m_state (procs s' ! i))))"

lemma calm_trans: "calm s t \<Longrightarrow> calm t u \<Longrightarrow> calm s u"
  unfolding calm_def by (simp, metis)

lemma calm_core: "core s' = core s \<Longrightarrow> calm s s'"
proof -
  assume a: "core s' = core s"
  then have m: "map m_state (procs s') = map m_state (procs s)" by (simp add: core_def states_def)
  then have l: "length (procs s') = length (procs s)" by (rule map_eq_imp_length_eq)
  have "m_state (procs s' ! i) = m_state (procs s ! i)" if "i < length (procs s)" for i
    using arg_cong [OF m, of "\<lambda>xs. xs ! i"] that l by simp
  then show ?thesis using a l by (simp add: calm_def core_def)
qed

lemma calm_wakeup1: "calm s (wakeup1 ch s)"
  by (auto simp: calm_def wakeup1_def waiting_def)

lemma calm_inv:
  assumes inv: "sched_inv s" and c: "calm s s'"
  shows "sched_inv s'"
proof -
  have v: "view_ok (qcount s) (states s) (on_cpu s) (dict s)" using inv by (simp add: sched_inv_def)
  have len: "length (states s) = NPROC" using v by (simp add: view_ok_def)
  have st: "states s' ! i = states s ! i \<or> (waiting (states s ! i) \<and> waiting (states s' ! i))"
    if "i < NPROC" for i using c len that by (auto simp: calm_def states_def)
  have "view_ok (qcount s) (states s') (on_cpu s) (dict s)"
  proof (rule view_states [OF v])
    show "length (states s') = length (states s)" using c by (simp add: calm_def states_def)
    show "waiting (states s' ! i) = waiting (states s ! i)" if "i < NPROC" for i
      using st [OF that] by auto
    show "on_cpu s = Some i" if "i < NPROC" "states s' ! i = RUNNING" for i
      using st [OF that(1)] view_slot [OF v that(1)] that(2) by (auto simp: slot_ok_def waiting_def)
    show "states s' ! i \<noteq> EMBRYO" if "i < NPROC" for i
      using st [OF that] view_slot [OF v that] by (auto simp: slot_ok_def waiting_def)
    show "states s' ! i \<noteq> UNUSED" if "i < NPROC" "on_cpu s = Some i" for i
      using st [OF that(1)] view_slot [OF v that(1)] that(2) by (auto simp: slot_ok_def waiting_def)
    show "states s' ! i \<noteq> ZOMBIE" if "i < NPROC" "dict s = Some i" for i
      using st [OF that(1)] view_slot [OF v that(1)] that(2) by (auto simp: slot_ok_def waiting_def)
  qed
  then show ?thesis using sched_inv_states [OF inv] c by (simp add: calm_def)
qed

lemma inv_set_cur:
  assumes inv: "sched_inv s" and cur: "on_cpu s = Some i"
    and f: "m_state (f (procs s ! i)) \<noteq> EMBRYO" "m_state (f (procs s ! i)) \<noteq> UNUSED"
      "dict s = Some i \<Longrightarrow> m_state (f (procs s ! i)) \<noteq> ZOMBIE"
  shows "sched_inv (upd_proc (int i) f s)"
proof -
  have v: "view_ok (qcount s) (states s) (Some i) (dict s)" using inv cur by (simp add: sched_inv_def)
  have "states (upd_proc (int i) f s) = (states s)[i := m_state (f (procs s ! i))]"
    by (simp add: states_def upd_proc_def map_update)
  then show ?thesis using sched_inv_states [OF inv] view_cur [OF v f] cur
    by (simp add: upd_proc_def)
qed

lemma core_dup_files: "dup_files fs s = Inr s' \<Longrightarrow> core s' = core s \<and> procs s' = procs s \<and> nextpid s' = nextpid s"
  by (induction fs s rule: dup_files.induct) (auto simp: core_def states_def split: if_splits)

lemma core_close_files: "close_files fs s = Inr s' \<Longrightarrow> core s' = core s \<and> procs s' = procs s \<and> initproc s' = initproc s"
  by (induction fs s rule: close_files.induct) (auto simp: core_def states_def split: if_splits)

lemma calm_reparent: "calm s (reparent cur is s)"
proof (induction cur "is" s rule: reparent.induct)
  case (1 cur s)
  then show ?case by (simp add: calm_core)
next
  case (2 cur i "is" s)
  let ?s1 = "upd_proc (int i) (\<lambda>p. p\<lparr>m_parent := Some (initproc s)\<rparr>) s"
  have c1: "calm s ?s1" by (rule calm_core) (simp add: core_upd_proc)
  show ?case
  proof (cases "m_parent (procs s ! i) = Some cur")
    case True
    then show ?thesis
      using 2(1) [OF True refl] calm_trans [OF c1] calm_trans [OF calm_trans [OF c1 calm_wakeup1]]
      by (auto simp: Let_def)
  next
    case False
    then show ?thesis using 2(2) by simp
  qed
qed

section \<open>Each step keeps the invariant\<close>

lemma sched_invD:
  assumes "sched_inv s"
  shows "queues_good s" "length (running s) = 1" "\<forall>x\<in>#queue_mset s. 0 \<le> x \<and> x < int NPROC"
    "view_ok (qcount s) (states s) (on_cpu s) (dict s)" "length (procs s) = NPROC"
    "running s ! 0 = Some (i, lv) \<Longrightarrow> lv < 3" "on_cpu s = Some i \<Longrightarrow> i < NPROC"
  using assms by (auto simp: sched_inv_def view_ok_def states_def split: option.splits)

lemma running_upd: "length (running s) = 1 \<Longrightarrow> (running s)[0 := x] = [x]"
  by (cases "running s") auto

text \<open>A process put on the CPU.\<close>

lemma inv_on_cpu:
  assumes g: "queues_good s1" and l: "length (running s) = 1" and lv: "lv < 3"
    and same: "at_levels s L s1" and inv: "sched_inv s"
    and v: "view_ok (qcount s1) ((states s)[nat i := RUNNING]) (Some (nat i)) (dict s)"
    and q: "\<forall>x\<in>#queue_mset s1. 0 \<le> x \<and> x < int NPROC"
  shows "sched_inv (upd_proc i (\<lambda>p. p\<lparr>m_state := RUNNING\<rparr>) s1\<lparr>running := (running s1)[0 := Some (nat i, lv)]\<rparr>)"
    (is "sched_inv ?t")
proof -
  have eq: "running s1 = running s" "is_dictated s1 = is_dictated s"
    "scheduler_dictator s1 = scheduler_dictator s" "procs s1 = procs s"
    using at_levelsD [OF same] by simp_all
  have "queue_mset ?t = queue_mset s1" by (simp add: queue_mset_def levels_def upd_proc_def)
  moreover from this have "qcount ?t = qcount s1" by (simp add: qcount_def fun_eq_iff)
  moreover have "queues_good ?t" using g by (simp add: queues_good_def upd_proc_def)
  moreover have "states ?t = (states s)[nat i := RUNNING]"
    by (simp add: states_def upd_proc_def map_update eq)
  moreover have "on_cpu ?t = Some (nat i)" "dict ?t = dict s"
    using l eq by (simp_all add: on_cpu_def dict_def upd_proc_def running_upd)
  moreover have "is_dictated ?t = is_dictated s" "scheduler_dictator ?t = scheduler_dictator s"
    "running ?t = [Some (nat i, lv)]"
    using l eq by (simp_all add: upd_proc_def running_upd)
  ultimately show ?thesis using v q lv inv by (simp add: sched_inv_def)
qed

lemma inv_at_levels:
  assumes inv: "sched_inv s" and a: "at_levels s L s'" and q: "queue_mset s' = queue_mset s"
  shows "sched_inv s'"
proof -
  have "qcount s' = qcount s" using q by (simp add: qcount_def fun_eq_iff)
  then show ?thesis using inv q at_levelsD [OF a] at_levels_view [OF a]
    by (simp add: sched_inv_def)
qed

lemma sched_run_Inr:
  "sched_run c lv i s = Inr (b, s') \<Longrightarrow> 0 \<le> i \<and> nat i < length (procs s) \<and>
     s' = upd_proc i (\<lambda>p. p\<lparr>m_state := RUNNING\<rparr>) s\<lparr>running := (running s)[c := Some (nat i, lv)]\<rparr>"
  by (auto simp: sched_run_def res_simps)

lemma inv_pick:
  assumes inv: "sched_inv s" and idle: "on_cpu s = None" and p: "sched_pick 0 s = Inr (b, s')"
  shows "sched_inv s'"
proof -
  note D = sched_invD [OF inv]
  show ?thesis
  proof (cases "is_dictated s")
    case True
    let ?d = "scheduler_dictator s"
    have s': "s' = upd_proc ?d (\<lambda>p. p\<lparr>m_state := RUNNING\<rparr>) s\<lparr>running := (running s)[0 := Some (nat ?d, 0)]\<rparr>"
      using p True sched_run_Inr by (auto simp: sched_pick_def)
    have "view_ok (qcount s) ((states s)[nat ?d := RUNNING]) (Some (nat ?d)) (dict s)"
      using view_pick_dict [of "qcount s" "states s" "nat ?d"] D(4) idle True by (simp add: dict_def)
    then show ?thesis
      using inv_on_cpu [OF D(1,2) _ at_levels_refl [OF D(1)] inv] D(3) by (simp add: s')
  next
    case False
    obtain r s1 where pl: "pick_levels [0, 1, 2] s = (r, s1)" by force
    have v: "case r of None \<Rightarrow> at_levels s (levels s) s1
      | Some (lv, i) \<Rightarrow> lv \<in> set [0, 1, 2] \<and> runnable s i \<and> queue_mset s = add_mset i (queue_mset s1) \<and>
        (\<exists>L. at_levels s L s1)"
      by (rule pick_levels_view [OF D(1) _ _ pl]) (use D(3) in auto)
    show ?thesis
    proof (cases r)
      case None
      then have "s' = s1" "at_levels s (levels s) s1" using v p pl False by (auto simp: sched_pick_def)
      then show ?thesis using inv_at_levels [OF inv] at_levelsD(2) by (simp add: queue_mset_def)
    next
      case (Some x)
      then obtain lv i where x: "r = Some (lv, i)" by (cases x) auto
      then obtain L where h: "lv < 3" "runnable s i" "queue_mset s = add_mset i (queue_mset s1)" "at_levels s L s1"
        using v by auto
      have i: "0 \<le> i" "i < 64" using D(3) h(3) by auto
      have d: "dict s = None" using False by (simp add: dict_def)
      have s': "s' = upd_proc i (\<lambda>p. p\<lparr>m_state := RUNNING\<rparr>) s1\<lparr>running := (running s1)[0 := Some (nat i, lv)]\<rparr>"
        using p pl x False sched_run_Inr by (auto simp: sched_pick_def)
      have "qcount s = (qcount s1)(nat i := Suc (qcount s1 (nat i)))"
        using h(3) i by (auto simp: qcount_def fun_eq_iff)
      then have "view_ok ((qcount s1)(nat i := Suc (qcount s1 (nat i)))) (states s) None None"
        using D(4) idle d by simp
      then have "view_ok (qcount s1) ((states s)[nat i := RUNNING]) (Some (nat i)) None"
        by (rule view_pick) (use i h(2) D(5) in \<open>auto simp: states_def runnable_def proc_at_def\<close>)
      then show ?thesis
        using inv_on_cpu [OF at_levelsD(1) [OF h(4)] D(2) h(1) h(4) inv] D(3) h(3) d by (simp add: s')
    qed
  qed
qed

subsection \<open>Coming back to the scheduler\<close>

text \<open>The invariant between the end of a process's turn and the reset of \<open>c->proc\<close>.\<close>

definition idle_ok :: "kern \<Rightarrow> bool" where
  "idle_ok s \<longleftrightarrow> queues_good s \<and> length (running s) = 1 \<and>
     (if is_dictated s then 0 \<le> scheduler_dictator s else scheduler_dictator s = -1) \<and>
     (\<forall>x\<in>#queue_mset s. 0 \<le> x \<and> x < int NPROC) \<and>
     view_ok (qcount s) (states s) None (dict s)"

lemma idle_ok_done: "idle_ok s \<Longrightarrow> sched_inv (s\<lparr>running := (running s)[0 := None]\<rparr>)"
  by (simp add: idle_ok_def sched_inv_def queues_good_def queue_mset_def qcount_def [abs_def]
      levels_def states_def on_cpu_def dict_def running_upd split: if_splits)

lemma idle_ok_core: "core s' = core s \<Longrightarrow> idle_ok s' = idle_ok s"
  unfolding idle_ok_def core_def queues_good_def queue_mset_def qcount_def levels_def dict_def
  by simp

lemma core_demote: "core (snd (demote lv i s)) = core s"
  by (simp add: demote_def Let_def core_upd_proc)

lemma demote_level: "lv < 3 \<Longrightarrow> fst (demote lv i s) < 3"
  by (simp add: demote_def Let_def)

lemma queue_mset_queued: "queues_good s \<Longrightarrow> mset (queued s) = queue_mset s"
  by (simp add: queue_mset_def queued_def levels_three)

lemma boost_states: 
  assumes "boost_rel s A L s'"
  shows "states s' = states s"
proof (rule nth_equalityI)
  show "length (states s') = length (states s)" using boost_relD(5) [OF assms] by (simp add: states_def)
  fix i assume "i < length (states s')"
  then show "states s' ! i = states s ! i"
    using assms by (auto simp: boost_rel_def states_def boosted_def)
qed

lemma idle_ok_boost:
  assumes "idle_ok s"
  shows "idle_ok (priorityBoost s)"
proof -
  have g: "queues_good s" and v: "view_ok (qcount s) (states s) None (dict s)"
    and r: "\<forall>x\<in>#queue_mset s. 0 \<le> x \<and> x < int NPROC" using assms by (simp_all add: idle_ok_def)
  have qm: "mset (queued s) = queue_mset s" by (rule queue_mset_queued [OF g])
  have pos: "\<forall>i\<in>set (queued s). 0 \<le> i" using r by (simp flip: qm)
  have le: "\<forall>i<NPROC. qcount s i \<le> 1" using slot_le view_slot [OF v] by blast
  have len: "length (queued s) = (\<Sum>i<NPROC. qcount s i)"
    using size_by_slots [OF r] by (simp add: qcount_def flip: qm)
  show ?thesis
  proof (cases "is_dictated s")
    case False
    have "length (queued s) \<le> 64" using sum_slots(1) [OF le] len by simp
    then have b: "boost_rel s (set (queued s)) [queued s, [], []] (priorityBoost s)"
      using boost_all [OF g pos _ False] by simp
    have "queue_mset (priorityBoost s) = queue_mset s"
      using boost_relD(2) [OF b] qm by (simp add: queue_mset_def)
    moreover from this have "qcount (priorityBoost s) = qcount s" by (simp add: qcount_def fun_eq_iff)
    moreover have "dict (priorityBoost s) = dict s" using boost_relD [OF b] by (simp add: dict_def)
    ultimately show ?thesis using assms boost_relD [OF b] boost_states [OF b]
      by (simp add: idle_ok_def)
  next
    case True
    let ?d = "scheduler_dictator s"
    let ?r = "s\<lparr>is_dictated := False, scheduler_dictator := -1\<rparr>"
    have d: "0 \<le> ?d" "nat ?d < NPROC" using assms True by (auto simp: idle_ok_def view_ok_def dict_def)
    have "qcount s (nat ?d) = 0"
      by (rule slot_zero [OF view_slot [OF v d(2)]]) (simp add: dict_def True)
    then have "length (queued s) < 64" using sum_slots(2) [OF le d(2)] len by simp
    then have b: "boost_rel ?r (set (?d # queued s)) [?d # queued s, [], []] (priorityBoost s)"
      using boost_dictated [OF g True pos d(1)] by simp
    have q: "queue_mset (priorityBoost s) = add_mset ?d (queue_mset s)"
      using boost_relD(2) [OF b] qm by (simp add: queue_mset_def)
    have "qcount (priorityBoost s) = (qcount s)(nat ?d := Suc (qcount s (nat ?d)))"
      using d by (auto simp: qcount_def fun_eq_iff q)
    moreover have "view_ok ((qcount s)(nat ?d := Suc (qcount s (nat ?d)))) (states s) None None"
      by (rule view_boost_dict) (use v True in \<open>simp add: dict_def\<close>)
    moreover have "states (priorityBoost s) = states s"
      using boost_states [OF b] by (simp add: states_def)
    moreover have "\<forall>x\<in>#queue_mset (priorityBoost s). 0 \<le> x \<and> x < int NPROC"
      using r d q by auto
    ultimately show ?thesis using assms boost_relD [OF b]
      by (simp add: idle_ok_def dict_def)
  qed
qed

lemma inv_feedback:
  assumes inv: "sched_inv s" and cur: "on_cpu s = Some i" and nr: "m_state (procs s ! i) \<noteq> RUNNING"
  shows "sched_inv (sched_feedback 0 s)"
proof -
  note D = sched_invD [OF inv]
  obtain lv where run: "running s ! 0 = Some (i, lv)" using cur by (auto simp: on_cpu_def)
  have lv: "lv < 3" using D(6) run by blast
  have i: "i < NPROC" using D(7) cur by simp
  define s1 where "s1 = upd_proc (int i) (\<lambda>p. p\<lparr>m_tq := m_tq p + 1\<rparr>) s"
  have c1: "core s1 = core s" by (simp add: s1_def core_upd_proc)
  define s2 where "s2 = (if \<not> is_dictated s1
     then let (lv', s') = demote lv i s1
          in if m_state (procs s' ! i) \<noteq> ZOMBIE then snd (enQ lv' (int i) s') else s' else s1)"
  have "idle_ok s2"
  proof (cases "is_dictated s")
    case True
    then have s2: "s2 = s1" using c1 by (simp add: s2_def core_def)
    have "dict s = Some i" using D(4) cur True by (auto simp: view_ok_def dict_def)
    then have v: "view_ok (qcount s) (states s) (Some i) (Some i)" using D(4) cur by simp
    have w: "waiting (states s ! i)"
      using view_slot [OF v i] nr D(5) i by (cases "states s ! i") (auto simp: slot_ok_def waiting_def states_def)
    have "idle_ok s"
      using view_back_dict [OF v w] inv \<open>dict s = Some i\<close> by (simp add: idle_ok_def sched_inv_def)
    then show ?thesis using idle_ok_core [OF c1] s2 by simp
  next
    case False
    obtain lv' s' where dm: "demote lv i s1 = (lv', s')" by force
    have cs': "core s' = core s" using core_demote [of lv i s1] dm c1 by simp
    have lv': "lv' < 3" using demote_level [OF lv, of i s1] dm by simp
    have inv': "sched_inv s'" using sched_inv_core [OF cs'] inv by simp
    note D' = sched_invD [OF inv']
    have nd: "dict s' = None" "on_cpu s' = Some i" "\<not> is_dictated s'"
      using cs' cur False by (simp_all add: core_def dict_def on_cpu_def)
    have st: "states s' ! i = m_state (procs s' ! i)" "states s' = states s" "states s ! i = m_state (procs s ! i)"
      using i D(5) D'(5) cs' by (simp_all add: states_def) (simp add: core_def states_def)
    have v: "view_ok (qcount s') (states s') (Some i) None" using D'(4) nd by simp
    have nr': "states s' ! i \<noteq> RUNNING" using nr st by simp
    have vb: "view_ok (if waiting (states s' ! i) then (qcount s')(i := Suc (qcount s' i)) else qcount s') (states s') None None"
      by (rule view_back [OF v nr'])
    have wz: "waiting (states s' ! i) \<longleftrightarrow> states s' ! i \<noteq> ZOMBIE"
      using view_slot [OF v i] nr' by (cases "states s' ! i") (auto simp: slot_ok_def waiting_def)
    have s2: "s2 = (if states s' ! i \<noteq> ZOMBIE then snd (enQ lv' (int i) s') else s')"
      using False c1 dm st(1) by (simp add: s2_def core_def)
    show ?thesis
    proof (cases "states s' ! i = ZOMBIE")
      case True
      then have "s2 = s'" using s2 by simp
      then show ?thesis using vb wz True inv' nd by (simp add: idle_ok_def sched_inv_def)
    next
      case ne: False
      have room: "size (queue_mset s') < 64" using sched_inv_room(2) [OF inv' i] nd by simp
      note e = enQ_mset [OF D'(1) lv' room, of "int i"]
      have "qcount s2 = (qcount s')(i := Suc (qcount s' i))"
        using e(1) s2 ne by (auto simp: qcount_def fun_eq_iff)
      moreover have "states s2 = states s'" "dict s2 = dict s'" "is_dictated s2 = is_dictated s'"
         "scheduler_dictator s2 = scheduler_dictator s'" "running s2 = running s'" "queues_good s2"
        using s2 ne at_levels_view [OF e(2)] at_levelsD [OF e(2)] by simp_all
      moreover have "queue_mset s2 = add_mset (int i) (queue_mset s')" using e(1) s2 ne by simp
      ultimately show ?thesis using vb wz ne inv' nd i by (auto simp: idle_ok_def sched_inv_def)
    qed
  qed
  moreover have "sched_feedback 0 s =
      (let s3 = (if global_ticks s2 \<ge> 100 then priorityBoost (s2\<lparr>global_ticks := 0\<rparr>) else s2)
       in s3\<lparr>running := (running s3)[0 := None]\<rparr>)"
    unfolding sched_feedback_def run option.case prod.case s2_def s1_def Let_def ..
  moreover have "idle_ok (s2\<lparr>global_ticks := 0\<rparr>)" if "idle_ok s2"
    using idle_ok_core [of "s2\<lparr>global_ticks := 0\<rparr>" s2] that by (simp add: core_def states_def)
  ultimately show ?thesis by (simp add: Let_def idle_ok_done idle_ok_boost)
qed

subsection \<open>Calls of the running process\<close>

lemma upd_proc_simps [simp]:
  "mlfq (upd_proc i f s) = mlfq s" "running (upd_proc i f s) = running s"
  "is_dictated (upd_proc i f s) = is_dictated s"
  "scheduler_dictator (upd_proc i f s) = scheduler_dictator s"
  "initproc (upd_proc i f s) = initproc s" "length (procs (upd_proc i f s)) = length (procs s)"
  "nextpid (upd_proc i f s) = nextpid s" "global_ticks (upd_proc i f s) = global_ticks s"
  "on_cpu (upd_proc i f s) = on_cpu s" "dict (upd_proc i f s) = dict s"
  "queue_mset (upd_proc i f s) = queue_mset s"
  by (simp_all add: upd_proc_def on_cpu_def dict_def queue_mset_def levels_def)

lemma procs_upd_proc: "procs (upd_proc (int i) f s) = (procs s)[i := f (procs s ! i)]"
  by (simp add: upd_proc_def)

lemma states_upd_proc: "states (upd_proc (int i) f s) = (states s)[i := m_state (f (procs s ! i))]"
  by (simp add: states_def upd_proc_def map_update)

lemma inv_sched: "sched cur s = Inr s' \<Longrightarrow> s' = s"
  by (auto simp: sched_def res_simps)

lemma inv_yield: "sched_inv s \<Longrightarrow> on_cpu s = Some i \<Longrightarrow> yield i s = Inr s' \<Longrightarrow> sched_inv s'"
  by (auto simp: yield_def dest!: inv_sched intro!: inv_set_cur)

lemma inv_sleep: "sched_inv s \<Longrightarrow> on_cpu s = Some i \<Longrightarrow> sleep_begin ch i s = Inr s' \<Longrightarrow> sched_inv s'"
  by (auto simp: sleep_begin_def dest!: inv_sched intro!: inv_set_cur)

lemma inv_sleep_end: "sched_inv s \<Longrightarrow> sched_inv (sleep_end i s)"
  using sched_inv_core [of "sleep_end i s" s] by (simp add: sleep_end_def core_upd_proc)

lemma inv_wakeup: "sched_inv s \<Longrightarrow> sched_inv (wakeup ch s)"
  unfolding wakeup_def by (rule calm_inv [OF _ calm_wakeup1])

lemma calm_kill: "calm s (snd (kill pid s))"
proof (cases "find_idx (\<lambda>p. m_pid p = pid) (procs s)")
  case None
  then show ?thesis by (simp add: kill_def calm_core)
next
  case (Some k)
  from find_idx_SomeD [OF Some] have "k < length (procs s)" by simp
  with Some show ?thesis
    by (auto simp: kill_def calm_def procs_upd_proc nth_list_update waiting_def)
qed

lemma inv_kill: "sched_inv s \<Longrightarrow> kill pid s = (r, s') \<Longrightarrow> sched_inv s'"
  using calm_inv [OF _ calm_kill [of s pid]] by simp

lemma inv_timer: "sched_inv s \<Longrightarrow> sched_inv (timer_irq c s)"
proof -
  let ?t = "s\<lparr>ticks := wrap32 (ticks s + 1), global_ticks := wrap32 (global_ticks s + 1)\<rparr>"
  have "core ?t = core s" by (simp add: core_def states_def)
  then show "sched_inv s \<Longrightarrow> sched_inv (timer_irq c s)"
    using sched_inv_core [of ?t s] inv_wakeup [of ?t] by (simp add: timer_irq_def)
qed

lemma inv_grow: "sched_inv s \<Longrightarrow> growproc al de n i s = Inr (r, s') \<Longrightarrow> sched_inv s'"
proof -
  assume inv: "sched_inv s" and g: "growproc al de n i s = Inr (r, s')"
  have "\<exists>x. s' = s \<or> s' = upd_proc (int i) (\<lambda>p. p\<lparr>m_sz := x\<rparr>) s"
    using g by (auto simp: growproc_def Let_def res_simps split: if_splits)
  then have "core s' = core s" by (auto simp: core_upd_proc)
  then show "sched_inv s'" using inv sched_inv_core by blast
qed

lemma inv_exit:
  assumes inv: "sched_inv s" and cur: "on_cpu s = Some i" and e: "exit i s = Inr s'"
  shows "sched_inv s'"
proof -
  obtain s1 where c: "close_files (m_ofile (procs s ! i)) s = Inr s1"
    using e by (auto simp: exit_def res_simps)
  obtain ip where w: "m_cwd (procs s1 ! i) = Some ip"
    using e c by (auto simp: exit_def res_simps split: option.splits)
  define s2 where "s2 = upd_proc (int i) (\<lambda>p. p\<lparr>m_ofile := map (\<lambda>_. None) (m_ofile p), m_cwd := None\<rparr>) (iput ip s1)"
  define s4 where "s4 = reparent i [0..<length (procs (wakeup1 (map_option ChSlot (m_parent (procs s2 ! i))) s2))]
      (wakeup1 (map_option ChSlot (m_parent (procs s2 ! i))) s2)"
  have "core s1 = core s" using core_close_files [OF c] by simp
  then have "core s2 = core s" by (simp add: s2_def core_upd_proc) (simp add: iput_def core_def states_def)
  then have calm: "calm s s4"
    unfolding s4_def using calm_trans [OF calm_trans [OF calm_core calm_wakeup1] calm_reparent] by blast
  have inv4: "sched_inv s4" by (rule calm_inv [OF inv calm])
  have cur4: "on_cpu s4 = Some i" using calm cur by (simp add: calm_def on_cpu_def)
  let ?s5 = "upd_proc (int i) (\<lambda>p. p\<lparr>m_state := ZOMBIE\<rparr>) s4"
  let ?s6 = "if scheduler_dictator s4 = int i then ?s5\<lparr>is_dictated := False, scheduler_dictator := -1\<rparr> else ?s5"
  have "sched i ?s6 = Inr s'"
    using e c w unfolding exit_def s2_def s4_def by (simp add: res_simps Let_def split: if_splits)
  then have s': "s' = ?s6" by (rule inv_sched)
  note D = sched_invD [OF inv4]
  show ?thesis
  proof (cases "scheduler_dictator s4 = int i")
    case False
    have "dict s4 \<noteq> Some i" using False inv4 by (auto simp: dict_def sched_inv_def split: if_splits)
    then show ?thesis using inv_set_cur [OF inv4 cur4] False by (simp add: s')
  next
    case True
    have "view_ok (qcount s4) (states s4) (Some i) None"
      by (rule view_free [of _ _ _ "dict s4"]) (use D(4) cur4 in simp)
    then have v: "view_ok (qcount s4) ((states s4)[i := ZOMBIE]) (Some i) None"
      by (rule view_cur) simp_all
    let ?t = "?s5\<lparr>is_dictated := False, scheduler_dictator := -1\<rparr>"
    have "qcount ?t = qcount s4" "states ?t = (states s4)[i := ZOMBIE]" "on_cpu ?t = Some i" "dict ?t = None"
      "queue_mset ?t = queue_mset s4" "queues_good ?t = queues_good s4" "running ?t = running s4"
      "\<not> is_dictated ?t" "scheduler_dictator ?t = -1"
      using cur4 by (simp_all add: qcount_def fun_eq_iff queue_mset_def levels_def states_def upd_proc_def
          map_update on_cpu_def dict_def queues_good_def)
    then show ?thesis using True inv4 v by (simp add: s' sched_inv_def)
  qed
qed

lemma view_idle:
  assumes v: "view_ok c st (Some r) d" and z: "st ! k = ZOMBIE" "k < NPROC" "k \<noteq> r"
  shows "view_ok c (st[k := UNUSED]) (Some r) d"
proof -
  have l: "length st = NPROC" using v by (simp add: view_ok_def)
  have "slot_ok (c j) (st[k := UNUSED] ! j) (Some r = Some j) (d = Some j)" if "j < NPROC" for j
    using view_slot [OF v that] z l by (cases "j = k") (auto simp: slot_ok_def waiting_def)
  then show ?thesis using v by (auto simp: view_ok_def split: option.splits)
qed

lemma inv_wait:
  assumes inv: "sched_inv s" and cur: "cur_runs s i" and w: "wait i s = Inr (r, s')"
  shows "sched_inv s'"
proof (cases "find_idx (\<lambda>p. m_parent p = Some i \<and> m_state p = ZOMBIE) (procs s)")
  case None
  then show ?thesis using w inv inv_sleep [OF inv] cur
    by (auto simp: wait_def res_simps cur_runs_def split: if_splits)
next
  case (Some k)
  note D = sched_invD [OF inv]
  from find_idx_SomeD [OF Some] have k: "k < NPROC" "m_state (procs s ! k) = ZOMBIE"
    using D(5) by auto
  then have z: "states s ! k = ZOMBIE" "k \<noteq> i"
    using D(5) cur by (auto simp: states_def cur_runs_def)
  have "view_ok (qcount s) ((states s)[k := UNUSED]) (on_cpu s) (dict s)"
    using view_idle [of "qcount s" "states s" i "dict s" k] D(4) cur z k by (simp add: cur_runs_def)
  moreover have s': "s' = upd_proc (int k) (\<lambda>p. p\<lparr>m_kstack := 0, m_pid := 0, m_parent := None,
                 m_name := [], m_killed := False, m_state := UNUSED\<rparr>) s"
    using w Some by (simp add: wait_def)
  ultimately show ?thesis
    using sched_inv_states [OF inv, of s'] by (simp add: states_upd_proc)
qed

lemma allocproc_cases:
  assumes "allocproc kst s = (r, s1)"
  obtains "r = None" "mlfq s1 = mlfq s" "running s1 = running s" "is_dictated s1 = is_dictated s"
      "scheduler_dictator s1 = scheduler_dictator s" "states s1 = states s"
  | i where "r = Some i" "i < length (procs s)" "m_state (procs s ! i) = UNUSED"
      "mlfq s1 = mlfq s" "running s1 = running s" "is_dictated s1 = is_dictated s"
      "scheduler_dictator s1 = scheduler_dictator s" "states s1 = (states s)[i := EMBRYO]"
proof (cases "find_idx (\<lambda>p. m_state p = UNUSED) (procs s)")
  case None
  then show ?thesis using assms that(1) by (auto simp: allocproc_def)
next
  case (Some i)
  from find_idx_SomeD [OF Some] have i: "i < length (procs s)" "m_state (procs s ! i) = UNUSED" by auto
  have same: "(states s)[i := UNUSED] = states s"
    using i by (metis list_update_id length_map nth_map states_def)
  show ?thesis
  proof (cases kst)
    case None
    show ?thesis by (rule that(1))
      (use None assms i Some same in \<open>auto simp: allocproc_def Let_def states_def procs_upd_proc map_update\<close>)
  next
    case (Some k)
    show ?thesis by (rule that(2) [OF _ i])
      (use Some assms i \<open>find_idx _ _ = _\<close> in \<open>auto simp: allocproc_def Let_def states_def procs_upd_proc map_update\<close>)
  qed
qed

text \<open>Putting the new process into level 0.\<close>

lemma inv_start:
  assumes inv: "sched_inv s" and cur: "on_cpu s = Some r" and np: "np < NPROC" "states s ! np = UNUSED"
    and eq: "mlfq s3 = mlfq s" "running s3 = running s" "is_dictated s3 = is_dictated s"
      "scheduler_dictator s3 = scheduler_dictator s" "states s3 = (states s)[np := EMBRYO]"
  shows "sched_inv (start_in_L0 np s3)"
proof -
  note D = sched_invD [OF inv]
  let ?u = "upd_proc (int np) (\<lambda>p. p\<lparr>m_state := RUNNABLE, m_priority := 3, m_qlv := 0, m_tq := 0\<rparr>) s3"
  have qm: "queue_mset ?u = queue_mset s" using eq(1) by (simp add: queue_mset_def levels_def)
  have g: "queues_good ?u" using D(1) eq(1) by (simp add: queues_good_def)
  have room: "size (queue_mset ?u) < 64"
    unfolding qm by (rule sched_inv_room(2) [OF inv np(1)]) (simp add: np waiting_def)
  note e = enQ_mset [OF g _ room, of 0 "int np", simplified]
  have st: "states ?u = (states s)[np := RUNNABLE]" by (simp add: states_upd_proc eq)
  have nr: "np \<noteq> r" using view_slot [OF D(4) np(1)] np(2) cur by (auto simp: slot_ok_def)
  have "view_ok ((qcount s)(np := Suc (qcount s np))) ((states s)[np := RUNNABLE]) (on_cpu s) (dict s)"
    using view_start [of "qcount s" "states s" r "dict s" np] D(4) cur np nr by simp
  moreover have "qcount (start_in_L0 np s3) = (qcount s)(np := Suc (qcount s np))"
    using e(1) qm by (auto simp: qcount_def fun_eq_iff start_in_L0_def)
  moreover have "states (start_in_L0 np s3) = (states s)[np := RUNNABLE]"
    "on_cpu (start_in_L0 np s3) = on_cpu s" "dict (start_in_L0 np s3) = dict s"
    using at_levels_view [OF e(2)] st eq by (simp_all add: start_in_L0_def on_cpu_def dict_def)
  moreover have "queue_mset (start_in_L0 np s3) = add_mset (int np) (queue_mset s)"
    using e(1) qm by (simp add: start_in_L0_def)
  moreover have "queues_good (start_in_L0 np s3)" "running (start_in_L0 np s3) = running s"
    "is_dictated (start_in_L0 np s3) = is_dictated s"
    "scheduler_dictator (start_in_L0 np s3) = scheduler_dictator s"
    using at_levelsD [OF e(2)] eq by (simp_all add: start_in_L0_def)
  ultimately show ?thesis using inv np(1) by (auto simp: sched_inv_def)
qed

lemma inv_fork:
  assumes inv: "sched_inv s" and cur: "on_cpu s = Some i" and f: "fork kst pgd i s = Inr (r, s')"
  shows "sched_inv s'"
proof -
  obtain a s1 where al: "allocproc kst s = (a, s1)" by force
  show ?thesis
  proof (rule allocproc_cases [OF al])
    assume "a = None" "mlfq s1 = mlfq s" "running s1 = running s" "is_dictated s1 = is_dictated s"
      "scheduler_dictator s1 = scheduler_dictator s" "states s1 = states s"
    then have "s' = s1" "core s1 = core s" using f al by (simp_all add: fork_def core_def)
    then show ?thesis using inv sched_inv_core by blast
  next
    fix np assume h: "a = Some np" "np < length (procs s)" "m_state (procs s ! np) = UNUSED"
      "mlfq s1 = mlfq s" "running s1 = running s" "is_dictated s1 = is_dictated s"
      "scheduler_dictator s1 = scheduler_dictator s" "states s1 = (states s)[np := EMBRYO]"
    have u: "states s ! np = UNUSED" "np < NPROC" using h sched_invD(5) [OF inv] by (simp_all add: states_def)
    show ?thesis
    proof (cases pgd)
      case None
      have "(states s)[np := UNUSED] = states s" using u(1) by (metis list_update_id)
      then have "core s' = core s" using f al h None by (auto simp: fork_def core_def states_upd_proc)
      then show ?thesis using inv sched_inv_core by blast
    next
      case (Some d)
      let ?par = "procs s1 ! i"
      obtain s2 where s2: "dup_files (m_ofile ?par) s1 = Inr s2" using f al h(1) Some
        by (auto simp: fork_def res_simps Let_def)
      obtain ip where ip: "m_cwd ?par = Some ip" using f al h(1) Some s2
        by (auto simp: fork_def res_simps Let_def split: option.splits)
      define s3 where "s3 = upd_proc (int np) (\<lambda>p. p\<lparr>m_pgdir := d, m_sz := m_sz ?par,
          m_parent := Some i, m_tf := (m_tf ?par)\<lparr>tf_eax := 0\<rparr>,
          m_ofile := inherit (m_ofile ?par) (m_ofile p), m_cwd := Some ip,
          m_name := safestr (m_name ?par) 16\<rparr>) (idup ip s2)"
      have s': "s' = start_in_L0 np s3" using f al h(1) Some s2 ip by (simp add: fork_def Let_def s3_def)
      have "core (idup ip s2) = core s1" using core_dup_files [OF s2] by (simp add: core_def idup_def states_def)
      then have "core s3 = core s1" by (simp add: s3_def core_upd_proc)
      then show ?thesis unfolding s'
        by (intro inv_start [OF inv cur u(2,1)]) (use h in \<open>simp_all add: core_def\<close>)
    qed
  qed
qed

text \<open>The search of \<open>setPriority\<close>: the first entry with the pid, and the level rotated.\<close>

lemma find_pid_level_at:
  assumes "queues_good s" "lv < 3" "n \<le> length (level s lv)"
  shows "case find_idx (\<lambda>i. m_pid (proc_at s i) = pid) (take n (level s lv)) of
      Some k \<Rightarrow> \<exists>s'. find_pid_level lv pid n cur s = (True, level s lv ! k, s') \<and>
        at_levels s ((levels s)[lv := rotate (Suc k) (level s lv)]) s'
    | None \<Rightarrow> \<exists>s' c. find_pid_level lv pid n cur s = (False, c, s') \<and>
        at_levels s ((levels s)[lv := rotate n (level s lv)]) s'"
  using assms
proof (induction n arbitrary: s cur)
  case 0
  then show ?case using at_levels_same by simp
next
  case (Suc n)
  then obtain x xs where l: "level s lv = x # xs" by (cases "level s lv") auto
  obtain y s1 where d: "deQ lv s = (y, s1)" by force
  let ?s2 = "snd (enQ lv x s1)"
  have y: "y = x" and a: "at_levels s ((levels s)[lv := xs @ [x]]) ?s2"
    using deQ_enQ_at [OF Suc.prems(1,2) l d] by auto
  have l2: "level ?s2 lv = xs @ [x]" by (rule at_levels_level [OF a Suc.prems(1,2)])
  have n: "n \<le> length xs" using Suc.prems(3) l by simp
  show ?case
  proof (cases "m_pid (proc_at s x) = pid")
    case True
    then show ?thesis using d y a l at_levels_procs(2) [OF a] by auto
  next
    case False
    have ih: "case find_idx (\<lambda>i. m_pid (proc_at s i) = pid) (take n xs) of
        Some k \<Rightarrow> \<exists>s'. find_pid_level lv pid n x ?s2 = (True, xs ! k, s') \<and>
          at_levels ?s2 ((levels ?s2)[lv := rotate (Suc k) (xs @ [x])]) s'
      | None \<Rightarrow> \<exists>s' c. find_pid_level lv pid n x ?s2 = (False, c, s') \<and>
          at_levels ?s2 ((levels ?s2)[lv := rotate n (xs @ [x])]) s'"
      using Suc.IH [of ?s2 x] at_levelsD(1) [OF a] Suc.prems(2) n l2 at_levels_procs(2) [OF a]
        find_idx_SomeD [of "\<lambda>i. m_pid (proc_at s i) = pid" "take n xs"]
      by (fastforce simp: nth_append split: option.splits)
    have e: "find_pid_level lv pid (Suc n) cur s = find_pid_level lv pid n x ?s2"
      using d y False at_levels_procs(2) [OF a] by simp
    have r: "rotate m (xs @ [x]) = rotate (Suc m) (level s lv)" for m
      by (simp add: l rotate1_rotate_swap)
    have up: "(levels ?s2)[lv := ys] = (levels s)[lv := ys]" for ys
      using at_levelsD(2) [OF a] by simp
    show ?thesis
    proof (cases "find_idx (\<lambda>i. m_pid (proc_at s i) = pid) (take n xs)")
      case None
      then show ?thesis using ih False l e at_levels_trans [OF a] unfolding r up by fastforce
    next
      case (Some k)
      then show ?thesis using ih False l e at_levels_trans [OF a] unfolding r up by fastforce
    qed
  qed
qed

lemma find_idx_append:
  "find_idx P (xs @ ys) = (case find_idx P xs of Some k \<Rightarrow> Some k
     | None \<Rightarrow> map_option (\<lambda>k. length xs + k) (find_idx P ys))"
proof (induction xs)
  case Nil
  then show ?case by (cases "find_idx P ys") simp_all
next
  case (Cons x xs)
  then show ?case by (cases "find_idx P ys") (auto split: option.splits)
qed

text \<open>A level replaced by a permutation of itself: nothing else differs.\<close>

definition shuffled :: "kern \<Rightarrow> nat list \<Rightarrow> kern \<Rightarrow> bool" where
  "shuffled s lvs s' \<longleftrightarrow> (\<exists>L. at_levels s L s') \<and> queue_mset s' = queue_mset s \<and>
     (\<forall>lv<3. mset (level s' lv) = mset (level s lv)) \<and>
     (\<forall>lv<3. lv \<notin> set lvs \<longrightarrow> level s' lv = level s lv)"

lemma mset_rotate1: "mset (rotate1 xs) = mset xs"
  by (cases xs) simp_all

lemma shuffled_rotate:
  assumes "queues_good s" "lv < 3" "at_levels s ((levels s)[lv := rotate n (level s lv)]) s'"
  shows "shuffled s [lv] s'"
proof -
  have l: "level s' lv = rotate n (level s lv)" by (rule at_levels_level [OF assms(3,1,2)])
  have o: "level s' k = level s k" if "k < 3" "k \<noteq> lv" for k
    using levels_nth [OF assms(1) that(1)] levels_nth [OF at_levelsD(1) [OF assms(3)] that(1)]
      at_levelsD(2) [OF assms(3)] that(2) by simp
  have m: "mset (rotate n xs) = mset xs" for xs :: "int list"
    by (induction n) (simp_all add: mset_rotate1)
  have "mset (level s' k) = mset (level s k)" if "k < 3" for k
    using l m o [OF that] by (cases "k = lv") simp_all
  then show ?thesis unfolding shuffled_def
    using assms(3) at_levels_mset [OF assms(3,1,2)] m o by auto
qed

lemma shuffled_trans: "shuffled s ls t \<Longrightarrow> shuffled t ls' u \<Longrightarrow> shuffled s (ls @ ls') u"
  unfolding shuffled_def using at_levels_trans by (metis Un_iff set_append)

lemma shuffledD:
  assumes "shuffled s ls s'"
  shows "queues_good s'" "procs s' = procs s" "proc_at s' = proc_at s" "queue_mset s' = queue_mset s"
    "console s' = console s"
proof -
  obtain L where a: "at_levels s L s'" and q: "queue_mset s' = queue_mset s"
    using assms unfolding shuffled_def by blast
  show "queues_good s'" "procs s' = procs s" "console s' = console s" using at_levelsD [OF a] by simp_all
  show "proc_at s' = proc_at s" by (rule at_levels_procs(2) [OF a])
  show "queue_mset s' = queue_mset s" by (rule q)
qed

lemma find_pid_at:
  assumes "queues_good s" "\<forall>lv\<in>set lvs. lv < 3" "distinct lvs" "lvs \<noteq> []"
  shows "case find_idx (\<lambda>i. m_pid (proc_at s i) = pid) (concat (map (level s) lvs)) of
      Some k \<Rightarrow> \<exists>s'. find_pid lvs pid cur s = (True, concat (map (level s) lvs) ! k, s') \<and> shuffled s lvs s'
    | None \<Rightarrow> \<exists>s' c. find_pid lvs pid cur s = (False, c, s') \<and> shuffled s lvs s'"
  using assms
proof (induction lvs arbitrary: s cur)
  case Nil
  then show ?case by simp
next
  case (Cons lv lvs)
  let ?P = "\<lambda>i. m_pid (proc_at s i) = pid"
  have lv: "lv < 3" using Cons.prems(2) by simp
  have sz: "qsize (mlfq s ! lv) = length (level s lv)" by (simp add: level_def)
  have h: "case find_idx ?P (level s lv) of
      Some k \<Rightarrow> \<exists>s'. find_pid_level lv pid (length (level s lv)) cur s = (True, level s lv ! k, s') \<and>
        at_levels s ((levels s)[lv := rotate (Suc k) (level s lv)]) s'
    | None \<Rightarrow> \<exists>s' c. find_pid_level lv pid (length (level s lv)) cur s = (False, c, s') \<and>
        at_levels s ((levels s)[lv := rotate (length (level s lv)) (level s lv)]) s'"
    using find_pid_level_at [OF Cons.prems(1) lv order_refl, of pid cur] by simp
  show ?case
  proof (cases "find_idx ?P (level s lv)")
    case (Some k)
    with h obtain s' where f: "find_pid_level lv pid (length (level s lv)) cur s = (True, level s lv ! k, s')"
        "at_levels s ((levels s)[lv := rotate (Suc k) (level s lv)]) s'" by auto
    have "shuffled s (lv # lvs) s'"
      using shuffled_rotate [OF Cons.prems(1) lv f(2)] by (auto simp: shuffled_def)
    then show ?thesis using f(1) Some find_idx_SomeD [OF Some]
      by (auto simp: find_idx_append sz nth_append)
  next
    case None
    with h obtain s1 c where f: "find_pid_level lv pid (length (level s lv)) cur s = (False, c, s1)"
        "at_levels s ((levels s)[lv := rotate (length (level s lv)) (level s lv)]) s1" by auto
    have sh: "shuffled s [lv] s1" by (rule shuffled_rotate [OF Cons.prems(1) lv f(2)])
    have e: "find_pid (lv # lvs) pid cur s = find_pid lvs pid c s1" using f(1) by (simp add: sz)
    show ?thesis
    proof (cases "lvs = []")
      case True
      then show ?thesis using None sh e by (simp add: find_idx_append)
    next
      case False
      have same: "map (level s1) lvs = map (level s) lvs"
        using sh Cons.prems(2,3) by (auto simp: shuffled_def)
      have "case find_idx ?P (concat (map (level s) lvs)) of
          Some k \<Rightarrow> \<exists>s'. find_pid lvs pid c s1 = (True, concat (map (level s) lvs) ! k, s') \<and> shuffled s1 lvs s'
        | None \<Rightarrow> \<exists>s' c'. find_pid lvs pid c s1 = (False, c', s') \<and> shuffled s1 lvs s'"
        using Cons.IH [OF shuffledD(1) [OF sh] _ _ False, of c] Cons.prems(2,3)
        unfolding same shuffledD(3) [OF sh] by simp
      then show ?thesis
        using None e shuffled_trans [OF sh]
        by (auto simp: find_idx_append nth_append split: option.splits)
    qed
  qed
qed

lemma shuffled_inv: "sched_inv s \<Longrightarrow> shuffled s lvs s' \<Longrightarrow> sched_inv s'"
  using inv_at_levels by (auto simp: shuffled_def)

lemma find_pid_shuffled:
  "queues_good s \<Longrightarrow> find_pid [0, 1, 2] pid cur s = (b, i, s') \<Longrightarrow> shuffled s [0, 1, 2] s'"
  using find_pid_at [of s "[0, 1, 2]" pid cur] by (auto split: option.splits)

lemma inv_prio:
  assumes "sched_inv s"
  shows "sched_inv (setPriority pid p s)"
proof -
  obtain b i s1 where f: "find_pid [0, 1, 2] pid (-1) s = (b, i, s1)" by (cases "find_pid [0, 1, 2] pid (-1) s") auto
  have inv1: "sched_inv s1"
    using shuffled_inv [OF assms find_pid_shuffled [OF sched_invD(1) [OF assms] f]] .
  have "core (setPriority pid p s) = core s1"
    using f by (auto simp: setPriority_def core_upd_proc cprintf_def) (simp_all add: core_def states_def)
  then show ?thesis using sched_inv_core inv1 by blast
qed

subsection \<open>Locking the scheduler\<close>

lemma inv_free:
  assumes inv: "sched_inv s" and cur: "on_cpu s = Some i"
  shows "sched_inv (s\<lparr>scheduler_dictator := -1, is_dictated := False\<rparr>)" (is "sched_inv ?t")
proof -
  have "view_ok (qcount s) (states s) (Some i) None"
    by (rule view_free [of _ _ _ "dict s"]) (use sched_invD(4) [OF inv] cur in simp)
  moreover have "qcount ?t = qcount s" "states ?t = states s" "on_cpu ?t = on_cpu s" "dict ?t = None"
    "queue_mset ?t = queue_mset s" "queues_good ?t = queues_good s"
    by (simp_all add: qcount_def fun_eq_iff queue_mset_def levels_def states_def on_cpu_def dict_def queues_good_def)
  ultimately show ?thesis using inv cur by (simp add: sched_inv_def)
qed

lemma inv_report: "sched_inv s \<Longrightarrow> sched_inv (report i s)" "on_cpu (report i s) = on_cpu s"
  using sched_inv_core [of "report i s" s] by (simp_all add: report_def cprintf_def core_def states_def on_cpu_def)

lemma inv_lock:
  assumes inv: "sched_inv s" and cur: "cur_runs s i" and l: "schedulerLock pw i s = Inr (e, s')"
  shows "sched_inv s'"
proof (cases "is_dictated s \<or> pw \<noteq> PASSWORD")
  case True
  have c: "on_cpu s = Some i" using cur by (simp add: cur_runs_def)
  have "sched_inv (report i s)" "on_cpu (report i s) = Some i" using inv_report(1) [OF inv, of i] inv_report(2) [of i s] c by simp_all
  moreover from this have "sched_inv ((report i s)\<lparr>scheduler_dictator := -1, is_dictated := False\<rparr>)"
     "on_cpu ((report i s)\<lparr>scheduler_dictator := -1, is_dictated := False\<rparr>) = Some i"
    using inv_free by (auto simp: on_cpu_def)
  ultimately show ?thesis using l True inv_exit
    by (auto simp: schedulerLock_def res_simps split: if_splits)
next
  case False
  let ?t = "s\<lparr>global_ticks := 0, scheduler_dictator := int i, is_dictated := True\<rparr>"
  note D = sched_invD [OF inv]
  have c: "on_cpu s = Some i" and i: "i < NPROC" using cur D(7) by (auto simp: cur_runs_def)
  have z: "states s ! i \<noteq> ZOMBIE" using cur D(5) i by (simp add: cur_runs_def states_def)
  have "view_ok (qcount s) (states s) (Some i) (Some i)"
    by (rule view_lock) (use D(4) c z False in \<open>simp_all add: dict_def\<close>)
  moreover have "qcount ?t = qcount s" "states ?t = states s" "on_cpu ?t = on_cpu s" "dict ?t = Some i"
    "queue_mset ?t = queue_mset s" "queues_good ?t = queues_good s"
    by (simp_all add: qcount_def fun_eq_iff queue_mset_def levels_def states_def on_cpu_def dict_def queues_good_def)
  ultimately have inv': "sched_inv ?t" using inv c by (simp add: sched_inv_def)
  have "core s' = core ?t" using l False by (auto simp: schedulerLock_def core_upd_proc)
  then show ?thesis using inv' sched_inv_core by blast
qed

section \<open>Reachable states\<close>

lemma kstep_inv:
  assumes "kstep s s'" "sched_inv s"
  shows "sched_inv s'"
  using assms
proof cases
  case (pick b) then show ?thesis using inv_pick assms(2) by blast
next
  case (feedback i) then show ?thesis using inv_feedback assms(2) by blast
next
  case (fork i kst pgd r) then show ?thesis using inv_fork assms(2) by (auto simp: cur_runs_def)
next
  case (exit i) then show ?thesis using inv_exit assms(2) by (auto simp: cur_runs_def)
next
  case (wait i w) then show ?thesis using inv_wait assms(2) by blast
next
  case (yield i) then show ?thesis using inv_yield assms(2) by (auto simp: cur_runs_def)
next
  case (sleep i ch) then show ?thesis using inv_sleep assms(2) by (auto simp: cur_runs_def)
next
  case (resume i) then show ?thesis using inv_sleep_end assms(2) by simp
next
  case (wakeup ch) then show ?thesis using inv_wakeup assms(2) by simp
next
  case (kill i pid r) then show ?thesis using inv_kill assms(2) by blast
next
  case (prio i pid p) then show ?thesis using inv_prio assms(2) by simp
next
  case (grow i al de n r) then show ?thesis using inv_grow assms(2) by blast
next
  case (lock i pw e) then show ?thesis using inv_lock assms(2) by blast
next
  case timer then show ?thesis using inv_timer assms(2) by simp
qed

lemma kreach_inv: "kreach s t \<Longrightarrow> sched_inv s \<Longrightarrow> sched_inv t"
  by (induction rule: kreach.induct) (auto intro: kstep_inv)

end
