(* ===== verification/Mlfq_Props.thy ===== *)
theory Mlfq_Props
  imports Mlfq_Steps
begin

text \<open>
  The properties of the Project01-MLFQ scheduler and of its process management, each with
  an instance on a concrete kernel. \<open>kern_zero\<close> is the kernel before \<open>userinit\<close>: an empty
  process table and zeroed queues.
\<close>

section \<open>Concrete kernels\<close>

definition zero_proc :: mproc where
  "zero_proc = \<lparr>m_sz = 0, m_pgdir = 0, m_kstack = 0, m_state = UNUSED, m_pid = 0, m_parent = None,
     m_tf = tf_zero, m_context = Saved, m_chan = None, m_killed = False,
     m_ofile = replicate NOFILE None, m_cwd = None, m_priority = 0, m_qlv = 0, m_tq = 0, m_name = []\<rparr>"

definition kern_zero :: kern where
  "kern_zero = \<lparr>procs = replicate NPROC zero_proc, mlfq = replicate 3 fq_zero, nextpid = 1,
     global_ticks = 0, ticks = 0, scheduler_dictator = -1, is_dictated = False, initproc = 0,
     running = [None], file_ref = (\<lambda>_. 0), inode_ref = (\<lambda>_. 1), console = []\<rparr>"

text \<open>A kernel that holds the given processes at the front of its table, and the given queues.\<close>

definition queue_of :: "int list \<Rightarrow> fq" where
  "queue_of xs = fold fq_enq xs fq_zero"

definition kern_with :: "mproc list \<Rightarrow> int list list \<Rightarrow> kern" where
  "kern_with ps L = kern_zero\<lparr>procs := ps @ replicate (NPROC - length ps) zero_proc,
     mlfq := map queue_of L\<rparr>"

definition a_proc :: "int \<Rightarrow> procstate \<Rightarrow> int \<Rightarrow> nat \<Rightarrow> mproc" where
  "a_proc pid st prio tq = zero_proc\<lparr>m_pid := pid, m_state := st, m_priority := prio, m_tq := tq,
     m_kstack := 1, m_pgdir := 1, m_cwd := Some 1\<rparr>"

lemma queue_of_fold:
  "fq_good q \<Longrightarrow> length (fq_elems q) + length xs \<le> 64 \<Longrightarrow>
   fq_good (fold fq_enq xs q) \<and> fq_elems (fold fq_enq xs q) = fq_elems q @ xs"
proof (induction xs arbitrary: q)
  case Nil
  then show ?case by simp
next
  case (Cons x xs)
  have "fq_good (fq_enq x q)" "fq_elems (fq_enq x q) = fq_elems q @ [x]"
    using level_queue.enq_good [of q x] level_queue.enq_elems [of q x] Cons.prems
    by (simp_all del: length_fq_elems)
  then show ?case using Cons.IH [of "fq_enq x q"] Cons.prems by (simp del: length_fq_elems)
qed

lemma queue_of: "length xs \<le> 64 \<Longrightarrow> fq_good (queue_of xs) \<and> fq_elems (queue_of xs) = xs"
  using queue_of_fold [of fq_zero xs] fq_zero_good by (simp add: queue_of_def del: length_fq_elems)

lemma kern_with_queues:
  assumes "length L = 3" "\<forall>xs\<in>set L. length xs \<le> 64"
  shows "queues_good (kern_with ps L)" "levels (kern_with ps L) = L"
    "lv < 3 \<Longrightarrow> level (kern_with ps L) lv = L ! lv"
proof -
  show "queues_good (kern_with ps L)" using assms queue_of by (auto simp: queues_good_def kern_with_def)
  have "map fq_elems (map queue_of L) = L" using assms(2) queue_of by (simp add: map_idI o_def)
  then show "levels (kern_with ps L) = L" by (simp add: levels_def kern_with_def)
  show "lv < 3 \<Longrightarrow> level (kern_with ps L) lv = L ! lv"
    using assms queue_of by (simp add: level_def kern_with_def)
qed

lemma kern_with_queues3 [simp]:
  assumes "length a \<le> 64" "length b \<le> 64" "length c \<le> 64"
  shows "queues_good (kern_with ps [a, b, c])" "levels (kern_with ps [a, b, c]) = [a, b, c]"
    "level (kern_with ps [a, b, c]) 0 = a" "level (kern_with ps [a, b, c]) (Suc 0) = b"
    "level (kern_with ps [a, b, c]) 2 = c" "queued (kern_with ps [a, b, c]) = a @ b @ c"
    "queue_mset (kern_with ps [a, b, c]) = mset (a @ b @ c)"
  using kern_with_queues [where L = "[a, b, c]" and ps = ps] assms by (simp_all add: queued_def queue_mset_def)

lemma kern_with_fields [simp]:
  "running (kern_with ps L) = [None]" "is_dictated (kern_with ps L) = False"
  "scheduler_dictator (kern_with ps L) = -1" "global_ticks (kern_with ps L) = 0"
  "initproc (kern_with ps L) = 0" "nextpid (kern_with ps L) = 1" "console (kern_with ps L) = []"
  "file_ref (kern_with ps L) = (\<lambda>_. 0)" "inode_ref (kern_with ps L) = (\<lambda>_. 1)"
  "length ps \<le> 64 \<Longrightarrow> length (procs (kern_with ps L)) = 64"
  "i < length ps \<Longrightarrow> procs (kern_with ps L) ! i = ps ! i"
  by (simp_all add: kern_with_def kern_zero_def nth_append)

section \<open>The state machine\<close>

lemma inv_zero: "queues_good kern_zero" "levels kern_zero = [[], [], []]" "length (running kern_zero) = 1"
  "states kern_zero = replicate NPROC UNUSED" "on_cpu kern_zero = None" "dict kern_zero = None"
  by (auto simp: queues_good_def kern_zero_def fq_zero_good levels_def states_def zero_proc_def
      on_cpu_def dict_def numeral_3_eq_3)

lemma inv_userinit:
  assumes "userinit kst pgd root kern_zero = Inr s"
  shows "sched_inv s"
proof -
  obtain a s1 where al: "allocproc kst kern_zero = (a, s1)" by force
  show ?thesis
  proof (rule allocproc_cases [OF al])
    assume "a = None"
    then show ?thesis using assms al by (simp add: userinit_def)
  next
    fix i assume a: "a = Some i" "i < length (procs kern_zero)" "m_state (procs kern_zero ! i) = UNUSED"
      "mlfq s1 = mlfq kern_zero" "running s1 = running kern_zero" "is_dictated s1 = is_dictated kern_zero"
      "scheduler_dictator s1 = scheduler_dictator kern_zero" "states s1 = (states kern_zero)[i := EMBRYO]"
    obtain d where d: "pgd = Some d" using assms al a(1) by (auto simp: userinit_def split: option.splits)
    define s3 where "s3 = (upd_proc (int i) (\<lambda>p. p\<lparr>m_pgdir := d, m_sz := PGSIZE,
                      m_tf := tf_zero\<lparr>tf_cs := 27, tf_ds := 35, tf_es := 35, tf_ss := 35,
                                       tf_eflags := 512, tf_esp := PGSIZE, tf_eip := 0\<rparr>,
                      m_name := safestr ''initcode'' 16, m_cwd := Some root\<rparr>) s1)
                    \<lparr>initproc := i\<rparr>"
    have s: "s = start_in_L0 i s3" using assms al a(1) d by (simp add: userinit_def s3_def)
    have "core s3 = core s1" unfolding s3_def
      by (simp add: core_def states_def upd_proc_def map_update_idem)
    then have c: "mlfq s3 = mlfq kern_zero" "running s3 = [None]" "\<not> is_dictated s3"
      "scheduler_dictator s3 = -1" "states s3 = (replicate NPROC UNUSED)[i := EMBRYO]"
      using a inv_zero by (simp_all add: core_def kern_zero_def)
    let ?u = "upd_proc (int i) (\<lambda>p. p\<lparr>m_state := RUNNABLE, m_priority := 3, m_qlv := 0, m_tq := 0\<rparr>) s3"
    have q: "queue_mset ?u = {#}" "queues_good ?u"
      using c(1) inv_zero(1,2) by (simp_all add: queue_mset_def levels_def queues_good_def)
    have st: "states ?u = (replicate NPROC UNUSED)[i := RUNNABLE]" by (simp add: states_upd_proc c)
    have e: "queue_mset (snd (enQ 0 (int i) ?u)) = {#int i#}"
      "at_levels ?u ((levels ?u)[0 := level ?u 0 @ [int i]]) (snd (enQ 0 (int i) ?u))"
      using enQ_mset [OF q(2), of 0 "int i"] q(1) by simp_all
    have i: "i < NPROC" using a(2) by (simp add: kern_zero_def)
    have "view_ok (qcount s) ((replicate NPROC UNUSED)[i := RUNNABLE]) None None"
      using i by (auto simp: view_ok_def slot_ok_def qcount_def s start_in_L0_def e(1)
          nth_list_update waiting_def)
    moreover have "states s = (replicate NPROC UNUSED)[i := RUNNABLE]" "on_cpu s = None" "dict s = None"
      using at_levels_view [OF e(2)] st c by (simp_all add: s start_in_L0_def on_cpu_def dict_def)
    ultimately show ?thesis
      using at_levelsD [OF e(2)] e(1) c i by (simp add: sched_inv_def s start_in_L0_def)
  qed
qed


text \<open>The first process started, picked, and back in the queue after a \<open>yield\<close>.\<close>

definition booted :: kern where
  "booted = projr (userinit (Some 1) (Some 1) 1 kern_zero)"

definition picked :: kern where "picked = snd (projr (sched_pick 0 booted))"
definition yielded :: kern where "yielded = projr (yield 0 picked)"

lemma booted: "userinit (Some 1) (Some 1) 1 kern_zero = Inr booted"
proof -
  have "isl (userinit (Some 1) (Some 1) 1 kern_zero) = False" by code_simp
  then show ?thesis by (simp add: booted_def)
qed

lemma picked: "sched_pick 0 booted = Inr (True, picked)" "on_cpu booted = None" "cur_runs picked 0"
proof -
  have "isl (sched_pick 0 booted) = False" "fst (projr (sched_pick 0 booted)) = True" by code_simp+
  then show "sched_pick 0 booted = Inr (True, picked)"
    by (cases "sched_pick 0 booted") (auto simp: picked_def)
  show "on_cpu booted = None" "cur_runs picked 0" by code_simp+
qed

lemma yielded: "yield 0 picked = Inr yielded" "on_cpu yielded = Some 0" "m_state (procs yielded ! 0) \<noteq> RUNNING"
proof -
  have "isl (yield 0 picked) = False" by code_simp
  then show "yield 0 picked = Inr yielded" by (simp add: yielded_def)
  show "on_cpu yielded = Some 0" "m_state (procs yielded ! 0) \<noteq> RUNNING" by code_simp+
qed

lemma kreach_yielded: "kreach booted yielded"
proof -
  have "kreach booted picked" by (rule kreach.step [OF kreach.start kstep.pick]) (rule picked)+
  then show ?thesis by (rule kreach.step) (rule kstep.yield [OF picked(3) yielded(1)])
qed


section \<open>Scheduling\<close>

lemma at_levels_level_same:
  "at_levels s L s' \<Longrightarrow> lv < 3 \<Longrightarrow> level s' lv = L ! lv"
  using levels_nth [of s' lv] at_levelsD(1,2) [of s L s'] by simp

lemma pick_none_levels:
  assumes "at_levels s (levels s) s'" "queues_good s"
  shows "lv < 3 \<Longrightarrow> level s' lv = level s lv" "levels s' = levels s" "runnable s' = runnable s"
    "proc_at s' = proc_at s"
  using at_levels_level_same [OF assms(1)] levels_nth [OF assms(2)] at_levelsD(2) [OF assms(1)]
    at_levels_procs [OF assms(1)] by auto

text \<open>What one pass over the levels chooses: entry \<open>k\<close> of level \<open>lv\<close>.\<close>

definition picks :: "kern \<Rightarrow> nat \<Rightarrow> nat \<Rightarrow> bool" where
  "picks s lv k \<longleftrightarrow> lv < 3 \<and> k < length (level s lv) \<and> runnable s (level s lv ! k) \<and>
     (\<forall>l<lv. \<forall>i\<in>set (level s l). \<not> runnable s i) \<and>
     (if lv = 2 then first_least (runnable s) (prio_of s) (level s 2) k
      else \<forall>j<k. \<not> runnable s (level s lv ! j))"

definition without :: "kern \<Rightarrow> nat \<Rightarrow> nat \<Rightarrow> int list list" where
  "without s lv k = (levels s)[lv := drop (Suc k) (level s lv) @ take k (level s lv)]"

lemma pick_fifo_cases:
  assumes "queues_good s" "lv < 2"
  shows "(\<exists>k s'. k < length (level s lv) \<and> runnable s (level s lv ! k) \<and>
        (\<forall>j<k. \<not> runnable s (level s lv ! j)) \<and>
        pickProc lv s = (level s lv ! k, s') \<and> at_levels s (without s lv k) s')
    \<or> ((\<forall>i\<in>set (level s lv). \<not> runnable s i) \<and> (\<exists>s'. pickProc lv s = (-1, s') \<and> at_levels s (levels s) s'))"
  using pick_fifo_full [OF assms]
  by (auto simp: find_idx_None find_idx_Some without_def split: option.splits)

lemma pick_levels_choice:
  assumes g: "queues_good s" and pos: "\<forall>i\<in>set (queued s). 0 \<le> i"
    and pr: "\<forall>i\<in>set (level s 2). prio_of s i < USELESS"
  shows "(\<exists>lv k s'. picks s lv k \<and> pick_levels [0, 1, 2] s = (Some (lv, level s lv ! k), s') \<and>
            at_levels s (without s lv k) s')
    \<or> (\<exists>s'. (\<forall>i\<in>set (queued s). \<not> runnable s i) \<and> pick_levels [0, 1, 2] s = (None, s') \<and>
            at_levels s (levels s) s')"
proof -
  have ne: "level s lv ! k \<noteq> -1" if "lv < 3" "k < length (level s lv)" for lv k
    using pos nth_mem [OF that(2)] less_three [OF that(1)] by (force simp: queued_def)
  consider (zero) k s' where "k < length (level s 0)" "runnable s (level s 0 ! k)"
      "\<forall>j<k. \<not> runnable s (level s 0 ! j)" "pickProc 0 s = (level s 0 ! k, s')" "at_levels s (without s 0 k) s'"
    | (up) s1 where "\<forall>i\<in>set (level s 0). \<not> runnable s i" "pickProc 0 s = (-1, s1)" "at_levels s (levels s) s1"
    using pick_fifo_cases [OF g, of 0] by auto
  then show ?thesis
  proof cases
    case zero
    have "picks s 0 k" using zero by (simp add: picks_def)
    then show ?thesis using zero ne [of 0 k] by (intro disjI1 exI [of _ 0] exI [of _ k] exI [of _ s']) simp
  next
    case up
    note S1 = pick_none_levels [OF up(3) g]
    have g1: "queues_good s1" using at_levelsD(1) [OF up(3)] .
    have w1: "without s1 lv k = without s lv k" if "lv < 3" for lv k
      using S1 that by (simp add: without_def)
    consider (one) k s' where "k < length (level s 1)" "runnable s (level s 1 ! k)"
        "\<forall>j<k. \<not> runnable s (level s 1 ! j)" "pickProc 1 s1 = (level s 1 ! k, s')" "at_levels s1 (without s 1 k) s'"
      | (up2) s2 where "\<forall>i\<in>set (level s 1). \<not> runnable s i" "pickProc 1 s1 = (-1, s2)" "at_levels s1 (levels s) s2"
      using pick_fifo_cases [OF g1, of 1] S1 w1 by auto
    then show ?thesis
    proof cases
      case one
      have "picks s 1 k" using one up(1) by (simp add: picks_def)
      then show ?thesis using one up(2) ne [of 1 k] at_levels_trans [OF up(3) one(5)]
        by (intro disjI1 exI [of _ 1] exI [of _ k] exI [of _ s']) simp
    next
      case up2
      have t2: "at_levels s (levels s) s2" using at_levels_trans [OF up(3) up2(3)] .
      note S2 = pick_none_levels [OF t2 g]
      have g2: "queues_good s2" using at_levelsD(1) [OF t2] .
      have e: "pick_levels [0, 1, 2] s = pick_levels [2] s2" using up(2) up2(2) by simp
      show ?thesis
      proof (cases "\<exists>i\<in>set (level s 2). runnable s i")
        case True
        then obtain i where "i \<in> set (level s2 2)" "runnable s2 i" "prio_of s2 i < USELESS"
          using S2 pr by auto
        from pick_prio_some [OF g2 this] obtain k s' where
          k: "first_least (runnable s2) (prio_of s2) (level s2 2) k" "pickProc 2 s2 = (level s2 2 ! k, s')"
          "at_levels s2 ((levels s2)[2 := drop (Suc k) (level s2 2) @ take k (level s2 2)]) s'" by blast
        have p: "picks s 2 k" using k(1) up(1) up2(1) S2 by (auto simp: picks_def first_least_def less_Suc_eq numeral_2_eq_2)
        moreover have "at_levels s (without s 2 k) s'"
          using at_levels_trans [OF t2 k(3)] S2 by (simp add: without_def)
        ultimately show ?thesis using k(2) S2 e ne [of 2 k]
          by (intro disjI1 exI [of _ 2] exI [of _ k] exI [of _ s']) (simp add: picks_def)
      next
        case False
        have "\<forall>i\<in>set (level s2 2). runnable s2 i \<longrightarrow> USELESS \<le> prio_of s2 i" using False S2 by simp
        from pick_prio_none [OF g2 this] obtain s' where
          "pickProc 2 s2 = (-1, s')" "at_levels s2 (levels s2) s'" by blast
        then show ?thesis using e at_levels_trans [OF t2] S2(2) False up(1) up2(1)
          by (intro disjI2 exI [of _ s']) (auto simp: queued_def)
      qed
    qed
  qed
qed

text \<open>
  C6: The scheduler obeys the levels. When the scheduler is not locked, it starts a
  runnable process of the highest level that has one: in levels 0 and 1 the first runnable
  one from the front, in level 2 the one with the least \<open>priority\<close> value and among equals
  the one that stands first. The process leaves its queue, the entries that stood before it
  move behind the others in their order, no other queue changes, and the process is marked
  running on this CPU. When no queued process is runnable, nothing is started and every
  queue holds what it held, in the same order.
\<close>

theorem scheduler_obeys_levels:
  assumes "queues_good s" "\<not> is_dictated s" "c < length (running s)"
    and "\<forall>i\<in>set (queued s). 0 \<le> i \<and> nat i < length (procs s) \<and>
           m_kstack (proc_at s i) \<noteq> 0 \<and> m_pgdir (proc_at s i) \<noteq> 0 \<and> prio_of s i < USELESS"
  shows "if \<forall>i\<in>set (queued s). \<not> runnable s i
    then \<exists>s'. sched_pick c s = Inr (False, s') \<and> procs s' = procs s \<and> running s' = running s \<and> levels s' = levels s
    else \<exists>lv k s'. sched_pick c s = Inr (True, s') \<and> picks s lv k \<and>
           levels s' = (levels s)[lv := drop (Suc k) (level s lv) @ take k (level s lv)] \<and>
           procs s' = (procs s)[nat (level s lv ! k) := (proc_at s (level s lv ! k))\<lparr>m_state := RUNNING\<rparr>] \<and>
           running s' = (running s)[c := Some (nat (level s lv ! k), lv)]"
proof -
  have pre: "\<forall>i\<in>set (queued s). 0 \<le> i" "\<forall>i\<in>set (level s 2). prio_of s i < USELESS"
    using assms(4) by (auto simp: queued_def)
  consider (some) lv k s' where "picks s lv k" "pick_levels [0, 1, 2] s = (Some (lv, level s lv ! k), s')"
      "at_levels s (without s lv k) s'"
    | (none) s' where "\<forall>i\<in>set (queued s). \<not> runnable s i" "pick_levels [0, 1, 2] s = (None, s')"
      "at_levels s (levels s) s'"
    using pick_levels_choice [OF assms(1) pre] by blast
  then show ?thesis
  proof cases
    case some
    let ?i = "level s lv ! k"
    have mem: "?i \<in> set (queued s)"
      using some(1) less_three [of lv] by (auto simp: picks_def queued_def)
    note P = at_levelsD [OF some(3)]
    have "sched_pick c s = Inr (True, upd_proc ?i (\<lambda>p. p\<lparr>m_state := RUNNING\<rparr>) s'
                      \<lparr>running := (running s')[c := Some (nat ?i, lv)]\<rparr>)" (is "_ = Inr (True, ?t)")
      using assms(2,4) some(2) mem P(3) by (simp add: sched_pick_def sched_run_def switchuvm_def proc_at_def)
    moreover have "levels ?t = without s lv k" using P(2) by (simp add: levels_def upd_proc_def)
    moreover have "procs ?t = (procs s)[nat ?i := (proc_at s ?i)\<lparr>m_state := RUNNING\<rparr>]"
      "running ?t = (running s)[c := Some (nat ?i, lv)]" using P by (simp_all add: upd_proc_def proc_at_def)
    moreover have "runnable s ?i" using some(1) by (simp add: picks_def)
    ultimately show ?thesis using some(1) mem by (auto simp: without_def)
  next
    case none
    then show ?thesis using assms(2) at_levelsD [OF none(3)] by (simp add: sched_pick_def)
  qed
qed

theorem scheduler_obeys_levels_witness:
  "\<exists>s'. sched_pick 0 (kern_with [a_proc 1 SLEEPING 3 0, a_proc 2 RUNNABLE 3 0, a_proc 3 RUNNABLE 1 0]
     [[0], [1], [2]]) = Inr (True, s')"
proof -
  let ?s = "kern_with [a_proc 1 SLEEPING 3 0, a_proc 2 RUNNABLE 3 0, a_proc 3 RUNNABLE 1 0] [[0], [1], [2]]"
  have "\<forall>i\<in>set (queued ?s). 0 \<le> i \<and> nat i < length (procs ?s) \<and>
           m_kstack (proc_at ?s i) \<noteq> 0 \<and> m_pgdir (proc_at ?s i) \<noteq> 0 \<and> prio_of ?s i < USELESS"
    by (simp add: proc_at_def a_proc_def USELESS_def)
  moreover have "\<not> (\<forall>i\<in>set (queued ?s). \<not> runnable ?s i)"
    by (simp add: runnable_def proc_at_def a_proc_def)
  ultimately show ?thesis using scheduler_obeys_levels [of ?s 0] by auto
qed

subsection \<open>Feedback\<close>

lemma demote_eq:
  assumes "lv < 3" "i < length (procs s)"
  defines "up \<equiv> m_tq (procs s ! i) \<ge> lv * 2 + 4"
  shows "fst (demote lv i s) = (if up then min 2 (lv + 1) else lv)"
    "mlfq (snd (demote lv i s)) = mlfq s" "running (snd (demote lv i s)) = running s"
    "global_ticks (snd (demote lv i s)) = global_ticks s"
    "procs (snd (demote lv i s)) = (procs s)[i := (procs s ! i)\<lparr>
       m_priority := (if up \<and> lv = 2 then max 0 (m_priority (procs s ! i) - 1) else m_priority (procs s ! i)),
       m_qlv := (if up then int (min 2 (lv + 1)) else m_qlv (procs s ! i)),
       m_tq := (if up then 0 else m_tq (procs s ! i))\<rparr>]"
  using assms less_three [of lv] by (auto simp: demote_def Let_def procs_upd_proc max_def)

lemma feedback_at:
  assumes g: "queues_good s" and c: "running s ! c = Some (i, lv)" and lv: "lv < 3"
    and i: "i < length (procs s)" and d: "\<not> is_dictated s" and z: "m_state (procs s ! i) \<noteq> ZOMBIE"
    and t: "global_ticks s < 100" and room: "\<forall>l<3. length (level s l) < 64"
  defines "q \<equiv> m_tq (procs s ! i) + 1"
  defines "up \<equiv> q \<ge> lv * 2 + 4"
  defines "lv' \<equiv> if up then min 2 (lv + 1) else lv"
  shows "levels (sched_feedback c s) = (levels s)[lv' := level s lv' @ [int i]] \<and>
    procs (sched_feedback c s) = (procs s)[i := (procs s ! i)\<lparr>
       m_priority := (if up \<and> lv = 2 then max 0 (m_priority (procs s ! i) - 1) else m_priority (procs s ! i)),
       m_qlv := (if up then int lv' else m_qlv (procs s ! i)), m_tq := (if up then 0 else q)\<rparr>] \<and>
    running (sched_feedback c s) = (running s)[c := None] \<and> queues_good (sched_feedback c s)"
proof -
  define s1 where "s1 = upd_proc (int i) (\<lambda>p. p\<lparr>m_tq := m_tq p + 1\<rparr>) s"
  have s1: "procs s1 = (procs s)[i := (procs s ! i)\<lparr>m_tq := q\<rparr>]" "mlfq s1 = mlfq s" "running s1 = running s"
    "\<not> is_dictated s1" "global_ticks s1 = global_ticks s"
    using d by (simp_all add: s1_def procs_upd_proc q_def)
  define s2 where "s2 = snd (demote lv i s1)"
  have i1: "i < length (procs s1)" "procs s1 ! i = (procs s ! i)\<lparr>m_tq := q\<rparr>" using s1 i by simp_all
  note D = demote_eq [OF lv i1(1), folded s2_def]
  have dm: "demote lv i s1 = (lv', s2)"
    using D(1) i1 by (cases "demote lv i s1") (simp add: s2_def lv'_def up_def)
  have s2: "mlfq s2 = mlfq s" "running s2 = running s" "global_ticks s2 < 100"
    "procs s2 = (procs s)[i := (procs s ! i)\<lparr>
       m_priority := (if up \<and> lv = 2 then max 0 (m_priority (procs s ! i) - 1) else m_priority (procs s ! i)),
       m_qlv := (if up then int lv' else m_qlv (procs s ! i)), m_tq := (if up then 0 else q)\<rparr>]"
    using D s1 t i by (simp_all add: up_def lv'_def)
  have lv': "lv' < 3" using lv by (simp add: lv'_def min_def)
  have g2: "queues_good s2" and l2: "level s2 lv' = level s lv'" "levels s2 = levels s"
    using g s2(1) by (simp_all add: queues_good_def level_def levels_def)
  have a: "at_levels s2 ((levels s2)[lv' := level s2 lv' @ [int i]]) (snd (enQ lv' (int i) s2))"
    by (rule enQ_at [OF g2 lv']) (simp add: l2 room lv')
  have nz: "m_state (procs s2 ! i) \<noteq> ZOMBIE" using z i by (simp add: s2(4))
  have "sched_feedback c s = (snd (enQ lv' (int i) s2))\<lparr>running := (running (snd (enQ lv' (int i) s2)))[c := None]\<rparr>"
    using nz s1(4) s2(3) at_levelsD(7) [OF a] unfolding sched_feedback_def c option.case prod.case s1_def [symmetric]
    by (simp add: Let_def dm)
  then show ?thesis using at_levelsD [OF a] s2 l2 by (simp add: levels_def queues_good_def)
qed

text \<open>
  C9: The feedback rule. When a process comes back from its turn at level \<open>lv\<close>, the
  scheduler is not locked, the process has not exited and no boost is due, it is queued
  behind the others. Its consumed quantum has grown by one; when that reaches
  \<open>2 * lv + 4\<close> it is queued one level lower (level 2 stays level 2), its quantum starts
  again from 0, and in level 2 its \<open>priority\<close> value drops by one but not below 0.
  No other process and no other queue changes, and the CPU is free again.
\<close>

theorem feedback_rule:
  assumes "queues_good s" "running s ! c = Some (i, lv)" "lv < 3" "i < length (procs s)"
    and "\<not> is_dictated s" "m_state (procs s ! i) \<noteq> ZOMBIE" "global_ticks s < 100"
    and "\<forall>l<3. length (level s l) < 64"
  shows "let p = procs s ! i; q = m_tq p + 1; up = (q \<ge> lv * 2 + 4);
             lv' = (if up then min 2 (lv + 1) else lv); s' = sched_feedback c s
    in levels s' = (levels s)[lv' := level s lv' @ [int i]] \<and>
       procs s' = (procs s)[i := p\<lparr>
         m_priority := (if up \<and> lv = 2 then max 0 (m_priority p - 1) else m_priority p),
         m_qlv := (if up then int lv' else m_qlv p), m_tq := (if up then 0 else q)\<rparr>] \<and>
       running s' = (running s)[c := None]"
  using feedback_at [OF assms] by (simp only: Let_def)

theorem feedback_rule_witness:
  "levels (sched_feedback 0 (kern_with [a_proc 1 RUNNABLE 3 3, a_proc 2 RUNNABLE 3 0] [[1], [], []]
     \<lparr>running := [Some (0, 0)]\<rparr>)) = [[1], [0], []]"
proof -
  let ?k = "kern_with [a_proc 1 RUNNABLE 3 3, a_proc 2 RUNNABLE 3 0] [[1], [], []]"
  let ?s = "?k\<lparr>running := [Some (0, 0)]\<rparr>"
  have e: "levels ?s = [[1], [], []]" "queues_good ?s" "level ?s l = level ?k l" "procs ?s = procs ?k" for l
    using kern_with_queues3 [of "[1]" "[]" "[]"] by (simp_all add: levels_def queues_good_def level_def del: kern_with_queues3)
  have "\<forall>l<3. length (level ?s l) < 64"
    unfolding e by (auto dest!: less_three simp: kern_with_queues3)
  then show ?thesis
    using feedback_rule [of ?s 0 0 0] e by (simp add: Let_def a_proc_def)
qed

text \<open>
  C16: The priority boost. With the processes in the queues, and the dictator of a locked
  scheduler in front of them, at most 64, \<open>priorityBoost\<close> puts them all into level 0, those
  of level 0 first, then those of levels 1 and 2, each level in its order; every one of
  them has level 0, priority 3 and a fresh quantum, every other process is untouched, and
  the scheduler is unlocked.
\<close>

theorem boost_resets:
  assumes "queues_good s" "is_dictated s \<longrightarrow> 0 \<le> scheduler_dictator s" "\<forall>i\<in>set (queued s). 0 \<le> i"
    and "all = (if is_dictated s then [scheduler_dictator s] else []) @ queued s" "length all \<le> 64"
  shows "levels (priorityBoost s) = [all, [], []] \<and> \<not> is_dictated (priorityBoost s) \<and>
    length (procs (priorityBoost s)) = length (procs s) \<and>
    (\<forall>j<length (procs s). procs (priorityBoost s) ! j =
       (if int j \<in> set all then (procs s ! j)\<lparr>m_qlv := 0, m_priority := 3, m_tq := 0\<rparr> else procs s ! j))"
proof (cases "is_dictated s")
  case True
  then have b: "boost_rel (s\<lparr>is_dictated := False, scheduler_dictator := -1\<rparr>) (set all) [all, [], []] (priorityBoost s)"
    using boost_dictated [OF assms(1) True assms(3)] assms(2,4,5) by simp
  then show ?thesis using boost_relD [OF b] by (auto simp: boost_rel_def boosted_def)
next
  case False
  then have b: "boost_rel s (set all) [all, [], []] (priorityBoost s)"
    using boost_all [OF assms(1,3) _ False] assms(4,5) by simp
  then show ?thesis using False boost_relD [OF b] by (auto simp: boost_rel_def boosted_def)
qed

theorem boost_resets_witness:
  "levels (priorityBoost (kern_with [a_proc 1 RUNNABLE 0 3, a_proc 2 SLEEPING 1 0, a_proc 3 RUNNABLE 2 1] [[], [2], [1, 0]]))
    = [[2, 1, 0], [], []]"
  using boost_resets [of "kern_with [a_proc 1 RUNNABLE 0 3, a_proc 2 SLEEPING 1 0, a_proc 3 RUNNABLE 2 1] [[], [2], [1, 0]]"]
  by simp

section \<open>Locking and unlocking\<close>


text \<open>The first process locks the scheduler.\<close>

definition locked :: kern where
  "locked = snd (projr (schedulerLock PASSWORD 0 picked))"


text \<open>
  C27: A dictator that gives back the lock ends up in the queues twice. When the dictator
  on the CPU calls \<open>schedulerUnlock\<close> with the right password and then yields,
  \<open>schedulerUnlock\<close> has put it in front of level 0, and the scheduler, which no longer
  sees a dictator, queues it once more.
\<close>

theorem unlock_queues_twice:
  assumes g: "queues_good s" and d: "is_dictated s" "scheduler_dictator s = int cur"
    and c: "c < length (running s)" "running s ! c = Some (cur, lv)" "lv < 3" "cur < length (procs s)"
    and t: "global_ticks s < 100" and room: "\<forall>l<3. length (level s l) < 63"
  shows "\<exists>s1 s2. schedulerUnlock PASSWORD cur s = Inr (Returned, s1) \<and> yield cur s1 = Inr s2 \<and>
    queue_mset (sched_feedback c s2) = queue_mset s + {#int cur, int cur#}"
proof -
  let ?u = "upd_proc (int cur) (\<lambda>p. p\<lparr>m_priority := 3, m_qlv := 0, m_tq := 0\<rparr>) s"
  have "length (level s 0) < 63" using room by simp
  then have gu: "queues_good ?u" "length (level ?u 0) < 64" using g by simp_all
  note F = to_front_at [OF gu, of "int cur"]
  define s1 where "s1 = (to_front_of_L0 (int cur) ?u)\<lparr>scheduler_dictator := -1, is_dictated := False\<rparr>"
  have un: "schedulerUnlock PASSWORD cur s = Inr (Returned, s1)"
    using d by (simp add: schedulerUnlock_def s1_def)
  define s2 where "s2 = upd_proc (int cur) (\<lambda>p. p\<lparr>m_state := RUNNABLE\<rparr>) s1"
  have l1: "length (procs s1) = length (procs s)" using at_levelsD(3) [OF F] by (simp add: s1_def)
  have y: "yield cur s1 = Inr s2"
    using c(4) l1 by (simp add: yield_def sched_def s2_def procs_upd_proc)
  have s2: "levels s2 = (levels s)[0 := int cur # level s 0]" "queues_good s2" "running s2 = running s"
    "\<not> is_dictated s2" "global_ticks s2 = global_ticks s" "length (procs s2) = length (procs s)"
    "m_state (procs s2 ! cur) = RUNNABLE"
    using at_levelsD [OF F] c(4) l1
    by (simp_all add: s2_def s1_def levels_def queues_good_def procs_upd_proc)
  have room2: "\<forall>l<3. length (level s2 l) < 64"
  proof (intro allI impI)
    fix l :: nat assume l: "l < 3"
    then have "level s2 l = (if l = 0 then int cur # level s 0 else level s l)"
      using levels_nth [OF s2(2) l] levels_nth [OF g l] s2(1) queues_goodD [OF g l] by (cases "l = 0") auto
    then show "length (level s2 l) < 64" using room l by auto
  qed
  have ms: "queue_mset s2 = add_mset (int cur) (queue_mset s)"
    using s2(1) levels_three [OF g] by (simp add: queue_mset_def)
  have "running s2 ! c = Some (cur, lv)" "cur < length (procs s2)" "m_state (procs s2 ! cur) \<noteq> ZOMBIE"
    using s2 c by simp_all
  note fb = feedback_at [OF s2(2) this(1) c(3) this(2) s2(4) this(3) _ room2]
  define lv' where "lv' = (if m_tq (procs s2 ! cur) + 1 \<ge> lv * 2 + 4 then min 2 (lv + 1) else lv)"
  have L: "levels (sched_feedback c s2) = (levels s2)[lv' := level s2 lv' @ [int cur]]" "lv' < 3"
    using fb s2(5) t c(3) by (simp_all add: lv'_def min_def)
  have "mset (concat (levels (sched_feedback c s2))) + mset (levels s2 ! lv') =
      mset (concat (levels s2)) + mset (level s2 lv' @ [int cur])"
    unfolding L(1) by (rule mset_concat_update) (use L(2) queues_goodD [OF s2(2) L(2)] in simp)
  then have "queue_mset (sched_feedback c s2) = add_mset (int cur) (queue_mset s2)"
    using levels_nth [OF s2(2) L(2)] by (simp add: queue_mset_def)
  then show ?thesis using un y ms by auto
qed

theorem unlock_queues_twice_witness:
  "\<exists>s1 s2. schedulerUnlock PASSWORD 0 (kern_with [a_proc 1 RUNNING 3 0, a_proc 2 RUNNABLE 3 0] [[1], [], []]
      \<lparr>running := [Some (0, 0)], is_dictated := True, scheduler_dictator := 0\<rparr>) = Inr (Returned, s1) \<and>
    yield 0 s1 = Inr s2 \<and> queue_mset (sched_feedback 0 s2) = {#0, 0, 1#}"
proof -
  let ?k = "kern_with [a_proc 1 RUNNING 3 0, a_proc 2 RUNNABLE 3 0] [[1], [], []]"
  let ?s = "?k\<lparr>running := [Some (0, 0)], is_dictated := True, scheduler_dictator := 0\<rparr>"
  have e: "queue_mset ?s = {#1#}" "queues_good ?s" "level ?s l = level ?k l" "procs ?s = procs ?k" for l
    using kern_with_queues3 [of "[1]" "[]" "[]"]
    by (simp_all add: levels_def queues_good_def level_def queue_mset_def del: kern_with_queues3)
  have "\<forall>l<3. length (level ?s l) < 63"
    unfolding e by (auto dest!: less_three simp: kern_with_queues3)
  then show ?thesis
    using unlock_queues_twice [of ?s 0 0 0] e by (simp add: add_mset_commute)
qed

text \<open>
  C36: The lock overrides sleeping. A locked scheduler puts the dictator on the CPU and
  marks it running in whatever state it was, also when it sleeps on a channel that
  nobody has woken.
\<close>

theorem dictator_runs_asleep:
  assumes "is_dictated s" "scheduler_dictator s = int d" "d < length (procs s)" "c < length (running s)"
    and "m_state (procs s ! d) = SLEEPING" "m_kstack (procs s ! d) \<noteq> 0" "m_pgdir (procs s ! d) \<noteq> 0"
  shows "\<exists>s'. sched_pick c s = Inr (True, s') \<and> m_state (procs s' ! d) = RUNNING \<and>
    m_chan (procs s' ! d) = m_chan (procs s ! d) \<and> running s' ! c = Some (d, 0)"
  using assms by (simp add: sched_pick_def sched_run_def switchuvm_def proc_at_def procs_upd_proc)

theorem dictator_runs_asleep_witness:
  "\<exists>s'. sched_pick 0 ((kern_with [(a_proc 1 SLEEPING 3 0)\<lparr>m_chan := Some (ChOther 7)\<rparr>] [[], [], []])
     \<lparr>is_dictated := True, scheduler_dictator := 0\<rparr>) = Inr (True, s') \<and> m_state (procs s' ! 0) = RUNNING"
  using dictator_runs_asleep [of "(kern_with [(a_proc 1 SLEEPING 3 0)\<lparr>m_chan := Some (ChOther 7)\<rparr>] [[], [], []])
     \<lparr>is_dictated := True, scheduler_dictator := 0\<rparr>" 0 0] by (auto simp: a_proc_def)

text \<open>
  C35: \<open>setPriority\<close> changes the priority of at most one process: the first queued one (in
  the order of levels 0, 1, 2) with that pid, and only for a value in 0..4 (the message it
  prints otherwise says 0 to 3). No process enters or leaves a level; out of range or for a
  pid that no queue holds, it prints a message and leaves every process as it is.
\<close>

theorem setPriority_effect:
  assumes "queues_good s"
  shows "let s' = setPriority pid p s in
    (\<forall>lv<3. mset (level s' lv) = mset (level s lv)) \<and>
    (case find_idx (\<lambda>i. m_pid (proc_at s i) = pid) (queued s) of
       Some k \<Rightarrow>
         if 0 \<le> p \<and> p \<le> 4
         then procs s' = (procs s)[nat (queued s ! k) := (proc_at s (queued s ! k))\<lparr>m_priority := p\<rparr>] \<and>
              console s' = console s
         else procs s' = procs s \<and> console s' = console s @ [Msg ''Priority should be in range from 0 to 3'']
     | None \<Rightarrow> procs s' = procs s \<and> console s' = console s @
         [Msg (if 0 \<le> p \<and> p \<le> 4 then ''Not Running Process pid on Memory''
               else ''Priority should be in range from 0 to 3'')])"
proof -
  have q: "queued s = concat (map (level s) [0, 1, 2])" by (simp add: queued_def)
  obtain b i s1 where f: "find_pid [0, 1, 2] pid (-1) s = (b, i, s1)"
    by (cases "find_pid [0, 1, 2] pid (-1) s") auto
  have sh: "shuffled s [0, 1, 2] s1" by (rule find_pid_shuffled [OF assms f])
  have ms: "mset (level s1 lv) = mset (level s lv)" if "lv < 3" for lv
    using sh that by (simp add: shuffled_def)
  have lv: "level (setPriority pid p s) lv = level s1 lv" for lv
    unfolding setPriority_def f prod.case Let_def by (simp add: cprintf_def level_def)
  have F: "case find_idx (\<lambda>i. m_pid (proc_at s i) = pid) (queued s) of
      Some k \<Rightarrow> b \<and> i = queued s ! k | None \<Rightarrow> \<not> b"
    using find_pid_at [OF assms, of "[0, 1, 2]" pid "-1"] f unfolding q by (auto split: option.splits)
  show ?thesis
    unfolding Let_def lv setPriority_def f prod.case
    using F ms shuffledD [OF sh]
    by (auto simp: lv [unfolded setPriority_def f prod.case Let_def] cprintf_def upd_proc_def proc_at_def split: option.splits)
qed

theorem setPriority_effect_witness:
  "m_priority (procs (setPriority 2 4 (kern_with [a_proc 1 RUNNABLE 3 0, a_proc 2 RUNNABLE 3 0] [[0], [], [1]])) ! 1) = 4"
  using setPriority_effect [of "kern_with [a_proc 1 RUNNABLE 3 0, a_proc 2 RUNNABLE 3 0] [[0], [], [1]]" 2 4]
  by (simp add: proc_at_def a_proc_def Let_def)

end
