(* ===== verification/Mlfq_Proc_Props.thy ===== *)
theory Mlfq_Proc_Props
  imports Mlfq_Props
begin

text \<open>
  The process life cycle of Project01-MLFQ: what \<open>fork\<close> builds and what it leaves behind
  when it fails, what \<open>exit\<close> does to parent and children and that \<open>wait\<close> then finds the
  child, and what \<open>kill\<close> does to a free slot.
\<close>

section \<open>Tables of files and children\<close>

lemma dup_files_ok:
  "(\<forall>f. Some f \<in> set fs \<longrightarrow> file_ref s f \<ge> 1) \<Longrightarrow>
   dup_files fs s = Inr (s\<lparr>file_ref := \<lambda>f. file_ref s f + int (count_list fs (Some f))\<rparr>)"
proof (induction fs s rule: dup_files.induct)
  case (1 s)
  then show ?case by simp
next
  case (2 fs s)
  then show ?case by simp
next
  case (3 f fs s)
  let ?s1 = "s\<lparr>file_ref := (file_ref s)(f := file_ref s f + 1)\<rparr>"
  have "\<forall>g. Some g \<in> set fs \<longrightarrow> file_ref ?s1 g \<ge> 1"
    using 3(2) by (metis (no_types, lifting) add_increasing2 fun_upd_apply kern.select_convs(10)
      kern.surjective kern.update_convs(10) list.set_intros(1,2) zero_le_one)
  then have "dup_files fs ?s1 = Inr (?s1\<lparr>file_ref := \<lambda>g. file_ref ?s1 g + int (count_list fs (Some g))\<rparr>)"
    using 3(1) 3(2) by fastforce
  moreover have "\<not> file_ref s f < 1" using 3(2) by fastforce
  moreover have "(\<lambda>g. file_ref ?s1 g + int (count_list fs (Some g))) =
      (\<lambda>g. file_ref s g + int (count_list (Some f # fs) (Some g)))"
    by (auto simp: fun_eq_iff)
  ultimately show ?case by simp
qed

lemma close_files_ok:
  "close_files fs s = Inr s' \<Longrightarrow> s' = s\<lparr>file_ref := \<lambda>f. file_ref s f - int (count_list fs (Some f))\<rparr>"
proof (induction fs s arbitrary: s' rule: close_files.induct)
  case (3 f fs s)
  have ok: "\<not> file_ref s f < 1" using 3(2) by (auto split: if_splits)
  let ?s1 = "s\<lparr>file_ref := (file_ref s)(f := file_ref s f - 1)\<rparr>"
  have "s' = ?s1\<lparr>file_ref := \<lambda>g. file_ref ?s1 g - int (count_list fs (Some g))\<rparr>"
    using 3(1) [OF ok, of s'] 3(2) ok by simp
  moreover have "(\<lambda>g. file_ref ?s1 g - int (count_list fs (Some g))) =
      (\<lambda>g. file_ref s g - int (count_list (Some f # fs) (Some g)))"
    by (auto simp: fun_eq_iff)
  ultimately show ?case by simp
qed simp_all

lemma procs_wakeup1:
  "j < length (procs s) \<Longrightarrow> procs (wakeup1 ch s) ! j =
     (if m_state (procs s ! j) = SLEEPING \<and> m_chan (procs s ! j) = ch
      then (procs s ! j)\<lparr>m_state := RUNNABLE\<rparr> else procs s ! j)"
  "length (procs (wakeup1 ch s)) = length (procs s)" "initproc (wakeup1 ch s) = initproc s"
  "mlfq (wakeup1 ch s) = mlfq s"
  by (simp_all add: wakeup1_def)

text \<open>What the loop over the table does to slot \<open>j\<close>: \<open>z\<close> says whether \<open>init\<close> is woken.\<close>

definition orphaned :: "nat \<Rightarrow> nat \<Rightarrow> bool \<Rightarrow> bool \<Rightarrow> mproc \<Rightarrow> mproc" where
  "orphaned ini cur child z p =
     (let p1 = (if child \<and> m_parent p = Some cur then p\<lparr>m_parent := Some ini\<rparr> else p)
      in if z \<and> m_state p = SLEEPING \<and> m_chan p = Some (ChSlot ini) then p1\<lparr>m_state := RUNNABLE\<rparr> else p1)"

definition zombie_child :: "nat \<Rightarrow> nat list \<Rightarrow> kern \<Rightarrow> bool" where
  "zombie_child cur is s \<longleftrightarrow> (\<exists>i\<in>set is. m_parent (procs s ! i) = Some cur \<and> m_state (procs s ! i) = ZOMBIE)"

lemma orphaned_simps:
  "m_parent (orphaned ini cur c z p) = (if c \<and> m_parent p = Some cur then Some ini else m_parent p)"
  "m_state (orphaned ini cur c z p) = (if z \<and> m_state p = SLEEPING \<and> m_chan p = Some (ChSlot ini)
     then RUNNABLE else m_state p)"
  "m_chan (orphaned ini cur c z p) = m_chan p"
  by (simp_all add: orphaned_def Let_def)

lemma orphaned_twice:
  "cur \<noteq> ini \<Longrightarrow> orphaned ini cur c z (orphaned ini cur d y p) = orphaned ini cur (c \<or> d) (z \<or> y) p"
  by (cases c; cases d; cases z; cases y) (simp_all add: orphaned_def Let_def)

lemma reparent_at:
  assumes "cur \<noteq> initproc s" "\<forall>i\<in>set is. i < length (procs s)" "j < length (procs s)"
  shows "procs (reparent cur is s) ! j =
     orphaned (initproc s) cur (j \<in> set is) (zombie_child cur is s) (procs s ! j)"
  using assms
proof (induction "is" arbitrary: s)
  case Nil
  then show ?case by (simp add: orphaned_def zombie_child_def)
next
  case (Cons i "is")
  note pre = Cons.prems
  show ?case
  proof (cases "m_parent (procs s ! i) = Some cur")
    case False
    have "zombie_child cur (i # is) s = zombie_child cur is s" using False by (simp add: zombie_child_def)
    then show ?thesis using Cons.IH [of s] pre False by (auto simp: orphaned_def)
  next
    case True
    let ?s1 = "upd_proc (int i) (\<lambda>p. p\<lparr>m_parent := Some (initproc s)\<rparr>) s"
    let ?s2 = "if m_state (procs ?s1 ! i) = ZOMBIE then wakeup1 (Some (ChSlot (initproc s))) ?s1 else ?s1"
    have i: "i < length (procs s)" using pre(2) by simp
    have e: "reparent cur (i # is) s = reparent cur is ?s2" using True by (simp add: Let_def)
    have z: "(m_state (procs ?s1 ! i) = ZOMBIE) = (m_state (procs s ! i) = ZOMBIE)"
      using i by (simp add: procs_upd_proc)
    have p2: "procs ?s2 ! k = orphaned (initproc s) cur (k = i) (m_state (procs s ! i) = ZOMBIE) (procs s ! k)"
      if "k < length (procs s)" for k
      using that i z True
      by (cases "k = i") (auto simp: procs_upd_proc procs_wakeup1 orphaned_def Let_def)
    have l2: "length (procs ?s2) = length (procs s)" "initproc ?s2 = initproc s"
      by (simp_all add: procs_wakeup1)
    have zc: "zombie_child cur (i # is) s \<longleftrightarrow> m_state (procs s ! i) = ZOMBIE \<or> zombie_child cur is ?s2"
    proof -
      have "m_parent (procs ?s2 ! k) = Some cur \<and> m_state (procs ?s2 ! k) = ZOMBIE \<longleftrightarrow>
          k \<noteq> i \<and> m_parent (procs s ! k) = Some cur \<and> m_state (procs s ! k) = ZOMBIE"
        if "k \<in> set is" for k
        using p2 [of k] that pre(1,2) by (auto simp: orphaned_simps)
      then show ?thesis using True unfolding zombie_child_def by auto
    qed
    have "procs (reparent cur is ?s2) ! j =
        orphaned (initproc s) cur (j \<in> set is) (zombie_child cur is ?s2) (procs ?s2 ! j)"
      using Cons.IH [of ?s2] pre l2 by simp
    then show ?thesis
      unfolding e p2 [OF pre(3)] zc l2 using orphaned_twice [of cur "initproc s"] pre(1) by (simp add: disj_commute)
  qed
qed

section \<open>Creating a process\<close>

lemma find_idx_replicate: "0 < n \<Longrightarrow> P x \<Longrightarrow> find_idx P (replicate n x) = Some 0"
  by (cases n) simp_all

lemma allocproc_some:
  assumes "find_idx (\<lambda>p. m_state p = UNUSED) (procs s) = Some np"
  shows "allocproc (Some k) s = (Some np,
    s\<lparr>procs := (procs s)[np := (procs s ! np)\<lparr>m_state := EMBRYO, m_pid := nextpid s, m_kstack := k, m_context := Forkret\<rparr>],
      nextpid := nextpid s + 1\<rparr>)"
  using assms find_idx_SomeD [OF assms] by (simp add: allocproc_def upd_proc_def Let_def)

lemma allocproc_none:
  assumes "find_idx (\<lambda>p. m_state p = UNUSED) (procs s) = Some np"
  shows "allocproc None s = (None,
    s\<lparr>nextpid := nextpid s + 1,
      procs := (procs s)[np := (procs s ! np)\<lparr>m_pid := nextpid s, m_kstack := 0, m_state := UNUSED\<rparr>]\<rparr>)"
  using assms find_idx_SomeD [OF assms] by (simp add: allocproc_def upd_proc_def Let_def)

text \<open>
  C29: What \<open>fork\<close> builds. With a free slot, a kernel stack and a copied address space,
  \<open>fork\<close> returns the next pid, and the first free slot holds a runnable child of the caller
  with that pid, the caller's size, trap frame (with \<open>eax\<close> 0), directory and the caller's
  open files, at level 0 with priority 3 and a fresh quantum, queued behind the others in
  level 0. Every open file gains one reference per descriptor, the directory gains one, and
  no other process and no other level changes.
\<close>

theorem fork_child:
  assumes "queues_good s" "length (level s 0) < 64" "cur < length (procs s)"
    and free: "find_idx (\<lambda>p. m_state p = UNUSED) (procs s) = Some np" "np \<noteq> cur"
    and par: "par = procs s ! cur" "m_cwd par = Some ip"
    and refs: "\<forall>f. Some f \<in> set (m_ofile par) \<longrightarrow> file_ref s f \<ge> 1"
  shows "\<exists>s'. fork (Some k) (Some d) cur s = Inr (nextpid s, s') \<and>
    procs s' = (procs s)[np := (procs s ! np)\<lparr>m_pid := nextpid s, m_kstack := k,
      m_context := Forkret, m_pgdir := d, m_sz := m_sz par, m_parent := Some cur,
      m_tf := (m_tf par)\<lparr>tf_eax := 0\<rparr>, m_ofile := inherit (m_ofile par) (m_ofile (procs s ! np)),
      m_cwd := Some ip, m_name := take 15 (m_name par),
      m_state := RUNNABLE, m_priority := 3, m_qlv := 0, m_tq := 0\<rparr>] \<and>
    levels s' = (levels s)[0 := level s 0 @ [int np]] \<and> nextpid s' = nextpid s + 1 \<and>
    file_ref s' = (\<lambda>f. file_ref s f + int (count_list (m_ofile par) (Some f))) \<and>
    inode_ref s' = (inode_ref s)(ip := inode_ref s ip + 1)"
proof -
  have np: "np < length (procs s)" using find_idx_SomeD [OF free(1)] by simp
  let ?c = "(procs s ! np)\<lparr>m_state := EMBRYO, m_pid := nextpid s, m_kstack := k, m_context := Forkret\<rparr>"
  let ?s1 = "s\<lparr>procs := (procs s)[np := ?c], nextpid := nextpid s + 1\<rparr>"
  have al: "allocproc (Some k) s = (Some np, ?s1)" by (rule allocproc_some [OF free(1)])
  have p1: "procs ?s1 ! cur = par" using free(2) par(1) by simp
  let ?s2 = "?s1\<lparr>file_ref := \<lambda>f. file_ref s f + int (count_list (m_ofile par) (Some f))\<rparr>"
  have dup: "dup_files (m_ofile par) ?s1 = Inr ?s2"
    using dup_files_ok [of "m_ofile par" ?s1] refs by simp
  define s3 where "s3 = upd_proc (int np) (\<lambda>p. p\<lparr>m_pgdir := d, m_sz := m_sz par,
          m_parent := Some cur, m_tf := (m_tf par)\<lparr>tf_eax := 0\<rparr>,
          m_ofile := inherit (m_ofile par) (m_ofile p), m_cwd := Some ip,
          m_name := safestr (m_name par) 16\<rparr>) (idup ip ?s2)"
  have pid: "m_pid (procs s3 ! np) = nextpid s" using np by (simp add: s3_def procs_upd_proc idup_def)
  have fk: "fork (Some k) (Some d) cur s = Inr (nextpid s, start_in_L0 np s3)"
    unfolding fork_def al prod.case option.case Let_def p1 dup bindR_Inr par(2) s3_def [symmetric] pid ..
  let ?u = "upd_proc (int np) (\<lambda>p. p\<lparr>m_state := RUNNABLE, m_priority := 3, m_qlv := 0, m_tq := 0\<rparr>) s3"
  have m: "mlfq ?u = mlfq s" by (simp add: s3_def idup_def)
  then have g: "queues_good ?u" "level ?u 0 = level s 0" "levels ?u = levels s"
    using assms(1) by (simp_all add: queues_good_def level_def levels_def)
  have a: "at_levels ?u ((levels ?u)[0 := level ?u 0 @ [int np]]) (snd (enQ 0 (int np) ?u))"
    by (rule enQ_at [OF g(1)]) (use g assms(2) in simp_all)
  have fr: "(start_in_L0 np s3)\<lparr>mlfq := []\<rparr> = ?u\<lparr>mlfq := []\<rparr>"
    using a by (simp add: at_levels_def start_in_L0_def)
  have pu: "procs ?u = (procs s)[np := (procs s ! np)\<lparr>m_pid := nextpid s, m_kstack := k,
      m_context := Forkret, m_pgdir := d, m_sz := m_sz par, m_parent := Some cur,
      m_tf := (m_tf par)\<lparr>tf_eax := 0\<rparr>, m_ofile := inherit (m_ofile par) (m_ofile (procs s ! np)),
      m_cwd := Some ip, m_name := take 15 (m_name par),
      m_state := RUNNABLE, m_priority := 3, m_qlv := 0, m_tq := 0\<rparr>]"
    using np by (simp add: s3_def procs_upd_proc idup_def safestr_def)
  have "procs (start_in_L0 np s3) = procs ?u" "nextpid (start_in_L0 np s3) = nextpid ?u"
    "file_ref (start_in_L0 np s3) = file_ref ?u" "inode_ref (start_in_L0 np s3) = inode_ref ?u"
    using arg_cong [OF fr, of procs] arg_cong [OF fr, of nextpid] arg_cong [OF fr, of file_ref]
      arg_cong [OF fr, of inode_ref] by simp_all
  moreover have "levels (start_in_L0 np s3) = (levels s)[0 := level s 0 @ [int np]]"
    using at_levelsD(2) [OF a] g by (simp add: start_in_L0_def)
  moreover have "nextpid ?u = nextpid s + 1" "inode_ref ?u = (inode_ref s)(ip := inode_ref s ip + 1)"
    "file_ref ?u = (\<lambda>f. file_ref s f + int (count_list (m_ofile par) (Some f)))"
    by (simp_all add: s3_def idup_def upd_proc_def)
  ultimately show ?thesis using fk pu by auto
qed

theorem fork_child_witness:
  "\<exists>s'. fork (Some 7) (Some 9) 0 (kern_with [a_proc 1 RUNNING 3 0] [[], [], []]) = Inr (1, s') \<and>
     levels s' = [[1], [], []]"
proof -
  let ?s = "kern_with [a_proc 1 RUNNING 3 0] [[], [], []]"
  have "procs ?s = a_proc 1 RUNNING 3 0 # replicate 63 zero_proc" by (simp add: kern_with_def)
  moreover have "find_idx (\<lambda>p. m_state p = UNUSED) (a_proc 1 RUNNING 3 0 # replicate 63 zero_proc) = Some 1"
    by (simp add: a_proc_def zero_proc_def find_idx_replicate)
  ultimately have "find_idx (\<lambda>p. m_state p = UNUSED) (procs ?s) = Some 1" by simp
  moreover have "m_cwd (procs ?s ! 0) = Some 1" "m_ofile (procs ?s ! 0) = replicate NOFILE None"
    by (simp_all add: a_proc_def zero_proc_def)
  ultimately show ?thesis using fork_child [of ?s 0 1 _ 1 7 9] by force
qed

text \<open>
  C37: A failed \<open>fork\<close> leaves nothing behind. When there is no free slot, no memory for the
  kernel stack, or no memory for the address space, \<open>fork\<close> returns -1, the state of every
  slot, the queues and all reference counts are what they were, and at most one pid is used up.
\<close>

theorem fork_failure:
  assumes "find_idx (\<lambda>p. m_state p = UNUSED) (procs s) = None \<or> kst = None \<or> pgd = None"
  shows "\<exists>s'. fork kst pgd cur s = Inr (-1, s') \<and> states s' = states s \<and> mlfq s' = mlfq s \<and>
    file_ref s' = file_ref s \<and> inode_ref s' = inode_ref s \<and> running s' = running s \<and>
    nextpid s' \<in> {nextpid s, nextpid s + 1}"
proof (cases "find_idx (\<lambda>p. m_state p = UNUSED) (procs s)")
  case None
  then show ?thesis by (simp add: fork_def allocproc_def)
next
  case (Some np)
  have np: "np < length (procs s)" "m_state (procs s ! np) = UNUSED" using find_idx_SomeD [OF Some] by auto
  have same: "(states s)[np := UNUSED] = states s"
    using np by (metis list_update_id length_map nth_map states_def)
  show ?thesis
  proof (cases kst)
    case None
    then show ?thesis
      using allocproc_none [OF Some] same by (simp add: fork_def states_def map_update)
  next
    case k: (Some k)
    then have "pgd = None" using assms Some by simp
    then show ?thesis
      using allocproc_some [OF Some] same np k
      by (simp add: fork_def states_def map_update upd_proc_def)
  qed
qed

theorem fork_failure_witness:
  "\<exists>s'. fork (Some 7) None 0 (kern_with [a_proc 1 RUNNING 3 0] [[], [], []]) = Inr (-1, s') \<and>
     states s' = states (kern_with [a_proc 1 RUNNING 3 0] [[], [], []])"
  using fork_failure [of "kern_with [a_proc 1 RUNNING 3 0] [[], [], []]" "Some 7" None 0] by blast

section \<open>Exit and wait\<close>

lemma close_files_returns:
  "(\<forall>f. int (count_list fs (Some f)) \<le> file_ref s f) \<Longrightarrow>
   close_files fs s = Inr (s\<lparr>file_ref := \<lambda>f. file_ref s f - int (count_list fs (Some f))\<rparr>)"
proof (induction fs s rule: close_files.induct)
  case (3 f fs s)
  let ?s1 = "s\<lparr>file_ref := (file_ref s)(f := file_ref s f - 1)\<rparr>"
  have ok: "\<not> file_ref s f < 1" using 3(2) [rule_format, of f] by simp
  have "int (count_list fs (Some g)) \<le> file_ref ?s1 g" for g
    using 3(2) [rule_format, of g] by (auto split: if_splits)
  then obtain s' where c: "close_files fs ?s1 = Inr s'" using 3(1) [OF ok] by blast
  then have e: "close_files (Some f # fs) s = Inr s'" using ok by simp
  show ?case using close_files_ok [OF e] e by simp
qed simp_all

text \<open>The process \<open>p\<close> in slot \<open>j\<close> after the exit of \<open>cur\<close>.\<close>

definition after_exit :: "nat \<Rightarrow> kern \<Rightarrow> nat \<Rightarrow> mproc" where
  "after_exit cur s j =
     (let p = procs s ! j;
          woken = m_state p = SLEEPING \<and>
            (m_chan p = map_option ChSlot (m_parent (procs s ! cur)) \<or>
             (m_chan p = Some (ChSlot (initproc s)) \<and> zombie_child cur [0..<length (procs s)] s));
          q = p\<lparr>m_parent := (if m_parent p = Some cur then Some (initproc s) else m_parent p),
                m_state := (if woken then RUNNABLE else m_state p)\<rparr>
      in if j = cur then q\<lparr>m_ofile := map (\<lambda>_. None) (m_ofile p), m_cwd := None, m_state := ZOMBIE\<rparr>
         else q)"

lemma exit_at:
  assumes "cur < length (procs s)" "cur \<noteq> initproc s" "m_cwd (procs s ! cur) = Some ip"
    and st: "m_state (procs s ! cur) = RUNNING"
    and refs: "\<forall>f. int (count_list (m_ofile (procs s ! cur)) (Some f)) \<le> file_ref s f"
  shows "\<exists>s'. exit cur s = Inr s' \<and> length (procs s') = length (procs s) \<and>
    (\<forall>j<length (procs s). procs s' ! j = after_exit cur s j) \<and> mlfq s' = mlfq s \<and>
    (if scheduler_dictator s = int cur then \<not> is_dictated s' \<and> scheduler_dictator s' = -1
     else is_dictated s' = is_dictated s \<and> scheduler_dictator s' = scheduler_dictator s)"
proof -
  define s1 where "s1 = s\<lparr>file_ref := \<lambda>f. file_ref s f - int (count_list (m_ofile (procs s ! cur)) (Some f))\<rparr>"
  have c: "close_files (m_ofile (procs s ! cur)) s = Inr s1"
    using close_files_returns [OF refs] by (simp add: s1_def)
  define s2 where "s2 = upd_proc (int cur) (\<lambda>p. p\<lparr>m_ofile := map (\<lambda>_. None) (m_ofile p), m_cwd := None\<rparr>) (iput ip s1)"
  define ch where "ch = map_option ChSlot (m_parent (procs s2 ! cur))"
  define s3 where "s3 = wakeup1 ch s2"
  define s4 where "s4 = reparent cur [0..<length (procs s3)] s3"
  define s5 where "s5 = upd_proc (int cur) (\<lambda>p. p\<lparr>m_state := ZOMBIE\<rparr>) s4"
  define s6 where "s6 = (if scheduler_dictator s5 = int cur
                        then s5\<lparr>is_dictated := False, scheduler_dictator := -1\<rparr> else s5)"
  have p2: "procs s2 = (procs s)[cur := (procs s ! cur)\<lparr>m_ofile := map (\<lambda>_. None) (m_ofile (procs s ! cur)), m_cwd := None\<rparr>]"
    "initproc s2 = initproc s" "calm s s2" "mlfq s2 = mlfq s"
  proof -
    show "procs s2 = (procs s)[cur := (procs s ! cur)\<lparr>m_ofile := map (\<lambda>_. None) (m_ofile (procs s ! cur)), m_cwd := None\<rparr>]"
      "initproc s2 = initproc s" "mlfq s2 = mlfq s"
      by (simp_all add: s2_def procs_upd_proc iput_def s1_def)
    have "core (iput ip s1) = core s" by (simp add: core_def iput_def s1_def states_def)
    then show "calm s s2" by (intro calm_core) (simp add: s2_def core_upd_proc)
  qed
  have ch: "ch = map_option ChSlot (m_parent (procs s ! cur))" using assms(1) by (simp add: ch_def p2)
  have calm4: "calm s s4"
    unfolding s4_def s3_def using calm_trans [OF calm_trans [OF p2(3) calm_wakeup1] calm_reparent] .
  have p3: "length (procs s3) = length (procs s)" "initproc s3 = initproc s"
    by (simp_all add: s3_def procs_wakeup1 p2)
  have st3: "m_state (procs s3 ! j) = (if m_state (procs s ! j) = SLEEPING \<and> m_chan (procs s ! j) = ch
        then RUNNABLE else m_state (procs s ! j))"
    "m_parent (procs s3 ! j) = m_parent (procs s ! j)" if "j < length (procs s)" for j
    using that st by (cases "j = cur"; simp add: s3_def procs_wakeup1 p2)+
  have z: "zombie_child cur [0..<length (procs s3)] s3 = zombie_child cur [0..<length (procs s)] s"
  proof -
    have "m_parent (procs s3 ! i) = Some cur \<and> m_state (procs s3 ! i) = ZOMBIE \<longleftrightarrow>
        m_parent (procs s ! i) = Some cur \<and> m_state (procs s ! i) = ZOMBIE" if "i < length (procs s)" for i
      using st3 [OF that] by simp
    then show ?thesis unfolding zombie_child_def p3 by (metis atLeastLessThan_iff set_upt)
  qed
  have p4: "procs s4 ! j = orphaned (initproc s) cur True (zombie_child cur [0..<length (procs s)] s) (procs s3 ! j)"
    if "j < length (procs s)" for j
    using reparent_at [of cur s3 "[0..<length (procs s3)]" j] assms(2) that z p3 by (simp add: s4_def)
  have l4: "length (procs s4) = length (procs s)" using calm4 by (simp add: calm_def)
  have pj: "procs s6 ! j = after_exit cur s j" if j: "j < length (procs s)" for j
  proof (cases "j = cur")
    case True
    have "procs s3 ! cur = procs s2 ! cur" using assms(1) st by (simp add: s3_def procs_wakeup1 p2)
    then show ?thesis using True j st assms(1) p4 [OF j] l4
      by (simp add: s6_def s5_def procs_upd_proc p2 after_exit_def orphaned_def Let_def)
  next
    case False
    then have "procs s6 ! j = procs s4 ! j" by (simp add: s6_def s5_def procs_upd_proc)
    moreover have "procs s3 ! j = (if m_state (procs s ! j) = SLEEPING \<and> m_chan (procs s ! j) = ch
        then (procs s ! j)\<lparr>m_state := RUNNABLE\<rparr> else procs s ! j)"
      using j False by (simp add: s3_def procs_wakeup1 p2)
    ultimately show ?thesis using p4 [OF j] False
      by (auto simp: after_exit_def orphaned_def Let_def ch)
  qed
  have "exit cur s = sched cur s6"
    unfolding exit_def c bindR_Inr
    using assms(2,3) by (simp add: Let_def s1_def s2_def s3_def s4_def s5_def s6_def ch_def)
  moreover have "m_state (procs s6 ! cur) = ZOMBIE" using pj [OF assms(1)] by (simp add: after_exit_def Let_def)
  ultimately have "exit cur s = Inr s6" by (simp add: sched_def)
  moreover have "length (procs s6) = length (procs s)" "mlfq s6 = mlfq s"
    using calm4 by (simp_all add: s6_def s5_def l4 calm_def)
  moreover have "if scheduler_dictator s = int cur then \<not> is_dictated s6 \<and> scheduler_dictator s6 = -1
     else is_dictated s6 = is_dictated s \<and> scheduler_dictator s6 = scheduler_dictator s"
    using calm4 by (simp add: s6_def s5_def calm_def)
  ultimately show ?thesis using pj by auto
qed

text \<open>
  C38: What \<open>exit\<close> leaves. A process other than \<open>init\<close> whose files and directory can be
  closed becomes a zombie without open files and directory; each of its children gets
  \<open>init\<close> as its parent, and no process has it as parent any more; if a child was a zombie,
  \<open>init\<close> waiting for a child is woken; a parent waiting for a child is woken; the queues do
  not change; and if it held the scheduler lock, the scheduler is unlocked.
\<close>

theorem exit_effect:
  assumes "cur < length (procs s)" "cur \<noteq> initproc s" "m_cwd (procs s ! cur) = Some ip"
    and "m_state (procs s ! cur) = RUNNING"
    and "\<forall>f. int (count_list (m_ofile (procs s ! cur)) (Some f)) \<le> file_ref s f"
  shows "\<exists>s'. exit cur s = Inr s' \<and> mlfq s' = mlfq s \<and> scheduler_dictator s' \<noteq> int cur \<and>
    m_state (procs s' ! cur) = ZOMBIE \<and> m_cwd (procs s' ! cur) = None \<and>
    m_ofile (procs s' ! cur) = map (\<lambda>_. None) (m_ofile (procs s ! cur)) \<and>
    (\<forall>j<length (procs s). m_parent (procs s' ! j) \<noteq> Some cur \<and>
       m_parent (procs s' ! j) =
         (if m_parent (procs s ! j) = Some cur then Some (initproc s) else m_parent (procs s ! j)) \<and>
       (j \<noteq> cur \<longrightarrow> m_state (procs s' ! j) =
         (if m_state (procs s ! j) = SLEEPING \<and>
             (m_chan (procs s ! j) = map_option ChSlot (m_parent (procs s ! cur)) \<or>
              (m_chan (procs s ! j) = Some (ChSlot (initproc s)) \<and>
               (\<exists>i<length (procs s). m_parent (procs s ! i) = Some cur \<and> m_state (procs s ! i) = ZOMBIE)))
          then RUNNABLE else m_state (procs s ! j))))"
proof -
  obtain s' where e: "exit cur s = Inr s'" "length (procs s') = length (procs s)"
    "\<forall>j<length (procs s). procs s' ! j = after_exit cur s j" "mlfq s' = mlfq s"
    "if scheduler_dictator s = int cur then \<not> is_dictated s' \<and> scheduler_dictator s' = -1
     else is_dictated s' = is_dictated s \<and> scheduler_dictator s' = scheduler_dictator s"
    using exit_at [OF assms] by blast
  have z: "zombie_child cur [0..<length (procs s)] s \<longleftrightarrow>
      (\<exists>i<length (procs s). m_parent (procs s ! i) = Some cur \<and> m_state (procs s ! i) = ZOMBIE)"
    by (auto simp: zombie_child_def)
  have pj: "m_parent (procs s' ! j) \<noteq> Some cur \<and>
       m_parent (procs s' ! j) =
         (if m_parent (procs s ! j) = Some cur then Some (initproc s) else m_parent (procs s ! j)) \<and>
       (j \<noteq> cur \<longrightarrow> m_state (procs s' ! j) =
         (if m_state (procs s ! j) = SLEEPING \<and>
             (m_chan (procs s ! j) = map_option ChSlot (m_parent (procs s ! cur)) \<or>
              (m_chan (procs s ! j) = Some (ChSlot (initproc s)) \<and> zombie_child cur [0..<length (procs s)] s))
          then RUNNABLE else m_state (procs s ! j)))" if "j < length (procs s)" for j
    using e(3) [rule_format, OF that] assms(2) by (simp add: after_exit_def Let_def)
  have c: "m_state (procs s' ! cur) = ZOMBIE" "m_cwd (procs s' ! cur) = None"
    "m_ofile (procs s' ! cur) = map (\<lambda>_. None) (m_ofile (procs s ! cur))"
    using e(3) [rule_format, OF assms(1)] by (simp_all add: after_exit_def Let_def)
  have sd: "scheduler_dictator s' \<noteq> int cur" using e(5) by (auto split: if_splits)
  show ?thesis unfolding z [symmetric] using e(1,4) sd c pj by blast
qed

theorem exit_effect_witness:
  "\<exists>s'. exit 1 (kern_with [a_proc 1 SLEEPING 3 0, (a_proc 2 RUNNING 3 0)\<lparr>m_parent := Some 0\<rparr>,
      (a_proc 3 RUNNABLE 3 0)\<lparr>m_parent := Some 1\<rparr>] [[0, 2], [], []]) = Inr s' \<and>
    m_state (procs s' ! 1) = ZOMBIE \<and> m_parent (procs s' ! 2) = Some 0"
proof -
  let ?s = "kern_with [a_proc 1 SLEEPING 3 0, (a_proc 2 RUNNING 3 0)\<lparr>m_parent := Some 0\<rparr>,
      (a_proc 3 RUNNABLE 3 0)\<lparr>m_parent := Some 1\<rparr>] [[0, 2], [], []]"
  have "\<forall>f. int (count_list (m_ofile (procs ?s ! 1)) (Some f)) \<le> file_ref ?s f"
    by (simp add: a_proc_def zero_proc_def count_list_0_iff)
  then obtain s' where s': "exit 1 ?s = Inr s'" "m_state (procs s' ! 1) = ZOMBIE"
    "\<forall>j<length (procs ?s). m_parent (procs s' ! j) =
       (if m_parent (procs ?s ! j) = Some 1 then Some (initproc ?s) else m_parent (procs ?s ! j))"
    using exit_effect [of 1 ?s 1] by (auto simp: a_proc_def)
  have "m_parent (procs s' ! 2) = Some 0" using s'(3) [rule_format, of 2] by simp
  then show ?thesis using s'(1,2) by blast
qed

text \<open>
  C32: An exit is not missed by a waiting parent. When a process whose parent sleeps in
  \<open>wait\<close> exits, the parent becomes runnable, and the scan of \<open>wait\<close> that it then does
  returns the pid of a child that has exited and frees its slot.
\<close>

theorem exit_wakes_wait:
  assumes "cur < length (procs s)" "cur \<noteq> initproc s" "m_cwd (procs s ! cur) = Some ip"
    and "m_state (procs s ! cur) = RUNNING"
    and "\<forall>f. int (count_list (m_ofile (procs s ! cur)) (Some f)) \<le> file_ref s f"
    and par: "m_parent (procs s ! cur) = Some par" "par < length (procs s)" "par \<noteq> cur"
    and asleep: "m_state (procs s ! par) = SLEEPING" "m_chan (procs s ! par) = Some (ChSlot par)"
  shows "\<exists>s' i s''. exit cur s = Inr s' \<and> m_state (procs s' ! par) = RUNNABLE \<and>
    wait par s' = Inr (Reaped (m_pid (procs s ! i)), s'') \<and>
    m_parent (procs s' ! i) = Some par \<and> m_state (procs s' ! i) = ZOMBIE \<and> m_state (procs s'' ! i) = UNUSED"
proof -
  obtain s' where e: "exit cur s = Inr s'" "length (procs s') = length (procs s)"
    "\<forall>j<length (procs s). procs s' ! j = after_exit cur s j"
    using exit_at [OF assms(1-5)] by blast
  have pc: "m_parent (procs s' ! cur) = Some par" "m_state (procs s' ! cur) = ZOMBIE"
    using e(3) assms(1) par(1,3) by (auto simp: after_exit_def Let_def)
  have pp: "m_state (procs s' ! par) = RUNNABLE"
    using e(3) par asleep by (auto simp: after_exit_def Let_def)
  have "\<exists>x\<in>set (procs s'). m_parent x = Some par \<and> m_state x = ZOMBIE"
    using pc assms(1) e(2) by (metis nth_mem)
  then obtain i where i: "find_idx (\<lambda>p. m_parent p = Some par \<and> m_state p = ZOMBIE) (procs s') = Some i"
    using find_idx_None [of "\<lambda>p. m_parent p = Some par \<and> m_state p = ZOMBIE" "procs s'"] by fastforce
  note f = find_idx_SomeD [OF i]
  have pid: "m_pid (procs s' ! i) = m_pid (procs s ! i)"
    using e(3) f e(2) by (simp add: after_exit_def Let_def)
  obtain s'' where "wait par s' = Inr (Reaped (m_pid (procs s' ! i)), s'')"
    "m_state (procs s'' ! i) = UNUSED"
    using i f by (simp add: wait_def procs_upd_proc)
  then show ?thesis using e(1) pp f pid by auto
qed

theorem exit_wakes_wait_witness:
  "\<exists>s'. exit 1 (kern_with [(a_proc 1 SLEEPING 3 0)\<lparr>m_chan := Some (ChSlot 0)\<rparr>,
      (a_proc 2 RUNNING 3 0)\<lparr>m_parent := Some 0\<rparr>] [[0], [], []]) = Inr s' \<and>
    m_state (procs s' ! 0) = RUNNABLE"
proof -
  let ?s = "kern_with [(a_proc 1 SLEEPING 3 0)\<lparr>m_chan := Some (ChSlot 0)\<rparr>,
      (a_proc 2 RUNNING 3 0)\<lparr>m_parent := Some 0\<rparr>] [[0], [], []]"
  have "\<forall>f. int (count_list (m_ofile (procs ?s ! 1)) (Some f)) \<le> file_ref ?s f"
    by (simp add: a_proc_def zero_proc_def count_list_0_iff)
  then show ?thesis using exit_wakes_wait [of 1 ?s 1 0] by (auto simp: a_proc_def)
qed

text \<open>
  C39: The three outcomes of \<open>wait\<close>. It returns a pid exactly when the caller has a zombie
  child, and then frees the first such slot of the table and touches nothing else; without
  one it returns -1 when the caller has no child or has been killed, changing nothing;
  otherwise the caller sleeps on its own slot.
\<close>

theorem wait_outcomes:
  assumes "cur < length (procs s)"
  shows "case find_idx (\<lambda>p. m_parent p = Some cur \<and> m_state p = ZOMBIE) (procs s) of
      Some i \<Rightarrow> wait cur s = Inr (Reaped (m_pid (procs s ! i)),
        s\<lparr>procs := (procs s)[i := (procs s ! i)\<lparr>m_kstack := 0, m_pid := 0, m_parent := None,
          m_name := [], m_killed := False, m_state := UNUSED\<rparr>]\<rparr>)
    | None \<Rightarrow>
        if (\<forall>p\<in>set (procs s). m_parent p \<noteq> Some cur) \<or> m_killed (procs s ! cur)
        then wait cur s = Inr (NoChild, s)
        else wait cur s = Inr (Asleep, s\<lparr>procs := (procs s)[cur := (procs s ! cur)
               \<lparr>m_chan := Some (ChSlot cur), m_state := SLEEPING\<rparr>]\<rparr>)"
proof (cases "find_idx (\<lambda>p. m_parent p = Some cur \<and> m_state p = ZOMBIE) (procs s)")
  case None
  have k: "(find_idx (\<lambda>p. m_parent p = Some cur) (procs s) = None) = (\<forall>p\<in>set (procs s). m_parent p \<noteq> Some cur)"
    by (simp add: find_idx_None)
  show ?thesis unfolding wait_def None option.case k
    using assms by (simp add: sleep_begin_def sched_def upd_proc_def)
next
  case (Some i)
  then show ?thesis by (simp add: wait_def upd_proc_def)
qed

theorem wait_outcomes_witness:
  "fst (projr (wait 0 (kern_with [a_proc 1 RUNNING 3 0, (a_proc 2 ZOMBIE 3 0)\<lparr>m_parent := Some 0\<rparr>] [[], [], []])))
    = Reaped 2"
proof -
  let ?s = "kern_with [a_proc 1 RUNNING 3 0, (a_proc 2 ZOMBIE 3 0)\<lparr>m_parent := Some 0\<rparr>] [[], [], []]"
  have "find_idx (\<lambda>p. m_parent p = Some 0 \<and> m_state p = ZOMBIE) (procs ?s) = Some 1"
    by (simp add: kern_with_def a_proc_def zero_proc_def)
  then show ?thesis using wait_outcomes [of 0 ?s] by (simp add: a_proc_def)
qed

section \<open>Kill\<close>

text \<open>
  C39: \<open>kill(0)\<close> poisons a free slot. A free slot has pid 0 and \<open>kill\<close> does not look at the
  state, so \<open>kill(0)\<close> succeeds when a slot is free: it marks the first slot with pid 0 as
  killed. \<open>allocproc\<close> does not clear the mark, so when that slot is the first free one, the
  next process created there is born killed.
\<close>

theorem kill_zero_poisons:
  assumes "find_idx (\<lambda>p. m_pid p = 0) (procs s) = Some i"
    and "find_idx (\<lambda>p. m_state p = UNUSED) (procs s) = Some i"
  shows "\<exists>s1 s2. kill 0 s = (0, s1) \<and> allocproc (Some k) s1 = (Some i, s2) \<and>
    m_killed (procs s2 ! i) \<and> m_state (procs s2 ! i) = EMBRYO \<and> m_pid (procs s2 ! i) = nextpid s"
proof -
  note i = find_idx_SomeD [OF assms(2)]
  define s1 where "s1 = s\<lparr>procs := (procs s)[i := (procs s ! i)\<lparr>m_killed := True, m_state := UNUSED\<rparr>]\<rparr>"
  have kl: "kill 0 s = (0, s1)" using assms(1) i by (simp add: kill_def upd_proc_def s1_def)
  have "find_idx (\<lambda>p. m_state p = UNUSED) (procs s1) = Some i"
    using assms(2) by (auto simp: find_idx_Some s1_def nth_list_update)
  from allocproc_some [OF this, of k] show ?thesis using kl i by (simp add: s1_def)
qed

theorem kill_zero_poisons_witness:
  "\<exists>s1 s2. kill 0 (kern_with [a_proc 1 RUNNING 3 0] [[], [], []]) = (0, s1) \<and>
     allocproc (Some 7) s1 = (Some 1, s2) \<and> m_killed (procs s2 ! 1)"
proof -
  have "find_idx (\<lambda>p. m_pid p = 0) (procs (kern_with [a_proc 1 RUNNING 3 0] [[], [], []])) = Some 1"
    "find_idx (\<lambda>p. m_state p = UNUSED) (procs (kern_with [a_proc 1 RUNNING 3 0] [[], [], []])) = Some 1"
    by (simp_all add: kern_with_def a_proc_def zero_proc_def find_idx_replicate)
  from kill_zero_poisons [OF this, of 7] show ?thesis by blast
qed

section \<open>The circular queue\<close>

text \<open>
  C40: The circular arrays are queues. On a level with room \<open>enQ\<close> appends, and \<open>deQ\<close> takes
  the oldest entry, or returns -1 and changes nothing when the level is empty; the other
  levels keep their contents. This holds wherever front and back stand in the array.
\<close>

theorem levels_are_queues:
  assumes "queues_good s" "lv < 3"
  shows "(length (level s lv) < 64 \<longrightarrow>
      levels (snd (enQ lv x s)) = (levels s)[lv := level s lv @ [x]] \<and> queues_good (snd (enQ lv x s))) \<and>
    (case level s lv of [] \<Rightarrow> deQ lv s = (-1, s)
      | y # ys \<Rightarrow> fst (deQ lv s) = y \<and> levels (snd (deQ lv s)) = (levels s)[lv := ys] \<and>
          queues_good (snd (deQ lv s)))"
proof
  show "length (level s lv) < 64 \<longrightarrow>
      levels (snd (enQ lv x s)) = (levels s)[lv := level s lv @ [x]] \<and> queues_good (snd (enQ lv x s))"
    using enQ_at [OF assms] at_levelsD by blast
  show "case level s lv of [] \<Rightarrow> deQ lv s = (-1, s)
      | y # ys \<Rightarrow> fst (deQ lv s) = y \<and> levels (snd (deQ lv s)) = (levels s)[lv := ys] \<and>
          queues_good (snd (deQ lv s))"
  proof (cases "level s lv")
    case Nil
    then have "isEmpty lv s" by (simp add: isEmpty_def level_def fq_elems_Nil)
    then show ?thesis using Nil by (simp add: deQ_def)
  next
    case (Cons y ys)
    obtain s' where d: "deQ lv s = (y, s')" "at_levels s ((levels s)[lv := ys]) s'"
      by (rule deQ_at [OF assms Cons])
    then show ?thesis using Cons at_levelsD(1,2) [OF d(2)] by simp
  qed
qed

theorem levels_are_queues_witness:
  "levels (snd (enQ 0 5 (kern_with [] [[3], [], []]))) = [[3, 5], [], []]"
  using levels_are_queues [of "kern_with [] [[3], [], []]" 0 5] by simp

end
