(* ===== verification/Mlfq_Trap.thy ===== *)
theory Mlfq_Trap
  imports Mlfq_Props
begin

text \<open>
  \<open>trap\<close> of Project01-MLFQ/trap.c: the way every process of the scheduler enters the kernel and loses the
  processor, with the interrupts 128, 129 and 130 the project adds, and the calls of sysproc.c that
  reach the scheduler. \<open>trap\<close> is cut where \<open>yield\<close> switches to the scheduler; \<open>trap_end\<close> is what
  follows when the process is chosen again. The dispatcher of the system calls and the device handlers are arguments.
\<close>

datatype vector = T_SYSCALL | IRQ_TIMER | IRQ_IDE | IRQ_IDE1 | IRQ_KBD | IRQ_COM1 | IRQ_SPURIOUS
  | T_MYCALL | T_LOCK | T_UNLOCK | T_OTHER nat

definition T_IRQ0 :: nat where "T_IRQ0 = 32"

text \<open>The labels of the switch, from the number in the trap frame.\<close>

definition vector_of :: "nat \<Rightarrow> vector" where
  "vector_of n =
     (if n = 64 then T_SYSCALL else if n = T_IRQ0 then IRQ_TIMER
      else if n = T_IRQ0 + 14 then IRQ_IDE else if n = T_IRQ0 + 15 then IRQ_IDE1
      else if n = T_IRQ0 + 1 then IRQ_KBD else if n = T_IRQ0 + 4 then IRQ_COM1
      else if n = T_IRQ0 + 7 \<or> n = T_IRQ0 + 31 then IRQ_SPURIOUS
      else if n = 128 then T_MYCALL else if n = 129 then T_LOCK else if n = 130 then T_UNLOCK
      else T_OTHER n)"

text \<open>The gates of the interrupt table: whether interrupts stay on, and the least privilege that may raise
  the interrupt by an instruction.\<close>

record gate =
  istrap :: bool
  gdpl :: nat

definition tvinit :: "gate list" where
  "tvinit =
     (replicate 256 \<lparr>istrap = False, gdpl = 0\<rparr>)
       [64 := \<lparr>istrap = True, gdpl = 3\<rparr>, 128 := \<lparr>istrap = True, gdpl = 3\<rparr>,
        129 := \<lparr>istrap = True, gdpl = 3\<rparr>, 130 := \<lparr>istrap = True, gdpl = 3\<rparr>]"

text \<open>How \<open>trap\<close> ends: back to the interrupted code, with the process exited, or in the scheduler by
  \<open>yield\<close>.\<close>

datatype trap_result = Resumed | Gone | Yielded

definition user_mode :: "trapframe \<Rightarrow> bool" where
  "user_mode tf \<longleftrightarrow> tf_cs tf mod 4 = 3"

definition is_killed :: "nat option \<Rightarrow> kern \<Rightarrow> bool" where
  "is_killed cur s \<longleftrightarrow> (case cur of None \<Rightarrow> False | Some p \<Rightarrow> m_killed (procs s ! p))"

text \<open>\<open>myproc()\<close> where the code does not test it for null.\<close>

definition the_cur :: "nat option \<Rightarrow> (nat \<Rightarrow> 'a res) \<Rightarrow> 'a res" where
  "the_cur cur f = (case cur of None \<Rightarrow> Inl (Overrun ''myproc: null'') | Some p \<Rightarrow> f p)"

definition exits :: "nat option \<Rightarrow> kern \<Rightarrow> (trap_result \<times> kern) res" where
  "exits cur s = the_cur cur (\<lambda>p. bindR (exit p s) (\<lambda>s. Inr (Gone, s)))"

definition myusercall :: "nat option \<Rightarrow> kern \<Rightarrow> (call_end \<times> kern) res" where
  "myusercall cur s =
     the_cur cur (\<lambda>p. bindR (exit p (cprintf (Msg ''user interrupt 128 called'') s)) (\<lambda>s. Inr (Exited, s)))"

definition trap_switch :: "(vector \<Rightarrow> kern \<Rightarrow> kern) \<Rightarrow> nat \<Rightarrow> vector \<Rightarrow> trapframe \<Rightarrow> nat option \<Rightarrow> kern \<Rightarrow> (call_end \<times> kern) res" where
  "trap_switch dev cpu v tf cur s =
     (case v of
        IRQ_TIMER \<Rightarrow> Inr (Returned, timer_irq cpu s)
      | IRQ_IDE \<Rightarrow> Inr (Returned, dev v s)
      | IRQ_IDE1 \<Rightarrow> Inr (Returned, s)
      | IRQ_KBD \<Rightarrow> Inr (Returned, dev v s)
      | IRQ_COM1 \<Rightarrow> Inr (Returned, dev v s)
      | IRQ_SPURIOUS \<Rightarrow> Inr (Returned, cprintf (Msg ''spurious interrupt'') s)
      | T_MYCALL \<Rightarrow> myusercall cur s
      | T_LOCK \<Rightarrow> the_cur cur (\<lambda>p. schedulerLock PASSWORD p s)
      | T_UNLOCK \<Rightarrow> the_cur cur (\<lambda>p. schedulerUnlock PASSWORD p s)
      | _ \<Rightarrow>
          (case cur of
             None \<Rightarrow> Inl (Panic ''trap'')
           | Some p \<Rightarrow>
               guardR (tf_cs tf mod 4 \<noteq> 0) (Panic ''trap'')
                 (Inr (Returned, upd_proc (int p) (\<lambda>q. q\<lparr>m_killed := True\<rparr>) (cprintf (Msg ''kill proc'') s)))))"

definition trap_end :: "trapframe \<Rightarrow> nat option \<Rightarrow> kern \<Rightarrow> (trap_result \<times> kern) res" where
  "trap_end tf cur s = (if is_killed cur s \<and> user_mode tf then exits cur s else Inr (Resumed, s))"

definition trap_call :: "(nat \<Rightarrow> kern \<Rightarrow> (call_end \<times> kern) res) \<Rightarrow> trapframe \<Rightarrow> nat option \<Rightarrow> kern \<Rightarrow> (trap_result \<times> kern) res" where
  "trap_call sysc tf cur s = the_cur cur (\<lambda>p.
     if m_killed (procs s ! p) then exits cur s
     else bindR (sysc p (upd_proc (int p) (\<lambda>q. q\<lparr>m_tf := tf\<rparr>) s)) (\<lambda>(e, s).
       if e = Exited then Inr (Gone, s)
       else if m_killed (procs s ! p) then exits cur s else Inr (Resumed, s)))"

definition trap :: "(nat \<Rightarrow> kern \<Rightarrow> (call_end \<times> kern) res) \<Rightarrow> (vector \<Rightarrow> kern \<Rightarrow> kern) \<Rightarrow>
    nat \<Rightarrow> vector \<Rightarrow> trapframe \<Rightarrow> nat option \<Rightarrow> kern \<Rightarrow> (trap_result \<times> kern) res" where
  "trap sysc dev cpu v tf cur s =
     (if v = T_SYSCALL then trap_call sysc tf cur s
      else bindR (trap_switch dev cpu v tf cur s) (\<lambda>(e, s).
        if e = Exited then Inr (Gone, s)
        else if is_killed cur s \<and> user_mode tf then exits cur s
        else case cur of
            None \<Rightarrow> trap_end tf cur s
          | Some p \<Rightarrow>
              if m_state (procs s ! p) = RUNNING \<and> v = IRQ_TIMER
              then bindR (yield p s) (\<lambda>s. Inr (Yielded, s))
              else trap_end tf cur s))"

text \<open>The calls of sysproc.c that reach the scheduler. An argument is \<open>None\<close> when \<open>argint\<close> fails; the result
  goes to \<open>eax\<close>.\<close>

definition sys_yield :: "nat \<Rightarrow> kern \<Rightarrow> (int \<times> kern) res" where
  "sys_yield cur s = bindR (yield cur s) (\<lambda>s. Inr (1, s))"

definition sys_getLevel :: "nat \<Rightarrow> kern \<Rightarrow> int" where
  "sys_getLevel cur s = getLevel cur s"

definition sys_setPriority :: "int option \<Rightarrow> int option \<Rightarrow> kern \<Rightarrow> int \<times> kern" where
  "sys_setPriority pid priority s =
     (case (pid, priority) of (Some p, Some n) \<Rightarrow> (1, setPriority p n s) | _ \<Rightarrow> (-1, s))"

definition sys_schedulerLock :: "int option \<Rightarrow> nat \<Rightarrow> kern \<Rightarrow> (int \<times> call_end \<times> kern) res" where
  "sys_schedulerLock password cur s =
     (case password of None \<Rightarrow> Inr (-1, Returned, s) | Some p \<Rightarrow> bindR (schedulerLock p cur s) (\<lambda>r. Inr (1, r)))"

definition sys_schedulerUnlock :: "int option \<Rightarrow> nat \<Rightarrow> kern \<Rightarrow> (int \<times> call_end \<times> kern) res" where
  "sys_schedulerUnlock password cur s =
     (case password of None \<Rightarrow> Inr (-1, Returned, s) | Some p \<Rightarrow> bindR (schedulerUnlock p cur s) (\<lambda>r. Inr (1, r)))"

section \<open>Properties\<close>

text \<open>A program can raise the system call and the three interrupts of the project by an instruction, and nothing else.\<close>

lemma user_gates:
  assumes "n < 256"
  shows "gdpl (tvinit ! n) = 3 \<longleftrightarrow> vector_of n \<in> {T_SYSCALL, T_MYCALL, T_LOCK, T_UNLOCK}"
  using assms by (auto simp: tvinit_def nth_list_update vector_of_def T_IRQ0_def)

lemma exits_gone: "exits cur s = Inr (r, s') \<Longrightarrow> r = Gone"
  by (auto simp: exits_def the_cur_def bindR_eq_Inr split: option.splits)

lemma trap_end_resumed: "trap_end tf cur s = Inr (Resumed, s') \<Longrightarrow> s' = s \<and> \<not> (is_killed cur s \<and> user_mode tf)"
  by (auto simp: trap_end_def dest: exits_gone split: if_splits)

lemma timer_procs: "length (procs (timer_irq c s)) = length (procs s) \<and>
   (p < length (procs s) \<longrightarrow> m_killed (procs (timer_irq c s) ! p) = m_killed (procs s ! p) \<and>
     (m_state (procs s ! p) = RUNNING \<longrightarrow> m_state (procs (timer_irq c s) ! p) = RUNNING))"
  by (auto simp: timer_irq_def wakeup_def wakeup1_def)

lemma trap_resumed:
  assumes "trap sysc dev cpu v tf (Some p) s = Inr (Resumed, s')" "user_mode tf \<or> v = T_SYSCALL"
  shows "\<not> m_killed (procs s' ! p)"
proof (cases "v = T_SYSCALL")
  case True
  then have "trap_call sysc tf (Some p) s = Inr (Resumed, s')" using assms(1) by (simp add: trap_def)
  then show ?thesis
    by (auto simp: trap_call_def the_cur_def bindR_eq_Inr dest: exits_gone split: if_splits)
next
  case False
  then obtain e s1 where 1: "trap_switch dev cpu v tf (Some p) s = Inr (e, s1)" "e \<noteq> Exited"
    "\<not> (is_killed (Some p) s1 \<and> user_mode tf)"
    "(if m_state (procs s1 ! p) = RUNNING \<and> v = IRQ_TIMER
      then bindR (yield p s1) (\<lambda>s. Inr (Yielded, s)) else trap_end tf (Some p) s1) = Inr (Resumed, s')"
    using assms(1) by (auto simp: trap_def bindR_eq_Inr dest: exits_gone split: if_splits)
  then have "trap_end tf (Some p) s1 = Inr (Resumed, s')" by (auto simp: bindR_eq_Inr split: if_splits)
  then show ?thesis using trap_end_resumed [of tf "Some p" s1 s'] assms(2) False by (simp add: is_killed_def)
qed

lemma timer_yields:
  assumes "p < length (procs s)" "m_state (procs s ! p) = RUNNING" "trap sysc dev cpu IRQ_TIMER tf (Some p) s = Inr (r, s')"
  shows "if m_killed (procs s ! p) \<and> user_mode tf then r = Gone
    else r = Yielded \<and> m_state (procs s' ! p) = RUNNABLE"
proof -
  let ?s = "timer_irq cpu s"
  have t: "p < length (procs ?s)" "m_killed (procs ?s ! p) = m_killed (procs s ! p)" "m_state (procs ?s ! p) = RUNNING"
    using timer_procs [of cpu s p] assms(1,2) by simp_all
  have 1: "(if m_killed (procs s ! p) \<and> user_mode tf then exits (Some p) ?s
            else bindR (yield p ?s) (\<lambda>s. Inr (Yielded, s))) = Inr (r, s')"
    using assms(3) t by (simp add: trap_def trap_switch_def is_killed_def cong: if_cong)
  show ?thesis
  proof (cases "m_killed (procs s ! p) \<and> user_mode tf")
    case True
    then show ?thesis using 1 exits_gone [of "Some p" ?s r s'] by simp
  next
    case False
    then have "r = Yielded" "yield p ?s = Inr s'" using 1 by (simp_all add: if_not_P [OF False] bindR_eq_Inr)
    then show ?thesis using t(1) False inv_sched [of p _ s'] by (auto simp: yield_def upd_proc_def dest!: inv_sched)
  qed
qed

text \<open>Apart from the interrupt that unlocks the scheduler, a trap keeps the queues in order, if the system calls and the devices
  do.\<close>

lemma exits_keeps: "sched_inv s \<Longrightarrow> on_cpu s = Some p \<Longrightarrow> exits (Some p) s = Inr (r, s') \<Longrightarrow> sched_inv s'"
  using inv_exit [of s p s'] by (auto simp: exits_def the_cur_def bindR_eq_Inr)

lemma trap_end_keeps: "sched_inv s \<Longrightarrow> on_cpu s = Some p \<Longrightarrow> trap_end tf (Some p) s = Inr (r, s') \<Longrightarrow> sched_inv s'"
  using exits_keeps by (auto simp: trap_end_def split: if_splits)

lemma core_on_cpu: "core s' = core s \<Longrightarrow> on_cpu s' = on_cpu s"
  by (simp add: core_def on_cpu_def)

lemma core_cprintf: "core (cprintf m s) = core s"
  by (simp add: core_def cprintf_def states_def)

lemma timer_on_cpu: "on_cpu (timer_irq c s) = on_cpu s"
  by (simp add: timer_irq_def wakeup_def wakeup1_def on_cpu_def)

lemma lock_on_cpu: "schedulerLock pw p s = Inr (Returned, s') \<Longrightarrow> on_cpu s' = on_cpu s"
  by (auto simp: schedulerLock_def bindR_eq_Inr on_cpu_def upd_proc_def split: if_splits)

lemma trap_switch_keeps:
  assumes "sched_inv s" "cur_runs s p" "v \<noteq> T_UNLOCK"
    "\<And>v. sched_inv (dev v s) \<and> on_cpu (dev v s) = Some p"
    "trap_switch dev cpu v tf (Some p) s = Inr (e, s')"
  shows "sched_inv s' \<and> (e = Returned \<longrightarrow> on_cpu s' = Some p)"
proof -
  have c: "on_cpu s = Some p" using assms(2) by (simp add: cur_runs_def)
  have pr: "sched_inv (cprintf m s)" "on_cpu (cprintf m s) = Some p" for m
    using sched_inv_core [OF core_cprintf] core_on_cpu [OF core_cprintf] assms(1) c by auto
  have k: "core (upd_proc (int p) (\<lambda>q. q\<lparr>m_killed := True\<rparr>) (cprintf m s)) = core s" for m
    by (simp add: core_upd_proc core_cprintf)
  show ?thesis
  proof (cases v)
    case T_MYCALL
    then show ?thesis using assms(5) inv_exit [OF pr] by (auto simp: trap_switch_def myusercall_def the_cur_def bindR_eq_Inr)
  next
    case T_LOCK
    then show ?thesis using assms(5) inv_lock [OF assms(1,2)] lock_on_cpu c by (auto simp: trap_switch_def the_cur_def)
  qed (use assms pr c inv_timer timer_on_cpu sched_inv_core [OF k] core_on_cpu [OF k] in
    \<open>auto simp: trap_switch_def guardR_eq_Inr\<close>)
qed

lemma trap_keeps_queues:
  assumes "sched_inv s" "cur_runs s p" "v \<noteq> T_UNLOCK"
    "\<And>s e s'. sched_inv s \<Longrightarrow> cur_runs s p \<Longrightarrow> sysc p s = Inr (e, s') \<Longrightarrow> sched_inv s' \<and> (e = Returned \<longrightarrow> on_cpu s' = Some p)"
    "\<And>v. sched_inv (dev v s) \<and> on_cpu (dev v s) = Some p"
    "trap sysc dev cpu v tf (Some p) s = Inr (r, s')"
  shows "sched_inv s'"
proof (cases "v = T_SYSCALL")
  case True
  let ?s = "upd_proc (int p) (\<lambda>q. q\<lparr>m_tf := tf\<rparr>) s"
  have k: "core ?s = core s" by (simp add: core_upd_proc)
  have c: "on_cpu s = Some p" using assms(2) by (simp add: cur_runs_def)
  have r: "cur_runs ?s p" using assms(2)
    by (cases "p < length (procs s)") (auto simp: cur_runs_def on_cpu_def upd_proc_def list_update_beyond not_less)
  have i: "sched_inv ?s" using sched_inv_core [OF k] assms(1) by simp
  show ?thesis
  proof (cases "m_killed (procs s ! p)")
    case True
    then show ?thesis using assms(6) \<open>v = T_SYSCALL\<close> exits_keeps [OF assms(1) c]
      by (auto simp: trap_def trap_call_def the_cur_def)
  next
    case False
    then obtain e s1 where 1: "sysc p ?s = Inr (e, s1)"
      "(if e = Exited then Inr (Gone, s1) else if m_killed (procs s1 ! p) then exits (Some p) s1 else Inr (Resumed, s1)) = Inr (r, s')"
      using assms(6) \<open>v = T_SYSCALL\<close> by (auto simp: trap_def trap_call_def the_cur_def bindR_eq_Inr)
    have "sched_inv s1" "e = Returned \<longrightarrow> on_cpu s1 = Some p" using assms(4) [OF i r 1(1)] by blast+
    then show ?thesis using 1(2) exits_keeps [of s1 p r s'] by (cases e) (auto split: if_splits)
  qed
next
  case False
  then obtain e s1 where 1: "trap_switch dev cpu v tf (Some p) s = Inr (e, s1)"
    "(if e = Exited then Inr (Gone, s1) else if is_killed (Some p) s1 \<and> user_mode tf then exits (Some p) s1
      else if m_state (procs s1 ! p) = RUNNING \<and> v = IRQ_TIMER
      then bindR (yield p s1) (\<lambda>s. Inr (Yielded, s)) else trap_end tf (Some p) s1) = Inr (r, s')"
    using assms(6) unfolding trap_def if_not_P [OF False] option.case bindR_eq_Inr by auto
  have k: "sched_inv s1" "e = Returned \<longrightarrow> on_cpu s1 = Some p"
    using trap_switch_keeps [OF assms(1,2,3,5) 1(1)] by blast+
  show ?thesis
  proof (cases "e = Exited")
    case True
    then show ?thesis using 1(2) k(1) by simp
  next
    case False
    then have c: "on_cpu s1 = Some p" using k(2) by (cases e) simp_all
    note ends = inv_yield [OF k(1) c] trap_end_keeps [OF k(1) c, of tf r s'] exits_keeps [OF k(1) c, of r s']
    from 1(2) False consider "exits (Some p) s1 = Inr (r, s')"
      | "bindR (yield p s1) (\<lambda>s. Inr (Yielded, s)) = Inr (r, s')" | "trap_end tf (Some p) s1 = Inr (r, s')"
      by (metis (no_types, lifting))
    then show ?thesis by cases (use ends in \<open>auto simp only: bindR_eq_Inr prod.inject sum.inject\<close>)
  qed
qed

text \<open>C28: a killed process never gets back to its program: whatever the trap, when \<open>trap\<close> (or its end after the process had given
  up the processor) returns to user mode, the process is not marked killed. And every timer tick that finds the process running takes the
  processor from it: the process is queued as runnable by \<open>yield\<close>, or it exits because it was killed.\<close>

theorem trap_stops_killed:
  assumes "p < length (procs s)"
  shows "(trap sysc dev cpu v tf (Some p) s = Inr (Resumed, s') \<and> (user_mode tf \<or> v = T_SYSCALL) \<longrightarrow> \<not> m_killed (procs s' ! p)) \<and>
    (trap_end tf (Some p) s = Inr (Resumed, s') \<and> user_mode tf \<longrightarrow> \<not> m_killed (procs s' ! p)) \<and>
    (m_state (procs s ! p) = RUNNING \<and> trap sysc dev cpu IRQ_TIMER tf (Some p) s = Inr (r, s') \<longrightarrow>
       (if m_killed (procs s ! p) \<and> user_mode tf then r = Gone
        else r = Yielded \<and> m_state (procs s' ! p) = RUNNABLE))"
proof (intro conjI impI)
  assume "trap sysc dev cpu v tf (Some p) s = Inr (Resumed, s') \<and> (user_mode tf \<or> v = T_SYSCALL)"
  then show "\<not> m_killed (procs s' ! p)" using trap_resumed [of sysc dev cpu v tf p s s'] by blast
next
  assume "trap_end tf (Some p) s = Inr (Resumed, s') \<and> user_mode tf"
  then show "\<not> m_killed (procs s' ! p)" using trap_end_resumed [of tf "Some p" s s'] by (auto simp: is_killed_def)
next
  assume "m_state (procs s ! p) = RUNNING \<and> trap sysc dev cpu IRQ_TIMER tf (Some p) s = Inr (r, s')"
  then show "if m_killed (procs s ! p) \<and> user_mode tf then r = Gone else r = Yielded \<and> m_state (procs s' ! p) = RUNNABLE"
    using timer_yields [OF assms] by blast
qed

theorem trap_stops_killed_witness:
  "\<exists>s'. trap (\<lambda>p s. Inr (Returned, s)) (\<lambda>v s. s) 0 IRQ_TIMER tf_zero (Some 0) picked = Inr (Yielded, s') \<and>
     m_state (procs s' ! 0) = RUNNABLE"
proof -
  let ?t = "trap (\<lambda>p s. Inr (Returned, s)) (\<lambda>v s. s) 0 IRQ_TIMER tf_zero (Some 0) picked"
  have p: "0 < length (procs picked)" by code_simp
  have q: "m_state (procs picked ! 0) = RUNNING" "\<not> user_mode tf_zero"
    using picked(3) by (simp_all add: cur_runs_def user_mode_def tf_zero_def)
  have "yield 0 (timer_irq 0 picked) = Inr (upd_proc 0 (\<lambda>p. p\<lparr>m_state := RUNNABLE\<rparr>) (timer_irq 0 picked))"
    using p timer_procs [of 0 picked 0] by (simp add: yield_def sched_def upd_proc_def)
  then obtain r s' where t: "?t = Inr (r, s')"
    using q timer_procs [of 0 picked 0] p by (simp add: trap_def trap_switch_def)
  have "r = Yielded \<and> m_state (procs s' ! 0) = RUNNABLE"
    using trap_stops_killed [OF p, of "\<lambda>p s. Inr (Returned, s)" "\<lambda>v s. s" 0 IRQ_TIMER tf_zero s' r] t q by auto
  then show ?thesis using t by auto
qed

end
