(* ===== verification/C_String.thy ===== *)
theory C_String
  imports Kernel_Prelude
begin

text \<open>
  Strings in memory and the routines of string.c. A C string is the list of its bytes before
  the terminator; an array of characters is the list of all its bytes. Reading at the end of
  a list gives the terminator.
\<close>

type_synonym byte = "8 word"

definition char_at :: "byte list \<Rightarrow> byte" where
  "char_at p = (case p of [] \<Rightarrow> 0 | c # _ \<Rightarrow> c)"

definition c_str :: "byte list \<Rightarrow> byte list" where
  "c_str p = takeWhile (\<lambda>c. c \<noteq> 0) p"

fun strncmp :: "byte list \<Rightarrow> byte list \<Rightarrow> nat \<Rightarrow> int" where
  "strncmp p q 0 = 0"
| "strncmp p q (Suc n) =
     (if char_at p \<noteq> 0 \<and> char_at p = char_at q then strncmp (tl p) (tl q) n
      else uint (char_at p) - uint (char_at q))"

fun strncpy :: "byte list \<Rightarrow> nat \<Rightarrow> byte list" where
  "strncpy t 0 = []"
| "strncpy t (Suc n) = (if char_at t = 0 then replicate (Suc n) 0 else char_at t # strncpy (tl t) n)"

text \<open>The string that \<open>safestrcpy\<close> leaves, for a positive count.\<close>

fun copy_str :: "byte list \<Rightarrow> nat \<Rightarrow> byte list" where
  "copy_str t 0 = []"
| "copy_str t (Suc n) = (if char_at t = 0 then [] else char_at t # copy_str (tl t) n)"

definition safestrcpy :: "byte list \<Rightarrow> nat \<Rightarrow> byte list" where
  "safestrcpy t n = copy_str t (n - 1)"

fun memcmp :: "byte list \<Rightarrow> byte list \<Rightarrow> nat \<Rightarrow> int" where
  "memcmp p q 0 = 0"
| "memcmp p q (Suc n) =
     (if char_at p \<noteq> char_at q then uint (char_at p) - uint (char_at q) else memcmp (tl p) (tl q) n)"

text \<open>\<open>memmove\<close> on a memory, with its two directions: the copy from the end when the areas
  overlap with the destination above the source.\<close>

type_synonym mem = "nat \<Rightarrow> byte"

fun move_down :: "nat \<Rightarrow> nat \<Rightarrow> nat \<Rightarrow> mem \<Rightarrow> mem" where
  "move_down d s 0 m = m"
| "move_down d s (Suc n) m = move_down d s n (m(d + n := m (s + n)))"

fun move_up :: "nat \<Rightarrow> nat \<Rightarrow> nat \<Rightarrow> mem \<Rightarrow> mem" where
  "move_up d s 0 m = m"
| "move_up d s (Suc n) m = move_up (Suc d) (Suc s) n (m(d := m s))"

definition memmove :: "nat \<Rightarrow> nat \<Rightarrow> nat \<Rightarrow> mem \<Rightarrow> mem" where
  "memmove d s n m = (if s < d \<and> s + n > d then move_down d s n m else move_up d s n m)"

section \<open>Lemmas\<close>

lemma c_str_Nil [simp]: "c_str [] = []"
  by (simp add: c_str_def)

lemma c_str_Cons: "c_str (c # p) = (if c = 0 then [] else c # c_str p)"
  by (simp add: c_str_def)

lemma char_at_Cons [simp]: "char_at (c # p) = c" "char_at [] = 0"
  by (simp_all add: char_at_def)

lemma c_str_char: "char_at p \<noteq> 0 \<Longrightarrow> c_str p = char_at p # c_str (tl p)"
  by (cases p) (auto simp: c_str_Cons)

lemma c_str_char0: "char_at p = 0 \<Longrightarrow> c_str p = []"
  by (cases p) (auto simp: c_str_Cons)

text \<open>\<open>strncmp\<close> decides equality of the first \<open>n\<close> characters.\<close>

lemma strncmp_eq: "strncmp p q n = 0 \<longleftrightarrow> take n (c_str p) = take n (c_str q)"
proof (induction n arbitrary: p q)
  case (Suc n)
  consider "char_at p = 0" "char_at q = 0" | "char_at p \<noteq> 0" "char_at q = char_at p" | "char_at p \<noteq> char_at q"
    by argo
  then show ?case
  proof cases
    case 1
    then show ?thesis by (simp add: c_str_char0)
  next
    case 2
    then show ?thesis using Suc.IH [of "tl p" "tl q"] by (simp add: c_str_char)
  next
    case 3
    then have "take (Suc n) (c_str p) \<noteq> take (Suc n) (c_str q)"
      by (cases "char_at p = 0"; cases "char_at q = 0") (simp_all add: c_str_char c_str_char0)
    moreover have "uint (char_at p) - uint (char_at q) \<noteq> 0" using 3 by (simp add: word_uint_eq_iff)
    ultimately show ?thesis using 3 by simp
  qed
qed simp

lemma length_strncpy [simp]: "length (strncpy t n) = n"
  by (induction n arbitrary: t) auto

lemma c_str_replicate [simp]: "c_str (replicate n 0) = []"
  by (cases n) (simp_all add: c_str_Cons)

lemma c_str_strncpy: "c_str (strncpy t n) = take n (c_str t)"
proof (induction n arbitrary: t)
  case (Suc n)
  then show ?case
    by (cases "char_at t = 0") (simp_all add: c_str_char0 c_str_char c_str_Cons)
qed simp

lemma copy_str_take: "copy_str t n = take n (c_str t)"
proof (induction n arbitrary: t)
  case (Suc n)
  then show ?case by (cases "char_at t = 0") (simp_all add: c_str_char0 c_str_char)
qed simp

lemma c_str_idem [simp]: "c_str (c_str t) = c_str t"
  by (simp add: c_str_def)

lemma c_str_take: "c_str (take n t) = take n (c_str t)"
  by (induction t arbitrary: n) (auto simp: c_str_Cons take_Cons split: nat.splits)

text \<open>Both directions move the old bytes.\<close>

lemma move_down_eq:
  assumes "s \<le> d"
  shows "move_down d s n m a = (if d \<le> a \<and> a < d + n then m (s + (a - d)) else m a)"
proof (induction n arbitrary: m)
  case (Suc n)
  show ?case
  proof (cases "d \<le> a \<and> a < d + n")
    case True
    then have "s + (a - d) \<noteq> d + n" using assms by linarith
    then show ?thesis using True Suc by simp
  next
    case False
    then show ?thesis using Suc by auto
  qed
qed auto

lemma move_up_eq:
  assumes "d \<le> s \<or> s + n \<le> d"
  shows "move_up d s n m a = (if d \<le> a \<and> a < d + n then m (s + (a - d)) else m a)"
  using assms
proof (induction n arbitrary: d s m)
  case (Suc n)
  have ih: "move_up (Suc d) (Suc s) n (m(d := m s)) a =
      (if Suc d \<le> a \<and> a < Suc d + n then (m(d := m s)) (Suc s + (a - Suc d)) else (m(d := m s)) a)"
    by (rule Suc.IH) (use Suc.prems in auto)
  show ?case
  proof (cases "Suc d \<le> a \<and> a < Suc d + n")
    case True
    then have "Suc s + (a - Suc d) \<noteq> d" "Suc s + (a - Suc d) = s + (a - d)" using Suc.prems by auto
    then show ?thesis using True ih by simp
  next
    case False
    then show ?thesis using ih by auto
  qed
qed auto

lemma memmove_eq: "memmove d s n m a = (if d \<le> a \<and> a < d + n then m (s + (a - d)) else m a)"
proof (cases "s < d \<and> s + n > d")
  case True
  then show ?thesis using move_down_eq [of s d] by (simp add: memmove_def)
next
  case False
  then have "d \<le> s \<or> s + n \<le> d" by auto
  then show ?thesis unfolding memmove_def if_not_P [OF False] by (rule move_up_eq)
qed

end
