(* ===== verification/Fs_Bytes.thy ===== *)
theory Fs_Bytes
  imports C_String
begin

text \<open>
  Disk blocks of Project03-FileSystem as arrays of bytes, and the little-endian integers
  that the x86 code reads and writes in them through casts (\<open>(uint*)bp->data\<close>,
  \<open>struct dinode\<close>, \<open>struct logheader\<close>). A block is a function from offsets to bytes; the
  code only uses offsets below \<open>BSIZE\<close>.
\<close>

unbundle bit_operations_syntax


type_synonym blk = "nat \<Rightarrow> byte"

abbreviation BSIZE :: nat where "BSIZE \<equiv> 512"

definition zero_blk :: blk where "zero_blk = (\<lambda>_. 0)"

definition rd16 :: "blk \<Rightarrow> nat \<Rightarrow> nat" where
  "rd16 b i = unat (b i) + 256 * unat (b (i + 1))"

definition wr16 :: "blk \<Rightarrow> nat \<Rightarrow> nat \<Rightarrow> blk" where
  "wr16 b i v = b(i := word_of_nat v, i + 1 := word_of_nat (v div 256))"

definition rd32 :: "blk \<Rightarrow> nat \<Rightarrow> nat" where
  "rd32 b i = rd16 b i + 65536 * rd16 b (i + 2)"

definition wr32 :: "blk \<Rightarrow> nat \<Rightarrow> nat \<Rightarrow> blk" where
  "wr32 b i v = wr16 (wr16 b i v) (i + 2) (v div 65536)"

text \<open>The \<open>k\<close>-th element of a block seen as an array of \<open>uint\<close>.\<close>

definition rdw :: "blk \<Rightarrow> nat \<Rightarrow> nat" where
  "rdw b k = rd32 b (4 * k)"

definition wrw :: "blk \<Rightarrow> nat \<Rightarrow> nat \<Rightarrow> blk" where
  "wrw b k v = wr32 b (4 * k) v"

text \<open>Copying bytes into a block, as \<open>memmove\<close> does.\<close>

definition put_bytes :: "blk \<Rightarrow> nat \<Rightarrow> byte list \<Rightarrow> blk" where
  "put_bytes b off bs = (\<lambda>i. if off \<le> i \<and> i < off + length bs then bs ! (i - off) else b i)"

definition get_bytes :: "blk \<Rightarrow> nat \<Rightarrow> nat \<Rightarrow> byte list" where
  "get_bytes b off n = map (\<lambda>i. b (off + i)) [0..<n]"

text \<open>A \<open>short\<close> in memory.\<close>

definition enc16 :: "int \<Rightarrow> nat" where
  "enc16 x = nat (x mod 65536)"

definition dec16 :: "nat \<Rightarrow> int" where
  "dec16 v = (if v < 32768 then int v else int v - 65536)"

section \<open>Round trips\<close>

lemma unat_byte: "unat (b :: byte) < 256"
  using unsigned_less [of b] by simp

lemma unat_of_nat8: "unat (word_of_nat n :: byte) = n mod 256"
  by (simp add: unat_of_nat)

lemma rd16_bound: "rd16 b i < 65536"
  using unat_byte [of "b i"] unat_byte [of "b (i + 1)"] by (simp add: rd16_def)

lemma rd32_bound: "rd32 b i < 4294967296"
  using rd16_bound [of b i] rd16_bound [of b "i + 2"] by (simp add: rd32_def)

lemma rd16_wr16: "rd16 (wr16 b i v) i = v mod 65536"
proof -
  have "v mod 65536 = v mod 256 + 256 * (v div 256 mod 256)"
    using mod_mult2_eq [of v 256 256] by simp
  then show ?thesis by (simp add: rd16_def wr16_def unat_of_nat8)
qed

lemma rd16_wr16_other: "i + 1 < j \<or> j + 1 < i \<Longrightarrow> rd16 (wr16 b i v) j = rd16 b j"
  by (auto simp: rd16_def wr16_def)

lemma rd32_wr32: "rd32 (wr32 b i v) i = v mod 4294967296"
proof -
  have "v mod 4294967296 = v mod 65536 + 65536 * (v div 65536 mod 65536)"
    using mod_mult2_eq [of v 65536 65536] by simp
  then show ?thesis by (simp add: rd32_def wr32_def rd16_wr16 rd16_wr16_other)
qed

lemma rd32_wr32_other: "i + 3 < j \<or> j + 3 < i \<Longrightarrow> rd32 (wr32 b i v) j = rd32 b j"
  by (auto simp: rd32_def wr32_def rd16_wr16_other)

lemma rd16_wr32_other: "i + 3 < j \<or> j + 1 < i \<Longrightarrow> rd16 (wr32 b i v) j = rd16 b j"
  by (auto simp: wr32_def rd16_wr16_other)

lemma rd32_wr16_other: "i + 1 < j \<or> j + 3 < i \<Longrightarrow> rd32 (wr16 b i v) j = rd32 b j"
  by (auto simp: rd32_def rd16_wr16_other)

lemma rdw_wrw: "rdw (wrw b k v) j = (if j = k then v mod 4294967296 else rdw b j)"
proof (cases "j = k")
  case False
  then have "4 * k + 3 < 4 * j \<or> 4 * j + 3 < 4 * k" by arith
  then show ?thesis using False by (simp add: rdw_def wrw_def rd32_wr32_other)
qed (simp add: rdw_def wrw_def rd32_wr32)

lemma rdw_bound: "rdw b k < 4294967296"
  by (simp add: rdw_def rd32_bound)

lemma rdw_zero [simp]: "rdw zero_blk k = 0"
  by (simp add: rdw_def rd32_def rd16_def zero_blk_def)

lemma dec_enc16: "- 32768 \<le> x \<Longrightarrow> x < 32768 \<Longrightarrow> dec16 (enc16 x) = x"
proof -
  assume a: "- 32768 \<le> x" "x < 32768"
  show ?thesis
  proof (cases "0 \<le> x")
    case True
    then show ?thesis using a by (simp add: enc16_def dec16_def)
  next
    case False
    have "(x + 65536) mod 65536 = x mod 65536" by simp
    moreover have "(x + 65536) mod 65536 = x + 65536" using a False by (simp add: mod_pos_pos_trivial del: mod_add_self2)
    ultimately have "x mod 65536 = x + 65536" by simp
    then show ?thesis using a False by (simp add: enc16_def dec16_def)
  qed
qed

lemma enc16_bound: "enc16 x < 65536"
  by (simp add: enc16_def nat_less_iff)

lemma put_get_bytes:
  "get_bytes (put_bytes b off bs) off (length bs) = bs"
  by (rule nth_equalityI) (simp_all add: get_bytes_def put_bytes_def)

lemma put_bytes_in: "off \<le> i \<Longrightarrow> i < off + length bs \<Longrightarrow> put_bytes b off bs i = bs ! (i - off)"
  by (simp add: put_bytes_def)

lemma put_bytes_out: "i < off \<or> off + length bs \<le> i \<Longrightarrow> put_bytes b off bs i = b i"
  by (auto simp: put_bytes_def)

lemma length_get_bytes [simp]: "length (get_bytes b off n) = n"
  by (simp add: get_bytes_def)

lemma nth_get_bytes [simp]: "i < n \<Longrightarrow> get_bytes b off n ! i = b (off + i)"
  by (simp add: get_bytes_def)

end
