(* ===== verification/Fs_Block.thy ===== *)
theory Fs_Block
  imports Fs_Bytes
begin

text \<open>
  The state of the file system of Project03-FileSystem and its lowest layer: blocks read
  through the buffer cache, \<open>log_write\<close>, and the block allocator \<open>balloc\<close>, \<open>bzero\<close>,
  \<open>bfree\<close> of fs.c.

  The buffer cache is transparent here: \<open>blocks\<close> is what \<open>bread\<close> returns for a block
  (see \<open>Bio\<close> for the cache itself), so \<open>bread(dev, b)\<close> is \<open>blocks s b\<close> and \<open>brelse\<close>
  leaves no trace. \<open>log_write b d s\<close> stores \<open>d\<close> as the new data of block \<open>b\<close> and records
  \<open>b\<close> in the log header. There is one device, \<open>ROOTDEV\<close>.
\<close>

section \<open>State\<close>

abbreviation NDIRECT :: nat where "NDIRECT \<equiv> 10"
abbreviation NINDIRECT :: nat where "NINDIRECT \<equiv> 128"
abbreviation NDINDIRECT :: nat where "NDINDIRECT \<equiv> 16384"
abbreviation NTINDIRECT :: nat where "NTINDIRECT \<equiv> 2097152"
abbreviation MAXFILE :: nat where "MAXFILE \<equiv> 2113674"
abbreviation BPB :: nat where "BPB \<equiv> 4096"
abbreviation IPB :: nat where "IPB \<equiv> 8"
abbreviation NINODE :: nat where "NINODE \<equiv> 50"
abbreviation ROOTDEV :: nat where "ROOTDEV \<equiv> 1"
abbreviation ROOTINO :: nat where "ROOTINO \<equiv> 1"
abbreviation LOGSIZE :: nat where "LOGSIZE \<equiv> 100"

abbreviation T_DIR :: int where "T_DIR \<equiv> 1"
abbreviation T_FILE :: int where "T_FILE \<equiv> 2"
abbreviation T_DEV :: int where "T_DEV \<equiv> 3"
abbreviation T_SYMLINK :: int where "T_SYMLINK \<equiv> 4"

record sblock =
  sb_size :: nat
  sb_nblocks :: nat
  sb_ninodes :: nat
  sb_nlog :: nat
  sb_logstart :: nat
  sb_inodestart :: nat
  sb_bmapstart :: nat

record inode =
  i_dev :: nat
  i_inum :: nat
  i_ref :: int
  i_locked :: bool
  i_valid :: bool
  i_type :: int
  i_major :: int
  i_minor :: int
  i_nlink :: int
  i_size :: nat
  i_addrs :: "nat list"

text \<open>A driver in \<open>devsw\<close>: what \<open>read\<close> returns for a count, with the bytes it stores, and
  what \<open>write\<close> returns; both come from the keyboard and the screen.\<close>

record device =
  d_read :: "nat \<Rightarrow> int \<times> byte list"
  d_write :: "byte list \<Rightarrow> int"

record fs =
  blocks :: "nat \<Rightarrow> blk"
  logged :: "nat list"           \<comment> \<open>\<open>log.lh.block[0..n)\<close>\<close>
  log_size :: nat                \<comment> \<open>\<open>log.size\<close>\<close>
  outstanding :: int
  sb :: sblock
  icache :: "inode list"
  cwd :: nat                     \<comment> \<open>the cache slot of \<open>myproc()->cwd\<close>\<close>
  devsw :: "nat \<Rightarrow> device option"

section \<open>Blocks and the log\<close>

definition log_write :: "nat \<Rightarrow> blk \<Rightarrow> fs \<Rightarrow> fs res" where
  "log_write b d s =
     guardR (length (logged s) < LOGSIZE \<and> length (logged s) < log_size s - 1) (Panic ''too big a transaction'')
       (guardR (outstanding s \<ge> 1) (Panic ''log_write outside of trans'')
         (Inr (s\<lparr>blocks := (blocks s)(b := d),
                 logged := (if b \<in> set (logged s) then logged s else logged s @ [b])\<rparr>)))"

definition bzero :: "nat \<Rightarrow> fs \<Rightarrow> fs res" where
  "bzero bno s = log_write bno zero_blk s"

definition BBLOCK :: "nat \<Rightarrow> fs \<Rightarrow> nat" where
  "BBLOCK b s = b div BPB + sb_bmapstart (sb s)"

section \<open>The block allocator\<close>

text \<open>\<open>m = 1 << (bi % 8)\<close>, the test \<open>bp->data[bi/8] & m\<close> and its two updates.\<close>

definition mark :: "nat \<Rightarrow> byte" where
  "mark bi = push_bit (bi mod 8) 1"

definition bit_clear :: "blk \<Rightarrow> nat \<Rightarrow> bool" where
  "bit_clear d bi \<longleftrightarrow> d (bi div 8) AND mark bi = 0"

definition set_mark :: "blk \<Rightarrow> nat \<Rightarrow> blk" where
  "set_mark d bi = d(bi div 8 := d (bi div 8) OR mark bi)"

definition clear_mark :: "blk \<Rightarrow> nat \<Rightarrow> blk" where
  "clear_mark d bi = d(bi div 8 := d (bi div 8) AND NOT (mark bi))"

text \<open>The inner loop: \<open>n\<close> counts down from \<open>BPB\<close>, \<open>lim\<close> is \<open>sb.size - b\<close>.\<close>

fun find_free :: "blk \<Rightarrow> nat \<Rightarrow> nat \<Rightarrow> nat \<Rightarrow> nat option" where
  "find_free d lim bi 0 = None"
| "find_free d lim bi (Suc n) =
     (if bi < lim then (if bit_clear d bi then Some bi else find_free d lim (Suc bi) n) else None)"

function balloc_from :: "nat \<Rightarrow> fs \<Rightarrow> (nat \<times> fs) res" where
  "balloc_from b s =
     (if b < sb_size (sb s)
      then (case find_free (blocks s (BBLOCK b s)) (sb_size (sb s) - b) 0 BPB of
              Some bi \<Rightarrow>
                bindR (log_write (BBLOCK b s) (set_mark (blocks s (BBLOCK b s)) bi) s) (\<lambda>s1.
                bindR (bzero (b + bi) s1) (\<lambda>s2. Inr (b + bi, s2)))
            | None \<Rightarrow> balloc_from (b + BPB) s)
      else Inl (Panic ''balloc: out of blocks''))"
  by pat_completeness auto

termination by (relation "measure (\<lambda>(b, s). sb_size (sb s) - b)") auto

declare balloc_from.simps [simp del]

definition balloc :: "fs \<Rightarrow> (nat \<times> fs) res" where
  "balloc s = balloc_from 0 s"

definition bfree :: "nat \<Rightarrow> fs \<Rightarrow> fs res" where
  "bfree b s =
     (let d = blocks s (BBLOCK b s); bi = b mod BPB
      in guardR (\<not> bit_clear d bi) (Panic ''freeing free block'')
           (log_write (BBLOCK b s) (clear_mark d bi) s))"

section \<open>Marks\<close>

lemma bit_mark: "k < 8 \<Longrightarrow> bit (mark bi) k \<longleftrightarrow> k = bi mod 8"
  by (auto simp: mark_def bit_exp_iff)

lemma bit_clear_iff: "bit_clear d bi \<longleftrightarrow> \<not> bit (d (bi div 8)) (bi mod 8)"
proof -
  let ?w = "d (bi div 8)"
  have b: "bit (?w AND mark bi) k \<longleftrightarrow> bit ?w (bi mod 8) \<and> k = bi mod 8" if "k < 8" for k
    using that by (auto simp: bit_and_iff bit_mark)
  show ?thesis unfolding bit_clear_def
  proof
    assume "?w AND mark bi = 0"
    then show "\<not> bit ?w (bi mod 8)" using b [of "bi mod 8"] by simp
  next
    assume n: "\<not> bit ?w (bi mod 8)"
    show "?w AND mark bi = 0" by (rule bit_word_eqI) (use b n in simp)
  qed
qed

lemma bit_set_mark: "k < 8 \<Longrightarrow> bit (w OR mark bi) k \<longleftrightarrow> bit w k \<or> k = bi mod 8"
  by (auto simp: bit_or_iff bit_mark)

lemma bit_clear_mark: "k < 8 \<Longrightarrow> bit (w AND NOT (mark bi)) k \<longleftrightarrow> bit w k \<and> k \<noteq> bi mod 8"
  by (auto simp: bit_and_iff bit_not_iff bit_mark)

lemma same_bit: "bi div 8 = bj div 8 \<Longrightarrow> bi mod 8 = bj mod 8 \<Longrightarrow> bi = (bj :: nat)"
  by (metis div_mult_mod_eq)

lemma bit_clear_set: "bit_clear (set_mark d bi) bj \<longleftrightarrow> bj \<noteq> bi \<and> bit_clear d bj"
  using same_bit [of bj bi] by (auto simp: bit_clear_iff set_mark_def bit_set_mark)

lemma bit_clear_clear: "bit_clear (clear_mark d bi) bj \<longleftrightarrow> bj = bi \<or> bit_clear d bj"
  using same_bit [of bj bi] by (auto simp: bit_clear_iff clear_mark_def bit_clear_mark)

text \<open>Whether the bitmap says that block \<open>a\<close> is free.\<close>

definition is_free :: "fs \<Rightarrow> nat \<Rightarrow> bool" where
  "is_free s a \<longleftrightarrow> bit_clear (blocks s (BBLOCK a s)) (a mod BPB)"

lemma from_Suc: "P bi \<Longrightarrow> (\<forall>j. bi \<le> j \<and> Q j \<longrightarrow> P j) \<longleftrightarrow> (\<forall>j. Suc bi \<le> j \<and> Q j \<longrightarrow> P j)"
  by (metis Suc_leD Suc_leI le_neq_implies_less)

lemma find_free_Some:
  "find_free d lim bi n = Some k \<longleftrightarrow>
     bi \<le> k \<and> k < bi + n \<and> k < lim \<and> bit_clear d k \<and> (\<forall>j. bi \<le> j \<and> j < k \<longrightarrow> \<not> bit_clear d j)"
proof (induction n arbitrary: bi)
  case 0
  then show ?case by auto
next
  case (Suc n)
  show ?case
  proof (cases "bi < lim \<and> \<not> bit_clear d bi")
    case True
    then have "find_free d lim bi (Suc n) = find_free d lim (Suc bi) n" by simp
    moreover have "(bi \<le> k \<and> bit_clear d k) = (Suc bi \<le> k \<and> bit_clear d k)"
      using True by (metis Suc_leD Suc_leI le_neq_implies_less)
    ultimately show ?thesis
      using Suc.IH [of "Suc bi"] from_Suc [of "\<lambda>j. \<not> bit_clear d j" bi "\<lambda>j. j < k"] True by auto
  next
    case False
    then show ?thesis by (auto simp: le_less)
  qed
qed

lemma find_free_None:
  "find_free d lim bi n = None \<longleftrightarrow> (\<forall>k. bi \<le> k \<and> (k < bi + n \<and> k < lim) \<longrightarrow> \<not> bit_clear d k)"
proof (induction n arbitrary: bi)
  case 0
  then show ?case by auto
next
  case (Suc n)
  show ?case
  proof (cases "bi < lim \<and> \<not> bit_clear d bi")
    case True
    then have "find_free d lim bi (Suc n) = find_free d lim (Suc bi) n" by simp
    then show ?thesis using Suc.IH [of "Suc bi"] True
      from_Suc [of "\<lambda>k. \<not> bit_clear d k" bi "\<lambda>k. k < bi + Suc n \<and> k < lim"] by simp
  next
    case False
    then show ?thesis by (auto simp: le_less)
  qed
qed

end
