(* ===== verification/Fs_Alloc.thy ===== *)
theory Fs_Alloc
  imports Fs_Block
begin

text \<open>
  What \<open>log_write\<close>, \<open>balloc\<close> and \<open>bfree\<close> guarantee: a log with room takes the writes,
  \<open>balloc\<close> returns the first free block zeroed and marked, \<open>bfree\<close> clears one mark, and
  nothing else changes. \<open>layout_ok\<close> says that the bitmap covers its own blocks and the
  inode blocks, so that the allocator never hands them out.
\<close>

section \<open>Room in the log\<close>

definition log_cap :: "fs \<Rightarrow> nat" where
  "log_cap s = min LOGSIZE (log_size s - 1)"

definition log_room :: "fs \<Rightarrow> nat \<Rightarrow> bool" where
  "log_room s k \<longleftrightarrow> outstanding s \<ge> 1 \<and> length (logged s) + k \<le> log_cap s"

definition logd :: "nat \<Rightarrow> blk \<Rightarrow> fs \<Rightarrow> fs" where
  "logd b d s = s\<lparr>blocks := (blocks s)(b := d),
     logged := (if b \<in> set (logged s) then logged s else logged s @ [b])\<rparr>"

text \<open>Nothing but block contents and the log differs.\<close>

definition frame :: "fs \<Rightarrow> fs \<Rightarrow> bool" where
  "frame s s' \<longleftrightarrow> s'\<lparr>blocks := (\<lambda>_. zero_blk), logged := []\<rparr> = s\<lparr>blocks := (\<lambda>_. zero_blk), logged := []\<rparr>"

lemma frame_refl [simp]: "frame s s"
  by (simp add: frame_def)

lemma frame_trans [trans]: "frame s t \<Longrightarrow> frame t u \<Longrightarrow> frame s u"
  by (simp add: frame_def)

lemma frameD:
  assumes "frame s s'"
  shows "sb s' = sb s" "icache s' = icache s" "cwd s' = cwd s" "outstanding s' = outstanding s"
    "log_size s' = log_size s" "devsw s' = devsw s" "log_cap s' = log_cap s" "BBLOCK b s' = BBLOCK b s"
proof -
  have e: "s'\<lparr>blocks := (\<lambda>_. zero_blk), logged := []\<rparr> = s\<lparr>blocks := (\<lambda>_. zero_blk), logged := []\<rparr>"
    using assms by (simp add: frame_def)
  show a: "sb s' = sb s" "icache s' = icache s" "cwd s' = cwd s" "outstanding s' = outstanding s"
    "log_size s' = log_size s" "devsw s' = devsw s"
    using arg_cong [OF e, of sb] arg_cong [OF e, of icache] arg_cong [OF e, of cwd]
      arg_cong [OF e, of outstanding] arg_cong [OF e, of log_size] arg_cong [OF e, of devsw] by simp_all
  show "log_cap s' = log_cap s" "BBLOCK b s' = BBLOCK b s" using a by (simp_all add: log_cap_def BBLOCK_def)
qed

lemma frame_logd [simp]: "frame s (logd b d s)"
  by (simp add: frame_def logd_def)

lemma blocks_logd [simp]: "blocks (logd b d s) = (blocks s)(b := d)"
  by (simp add: logd_def)

lemma log_write_ok:
  assumes "log_room s (Suc k)"
  shows "log_write b d s = Inr (logd b d s)" "log_room (logd b d s) k"
  using assms by (auto simp: log_room_def log_write_def logd_def log_cap_def)

lemma log_room_mono: "log_room s k \<Longrightarrow> j \<le> k \<Longrightarrow> log_room s j"
  by (simp add: log_room_def)

text \<open>When only blocks of a set \<open>B\<close> are written, absorption bounds the log.\<close>

definition log_covers :: "fs \<Rightarrow> nat set \<Rightarrow> bool" where
  "log_covers s B \<longleftrightarrow> outstanding s \<ge> 1 \<and> distinct (logged s) \<and> finite B \<and>
     card (set (logged s) \<union> B) < log_cap s"

lemma log_write_covered:
  assumes "log_covers s B" "b \<in> B"
  shows "log_write b d s = Inr (logd b d s)" "log_covers (logd b d s) B"
proof -
  have "card (set (logged s)) \<le> card (set (logged s) \<union> B)"
    using assms by (intro card_mono) (auto simp: log_covers_def)
  then have "length (logged s) < log_cap s"
    using assms by (simp add: log_covers_def distinct_card)
  then show "log_write b d s = Inr (logd b d s)"
    using assms by (simp add: log_write_def logd_def log_cap_def log_covers_def)
  have "set (logged (logd b d s)) \<union> B = set (logged s) \<union> B" using assms(2) by (auto simp: logd_def)
  then show "log_covers (logd b d s) B"
    using assms frameD(4,7) [OF frame_logd] by (auto simp: log_covers_def logd_def)
qed

section \<open>The bitmap\<close>

definition IBLOCK :: "nat \<Rightarrow> fs \<Rightarrow> nat" where
  "IBLOCK i s = i div IPB + sb_inodestart (sb s)"

definition bitmap_blocks :: "fs \<Rightarrow> nat set" where
  "bitmap_blocks s = (\<lambda>a. BBLOCK a s) ` {..< sb_size (sb s)}"

definition meta :: "fs \<Rightarrow> nat set" where
  "meta s = (\<lambda>a. BBLOCK a s) ` {..< sb_size (sb s)} \<union> (\<lambda>i. IBLOCK i s) ` {..< sb_ninodes (sb s)}"

definition layout_ok :: "fs \<Rightarrow> bool" where
  "layout_ok s \<longleftrightarrow> (\<forall>b\<in>meta s. b < sb_size (sb s) \<and> \<not> is_free s b) \<and> \<not> is_free s 0 \<and>
     (\<forall>a< sb_size (sb s). \<forall>i< sb_ninodes (sb s). BBLOCK a s \<noteq> IBLOCK i s) \<and> 0 < sb_size (sb s) \<and>
     sb_size (sb s) < 4294967296"

lemma same_block: "a div BPB = b div BPB \<Longrightarrow> a mod BPB = b mod BPB \<Longrightarrow> a = (b :: nat)"
  by (metis div_mult_mod_eq)

lemma BBLOCK_eq: "BBLOCK a s = BBLOCK b s \<longleftrightarrow> a div BPB = b div BPB"
  by (simp add: BBLOCK_def)

lemma meta_frame: "frame s s' \<Longrightarrow> meta s' = meta s"
  by (simp add: meta_def frameD BBLOCK_def IBLOCK_def)

lemma bitmap_frame: "frame s s' \<Longrightarrow> bitmap_blocks s' = bitmap_blocks s"
  by (simp add: bitmap_blocks_def frameD BBLOCK_def)

lemma bitmap_meta: "x \<notin> meta s \<Longrightarrow> x \<notin> bitmap_blocks s"
  by (auto simp: meta_def bitmap_blocks_def)

lemma BBLOCK_bitmap: "a < sb_size (sb s) \<Longrightarrow> BBLOCK a s \<in> bitmap_blocks s"
  by (simp add: bitmap_blocks_def)

lemma BBLOCK_meta: "a < sb_size (sb s) \<Longrightarrow> BBLOCK a s \<in> meta s"
  by (simp add: meta_def)

lemma IBLOCK_meta: "i < sb_ninodes (sb s) \<Longrightarrow> IBLOCK i s \<in> meta s"
  by (simp add: meta_def)

text \<open>A write outside the bitmap does not move a mark.\<close>

lemma is_free_logd:
  assumes "layout_ok s" "a < sb_size (sb s)" "b \<notin> (\<lambda>a. BBLOCK a s) ` {..< sb_size (sb s)}"
  shows "is_free (logd b d s) a = is_free s a"
proof -
  have "BBLOCK a s \<noteq> b" using assms by auto
  then show ?thesis by (simp add: is_free_def frameD(8) [OF frame_logd])
qed

lemma layout_ok_eq:
  assumes "layout_ok s" "frame s s'" "\<And>a. a < sb_size (sb s) \<Longrightarrow> \<not> is_free s a \<Longrightarrow> \<not> is_free s' a"
  shows "layout_ok s'"
  using assms(1,3) unfolding layout_ok_def meta_frame [OF assms(2)] frameD(8) [OF assms(2)]
  by (auto simp: frameD(1) [OF assms(2)] IBLOCK_def)

lemma layout_ok_logd:
  assumes "layout_ok s" "b \<notin> (\<lambda>a. BBLOCK a s) ` {..< sb_size (sb s)}"
  shows "layout_ok (logd b d s)"
  by (rule layout_ok_eq [OF assms(1) frame_logd]) (simp add: is_free_logd assms)

lemma free_not_meta: "layout_ok s \<Longrightarrow> is_free s a \<Longrightarrow> a \<notin> meta s"
  by (auto simp: layout_ok_def)

section \<open>Allocating and freeing\<close>

lemma balloc_from_spec:
  assumes "b mod BPB = 0" "\<forall>j<b. \<not> is_free s j" "is_free s a" "a < sb_size (sb s)" "\<forall>j<a. \<not> is_free s j"
  shows "balloc_from b s =
    bindR (log_write (BBLOCK a s) (set_mark (blocks s (BBLOCK a s)) (a mod BPB)) s) (\<lambda>s1.
    bindR (bzero a s1) (\<lambda>s2. Inr (a, s2)))"
  using assms(1,2)
proof (induction "a - b" arbitrary: b rule: less_induct)
  case less
  have le: "b \<le> a" using less.prems(2) assms(3) by (meson not_le)
  then have lt: "b < sb_size (sb s)" using assms(4) by simp
  obtain q where q: "b = BPB * q" using less.prems(1) by (metis mod_0_imp_dvd dvd_def)
  have blk: "BBLOCK (b + bi) s = BBLOCK b s" "(b + bi) mod BPB = bi" if "bi < BPB" for bi
    using that by (simp_all add: BBLOCK_def q)
  show ?case
  proof (cases "a < b + BPB")
    case True
    then obtain bi where bi: "a = b + bi" "bi < BPB" using le by (metis add_less_cancel_left le_Suc_ex)
    have "bit_clear (blocks s (BBLOCK b s)) bi"
      using assms(3) blk [OF bi(2)] by (simp add: is_free_def bi(1))
    moreover have "\<not> bit_clear (blocks s (BBLOCK b s)) j" if "j < bi" for j
      using assms(5) [rule_format, of "b + j"] blk [of j] bi that by (simp add: is_free_def)
    ultimately have "find_free (blocks s (BBLOCK b s)) (sb_size (sb s) - b) 0 BPB = Some bi"
      unfolding find_free_Some using bi assms(4) by auto
    then show ?thesis
      using lt blk [OF bi(2)] by (subst balloc_from.simps) (simp add: bi(1))
  next
    case False
    have nf: "\<not> bit_clear (blocks s (BBLOCK b s)) k" if "k < BPB" for k
      using assms(5) [rule_format, of "b + k"] blk [OF that] that False by (simp add: is_free_def)
    then have "find_free (blocks s (BBLOCK b s)) (sb_size (sb s) - b) 0 BPB = None"
      unfolding find_free_None by simp
    then have e: "balloc_from b s = balloc_from (b + BPB) s"
      using lt by (subst balloc_from.simps) simp
    have "\<forall>j<b + BPB. \<not> is_free s j" using assms(5) False by auto
    then show ?thesis unfolding e
      by (intro less.hyps) (use False le less.prems(1) in auto)
  qed
qed

lemma balloc_ok:
  assumes "layout_ok s" "log_room s (Suc (Suc k))" "\<exists>a< sb_size (sb s). is_free s a"
  obtains a s' where "balloc s = Inr (a, s')" "a < sb_size (sb s)" "is_free s a" "\<forall>j<a. \<not> is_free s j"
    "frame s s'" "blocks s' = (blocks s)(BBLOCK a s := set_mark (blocks s (BBLOCK a s)) (a mod BPB), a := zero_blk)"
    "log_room s' k" "layout_ok s'" "a \<notin> meta s" "a \<noteq> 0"
    "\<And>j. j < sb_size (sb s) \<Longrightarrow> is_free s' j \<longleftrightarrow> j \<noteq> a \<and> is_free s j"
proof -
  define a where "a = (LEAST a. is_free s a)"
  obtain a0 where a0: "a0 < sb_size (sb s)" "is_free s a0" using assms(3) by blast
  have a: "is_free s a" "\<forall>j<a. \<not> is_free s j" "a < sb_size (sb s)"
    using LeastI [of "is_free s" a0] a0 not_less_Least Least_le [of "is_free s" a0] by (auto simp: a_def)
  let ?s1 = "logd (BBLOCK a s) (set_mark (blocks s (BBLOCK a s)) (a mod BPB)) s"
  let ?s2 = "logd a zero_blk ?s1"
  note w1 = log_write_ok [OF assms(2), of "BBLOCK a s" "set_mark (blocks s (BBLOCK a s)) (a mod BPB)"]
  note w2 = log_write_ok [OF w1(2), of a zero_blk]
  have "balloc s = Inr (a, ?s2)"
    using balloc_from_spec [of 0 s a] a w1(1) w2(1) by (simp add: balloc_def bzero_def)
  moreover have nm: "a \<notin> meta s" "a \<noteq> 0"
    using a(1) assms(1) unfolding layout_ok_def by metis+
  moreover have fr: "frame s ?s2" using frame_trans [OF frame_logd frame_logd] .
  moreover have free: "is_free ?s2 j \<longleftrightarrow> j \<noteq> a \<and> is_free s j" if "j < sb_size (sb s)" for j
  proof -
    have ja: "BBLOCK j s \<noteq> a" using BBLOCK_meta [OF that] nm by auto
    show ?thesis
    proof (cases "BBLOCK j s = BBLOCK a s")
      case True
      then show ?thesis using ja same_block [of j a] BBLOCK_eq [of j s a]
        by (auto simp: is_free_def frameD(8) [OF fr] bit_clear_set)
    next
      case False
      then show ?thesis using ja by (auto simp: is_free_def frameD(8) [OF fr])
    qed
  qed
  moreover have "layout_ok ?s2" by (rule layout_ok_eq [OF assms(1) fr]) (use free in auto)
  ultimately show ?thesis using that [of a ?s2] a w2(2) by auto
qed

lemma bfree_covered:
  assumes "layout_ok s" "b < sb_size (sb s)" "\<not> is_free s b" "log_covers s B" "BBLOCK b s \<in> B"
    "b \<notin> meta s" "b \<noteq> 0"
  obtains s' where "bfree b s = Inr s'" "frame s s'" "log_covers s' B" "layout_ok s'"
    "blocks s' = (blocks s)(BBLOCK b s := clear_mark (blocks s (BBLOCK b s)) (b mod BPB))"
    "\<And>j. j < sb_size (sb s) \<Longrightarrow> is_free s' j \<longleftrightarrow> j = b \<or> is_free s j"
proof -
  let ?s1 = "logd (BBLOCK b s) (clear_mark (blocks s (BBLOCK b s)) (b mod BPB)) s"
  note w = log_write_covered [OF assms(4,5), of "clear_mark (blocks s (BBLOCK b s)) (b mod BPB)"]
  have "bfree b s = Inr ?s1" using assms(3) w(1) by (simp add: bfree_def is_free_def Let_def)
  moreover have free: "is_free ?s1 j \<longleftrightarrow> j = b \<or> is_free s j" if "j < sb_size (sb s)" for j
  proof (cases "BBLOCK j s = BBLOCK b s")
    case True
    then show ?thesis
      using same_block [of j b] BBLOCK_eq [of j s b] by (auto simp: is_free_def frameD(8) [OF frame_logd] bit_clear_clear)
  next
    case False
    then show ?thesis by (auto simp: is_free_def frameD(8) [OF frame_logd])
  qed
  moreover have "layout_ok ?s1"
  proof -
    have "0 < sb_size (sb s)" using assms(1) by (simp add: layout_ok_def)
    then show ?thesis
      using assms(1,6,7) free unfolding layout_ok_def meta_frame [OF frame_logd] frameD(8) [OF frame_logd]
      by (auto simp: frameD(1) [OF frame_logd] IBLOCK_def)
  qed
  ultimately show ?thesis using that [of ?s1] w(2) by auto
qed

end
