(* ===== verification/Fs_Bmap.thy ===== *)
theory Fs_Bmap
  imports Fs_Alloc
begin

text \<open>
  \<open>bmap\<close> of Project03-FileSystem/fs.c with its single, double and triple indirect blocks,
  and the tree of blocks that an inode's \<open>addrs\<close> describe. A node of the tree is named by a
  path: the slot of \<open>addrs\<close> and the indices taken in the indirect blocks below it.
  \<open>addr_at\<close> reads the address of a node (0 when it is missing).
\<close>

section \<open>Model\<close>

text \<open>An address kept in \<open>ip->addrs[r]\<close>, allocated when it is missing.\<close>

definition root_slot :: "nat \<Rightarrow> nat list \<Rightarrow> fs \<Rightarrow> (nat \<times> nat list \<times> fs) res" where
  "root_slot r ad s =
     (if ad ! r = 0 then bindR (balloc s) (\<lambda>(a, s1). Inr (a, ad[r := a], s1)) else Inr (ad ! r, ad, s))"

text \<open>An address kept at index \<open>i\<close> of the indirect block \<open>b\<close>, allocated when it is missing.\<close>

definition ind_slot :: "nat \<Rightarrow> nat \<Rightarrow> fs \<Rightarrow> (nat \<times> fs) res" where
  "ind_slot b i s =
     (if rdw (blocks s b) i = 0
      then bindR (balloc s) (\<lambda>(a, s1).
           bindR (log_write b (wrw (blocks s1 b) i a) s1) (\<lambda>s2. Inr (a, s2)))
      else Inr (rdw (blocks s b) i, s))"

definition bmap :: "nat list \<Rightarrow> nat \<Rightarrow> fs \<Rightarrow> (nat \<times> nat list \<times> fs) res" where
  "bmap ad bn s =
    (if bn < NDIRECT then root_slot bn ad s
     else let bn1 = bn - NDIRECT in
     if bn1 < NINDIRECT
     then bindR (root_slot NDIRECT ad s) (\<lambda>(a, ad1, s1).
          bindR (ind_slot a bn1 s1) (\<lambda>(a2, s2). Inr (a2, ad1, s2)))
     else let bn2 = bn1 - NINDIRECT in
     if bn2 < NDINDIRECT
     then bindR (root_slot (NDIRECT + 1) ad s) (\<lambda>(a, ad1, s1).
          bindR (ind_slot a (bn2 div NINDIRECT) s1) (\<lambda>(a2, s2).
          bindR (ind_slot a2 (bn2 mod NINDIRECT) s2) (\<lambda>(a3, s3). Inr (a3, ad1, s3))))
     else let bn3 = bn2 - NDINDIRECT in
     if bn3 < NTINDIRECT
     then bindR (root_slot (NDIRECT + 1 + 1) ad s) (\<lambda>(a, ad1, s1).
          bindR (ind_slot a (bn3 div (NINDIRECT * NINDIRECT)) s1) (\<lambda>(a2, s2).
          bindR (ind_slot a2 (bn3 mod (NINDIRECT * NINDIRECT) div NINDIRECT) s2) (\<lambda>(a3, s3).
          bindR (ind_slot a3 (bn3 mod (NINDIRECT * NINDIRECT) mod NINDIRECT) s3) (\<lambda>(a4, s4).
            Inr (a4, ad1, s4)))))
     else Inl (Panic ''bmap: out of range''))"

section \<open>The tree\<close>

fun walk :: "(nat \<Rightarrow> blk) \<Rightarrow> nat \<Rightarrow> nat list \<Rightarrow> nat" where
  "walk B a [] = a"
| "walk B a (i # is) = (if a = 0 then 0 else walk B (rdw (B a) i) is)"

type_synonym path = "nat \<times> nat list"

definition addr_at :: "fs \<Rightarrow> nat list \<Rightarrow> path \<Rightarrow> nat" where
  "addr_at s ad p = walk (blocks s) (ad ! fst p) (snd p)"

definition depth :: "nat \<Rightarrow> nat" where
  "depth r = (if r < NDIRECT then 0 else r - 9)"

definition valid :: "path \<Rightarrow> bool" where
  "valid p \<longleftrightarrow> fst p < 13 \<and> length (snd p) \<le> depth (fst p) \<and> (\<forall>i\<in>set (snd p). i < NINDIRECT)"

text \<open>The path of a file block.\<close>

definition path_of :: "nat \<Rightarrow> path" where
  "path_of bn =
    (if bn < NDIRECT then (bn, [])
     else let bn1 = bn - NDIRECT in if bn1 < NINDIRECT then (NDIRECT, [bn1])
     else let bn2 = bn1 - NINDIRECT in
       if bn2 < NDINDIRECT then (NDIRECT + 1, [bn2 div NINDIRECT, bn2 mod NINDIRECT])
     else let bn3 = bn2 - NDINDIRECT in
       (NDIRECT + 2, [bn3 div (NINDIRECT * NINDIRECT), bn3 mod (NINDIRECT * NINDIRECT) div NINDIRECT,
          bn3 mod (NINDIRECT * NINDIRECT) mod NINDIRECT]))"

definition block_of :: "fs \<Rightarrow> nat list \<Rightarrow> nat \<Rightarrow> nat" where
  "block_of s ad bn = addr_at s ad (path_of bn)"

fun alloc_walk :: "nat \<Rightarrow> nat list \<Rightarrow> fs \<Rightarrow> (nat \<times> fs) res" where
  "alloc_walk a [] s = Inr (a, s)"
| "alloc_walk a (i # is) s = bindR (ind_slot a i s) (\<lambda>(a1, s1). alloc_walk a1 is s1)"

lemma bmap_path:
  assumes "bn < MAXFILE"
  shows "bmap ad bn s = bindR (root_slot (fst (path_of bn)) ad s) (\<lambda>(a, ad1, s1).
     bindR (alloc_walk a (snd (path_of bn)) s1) (\<lambda>(a2, s2). Inr (a2, ad1, s2)))"
proof -
  consider "bn < 10" | "10 \<le> bn" "bn < 138" | "138 \<le> bn" "bn < 16522" | "16522 \<le> bn"
    by linarith
  then show ?thesis
  proof cases
    case 1
    then show ?thesis by (simp add: bmap_def path_of_def case_prod_unfold)
  next
    case 2
    then have "\<not> bn < 10" "bn - 10 < 128" by auto
    then show ?thesis by (simp add: bmap_def path_of_def Let_def bindR_assoc case_prod_unfold)
  next
    case 3
    then have "\<not> bn < 10" "\<not> bn - 10 < 128" "bn - 138 < 16384" by auto
    then show ?thesis by (simp add: bmap_def path_of_def Let_def bindR_assoc case_prod_unfold)
  next
    case 4
    then have "\<not> bn < 10" "\<not> bn - 10 < 128" "\<not> bn - 138 < 16384" "bn - 16522 < 2097152" using assms by auto
    then show ?thesis by (simp add: bmap_def path_of_def Let_def bindR_assoc case_prod_unfold)
  qed
qed

lemma path_of_cases:
  obtains "bn < 10" "path_of bn = (10 * 0 + bn, [])"
  | "10 \<le> bn" "bn < 138" "path_of bn = (10, [bn - 10])"
  | "138 \<le> bn" "bn < 16522" "path_of bn = (11, [(bn - 138) div 128, (bn - 138) mod 128])"
  | "16522 \<le> bn" "path_of bn = (12, [(bn - 16522) div 16384, (bn - 16522) mod 16384 div 128,
       (bn - 16522) mod 16384 mod 128])"
proof -
  consider "bn < 10" | "10 \<le> bn" "bn < 138" | "138 \<le> bn" "bn < 16522" | "16522 \<le> bn"
    by linarith
  then show ?thesis
  proof cases
    case 1
    then show ?thesis by (intro that(1)) (simp_all add: path_of_def)
  next
    case 2
    then have "\<not> bn < 10" "bn - 10 < 128" by auto
    then show ?thesis using 2 by (intro that(2)) (simp_all add: path_of_def)
  next
    case 3
    then have "\<not> bn < 10" "\<not> bn - 10 < 128" "bn - 138 < 16384" by auto
    then show ?thesis using 3 by (intro that(3)) (simp_all add: path_of_def Let_def)
  next
    case 4
    then have "\<not> bn < 10" "\<not> bn - 10 < 128" "\<not> bn - 138 < 16384" by auto
    then show ?thesis using 4 by (intro that(4)) (simp_all add: path_of_def Let_def)
  qed
qed

lemma path_of_valid: "bn < MAXFILE \<Longrightarrow> valid (path_of bn) \<and> length (snd (path_of bn)) = depth (fst (path_of bn))"
  by (rule path_of_cases [of bn]) (simp_all add: valid_def depth_def less_mult_imp_div_less)

text \<open>The file block of a path: \<open>path_of\<close> loses nothing.\<close>

fun bn_of :: "path \<Rightarrow> nat" where
  "bn_of (r, []) = r"
| "bn_of (r, [i]) = 10 + i"
| "bn_of (r, [i, j]) = 138 + (i * 128 + j)"
| "bn_of (r, i # j # k # _) = 16522 + (i * 16384 + (j * 128 + k))"

lemma bn_of_path: "bn_of (path_of bn) = bn"
  by (rule path_of_cases [of bn]) simp_all

lemma path_of_inj: "path_of m = path_of n \<Longrightarrow> m = n"
  by (metis bn_of_path)

lemma walk_snoc: "walk B a (is @ [j]) = (if walk B a is = 0 then 0 else rdw (B (walk B a is)) j)"
  by (induction "is" arbitrary: a) auto

lemma walk_append: "walk B a (is @ js) = (if walk B a is = 0 then 0 else walk B (walk B a is) js)"
proof (induction "is" arbitrary: a)
  case Nil
  then show ?case by (cases js) auto
qed auto

lemma addr_at_snoc:
  "addr_at s ad (r, is @ [j]) =
    (if addr_at s ad (r, is) = 0 then 0 else rdw (blocks s (addr_at s ad (r, is))) j)"
  by (simp add: addr_at_def walk_snoc)

lemma addr_at_root: "addr_at s ad (r, []) = ad ! r"
  by (simp add: addr_at_def)

lemma valid_snoc: "valid (r, is @ [j]) \<Longrightarrow> valid (r, is)"
  by (auto simp: valid_def)

text \<open>The tree of one inode: its blocks are data blocks in use, and no two nodes share one.\<close>

definition tree_ok :: "fs \<Rightarrow> nat list \<Rightarrow> bool" where
  "tree_ok s ad \<longleftrightarrow> length ad = 13 \<and>
     (\<forall>p. valid p \<and> addr_at s ad p \<noteq> 0 \<longrightarrow>
        addr_at s ad p < sb_size (sb s) \<and> addr_at s ad p \<notin> meta s \<and> \<not> is_free s (addr_at s ad p)) \<and>
     (\<forall>p q. valid p \<and> valid q \<and> addr_at s ad p = addr_at s ad q \<and> addr_at s ad p \<noteq> 0 \<longrightarrow> p = q)"

lemma tree_okD:
  assumes "tree_ok s ad" "valid p" "addr_at s ad p \<noteq> 0"
  shows "addr_at s ad p < sb_size (sb s)" "addr_at s ad p \<notin> meta s" "\<not> is_free s (addr_at s ad p)"
    "valid q \<Longrightarrow> addr_at s ad q = addr_at s ad p \<Longrightarrow> q = p"
proof -
  note t = assms(1) [unfolded tree_ok_def]
  note 1 = t [THEN conjunct2, THEN conjunct1] and 2 = t [THEN conjunct2, THEN conjunct2]
  note m = 1 [rule_format, OF conjI [OF assms(2,3)]]
  show "addr_at s ad p < sb_size (sb s)" by (rule m [THEN conjunct1])
  show "addr_at s ad p \<notin> meta s" by (rule m [THEN conjunct2, THEN conjunct1])
  show "\<not> is_free s (addr_at s ad p)" by (rule m [THEN conjunct2, THEN conjunct2])
  assume "valid q" "addr_at s ad q = addr_at s ad p"
  then show "q = p" using 2 [rule_format, of q p] assms(2,3) by metis
qed

text \<open>Adding one node keeps the tree well formed.\<close>

lemma tree_extend:
  assumes t: "tree_ok s ad" and l: "length ad' = 13"
    and new: "\<And>p. valid p \<Longrightarrow> addr_at s' ad' p = (if p = p0 then n else addr_at s ad p)"
    and n: "is_free s n" "n < sb_size (sb s)" "n \<notin> meta s"
    and f: "frame s s'" "\<And>j. j < sb_size (sb s) \<Longrightarrow> is_free s' j \<longleftrightarrow> j \<noteq> n \<and> is_free s j"
  shows "tree_ok s' ad'"
proof -
  have sb: "sb s' = sb s" "meta s' = meta s" using frameD(1) [OF f(1)] meta_frame [OF f(1)] by auto
  have fresh: "addr_at s ad p \<noteq> n" if "valid p" "addr_at s ad p \<noteq> 0" for p
    using tree_okD(3) [OF t that] n(1) by auto
  have 1: "addr_at s' ad' p < sb_size (sb s) \<and> addr_at s' ad' p \<notin> meta s \<and> \<not> is_free s' (addr_at s' ad' p)"
    if "valid p" "addr_at s' ad' p \<noteq> 0" for p
    using tree_okD(1-3) [OF t that(1)] new [OF that(1)] n f(2) that by (cases "p = p0") auto
  have 2: "p = q" if v: "valid p" "valid q" and e: "addr_at s' ad' p = addr_at s' ad' q" "addr_at s' ad' p \<noteq> 0" for p q
  proof (cases "p = p0 \<or> q = p0")
    case True
    then show ?thesis using new [OF v(1)] new [OF v(2)] fresh [OF v(1)] fresh [OF v(2)] e
      by (metis (full_types))
  next
    case False
    then have "addr_at s ad q = addr_at s ad p" "addr_at s ad p \<noteq> 0" using new v e by auto
    then show ?thesis using tree_okD(4) [OF t v(1) _ v(2)] by metis
  qed
  show ?thesis using l 1 2 unfolding tree_ok_def sb by blast
qed

section \<open>One slot\<close>

text \<open>Writing the address \<open>n\<close> of a fresh zeroed block into slot \<open>i\<close> of node \<open>(r, q)\<close>.\<close>

lemma addr_at_ind:
  assumes t: "tree_ok s ad" and v: "valid (r, q @ [i])" and a: "addr_at s ad (r, q) = a" "a \<noteq> 0"
    and z: "addr_at s ad (r, q @ [i]) = 0" and n: "is_free s n" "n < 4294967296" and bm: "bm \<in> meta s"
    and B: "blocks s' = (blocks s)(bm := X, n := zero_blk, a := wrw (blocks s a) i n)"
    and p: "valid (r', is)"
  shows "addr_at s' ad (r', is) = (if (r', is) = (r, q @ [i]) then n else addr_at s ad (r', is))"
  using p
proof (induction "is" rule: rev_induct)
  case Nil
  then show ?case by (simp add: addr_at_root)
next
  case (snoc j js)
  have vj: "valid (r', js)" by (rule valid_snoc [OF snoc.prems])
  have ih: "addr_at s' ad (r', js) = (if (r', js) = (r, q @ [i]) then n else addr_at s ad (r', js))"
    by (rule snoc.IH [OF vj])
  let ?x = "addr_at s ad (r', js)"
  show ?case
  proof (cases "(r', js) = (r, q @ [i])")
    case True
    have "n \<noteq> a" using tree_okD(3) [OF t valid_snoc [OF v]] a n(1) by auto
    then have "rdw (blocks s' n) j = 0" using B by simp
    then have "addr_at s' ad (r', js @ [j]) = 0"
      unfolding addr_at_snoc [of s' ad r' js j] ih using True by simp
    moreover have "addr_at s ad (r', js @ [j]) = 0"
      unfolding addr_at_snoc [of s ad r' js j] True z by simp
    moreover have "\<not> (r', js @ [j]) = (r, q @ [i])" using True by auto
    ultimately show ?thesis by (simp only: if_False)
  next
    case False
    have x: "addr_at s' ad (r', js) = ?x" using ih unfolding if_not_P [OF False] .
    show ?thesis
    proof (cases "?x = 0")
      case True
      have "(r', js) \<noteq> (r, q)" using True a by auto
      then show ?thesis using True x by (auto simp: addr_at_snoc)
    next
      case ne: False
      have xn: "?x \<noteq> n" "?x \<noteq> bm" using tree_okD(2,3) [OF t vj ne] n(1) bm by auto
      show ?thesis
      proof (cases "?x = a")
        case True
        have "(r', js) = (r, q)"
          using tree_okD(4) [OF t vj ne valid_snoc [OF v]] a(1) True by metis
        moreover have "blocks s' a = wrw (blocks s a) i n" using B by simp
        ultimately show ?thesis using x True ne n(2) a z
          by (auto simp: addr_at_snoc rdw_wrw)
      next
        case False
        then have "(r', js) \<noteq> (r, q)" using a by auto
        then show ?thesis using x ne xn False B by (auto simp: addr_at_snoc)
      qed
    qed
  qed
qed

lemma addr_at_new_root:
  assumes t: "tree_ok s ad" and r: "r < 13" "ad ! r = 0"
    and n: "is_free s n" and bm: "bm \<in> meta s"
    and B: "blocks s' = (blocks s)(bm := X, n := zero_blk)"
    and p: "valid (r', is)"
  shows "addr_at s' (ad[r := n]) (r', is) = (if (r', is) = (r, []) then n else addr_at s ad (r', is))"
  using p
proof (induction "is" rule: rev_induct)
  case Nil
  have "length ad = 13" using t by (simp add: tree_ok_def)
  then show ?case using r by (auto simp: addr_at_root nth_list_update)
next
  case (snoc j js)
  have vj: "valid (r', js)" by (rule valid_snoc [OF snoc.prems])
  have ih: "addr_at s' (ad[r := n]) (r', js) = (if (r', js) = (r, []) then n else addr_at s ad (r', js))"
    by (rule snoc.IH [OF vj])
  let ?x = "addr_at s ad (r', js)"
  show ?case
  proof (cases "(r', js) = (r, [])")
    case True
    have "addr_at s' (ad[r := n]) (r', js @ [j]) = 0"
      unfolding addr_at_snoc [of s' "ad[r := n]" r' js j] ih using True B by simp
    moreover have "addr_at s ad (r', js @ [j]) = 0"
      unfolding addr_at_snoc [of s ad r' js j] using True r by (simp add: addr_at_root)
    ultimately show ?thesis by simp
  next
    case False
    show ?thesis
    proof (cases "?x = 0")
      case True
      then show ?thesis using ih False by (auto simp: addr_at_snoc)
    next
      case ne: False
      have "?x \<noteq> n" "?x \<noteq> bm" using tree_okD(2,3) [OF t vj ne] n bm by auto
      then show ?thesis using ih False ne B by (auto simp: addr_at_snoc)
    qed
  qed
qed

text \<open>
  What a step that may add the node \<open>p0\<close> leaves: \<open>interior\<close> is the indirect block it
  may have written to.
\<close>

definition nfree :: "fs \<Rightarrow> nat" where
  "nfree s = card {a. a < sb_size (sb s) \<and> is_free s a}"

definition node_added :: "fs \<Rightarrow> nat list \<Rightarrow> path \<Rightarrow> fs \<Rightarrow> nat list \<Rightarrow> bool" where
  "node_added s ad p0 s' ad' \<longleftrightarrow>
     tree_ok s' ad' \<and> layout_ok s' \<and> frame s s' \<and> addr_at s' ad' p0 \<noteq> 0 \<and>
     (\<forall>p. valid p \<and> p \<noteq> p0 \<longrightarrow> addr_at s' ad' p = addr_at s ad p) \<and>
     (addr_at s ad p0 \<noteq> 0 \<longrightarrow> s' = s \<and> ad' = ad) \<and>
     (addr_at s ad p0 = 0 \<longrightarrow> is_free s (addr_at s' ad' p0) \<and> blocks s' (addr_at s' ad' p0) = zero_blk) \<and>
     (\<forall>j< sb_size (sb s). is_free s' j \<longleftrightarrow> is_free s j \<and> (addr_at s ad p0 = 0 \<longrightarrow> j \<noteq> addr_at s' ad' p0)) \<and>
     (\<forall>x. x \<noteq> addr_at s ad (fst p0, butlast (snd p0)) \<or> snd p0 = [] \<longrightarrow> \<not> is_free s x \<longrightarrow> x \<notin> bitmap_blocks s \<longrightarrow>
        blocks s' x = blocks s x)"

lemma root_slot_ok:
  assumes t: "tree_ok s ad" and lay: "layout_ok s" and r: "r < 13"
    and room: "log_room s (k + 2)" and free: "nfree s > 0"
  shows "\<exists>s' ad' a. root_slot r ad s = Inr (a, ad', s') \<and> a = addr_at s' ad' (r, []) \<and>
    node_added s ad (r, []) s' ad' \<and> log_room s' k \<and> nfree s' \<ge> nfree s - 1"
proof (cases "ad ! r = 0")
  case False
  then show ?thesis using t lay log_room_mono [OF room, of k]
    by (simp add: root_slot_def addr_at_root node_added_def)
next
  case True
  have "\<exists>a< sb_size (sb s). is_free s a"
    using free unfolding nfree_def by (metis (mono_tags, lifting) card.empty empty_Collect_eq less_numeral_extra(3))
  from balloc_ok [OF lay _ this, of k] room obtain n s' where
    b: "balloc s = Inr (n, s')" "n < sb_size (sb s)" "is_free s n" "frame s s'"
    "blocks s' = (blocks s)(BBLOCK n s := set_mark (blocks s (BBLOCK n s)) (n mod BPB), n := zero_blk)"
    "log_room s' k" "layout_ok s'" "n \<notin> meta s" "n \<noteq> 0"
    "\<And>j. j < sb_size (sb s) \<Longrightarrow> is_free s' j \<longleftrightarrow> j \<noteq> n \<and> is_free s j"
    by (metis add_2_eq_Suc')
  have bm: "BBLOCK n s \<in> meta s" "BBLOCK n s \<in> bitmap_blocks s"
      by (rule BBLOCK_meta [OF b(2)], rule BBLOCK_bitmap [OF b(2)])
  have len: "length ad = 13" using t by (simp add: tree_ok_def)
  have new: "addr_at s' (ad[r := n]) p = (if p = (r, []) then n else addr_at s ad p)" if "valid p" for p
    using addr_at_new_root [OF t r True b(3) bm(1) b(5), of "fst p" "snd p"] that by simp
  have t': "tree_ok s' (ad[r := n])"
    by (rule tree_extend [OF t _ new b(3,2,8,4,10)]) (simp_all add: len)
  have v: "valid (r, [])" using r by (simp add: valid_def)
  have nf: "nfree s' = nfree s - 1"
  proof -
    have "{a. a < sb_size (sb s') \<and> is_free s' a} = {a. a < sb_size (sb s) \<and> is_free s a} - {n}"
      using b(10) by (auto simp: frameD(1) [OF b(4)])
    then show ?thesis using b(2,3) by (simp add: nfree_def)
  qed
  have "node_added s ad (r, []) s' (ad[r := n])"
    unfolding node_added_def using t' b new [OF v] new addr_at_root [of s ad r] True bm
    by auto
  then show ?thesis using b(1,6) new [OF v] nf True by (auto simp: root_slot_def)
qed

lemma ind_slot_ok:
  assumes t: "tree_ok s ad" and lay: "layout_ok s" and v: "valid (r, q @ [i])"
    and a: "addr_at s ad (r, q) \<noteq> 0"
    and room: "log_room s (k + 3)" and free: "nfree s > 0"
  shows "\<exists>s' a. ind_slot (addr_at s ad (r, q)) i s = Inr (a, s') \<and> a = addr_at s' ad (r, q @ [i]) \<and>
    node_added s ad (r, q @ [i]) s' ad \<and> log_room s' k \<and> nfree s' \<ge> nfree s - 1"
proof -
  let ?a = "addr_at s ad (r, q)"
  have e: "rdw (blocks s ?a) i = addr_at s ad (r, q @ [i])" using a by (simp add: addr_at_snoc)
  show ?thesis
  proof (cases "addr_at s ad (r, q @ [i]) = 0")
    case False
    then show ?thesis using t lay log_room_mono [OF room, of k]
      by (simp add: ind_slot_def e node_added_def)
  next
    case True
    have "\<exists>a< sb_size (sb s). is_free s a"
      using free unfolding nfree_def by (metis (mono_tags, lifting) card.empty empty_Collect_eq less_numeral_extra(3))
    moreover have "log_room s (Suc (Suc (Suc k)))" using room by (simp add: numeral_3_eq_3)
    ultimately obtain n s1 where
      b: "balloc s = Inr (n, s1)" "n < sb_size (sb s)" "is_free s n" "frame s s1"
      "blocks s1 = (blocks s)(BBLOCK n s := set_mark (blocks s (BBLOCK n s)) (n mod BPB), n := zero_blk)"
      "log_room s1 (Suc k)" "layout_ok s1" "n \<notin> meta s" "n \<noteq> 0"
      "\<And>j. j < sb_size (sb s) \<Longrightarrow> is_free s1 j \<longleftrightarrow> j \<noteq> n \<and> is_free s j"
      using balloc_ok [OF lay, of "Suc k"] by metis
    have bm: "BBLOCK n s \<in> meta s" "BBLOCK n s \<in> bitmap_blocks s"
      by (rule BBLOCK_meta [OF b(2)], rule BBLOCK_bitmap [OF b(2)])
    note A = tree_okD(1-3) [OF t valid_snoc [OF v] a]
    have an: "?a \<noteq> n" "?a \<noteq> BBLOCK n s" using A b(3) bm(1) by auto
    let ?s2 = "logd ?a (wrw (blocks s1 ?a) i n) s1"
    note w = log_write_ok [OF b(6), of ?a "wrw (blocks s1 ?a) i n"]
    have c: "ind_slot ?a i s = Inr (n, ?s2)"
      using True b(1) w(1) by (simp add: ind_slot_def e)
    have fr: "frame s ?s2" using frame_trans [OF b(4) frame_logd] .
    have B: "blocks ?s2 = (blocks s)(BBLOCK n s := set_mark (blocks s (BBLOCK n s)) (n mod BPB),
        n := zero_blk, ?a := wrw (blocks s ?a) i n)"
      using an by (simp add: b(5))
    have "n < 4294967296" using b(2) lay by (simp add: layout_ok_def)
    then have new: "addr_at ?s2 ad p = (if p = (r, q @ [i]) then n else addr_at s ad p)" if "valid p" for p
      using addr_at_ind [OF t v refl a True b(3) _ bm(1) B, of "fst p" "snd p"] that by simp
    have nb: "?a \<notin> (\<lambda>a. BBLOCK a s1) ` {..< sb_size (sb s1)}"
      using A(2) meta_frame [OF b(4)] by (auto simp: meta_def)
    have free2: "is_free ?s2 j \<longleftrightarrow> j \<noteq> n \<and> is_free s j" if "j < sb_size (sb s)" for j
      using b(10) [OF that] is_free_logd [OF b(7) _ nb] that frameD(1) [OF b(4)] by simp
    have lay2: "layout_ok ?s2" by (rule layout_ok_logd [OF b(7) nb])
    have t2: "tree_ok ?s2 ad"
      by (rule tree_extend [OF t _ new b(3,2,8) fr free2]) (use t in \<open>simp_all add: tree_ok_def\<close>)
    have nf: "nfree ?s2 = nfree s - 1"
    proof -
      have "{a. a < sb_size (sb ?s2) \<and> is_free ?s2 a} = {a. a < sb_size (sb s) \<and> is_free s a} - {n}"
        using free2 by (auto simp: frameD(1) [OF fr])
      then show ?thesis using b(2,3) by (simp add: nfree_def)
    qed
    have N: "addr_at ?s2 ad (r, q @ [i]) = n" using new [OF v] by simp
    have "node_added s ad (r, q @ [i]) ?s2 ad"
      unfolding node_added_def N using t2 lay2 fr b(3,9) new True free2 an(1) B bm by auto
    then show ?thesis using c w(2) N nf by auto
  qed
qed

section \<open>A whole path\<close>

definition prefix_of :: "path \<Rightarrow> path \<Rightarrow> bool" where
  "prefix_of x p \<longleftrightarrow> fst x = fst p \<and> (\<exists>ys. snd p = snd x @ ys)"

definition interior :: "fs \<Rightarrow> nat list \<Rightarrow> nat set" where
  "interior s ad = {addr_at s ad y |y. valid y \<and> length (snd y) < depth (fst y) \<and> addr_at s ad y \<noteq> 0}"

lemma interiorI:
  "valid y \<Longrightarrow> length (snd y) < depth (fst y) \<Longrightarrow> addr_at s ad y \<noteq> 0 \<Longrightarrow> addr_at s ad y \<in> interior s ad"
  unfolding interior_def mem_Collect_eq by blast

definition grown :: "fs \<Rightarrow> nat list \<Rightarrow> path \<Rightarrow> fs \<Rightarrow> nat list \<Rightarrow> bool" where
  "grown s ad p s' ad' \<longleftrightarrow>
     tree_ok s' ad' \<and> layout_ok s' \<and> frame s s' \<and> addr_at s' ad' p \<noteq> 0 \<and>
     (\<forall>x. valid x \<and> addr_at s ad x \<noteq> 0 \<longrightarrow> addr_at s' ad' x = addr_at s ad x) \<and>
     (\<forall>x. valid x \<and> \<not> prefix_of x p \<longrightarrow> addr_at s' ad' x = addr_at s ad x) \<and>
     (\<forall>x. valid x \<and> addr_at s' ad' x \<noteq> addr_at s ad x \<longrightarrow> is_free s (addr_at s' ad' x)) \<and>
     (addr_at s ad p \<noteq> 0 \<longrightarrow> s' = s \<and> ad' = ad) \<and>
     (addr_at s ad p = 0 \<longrightarrow> blocks s' (addr_at s' ad' p) = zero_blk) \<and>
     (\<forall>j< sb_size (sb s). is_free s' j \<longrightarrow> is_free s j) \<and>
     (\<forall>j< sb_size (sb s). is_free s j \<and> \<not> is_free s' j \<longrightarrow> (\<exists>x. valid x \<and> j = addr_at s' ad' x)) \<and>
     (\<forall>x< sb_size (sb s). \<not> is_free s x \<and> x \<notin> bitmap_blocks s \<and> x \<notin> interior s ad \<longrightarrow> blocks s' x = blocks s x)"

lemma grownD:
  assumes "grown s ad p s' ad'"
  shows "tree_ok s' ad'" "layout_ok s'" "frame s s'" "addr_at s' ad' p \<noteq> 0"
    "\<And>x. valid x \<Longrightarrow> addr_at s ad x \<noteq> 0 \<Longrightarrow> addr_at s' ad' x = addr_at s ad x"
    "\<And>x. valid x \<Longrightarrow> \<not> prefix_of x p \<Longrightarrow> addr_at s' ad' x = addr_at s ad x"
    "\<And>x. valid x \<Longrightarrow> addr_at s' ad' x \<noteq> addr_at s ad x \<Longrightarrow> is_free s (addr_at s' ad' x)"
    "addr_at s ad p \<noteq> 0 \<Longrightarrow> s' = s \<and> ad' = ad"
    "addr_at s ad p = 0 \<Longrightarrow> blocks s' (addr_at s' ad' p) = zero_blk"
    "\<And>j. j < sb_size (sb s) \<Longrightarrow> is_free s' j \<Longrightarrow> is_free s j"
    "\<And>j. j < sb_size (sb s) \<Longrightarrow> is_free s j \<Longrightarrow> \<not> is_free s' j \<Longrightarrow> \<exists>x. valid x \<and> j = addr_at s' ad' x"
    "\<And>x. x < sb_size (sb s) \<Longrightarrow> \<not> is_free s x \<Longrightarrow> x \<notin> bitmap_blocks s \<Longrightarrow> x \<notin> interior s ad \<Longrightarrow> blocks s' x = blocks s x"
  using assms unfolding grown_def by blast+

lemma addr_at_prefix:
  assumes "prefix_of x p" "addr_at s ad p \<noteq> 0"
  shows "addr_at s ad x \<noteq> 0"
  using assms by (auto simp: prefix_of_def addr_at_def walk_append split: if_splits)

lemma node_added_grown:
  assumes n: "node_added s ad (r, q) s' ad'" and v: "valid (r, q)"
  shows "grown s ad (r, q) s' ad'"
proof -
  have pre: "x \<noteq> (r, q)" if "\<not> prefix_of x (r, q)" for x
    using that by (auto simp: prefix_of_def)
  let ?p = "(r, q)"
  have n1: "tree_ok s' ad'" "layout_ok s'" "frame s s'" "addr_at s' ad' ?p \<noteq> 0"
    and n2: "\<And>x. valid x \<Longrightarrow> x \<noteq> ?p \<Longrightarrow> addr_at s' ad' x = addr_at s ad x"
    and n3: "addr_at s ad ?p \<noteq> 0 \<Longrightarrow> s' = s \<and> ad' = ad"
    and n4: "addr_at s ad ?p = 0 \<Longrightarrow> is_free s (addr_at s' ad' ?p) \<and> blocks s' (addr_at s' ad' ?p) = zero_blk"
    and n5: "\<And>j. j < sb_size (sb s) \<Longrightarrow> is_free s' j \<longleftrightarrow> is_free s j \<and> (addr_at s ad ?p = 0 \<longrightarrow> j \<noteq> addr_at s' ad' ?p)"
    and n6: "\<And>x. x \<noteq> addr_at s ad (r, butlast q) \<or> q = [] \<Longrightarrow> \<not> is_free s x \<Longrightarrow> x \<notin> bitmap_blocks s \<Longrightarrow>
        blocks s' x = blocks s x"
    using n unfolding node_added_def fst_conv snd_conv by blast+
  have int: "addr_at s ad (r, butlast q) \<in> interior s ad" if ne: "q \<noteq> []"
  proof -
    have v': "valid (r, butlast q)" using v ne by (auto simp: valid_def dest: in_set_butlastD)
    moreover have "length (butlast q) < depth r" using v ne by (cases q rule: rev_cases) (auto simp: valid_def)
    moreover have "addr_at s ad (r, butlast q) \<noteq> 0"
    proof -
      have "prefix_of (r, butlast q) ?p" using append_butlast_last_id [OF ne] by (auto simp: prefix_of_def intro: sym)
      then have "addr_at s' ad' (r, butlast q) \<noteq> 0" using addr_at_prefix n1(4) by blast
      moreover have "butlast q \<noteq> q" using ne by (cases q rule: rev_cases) auto
      ultimately show ?thesis using n2 [OF v'] by simp
    qed
    ultimately show ?thesis by (force simp: interior_def)
  qed
  show ?thesis
    unfolding grown_def
  proof (intro conjI allI impI)
    fix x assume "valid x \<and> addr_at s ad x \<noteq> 0"
    then show "addr_at s' ad' x = addr_at s ad x" using n2 [of x] n3 by (cases "x = ?p") auto
  next
    fix x assume "valid x \<and> \<not> prefix_of x ?p"
    then show "addr_at s' ad' x = addr_at s ad x" using n2 pre by blast
  next
    fix x assume x: "valid x \<and> addr_at s' ad' x \<noteq> addr_at s ad x"
    then have "x = ?p" using n2 by blast
    then show "is_free s (addr_at s' ad' x)" using n3 n4 x by metis
  next
    fix j assume "j < sb_size (sb s)" "is_free s j \<and> \<not> is_free s' j"
    then show "\<exists>x. valid x \<and> j = addr_at s' ad' x" using n5 v by blast
  next
    fix x assume "x < sb_size (sb s)" "\<not> is_free s x \<and> x \<notin> bitmap_blocks s \<and> x \<notin> interior s ad"
    then show "blocks s' x = blocks s x" using n6 [of x] int by (cases "q = []") auto
  qed (use n1 n3 n4 n5 in auto)
qed

lemma prefix_of_refl [simp]: "prefix_of p p"
  by (simp add: prefix_of_def)

lemma prefix_of_trans: "prefix_of x y \<Longrightarrow> prefix_of y z \<Longrightarrow> prefix_of x z"
  by (auto simp: prefix_of_def)

lemma grown_trans:
  assumes g1: "grown s ad p s1 ad1" and g2: "grown s1 ad1 p' s' ad'"
    and pp: "prefix_of p p'" "p \<noteq> p'" and v: "valid p" "valid p'" and lay: "layout_ok s"
  shows "grown s ad p' s' ad'"
proof -
  note D1 = grownD [OF g1] and D2 = grownD [OF g2]
  have sb: "sb s1 = sb s" "bitmap_blocks s1 = bitmap_blocks s"
    using frameD(1) [OF D1(3)] bitmap_frame [OF D1(3)] by auto
  have np: "\<not> prefix_of p' p"
    using pp by (cases p; cases p') (auto simp: prefix_of_def)
  have zero: "addr_at s1 ad1 p' = addr_at s ad p'" by (rule D1(6) [OF v(2) np])
  have le: "addr_at s' ad' x < sb_size (sb s)" if "valid x" "addr_at s' ad' x \<noteq> 0" for x
    using tree_okD(1) [OF D2(1) that] frameD(1) [OF D2(3)] sb by simp
  show ?thesis
    unfolding grown_def
  proof (intro conjI allI impI)
    show "tree_ok s' ad'" "layout_ok s'" "addr_at s' ad' p' \<noteq> 0" by (rule D2)+
    show "frame s s'" by (rule frame_trans [OF D1(3) D2(3)])
  next
    fix x assume "valid x \<and> addr_at s ad x \<noteq> 0"
    then show "addr_at s' ad' x = addr_at s ad x" using D1(5) D2(5) by metis
  next
    fix x assume x: "valid x \<and> \<not> prefix_of x p'"
    then have "\<not> prefix_of x p" using prefix_of_trans pp(1) by blast
    then show "addr_at s' ad' x = addr_at s ad x" using x D1(6) D2(6) by metis
  next
    fix x assume x: "valid x \<and> addr_at s' ad' x \<noteq> addr_at s ad x"
    show "is_free s (addr_at s' ad' x)"
    proof (cases "addr_at s' ad' x = addr_at s1 ad1 x")
      case True
      then show ?thesis using D1(7) [of x] x by simp
    next
      case False
      then have "is_free s1 (addr_at s' ad' x)" using D2(7) x by blast
      moreover have "addr_at s' ad' x \<noteq> 0" using D1(2) calculation unfolding layout_ok_def by metis
      ultimately show ?thesis using D1(10) le x by blast
    qed
  next
    assume "addr_at s ad p' \<noteq> 0"
    then have "addr_at s ad p \<noteq> 0" by (rule addr_at_prefix [OF pp(1)])
    then have "s1 = s" "ad1 = ad" using D1(8) by auto
    then show "s' = s" "ad' = ad" using D2(8) \<open>addr_at s ad p' \<noteq> 0\<close> by auto
  next
    assume "addr_at s ad p' = 0"
    then show "blocks s' (addr_at s' ad' p') = zero_blk" using D2(9) zero by simp
  next
    fix j assume "j < sb_size (sb s)" "is_free s' j"
    then show "is_free s j" using D1(10) D2(10) sb by simp
  next
    fix j assume j: "j < sb_size (sb s)" "is_free s j \<and> \<not> is_free s' j"
    show "\<exists>x. valid x \<and> j = addr_at s' ad' x"
    proof (cases "is_free s1 j")
      case True
      then show ?thesis using D2(11) j sb by simp
    next
      case False
      then obtain x where x: "valid x" "j = addr_at s1 ad1 x" using D1(11) j by blast
      have "j \<noteq> 0" using j lay unfolding layout_ok_def by metis
      then show ?thesis using D2(5) x by metis
    qed
  next
    fix x assume x: "x < sb_size (sb s)" "\<not> is_free s x \<and> x \<notin> bitmap_blocks s \<and> x \<notin> interior s ad"
    have "blocks s1 x = blocks s x" using D1(12) x by blast
    moreover have "x \<notin> interior s1 ad1"
    proof
      assume "x \<in> interior s1 ad1"
      then obtain y where y: "valid y" "length (snd y) < depth (fst y)" "x = addr_at s1 ad1 y" "x \<noteq> 0"
        by (auto simp: interior_def)
      show False
      proof (cases "addr_at s1 ad1 y = addr_at s ad y")
        case True
        then have "x \<in> interior s ad" using interiorI [of y s ad] y by simp
        then show False using x by blast
      next
        case False
        then show False using D1(7) [OF y(1)] x y(3) by simp
      qed
    qed
    moreover have "\<not> is_free s1 x" using D1(10) x by blast
    ultimately show "blocks s' x = blocks s x" using D2(12) [of x] x sb by simp
  qed
qed

lemma alloc_walk_ok:
  assumes "tree_ok s ad" "layout_ok s" "valid (r, q @ is)" "addr_at s ad (r, q) \<noteq> 0"
    and "log_room s (k + 3 * length is)" "length is \<le> nfree s" "is \<noteq> []"
  shows "\<exists>s' a. alloc_walk (addr_at s ad (r, q)) is s = Inr (a, s') \<and> a = addr_at s' ad (r, q @ is) \<and>
    grown s ad (r, q @ is) s' ad \<and> log_room s' k \<and> nfree s' \<ge> nfree s - length is"
  using assms
proof (induction "is" arbitrary: s q)
  case Nil
  then show ?case by simp
next
  case (Cons i "is")
  have v: "valid (r, q @ [i])" using Cons.prems(3) by (auto simp: valid_def)
  have room: "log_room s ((k + 3 * length is) + 3)" using Cons.prems(5) by (simp add: algebra_simps)
  have fr: "nfree s > 0" using Cons.prems(6) by simp
  from ind_slot_ok [OF Cons.prems(1,2) v Cons.prems(4) room fr] obtain s1 a1 where
    1: "ind_slot (addr_at s ad (r, q)) i s = Inr (a1, s1)" "a1 = addr_at s1 ad (r, q @ [i])"
    "node_added s ad (r, q @ [i]) s1 ad" "log_room s1 (k + 3 * length is)" "nfree s1 \<ge> nfree s - 1" by blast
  have g1: "grown s ad (r, q @ [i]) s1 ad" by (rule node_added_grown [OF 1(3) v])
  note D = grownD [OF g1]
  show ?case
  proof (cases "is = []")
    case True
    then show ?thesis using 1 g1 by simp
  next
    case False
    have "valid (r, (q @ [i]) @ is)" using Cons.prems(3) by simp
    moreover have "length is \<le> nfree s1" using 1(5) Cons.prems(6) by simp
    ultimately obtain s' a where
      2: "alloc_walk a1 is s1 = Inr (a, s')" "a = addr_at s' ad (r, q @ i # is)"
      "grown s1 ad (r, q @ i # is) s' ad" "log_room s' k" "nfree s' \<ge> nfree s1 - length is"
      using Cons.IH [OF D(1,2) _ D(4) 1(4) _ False] 1(2) by fastforce
    have "grown s ad (r, q @ i # is) s' ad"
      by (rule grown_trans [OF g1 2(3) _ _ v Cons.prems(3) Cons.prems(2)])
        (use False in \<open>auto simp: prefix_of_def\<close>)
    then show ?thesis using 1(1,5) 2 by auto
  qed
qed

text \<open>Blocks and log entries that one call of \<open>bmap\<close> may need.\<close>

lemma bmap_ok:
  assumes t: "tree_ok s ad" and lay: "layout_ok s" and bn: "bn < MAXFILE"
    and room: "log_room s (k + 11)" and free: "4 \<le> nfree s"
  shows "\<exists>s' ad' a. bmap ad bn s = Inr (a, ad', s') \<and> a = block_of s' ad' bn \<and>
    grown s ad (path_of bn) s' ad' \<and> log_room s' k \<and> nfree s' \<ge> nfree s - 4"
proof -
  obtain r ps where p: "path_of bn = (r, ps)" by force
  have v: "valid (r, ps)" and len: "length ps = depth r" using path_of_valid [OF bn] p by auto
  have r: "r < 13" "length ps \<le> 3" using v len by (auto simp: valid_def depth_def)
  have v0: "valid (r, [])" using r by (simp add: valid_def)
  have "log_room s ((k + 3 * length ps) + 2)" by (rule log_room_mono [OF room]) (use r in simp)
  from root_slot_ok [OF t lay r(1) this] free obtain s1 ad1 a1 where
    1: "root_slot r ad s = Inr (a1, ad1, s1)" "a1 = addr_at s1 ad1 (r, [])"
    "node_added s ad (r, []) s1 ad1" "log_room s1 (k + 3 * length ps)" "nfree s1 \<ge> nfree s - 1" by auto
  have g1: "grown s ad (r, []) s1 ad1" by (rule node_added_grown [OF 1(3) v0])
  note D = grownD [OF g1]
  have b: "bmap ad bn s = bindR (alloc_walk a1 ps s1) (\<lambda>(a2, s2). Inr (a2, ad1, s2))"
    using bmap_path [OF bn] 1(1) p by simp
  show ?thesis
  proof (cases "ps = []")
    case True
    then show ?thesis using b 1 g1 p by (auto simp: block_of_def)
  next
    case False
    have "length ps \<le> nfree s1" using 1(5) free r(2) by simp
    then obtain s' a where
      2: "alloc_walk a1 ps s1 = Inr (a, s')" "a = addr_at s' ad1 (r, ps)"
      "grown s1 ad1 (r, ps) s' ad1" "log_room s' k" "nfree s' \<ge> nfree s1 - length ps"
      using alloc_walk_ok [of s1 ad1 r "[]" ps k] D(1,2,4) v 1(2,4) False by auto
    have "grown s ad (r, ps) s' ad1"
      by (rule grown_trans [OF g1 2(3) _ _ v0 v lay]) (use False in \<open>auto simp: prefix_of_def\<close>)
    then show ?thesis using b 2 1(5) r(2) p by (auto simp: block_of_def)
  qed
qed

text \<open>On file blocks: the others keep their blocks.\<close>

lemma path_of_prefix:
  assumes "m < MAXFILE" "n < MAXFILE" "prefix_of (path_of m) (path_of n)"
  shows "m = n"
proof -
  have "length (snd (path_of m)) = length (snd (path_of n))"
    using path_of_valid [OF assms(1)] path_of_valid [OF assms(2)] assms(3) by (simp add: prefix_of_def)
  then have "path_of m = path_of n" using assms(3) by (auto simp: prefix_of_def prod_eq_iff)
  then show ?thesis by (rule path_of_inj)
qed

lemma grown_blocks:
  assumes "grown s ad (path_of bn) s' ad'" "bn < MAXFILE"
  shows "block_of s' ad' bn \<noteq> 0" "m < MAXFILE \<Longrightarrow> m \<noteq> bn \<Longrightarrow> block_of s' ad' m = block_of s ad m"
    "block_of s ad bn \<noteq> 0 \<Longrightarrow> s' = s \<and> ad' = ad"
    "block_of s ad bn = 0 \<Longrightarrow> blocks s' (block_of s' ad' bn) = zero_blk"
  using grownD(4,6,8,9) [OF assms(1)] path_of_valid path_of_prefix assms(2)
  unfolding block_of_def by blast+

text \<open>A data block is no indirect block, so its contents stay.\<close>

lemma data_not_interior:
  assumes "tree_ok s ad" "m < MAXFILE" "block_of s ad m \<noteq> 0"
  shows "block_of s ad m \<notin> interior s ad"
proof
  assume "block_of s ad m \<in> interior s ad"
  then obtain y where y: "valid y" "length (snd y) < depth (fst y)" "addr_at s ad y = addr_at s ad (path_of m)"
    by (auto simp: interior_def block_of_def)
  have "y = path_of m"
    using tree_okD(4) [OF assms(1) _ _ y(1,3)] path_of_valid [OF assms(2)] assms(3) by (simp add: block_of_def)
  then show False using y(2) path_of_valid [OF assms(2)] by simp
qed

lemma grown_data:
  assumes g: "grown s ad (path_of bn) s' ad'" and bn: "bn < MAXFILE" and t: "tree_ok s ad"
    and m: "m < MAXFILE" "block_of s ad m \<noteq> 0"
  shows "block_of s' ad' m = block_of s ad m" "blocks s' (block_of s ad m) = blocks s (block_of s ad m)"
proof -
  have v: "valid (path_of m)" using path_of_valid [OF m(1)] by simp
  show "block_of s' ad' m = block_of s ad m"
    using grownD(5) [OF g v] m(2) by (simp add: block_of_def)
  show "blocks s' (block_of s ad m) = blocks s (block_of s ad m)"
    using grownD(12) [OF g] tree_okD(1-3) [OF t v] m(2) data_not_interior [OF t m] bitmap_meta
    by (simp add: block_of_def)
qed

end
