(* ===== verification/Fs_Inode.thy ===== *)
theory Fs_Inode
  imports Fs_Bmap
begin

text \<open>
  Inodes of Project03-FileSystem/fs.c: the on-disk inode and its encoding, the inode
  cache, \<open>ialloc\<close>, \<open>iupdate\<close>, \<open>iget\<close>, \<open>idup\<close>, \<open>ilock\<close>, \<open>iunlock\<close>, \<open>iput\<close>,
  \<open>itrunc\<close> and \<open>stati\<close>. An in-memory inode is named by its slot of the cache. A sleep
  lock is a flag: the model runs one system call at a time, so to acquire a lock that is
  held is to wait for oneself, which is \<open>Hang\<close>.
\<close>

section \<open>The on-disk inode\<close>

record dinode =
  d_type :: int
  d_major :: int
  d_minor :: int
  d_nlink :: int
  d_size :: nat
  d_addrs :: "nat list"

text \<open>\<open>o\<close> is the byte offset of the inode in its block.\<close>

definition dino_off :: "nat \<Rightarrow> nat" where
  "dino_off inum = 64 * (inum mod IPB)"

definition get_addrs :: "blk \<Rightarrow> nat \<Rightarrow> nat list" where
  "get_addrs d o' = map (\<lambda>i. rd32 d (o' + 4 * i)) [0..<13]"

fun put_words :: "blk \<Rightarrow> nat \<Rightarrow> nat list \<Rightarrow> blk" where
  "put_words d o' [] = d"
| "put_words d o' (a # ad) = put_words (wr32 d o' a) (o' + 4) ad"

definition get_dinode :: "blk \<Rightarrow> nat \<Rightarrow> dinode" where
  "get_dinode d o' = \<lparr>d_type = dec16 (rd16 d o'), d_major = dec16 (rd16 d (o' + 2)),
     d_minor = dec16 (rd16 d (o' + 4)), d_nlink = dec16 (rd16 d (o' + 6)),
     d_size = rd32 d (o' + 8), d_addrs = get_addrs d (o' + 12)\<rparr>"

definition put_dinode :: "blk \<Rightarrow> nat \<Rightarrow> dinode \<Rightarrow> blk" where
  "put_dinode d o' di =
     put_words (wr32 (wr16 (wr16 (wr16 (wr16 d o' (enc16 (d_type di))) (o' + 2) (enc16 (d_major di)))
       (o' + 4) (enc16 (d_minor di))) (o' + 6) (enc16 (d_nlink di))) (o' + 8) (d_size di)) (o' + 12) (d_addrs di)"

definition zero_dinode :: dinode where
  "zero_dinode = \<lparr>d_type = 0, d_major = 0, d_minor = 0, d_nlink = 0, d_size = 0, d_addrs = replicate 13 0\<rparr>"

section \<open>The inode cache\<close>

definition upd_ip :: "nat \<Rightarrow> (inode \<Rightarrow> inode) \<Rightarrow> fs \<Rightarrow> fs" where
  "upd_ip k f s = s\<lparr>icache := (icache s)[k := f (icache s ! k)]\<rparr>"

definition iget :: "nat \<Rightarrow> nat \<Rightarrow> fs \<Rightarrow> (nat \<times> fs) res" where
  "iget dev inum s =
     (case find_idx (\<lambda>ip. i_ref ip > 0 \<and> i_dev ip = dev \<and> i_inum ip = inum) (icache s) of
        Some k \<Rightarrow> Inr (k, upd_ip k (\<lambda>ip. ip\<lparr>i_ref := i_ref ip + 1\<rparr>) s)
      | None \<Rightarrow>
          (case find_idx (\<lambda>ip. i_ref ip = 0) (icache s) of
             None \<Rightarrow> Inl (Panic ''iget: no inodes'')
           | Some k \<Rightarrow> Inr (k, upd_ip k (\<lambda>ip. ip\<lparr>i_dev := dev, i_inum := inum, i_ref := 1, i_valid := False\<rparr>) s)))"

definition idup :: "nat \<Rightarrow> fs \<Rightarrow> nat \<times> fs" where
  "idup k s = (k, upd_ip k (\<lambda>ip. ip\<lparr>i_ref := i_ref ip + 1\<rparr>) s)"

definition ialloc :: "nat \<Rightarrow> int \<Rightarrow> fs \<Rightarrow> (nat \<times> fs) res" where
  "ialloc dev ty s =
     (case find_idx (\<lambda>i. d_type (get_dinode (blocks s (IBLOCK i s)) (dino_off i)) = 0) [1..< sb_ninodes (sb s)] of
        None \<Rightarrow> Inl (Panic ''ialloc: no inodes'')
      | Some i \<Rightarrow>
          let inum = Suc i; b = IBLOCK inum s in
          bindR (log_write b (put_dinode (blocks s b) (dino_off inum) (zero_dinode\<lparr>d_type := ty\<rparr>)) s)
            (iget dev inum))"

definition dinode_of :: "inode \<Rightarrow> dinode" where
  "dinode_of ip = \<lparr>d_type = i_type ip, d_major = i_major ip, d_minor = i_minor ip, d_nlink = i_nlink ip,
     d_size = i_size ip, d_addrs = i_addrs ip\<rparr>"

definition iupdate :: "nat \<Rightarrow> fs \<Rightarrow> fs res" where
  "iupdate k s =
     (let ip = icache s ! k; b = IBLOCK (i_inum ip) s
      in log_write b (put_dinode (blocks s b) (dino_off (i_inum ip)) (dinode_of ip)) s)"

definition load_ip :: "dinode \<Rightarrow> inode \<Rightarrow> inode" where
  "load_ip di ip = ip\<lparr>i_type := d_type di, i_major := d_major di, i_minor := d_minor di, i_nlink := d_nlink di,
     i_size := d_size di, i_addrs := d_addrs di, i_valid := True\<rparr>"

definition ilock :: "nat \<Rightarrow> fs \<Rightarrow> fs res" where
  "ilock k s =
     guardR (i_ref (icache s ! k) \<ge> 1) (Panic ''ilock'')
      (guardR (\<not> i_locked (icache s ! k)) (Hang ''acquiresleep'')
        (let s1 = upd_ip k (\<lambda>ip. ip\<lparr>i_locked := True\<rparr>) s; ip = icache s ! k
         in if i_valid ip then Inr s1
            else let di = get_dinode (blocks s1 (IBLOCK (i_inum ip) s1)) (dino_off (i_inum ip));
                     s2 = upd_ip k (load_ip di) s1
                 in guardR (d_type di \<noteq> 0) (Panic ''ilock: no type'') (Inr s2)))"

definition iunlock :: "nat \<Rightarrow> fs \<Rightarrow> fs res" where
  "iunlock k s =
     guardR (i_locked (icache s ! k) \<and> i_ref (icache s ! k) \<ge> 1) (Panic ''iunlock'')
       (Inr (upd_ip k (\<lambda>ip. ip\<lparr>i_locked := False\<rparr>) s))"

section \<open>Freeing the contents\<close>

text \<open>The loops over the entries of an indirect block, one, two and three levels deep.\<close>

fun free_ind :: "nat \<Rightarrow> nat list \<Rightarrow> fs \<Rightarrow> fs res" where
  "free_ind b [] s = Inr s"
| "free_ind b (j # js) s =
     (if rdw (blocks s b) j \<noteq> 0 then bindR (bfree (rdw (blocks s b) j) s) (free_ind b js)
      else free_ind b js s)"

fun free_ind2 :: "nat \<Rightarrow> nat list \<Rightarrow> fs \<Rightarrow> fs res" where
  "free_ind2 b [] s = Inr s"
| "free_ind2 b (i # is) s =
     (if rdw (blocks s b) i \<noteq> 0
      then bindR (free_ind (rdw (blocks s b) i) [0..<NINDIRECT] s) (\<lambda>s1.
           bindR (bfree (rdw (blocks s1 b) i) s1) (free_ind2 b is))
      else free_ind2 b is s)"

fun free_ind3 :: "nat \<Rightarrow> nat list \<Rightarrow> fs \<Rightarrow> fs res" where
  "free_ind3 b [] s = Inr s"
| "free_ind3 b (i # is) s =
     (if rdw (blocks s b) i \<noteq> 0
      then bindR (free_ind2 (rdw (blocks s b) i) [0..<NINDIRECT] s) (\<lambda>s1.
           bindR (bfree (rdw (blocks s1 b) i) s1) (free_ind3 b is))
      else free_ind3 b is s)"

fun free_direct :: "nat list \<Rightarrow> nat list \<Rightarrow> fs \<Rightarrow> (nat list \<times> fs) res" where
  "free_direct [] ad s = Inr (ad, s)"
| "free_direct (i # is) ad s =
     (if ad ! i \<noteq> 0 then bindR (bfree (ad ! i) s) (\<lambda>s1. free_direct is (ad[i := 0]) s1)
      else free_direct is ad s)"

text \<open>One of the three indirect slots \<open>r\<close>, with the loop for its depth.\<close>

definition free_slot :: "(nat \<Rightarrow> nat list \<Rightarrow> fs \<Rightarrow> fs res) \<Rightarrow> nat \<Rightarrow> nat list \<Rightarrow> fs \<Rightarrow> (nat list \<times> fs) res" where
  "free_slot loop r ad s =
     (if ad ! r \<noteq> 0
      then bindR (loop (ad ! r) [0..<NINDIRECT] s) (\<lambda>s1.
           bindR (bfree (ad ! r) s1) (\<lambda>s2. Inr (ad[r := 0], s2)))
      else Inr (ad, s))"

definition free_tree :: "nat list \<Rightarrow> fs \<Rightarrow> (nat list \<times> fs) res" where
  "free_tree ad s =
     bindR (free_direct [0..<NDIRECT] ad s) (\<lambda>(ad1, s1).
     bindR (free_slot free_ind NDIRECT ad1 s1) (\<lambda>(ad2, s2).
     bindR (free_slot free_ind2 (NDIRECT + 1) ad2 s2) (\<lambda>(ad3, s3).
            free_slot free_ind3 (NDIRECT + 1 + 1) ad3 s3)))"

definition itrunc :: "nat \<Rightarrow> fs \<Rightarrow> fs res" where
  "itrunc k s =
     bindR (free_tree (i_addrs (icache s ! k)) s) (\<lambda>(ad, s1).
       iupdate k (upd_ip k (\<lambda>ip. ip\<lparr>i_addrs := ad, i_size := 0\<rparr>) s1))"

definition iput :: "nat \<Rightarrow> fs \<Rightarrow> fs res" where
  "iput k s =
     guardR (\<not> i_locked (icache s ! k)) (Hang ''acquiresleep'')
       (bindR
         (if i_valid (icache s ! k) \<and> i_nlink (icache s ! k) = 0 \<and> i_ref (icache s ! k) = 1
          then bindR (itrunc k s) (\<lambda>s1.
               bindR (iupdate k (upd_ip k (\<lambda>ip. ip\<lparr>i_type := 0\<rparr>) s1)) (\<lambda>s2.
                 Inr (upd_ip k (\<lambda>ip. ip\<lparr>i_valid := False\<rparr>) s2)))
          else Inr s)
         (\<lambda>s3. Inr (upd_ip k (\<lambda>ip. ip\<lparr>i_ref := i_ref ip - 1\<rparr>) s3)))"

definition iunlockput :: "nat \<Rightarrow> fs \<Rightarrow> fs res" where
  "iunlockput k s = bindR (iunlock k s) (iput k)"

record fstat =
  st_dev :: nat
  st_ino :: nat
  st_type :: int
  st_nlink :: int
  st_size :: nat

definition stati :: "nat \<Rightarrow> fs \<Rightarrow> fstat" where
  "stati k s = (let ip = icache s ! k in
     \<lparr>st_dev = i_dev ip, st_ino = i_inum ip, st_type = i_type ip, st_nlink = i_nlink ip, st_size = i_size ip\<rparr>)"

end
