(* ===== verification/Fs_Trunc.thy ===== *)
theory Fs_Trunc
  imports Fs_Inode
begin

text \<open>
  The encoding of inodes on disk, and what freeing a tree of blocks (\<open>free_tree\<close>, the
  body of \<open>itrunc\<close>) leaves: exactly the blocks of the tree become free.
\<close>

section \<open>The encoding\<close>

lemma rd32_put_words_other: "j + 3 < o' \<or> o' + 4 * length ad \<le> j \<Longrightarrow> rd32 (put_words d o' ad) j = rd32 d j"
  by (induction d o' ad rule: put_words.induct) (auto simp: rd32_wr32_other)

lemma rd16_put_words_other: "j + 1 < o' \<or> o' + 4 * length ad \<le> j \<Longrightarrow> rd16 (put_words d o' ad) j = rd16 d j"
  by (induction d o' ad rule: put_words.induct) (auto simp: rd16_wr32_other)

lemma rd32_put_words: "i < length ad \<Longrightarrow> rd32 (put_words d o' ad) (o' + 4 * i) = ad ! i mod 4294967296"
proof (induction d o' ad arbitrary: i rule: put_words.induct)
  case (2 d o' a ad)
  show ?case
  proof (cases i)
    case 0
    then show ?thesis by (simp add: rd32_put_words_other rd32_wr32)
  next
    case (Suc k)
    then show ?thesis using 2 by (simp add: algebra_simps)
  qed
qed simp

lemma get_put_addrs:
  assumes "length ad = 13" "\<forall>a\<in>set ad. a < 4294967296"
  shows "get_addrs (put_words d o' ad) o' = ad"
  by (rule nth_equalityI) (use assms in \<open>simp_all add: get_addrs_def rd32_put_words\<close>)

definition dinode_ok :: "dinode \<Rightarrow> bool" where
  "dinode_ok di \<longleftrightarrow> (\<forall>x\<in>{d_type di, d_major di, d_minor di, d_nlink di}. - 32768 \<le> x \<and> x < 32768) \<and>
     d_size di < 4294967296 \<and> length (d_addrs di) = 13 \<and> (\<forall>a\<in>set (d_addrs di). a < 4294967296)"

lemma enc16_mod: "enc16 x mod 65536 = enc16 x"
  using enc16_bound [of x] by simp

lemma get_put_dinode:
  assumes "dinode_ok di"
  shows "get_dinode (put_dinode d o' di) o' = di"
proof -
  have a: "get_addrs (put_dinode d o' di) (o' + 12) = d_addrs di"
    using assms by (simp add: put_dinode_def dinode_ok_def get_put_addrs)
  have s: "rd32 (put_dinode d o' di) (o' + 8) = d_size di"
    using assms by (simp add: put_dinode_def dinode_ok_def rd32_put_words_other rd32_wr32)
  have f: "rd16 (put_dinode d o' di) o' = enc16 (d_type di)" "rd16 (put_dinode d o' di) (o' + 2) = enc16 (d_major di)"
    "rd16 (put_dinode d o' di) (o' + 4) = enc16 (d_minor di)" "rd16 (put_dinode d o' di) (o' + 6) = enc16 (d_nlink di)"
    by (simp_all add: put_dinode_def rd16_put_words_other rd16_wr32_other rd16_wr16_other rd16_wr16 enc16_mod)
  show ?thesis using assms
    by (simp add: get_dinode_def a s f dec_enc16 dinode_ok_def del: add_2_eq_Suc')
qed

lemma get_put_dinode_other:
  assumes "length (d_addrs di) = 13" "o' + 64 \<le> o2 \<or> o2 + 64 \<le> o'"
  shows "get_dinode (put_dinode d o' di) o2 = get_dinode d o2"
proof -
  have 16: "rd16 (put_dinode d o' di) (o2 + k) = rd16 d (o2 + k)" if "k \<le> 62" for k
    using assms(2) by (rule disjE)
      (use assms(1) that in \<open>simp_all add: put_dinode_def rd16_put_words_other rd16_wr32_other rd16_wr16_other\<close>)
  have 32: "rd32 (put_dinode d o' di) (o2 + k) = rd32 d (o2 + k)" if "k \<le> 60" for k
    using assms(2) by (rule disjE)
      (use assms(1) that in \<open>simp_all add: put_dinode_def rd32_put_words_other rd32_wr32_other rd32_wr16_other\<close>)
  have "get_addrs (put_dinode d o' di) (o2 + 12) = get_addrs d (o2 + 12)"
    using 32 [of "12 + 4 * k" for k] by (auto simp: get_addrs_def add.assoc)
  then show ?thesis using 16 [of 0] 16 [of 2] 16 [of 4] 16 [of 6] 32 [of 8] by (simp add: get_dinode_def)
qed

section \<open>Freeing a tree\<close>

text \<open>\<open>s\<close> is \<open>s0\<close> with the blocks of the paths \<open>X\<close> freed.\<close>

definition freed :: "fs \<Rightarrow> nat list \<Rightarrow> nat set \<Rightarrow> path set \<Rightarrow> fs \<Rightarrow> bool" where
  "freed s0 ad B X s \<longleftrightarrow> frame s0 s \<and> layout_ok s \<and> log_covers s B \<and>
     (\<forall>x. x \<notin> bitmap_blocks s0 \<longrightarrow> blocks s x = blocks s0 x) \<and>
     (\<forall>j< sb_size (sb s0). is_free s j \<longleftrightarrow>
        is_free s0 j \<or> (\<exists>p\<in>X. valid p \<and> addr_at s0 ad p \<noteq> 0 \<and> j = addr_at s0 ad p))"

definition sub :: "path \<Rightarrow> path set" where
  "sub c = {p. valid p \<and> prefix_of c p}"

lemma freedD:
  assumes "freed s0 ad B X s" "tree_ok s0 ad" "valid p" "addr_at s0 ad p \<noteq> 0"
  shows "blocks s (addr_at s0 ad p) = blocks s0 (addr_at s0 ad p)"
    "p \<notin> X \<Longrightarrow> \<not> is_free s (addr_at s0 ad p)"
proof -
  note T = tree_okD [OF assms(2-4)]
  have "addr_at s0 ad p \<notin> bitmap_blocks s0" using T(2) by (auto simp: bitmap_blocks_def meta_def)
  then show "blocks s (addr_at s0 ad p) = blocks s0 (addr_at s0 ad p)" using assms(1) by (simp add: freed_def)
  assume "p \<notin> X"
  then show "\<not> is_free s (addr_at s0 ad p)"
    using assms(1) T(1,3) T(4) unfolding freed_def by metis
qed

lemma freed_more:
  assumes "freed s0 ad B X s" "\<And>p. valid p \<Longrightarrow> addr_at s0 ad p \<noteq> 0 \<Longrightarrow> p \<in> X \<longleftrightarrow> p \<in> Y"
  shows "freed s0 ad B Y s"
  using assms unfolding freed_def by blast

lemma bfree_node:
  assumes f: "freed s0 ad B X s" and t: "tree_ok s0 ad" and p: "valid p" "addr_at s0 ad p \<noteq> 0" "p \<notin> X"
    and B: "bitmap_blocks s0 \<subseteq> B"
  shows "\<exists>s'. bfree (addr_at s0 ad p) s = Inr s' \<and> freed s0 ad B (insert p X) s'"
proof -
  let ?a = "addr_at s0 ad p"
  note T = tree_okD(1,2) [OF t p(1,2)]
  have fr: "frame s0 s" and lay: "layout_ok s" and lg: "log_covers s B" using f by (auto simp: freed_def)
  note F = frameD [OF fr]
  have "BBLOCK ?a s \<in> B" using B T(1) by (auto simp: bitmap_blocks_def F(8))
  then obtain s' where s': "bfree ?a s = Inr s'" "frame s s'" "log_covers s' B" "layout_ok s'"
    "blocks s' = (blocks s)(BBLOCK ?a s := clear_mark (blocks s (BBLOCK ?a s)) (?a mod BPB))"
    "\<And>j. j < sb_size (sb s) \<Longrightarrow> is_free s' j \<longleftrightarrow> j = ?a \<or> is_free s j"
    using bfree_covered [OF lay _ freedD(2) [OF f t p] lg, of thesis] T p(2) F(1) meta_frame [OF fr]
    by auto
  have "BBLOCK ?a s \<in> bitmap_blocks s0" using T(1) by (auto simp: bitmap_blocks_def F(8))
  then have blk: "\<forall>x. x \<notin> bitmap_blocks s0 \<longrightarrow> blocks s' x = blocks s0 x"
    using f s'(5) by (auto simp: freed_def)
  have "is_free s' j \<longleftrightarrow> is_free s0 j \<or> (\<exists>q\<in>insert p X. valid q \<and> addr_at s0 ad q \<noteq> 0 \<and> j = addr_at s0 ad q)"
    if "j < sb_size (sb s0)" for j
    using f s'(6) [of j] that p(1,2) unfolding freed_def F(1) by auto
  then show ?thesis using s' frame_trans [OF fr s'(2)] blk by (auto simp: freed_def)
qed

lemma sub_leaf: "valid (r, q) \<Longrightarrow> length q = depth r \<Longrightarrow> sub (r, q) = {(r, q)}"
  by (auto simp: sub_def prefix_of_def valid_def)

lemma sub_split:
  "valid (r, q) \<Longrightarrow> length q < depth r \<Longrightarrow> sub (r, q) = insert (r, q) (\<Union>j\<in>{0..<NINDIRECT}. sub (r, q @ [j]))"
proof (intro set_eqI iffI)
  fix p assume v: "valid (r, q)" "length q < depth r" and "p \<in> sub (r, q)"
  then obtain ys where p: "p = (r, q @ ys)" "valid p" by (cases p) (auto simp: sub_def prefix_of_def)
  show "p \<in> insert (r, q) (\<Union>j\<in>{0..<NINDIRECT}. sub (r, q @ [j]))"
  proof (cases ys)
    case Nil
    then show ?thesis using p by simp
  next
    case (Cons y zs)
    then have "p \<in> sub (r, q @ [y])" "y < NINDIRECT" using p by (auto simp: sub_def prefix_of_def valid_def)
    then show ?thesis by auto
  qed
next
  fix p assume "valid (r, q)" "p \<in> insert (r, q) (\<Union>j\<in>{0..<NINDIRECT}. sub (r, q @ [j]))"
  then show "p \<in> sub (r, q)" by (auto simp: sub_def prefix_of_def)
qed

lemma sub_zero: "addr_at s ad c = 0 \<Longrightarrow> p \<in> sub c \<Longrightarrow> addr_at s ad p = 0"
  using addr_at_prefix [of c p s ad] by (auto simp: sub_def)

lemma sub_disjoint: "i \<noteq> j \<Longrightarrow> sub (r, q @ [i]) \<inter> sub (r, q @ [j]) = {}"
  by (auto simp: sub_def prefix_of_def)

text \<open>What each of the three loops does below the node \<open>(r, q)\<close>.\<close>

definition frees_below :: "(nat \<Rightarrow> nat list \<Rightarrow> fs \<Rightarrow> fs res) \<Rightarrow> nat \<Rightarrow> bool" where
  "frees_below loop d \<longleftrightarrow> (\<forall>s0 ad B X s r q js.
     tree_ok s0 ad \<longrightarrow> bitmap_blocks s0 \<subseteq> B \<longrightarrow> valid (r, q) \<longrightarrow> length q + d = depth r \<longrightarrow>
     addr_at s0 ad (r, q) \<noteq> 0 \<longrightarrow> distinct js \<longrightarrow> set js \<subseteq> {0..<NINDIRECT} \<longrightarrow>
     freed s0 ad B X s \<longrightarrow> (\<forall>j\<in>set js. sub (r, q @ [j]) \<inter> X = {}) \<longrightarrow>
     (\<exists>s'. loop (addr_at s0 ad (r, q)) js s = Inr s' \<and>
        freed s0 ad B (X \<union> (\<Union>j\<in>set js. sub (r, q @ [j]))) s'))"

lemma frees_belowI:
  assumes "\<And>s0 ad B X s r q j js. \<lbrakk>tree_ok s0 ad; bitmap_blocks s0 \<subseteq> B; valid (r, q); length q + d = depth r;
      addr_at s0 ad (r, q) \<noteq> 0; j < NINDIRECT; freed s0 ad B X s; sub (r, q @ [j]) \<inter> X = {}\<rbrakk> \<Longrightarrow>
      \<exists>s'. loop (addr_at s0 ad (r, q)) (j # js) s = loop (addr_at s0 ad (r, q)) js s' \<and>
        freed s0 ad B (X \<union> sub (r, q @ [j])) s'"
    and nil: "\<And>b s. loop b [] s = Inr s"
  shows "frees_below loop d"
proof -
  have "\<exists>s'. loop (addr_at s0 ad (r, q)) js s = Inr s' \<and>
        freed s0 ad B (X \<union> (\<Union>j\<in>set js. sub (r, q @ [j]))) s'"
    if "tree_ok s0 ad" "bitmap_blocks s0 \<subseteq> B" "valid (r, q)" "length q + d = depth r"
      "addr_at s0 ad (r, q) \<noteq> 0" "distinct js" "set js \<subseteq> {0..<NINDIRECT}"
      "freed s0 ad B X s" "\<forall>j\<in>set js. sub (r, q @ [j]) \<inter> X = {}" for s0 ad B X s r q js
    using that
  proof (induction js arbitrary: s X)
    case Nil
    then show ?case by (simp add: nil)
  next
    case (Cons j js)
    from assms(1) [OF Cons.prems(1-5) _ Cons.prems(8), of j js] Cons.prems(7,9) obtain s1 where
      1: "loop (addr_at s0 ad (r, q)) (j # js) s = loop (addr_at s0 ad (r, q)) js s1"
      "freed s0 ad B (X \<union> sub (r, q @ [j])) s1" by auto
    have "\<forall>i\<in>set js. sub (r, q @ [i]) \<inter> (X \<union> sub (r, q @ [j])) = {}"
    proof
      fix i assume i: "i \<in> set js"
      then have "i \<noteq> j" using Cons.prems(6) by auto
      then have "sub (r, q @ [i]) \<inter> sub (r, q @ [j]) = {}" by (rule sub_disjoint)
      moreover have "sub (r, q @ [i]) \<inter> X = {}" using Cons.prems(9) i by simp
      ultimately show "sub (r, q @ [i]) \<inter> (X \<union> sub (r, q @ [j])) = {}" by blast
    qed
    from Cons.IH [OF Cons.prems(1-5) _ _ 1(2) this] Cons.prems(6,7) obtain s' where
      "loop (addr_at s0 ad (r, q)) js s1 = Inr s'"
      "freed s0 ad B (X \<union> sub (r, q @ [j]) \<union> (\<Union>j\<in>set js. sub (r, q @ [j]))) s'" by auto
    then show ?case using 1(1) by (auto simp: Un_assoc)
  qed
  then show ?thesis unfolding frees_below_def by blast
qed

lemma child_addr:
  assumes "tree_ok s0 ad" "freed s0 ad B X s" "valid (r, q)" "addr_at s0 ad (r, q) \<noteq> 0"
  shows "rdw (blocks s (addr_at s0 ad (r, q))) j = addr_at s0 ad (r, q @ [j])"
  using freedD(1) [OF assms(2,1,3,4)] assms(4) by (simp add: addr_at_snoc)

lemma valid_child: "valid (r, q) \<Longrightarrow> length q < depth r \<Longrightarrow> j < NINDIRECT \<Longrightarrow> valid (r, q @ [j])"
  by (auto simp: valid_def)

lemma frees_ind: "frees_below free_ind 1"
proof (rule frees_belowI)
  fix s0 ad B X s r q j js
  assume a: "tree_ok s0 ad" "bitmap_blocks s0 \<subseteq> B" "valid (r, q)" "length q + 1 = depth r"
    "addr_at s0 ad (r, q) \<noteq> 0" "j < NINDIRECT" "freed s0 ad B X s" "sub (r, q @ [j]) \<inter> X = {}"
  have v: "valid (r, q @ [j])" using valid_child a by simp
  have leaf: "sub (r, q @ [j]) = {(r, q @ [j])}" using sub_leaf [OF v] a(4) by simp
  note c = child_addr [OF a(1,7,3,5), of j]
  show "\<exists>s'. free_ind (addr_at s0 ad (r, q)) (j # js) s = free_ind (addr_at s0 ad (r, q)) js s' \<and>
      freed s0 ad B (X \<union> sub (r, q @ [j])) s'"
  proof (cases "addr_at s0 ad (r, q @ [j]) = 0")
    case True
    have "freed s0 ad B (X \<union> sub (r, q @ [j])) s"
      by (rule freed_more [OF a(7)]) (use True leaf in auto)
    then show ?thesis using c True by auto
  next
    case False
    then obtain s' where "bfree (addr_at s0 ad (r, q @ [j])) s = Inr s'" "freed s0 ad B (insert (r, q @ [j]) X) s'"
      using bfree_node [OF a(7,1) v False _ a(2)] a(8) leaf by auto
    then show ?thesis using c False leaf by auto
  qed
qed simp

lemma frees_step:
  assumes L: "frees_below loop d" and d: "0 < d"
    and eq: "\<And>b i is s. loop' b (i # is) s =
      (if rdw (blocks s b) i \<noteq> 0
       then bindR (loop (rdw (blocks s b) i) [0..<NINDIRECT] s) (\<lambda>s1.
            bindR (bfree (rdw (blocks s1 b) i) s1) (loop' b is))
       else loop' b is s)"
    and nil: "\<And>b s. loop' b [] s = Inr s"
  shows "frees_below loop' (Suc d)"
proof (rule frees_belowI)
  fix s0 ad B X s r q j js
  assume a: "tree_ok s0 ad" "bitmap_blocks s0 \<subseteq> B" "valid (r, q)" "length q + Suc d = depth r"
    "addr_at s0 ad (r, q) \<noteq> 0" "j < NINDIRECT" "freed s0 ad B X s" "sub (r, q @ [j]) \<inter> X = {}"
  let ?c = "(r, q @ [j])"
  have v: "valid ?c" using valid_child a by simp
  note c = child_addr [OF a(1,7,3,5), of j]
  show "\<exists>s'. loop' (addr_at s0 ad (r, q)) (j # js) s = loop' (addr_at s0 ad (r, q)) js s' \<and>
      freed s0 ad B (X \<union> sub ?c) s'"
  proof (cases "addr_at s0 ad ?c = 0")
    case True
    have "freed s0 ad B (X \<union> sub ?c) s"
      by (rule freed_more [OF a(7)]) (use True sub_zero in auto)
    then show ?thesis using c True by (auto simp: eq)
  next
    case False
    have below: "sub ?c = insert ?c (\<Union>i\<in>{0..<NINDIRECT}. sub (r, (q @ [j]) @ [i]))"
      using sub_split [OF v] a(4) d by simp
    have nc: "?c \<notin> (\<Union>i\<in>{0..<NINDIRECT}. sub (r, (q @ [j]) @ [i]))"
      by (auto simp: sub_def prefix_of_def)
    have "\<exists>s1. loop (addr_at s0 ad ?c) [0..<NINDIRECT] s = Inr s1 \<and>
        freed s0 ad B (X \<union> (\<Union>i\<in>set [0..<NINDIRECT]. sub (r, (q @ [j]) @ [i]))) s1"
    proof (rule L [unfolded frees_below_def, rule_format, OF a(1,2) v _ False distinct_upt _ a(7)])
      show "length (q @ [j]) + d = depth r" using a(4) by simp
      show "set [0..<NINDIRECT] \<subseteq> {0..<NINDIRECT}" by simp
      show "sub (r, (q @ [j]) @ [i]) \<inter> X = {}" if "i \<in> set [0..<NINDIRECT]" for i
        using a(8) that unfolding below set_upt by blast
    qed
    then obtain s1 where s1: "loop (addr_at s0 ad ?c) [0..<NINDIRECT] s = Inr s1"
      "freed s0 ad B (X \<union> (\<Union>i\<in>{0..<NINDIRECT}. sub (r, (q @ [j]) @ [i]))) s1"
      unfolding set_upt by blast
    note c1 = child_addr [OF a(1) s1(2) a(3,5), of j]
    have "?c \<notin> X" using a(8) below by auto
    then obtain s' where "bfree (addr_at s0 ad ?c) s1 = Inr s'"
      "freed s0 ad B (insert ?c (X \<union> (\<Union>i\<in>{0..<NINDIRECT}. sub (r, (q @ [j]) @ [i])))) s'"
      using bfree_node [OF s1(2) a(1) v False _ a(2)] nc by auto
    moreover have "insert ?c (X \<union> (\<Union>i\<in>{0..<NINDIRECT}. sub (r, (q @ [j]) @ [i]))) = X \<union> sub ?c"
      unfolding below by auto
    ultimately show ?thesis using c c1 False s1(1) by (auto simp: eq)
  qed
qed (simp add: nil)

lemma frees_ind2: "frees_below free_ind2 2"
  using frees_step [OF frees_ind, of free_ind2] by (simp add: numeral_2_eq_2)

lemma frees_ind3: "frees_below free_ind3 3"
  using frees_step [OF frees_ind2, of free_ind3] by (simp add: numeral_3_eq_3 numeral_2_eq_2)

section \<open>The whole inode\<close>

lemma free_direct_ok:
  assumes "tree_ok s0 ad" "bitmap_blocks s0 \<subseteq> B" "freed s0 ad B X s" "distinct is" "\<forall>i\<in>set is. i < NDIRECT"
    "\<forall>i\<in>set is. ad1 ! i = ad ! i" "\<forall>i\<in>set is. (i, []) \<notin> X" "length ad1 = 13"
  shows "\<exists>s'. free_direct is ad1 s = Inr (map (\<lambda>i. if i \<in> set is then 0 else ad1 ! i) [0..<13], s') \<and>
    freed s0 ad B (X \<union> (\<lambda>i. (i, [])) ` set is) s'"
  using assms(3-)
proof (induction "is" arbitrary: ad1 s X)
  case Nil
  have "map (\<lambda>i. ad1 ! i) [0..<13] = ad1" using Nil.prems(6) by (metis map_nth)
  then show ?case using Nil by simp
next
  case (Cons i "is")
  let ?p = "(i, []) :: path"
  have v: "valid ?p" using Cons.prems(3) by (simp add: valid_def)
  have adi: "ad1 ! i = addr_at s0 ad ?p" using Cons.prems(4) by (simp add: addr_at_root)
  have "\<exists>s1. free_direct (i # is) ad1 s = free_direct is (ad1[i := 0]) s1 \<and> freed s0 ad B (insert ?p X) s1"
  proof (cases "ad1 ! i = 0")
    case True
    then have "ad1[i := 0] = ad1" by (metis list_update_id)
    moreover have "freed s0 ad B (insert ?p X) s"
      by (rule freed_more [OF Cons.prems(1)]) (use True adi in auto)
    ultimately show ?thesis using True by auto
  next
    case False
    then show ?thesis
      using bfree_node [OF Cons.prems(1) assms(1) v _ _ assms(2)] adi Cons.prems(5) by auto
  qed
  then obtain s1 where 1: "free_direct (i # is) ad1 s = free_direct is (ad1[i := 0]) s1"
    "freed s0 ad B (insert ?p X) s1" by blast
  have "\<exists>s'. free_direct is (ad1[i := 0]) s1 =
        Inr (map (\<lambda>k. if k \<in> set is then 0 else ad1[i := 0] ! k) [0..<13], s') \<and>
      freed s0 ad B (insert ?p X \<union> (\<lambda>i. (i, [])) ` set is) s'"
    by (rule Cons.IH [OF 1(2)]) (use Cons.prems in \<open>auto simp: nth_list_update\<close>)
  moreover have "map (\<lambda>k. if k \<in> set is then 0 else ad1[i := 0] ! k) [0..<13] =
      map (\<lambda>k. if k \<in> set (i # is) then 0 else ad1 ! k) [0..<13]"
    using Cons.prems(3,6) by (auto simp: nth_list_update)
  ultimately show ?case using 1(1) by auto
qed

lemma free_slot_ok:
  assumes t: "tree_ok s0 ad" and B: "bitmap_blocks s0 \<subseteq> B" and f: "freed s0 ad B X s"
    and L: "frees_below loop (depth r)" and r: "r < 13" "0 < depth r"
    and ad: "ad1 ! r = ad ! r" and X: "sub (r, []) \<inter> X = {}"
  shows "\<exists>s'. free_slot loop r ad1 s = Inr (ad1[r := 0], s') \<and> freed s0 ad B (X \<union> sub (r, [])) s'"
proof -
  have v: "valid (r, [])" using r by (simp add: valid_def)
  have a: "ad1 ! r = addr_at s0 ad (r, [])" using ad by (simp add: addr_at_root)
  show ?thesis
  proof (cases "addr_at s0 ad (r, []) = 0")
    case True
    have "ad1[r := 0] = ad1" using a True by (metis list_update_id)
    moreover have "freed s0 ad B (X \<union> sub (r, [])) s"
      by (rule freed_more [OF f]) (use True sub_zero in auto)
    ultimately show ?thesis using a True by (simp add: free_slot_def)
  next
    case False
    have below: "sub (r, []) = insert (r, []) (\<Union>i\<in>{0..<NINDIRECT}. sub (r, [] @ [i]))"
      by (rule sub_split [OF v]) (use r in simp)
    have "\<exists>s1. loop (addr_at s0 ad (r, [])) [0..<NINDIRECT] s = Inr s1 \<and>
        freed s0 ad B (X \<union> (\<Union>i\<in>set [0..<NINDIRECT]. sub (r, [] @ [i]))) s1"
    proof (rule L [unfolded frees_below_def, rule_format, OF t B v _ False distinct_upt _ f])
      show "length [] + depth r = depth r" by simp
      show "set [0..<NINDIRECT] \<subseteq> {0..<NINDIRECT}" by simp
      show "sub (r, [] @ [i]) \<inter> X = {}" if "i \<in> set [0..<NINDIRECT]" for i
        using X that unfolding below set_upt by blast
    qed
    then obtain s1 where s1: "loop (addr_at s0 ad (r, [])) [0..<NINDIRECT] s = Inr s1"
      "freed s0 ad B (X \<union> (\<Union>i\<in>{0..<NINDIRECT}. sub (r, [] @ [i]))) s1"
      unfolding set_upt by blast
    have "(r, []) \<notin> X \<union> (\<Union>i\<in>{0..<NINDIRECT}. sub (r, [] @ [i]))"
      using X below by (auto simp: sub_def prefix_of_def)
    then obtain s' where "bfree (addr_at s0 ad (r, [])) s1 = Inr s'"
      "freed s0 ad B (insert (r, []) (X \<union> (\<Union>i\<in>{0..<NINDIRECT}. sub (r, [] @ [i])))) s'"
      using bfree_node [OF s1(2) t v False _ B] by blast
    moreover have "insert (r, []) (X \<union> (\<Union>i\<in>{0..<NINDIRECT}. sub (r, [] @ [i]))) = X \<union> sub (r, [])"
      unfolding below by auto
    ultimately show ?thesis using a False s1(1) by (auto simp: free_slot_def)
  qed
qed

lemma free_tree_ok:
  assumes t: "tree_ok s ad" and lay: "layout_ok s" and lg: "log_covers s B" and B: "bitmap_blocks s \<subseteq> B"
  shows "\<exists>s'. free_tree ad s = Inr (replicate 13 0, s') \<and> freed s ad B {p. valid p} s'"
proof -
  have len: "length ad = 13" using t by (simp add: tree_ok_def)
  have f0: "freed s ad B {} s" using lay lg by (simp add: freed_def)
  let ?X1 = "(\<lambda>i. (i, [])) ` {0..<NDIRECT} :: path set"
  define ad1 where "ad1 = map (\<lambda>i. if i \<in> set [0..<NDIRECT] then 0 else ad ! i) [0..<13]"
  have dj: "sub (r, []) \<inter> sub (r', []) = {}" if "r \<noteq> r'" for r r'
    using that by (auto simp: sub_def prefix_of_def)
  have dj1: "sub (r, []) \<inter> ?X1 = {}" if "NDIRECT \<le> r" for r
    using that by (auto simp: sub_def prefix_of_def)
  obtain s1 where 1: "free_direct [0..<NDIRECT] ad s = Inr (ad1, s1)" "freed s ad B ?X1 s1"
    using free_direct_ok [OF t B f0, of "[0..<NDIRECT]" ad] len by (auto simp: ad1_def)
  have l1: "length ad1 = 13" "ad1 ! 10 = ad ! 10" "ad1 ! 11 = ad ! 11" "ad1 ! 12 = ad ! 12"
    by (simp_all add: ad1_def)
  obtain s2 where 2: "free_slot free_ind 10 ad1 s1 = Inr (ad1[10 := 0], s2)" "freed s ad B (?X1 \<union> sub (10, [])) s2"
    using free_slot_ok [OF t B 1(2), of free_ind 10 ad1] frees_ind dj1 l1 by (auto simp: depth_def)
  obtain s3 where 3: "free_slot free_ind2 11 (ad1[10 := 0]) s2 = Inr (ad1[10 := 0, 11 := 0], s3)"
    "freed s ad B (?X1 \<union> sub (10, []) \<union> sub (11, [])) s3"
    using free_slot_ok [OF t B 2(2), of free_ind2 11 "ad1[10 := 0]"] frees_ind2 dj1 [of 11] dj [of 11 10] l1
    by (auto simp: depth_def)
  obtain s4 where 4: "free_slot free_ind3 12 (ad1[10 := 0, 11 := 0]) s3 = Inr (ad1[10 := 0, 11 := 0, 12 := 0], s4)"
    "freed s ad B (?X1 \<union> sub (10, []) \<union> sub (11, []) \<union> sub (12, [])) s4"
  proof -
    have "sub (12, []) \<inter> (?X1 \<union> sub (10, []) \<union> sub (11, [])) = {}"
      using dj1 [of 12] dj [of 12 10] dj [of 12 11] by (simp add: Int_Un_distrib)
    then show thesis
      using free_slot_ok [OF t B 3(2), of free_ind3 12 "ad1[10 := 0, 11 := 0]"] frees_ind3 l1 that
      by (auto simp: depth_def)
  qed
  have z: "ad1[10 := 0, 11 := 0, 12 := 0] = replicate 13 0"
    by (rule nth_equalityI) (use l1 in \<open>auto simp: nth_list_update ad1_def\<close>)
  have "p \<in> ?X1 \<union> sub (10, []) \<union> sub (11, []) \<union> sub (12, [])" if "valid p" for p
  proof -
    have "fst p < 10 \<or> fst p = 10 \<or> fst p = 11 \<or> fst p = 12" using that by (auto simp: valid_def)
    then show ?thesis using that by (cases p) (auto simp: valid_def sub_def prefix_of_def depth_def)
  qed
  then have "freed s ad B {p. valid p} s4" using freed_more [OF 4(2)] by auto
  moreover have "free_tree ad s = Inr (ad1[10 := 0, 11 := 0, 12 := 0], s4)"
    using 1(1) 2(1) 3(1) 4(1) by (simp add: free_tree_def)
  ultimately show ?thesis using z by auto
qed

end
