(* ===== verification/Fs_Rw.thy ===== *)
theory Fs_Rw
  imports Fs_Trunc
begin

text \<open>
  Reading and writing the contents of an inode: the parts of \<open>readi\<close> and \<open>writei\<close> of
  Project03-FileSystem/fs.c that follow the resolution of symbolic links (see \<open>Fs_Path\<close>
  for that part), and what they do to the file seen as a function from offsets to bytes.
\<close>

section \<open>Model\<close>

definition bmap_ip :: "nat \<Rightarrow> nat \<Rightarrow> fs \<Rightarrow> (nat \<times> fs) res" where
  "bmap_ip k bn s = bindR (bmap (i_addrs (icache s ! k)) bn s) (\<lambda>(a, ad, s1).
     Inr (a, upd_ip k (\<lambda>ip. ip\<lparr>i_addrs := ad\<rparr>) s1))"

text \<open>The copy loops; \<open>n\<close> and the length of \<open>src\<close> are what is left to do.\<close>

function read_loop :: "nat \<Rightarrow> nat \<Rightarrow> nat \<Rightarrow> fs \<Rightarrow> (byte list \<times> fs) res" where
  "read_loop k off n s =
     (if n = 0 then Inr ([], s)
      else bindR (bmap_ip k (off div BSIZE) s) (\<lambda>(a, s1).
           let m = min n (BSIZE - off mod BSIZE) in
           bindR (read_loop k (off + m) (n - m) s1) (\<lambda>(rest, s2).
             Inr (get_bytes (blocks s1 a) (off mod BSIZE) m @ rest, s2))))"
  by pat_completeness auto

termination
  by (relation "measure (\<lambda>(k, off, n, s). n)") auto

declare read_loop.simps [simp del]

function write_loop :: "nat \<Rightarrow> byte list \<Rightarrow> nat \<Rightarrow> fs \<Rightarrow> (nat \<times> fs) res" where
  "write_loop k src off s =
     (if src = [] then Inr (off, s)
      else bindR (bmap_ip k (off div BSIZE) s) (\<lambda>(a, s1).
           let m = min (length src) (BSIZE - off mod BSIZE) in
           bindR (log_write a (put_bytes (blocks s1 a) (off mod BSIZE) (take m src)) s1) (\<lambda>s2.
             write_loop k (drop m src) (off + m) s2)))"
  by pat_completeness auto

termination
  by (relation "measure (\<lambda>(k, src, off, s). length src)") auto

declare write_loop.simps [simp del]

text \<open>The outcome of a transfer: the value returned and, for \<open>readi\<close>, the bytes stored.\<close>

definition readi_data :: "nat \<Rightarrow> nat \<Rightarrow> nat \<Rightarrow> fs \<Rightarrow> (int \<times> byte list \<times> fs) res" where
  "readi_data k off n s =
     (let ip = icache s ! k in
      if off > i_size ip \<or> wrap32 (off + n) < off then Inr (-1, [], s)
      else let n' = (if wrap32 (off + n) > i_size ip then i_size ip - off else n)
           in bindR (read_loop k off n' s) (\<lambda>(bs, s1). Inr (int n', bs, s1)))"

definition writei_data :: "nat \<Rightarrow> byte list \<Rightarrow> nat \<Rightarrow> fs \<Rightarrow> (int \<times> fs) res" where
  "writei_data k src off s =
     (let ip = icache s ! k; n = length src in
      if off > i_size ip \<or> wrap32 (off + n) < off then Inr (-1, s)
      else if wrap32 (off + n) > MAXFILE * BSIZE then Inr (-1, s)
      else bindR (write_loop k src off s) (\<lambda>(off', s1).
           if n > 0 \<and> off' > i_size (icache s1 ! k)
           then bindR (iupdate k (upd_ip k (\<lambda>ip. ip\<lparr>i_size := off'\<rparr>) s1)) (\<lambda>s2. Inr (int n, s2))
           else Inr (int n, s1)))"

text \<open>The drivers: the console's, the only one, releases the inode's lock while it works.\<close>

definition dev_of :: "nat \<Rightarrow> fs \<Rightarrow> device option" where
  "dev_of k s = (let m = i_major (icache s ! k) in if m < 0 \<or> m \<ge> 10 then None else devsw s (nat m))"

definition consoleread :: "device \<Rightarrow> nat \<Rightarrow> nat \<Rightarrow> fs \<Rightarrow> (int \<times> byte list \<times> fs) res" where
  "consoleread d k n s =
     bindR (iunlock k s) (\<lambda>s1. bindR (ilock k s1) (\<lambda>s2. Inr (fst (d_read d n), snd (d_read d n), s2)))"

definition consolewrite :: "device \<Rightarrow> nat \<Rightarrow> byte list \<Rightarrow> fs \<Rightarrow> (int \<times> fs) res" where
  "consolewrite d k src s = bindR (iunlock k s) (\<lambda>s1. bindR (ilock k s1) (\<lambda>s2. Inr (d_write d src, s2)))"

definition readi_file :: "nat \<Rightarrow> nat \<Rightarrow> nat \<Rightarrow> fs \<Rightarrow> (int \<times> byte list \<times> fs) res" where
  "readi_file k off n s =
     (if i_type (icache s ! k) = T_DEV
      then (case dev_of k s of None \<Rightarrow> Inr (-1, [], s) | Some d \<Rightarrow> consoleread d k n s)
      else readi_data k off n s)"

definition writei_file :: "nat \<Rightarrow> byte list \<Rightarrow> nat \<Rightarrow> fs \<Rightarrow> (int \<times> fs) res" where
  "writei_file k src off s =
     (if i_type (icache s ! k) = T_DEV
      then (case dev_of k s of None \<Rightarrow> Inr (-1, s) | Some d \<Rightarrow> consolewrite d k src s)
      else writei_data k src off s)"

section \<open>What does not depend on the inode cache\<close>

lemma upd_ip_simps [simp]:
  "blocks (upd_ip k f s) = blocks s" "logged (upd_ip k f s) = logged s" "sb (upd_ip k f s) = sb s"
  "outstanding (upd_ip k f s) = outstanding s" "log_size (upd_ip k f s) = log_size s"
  "cwd (upd_ip k f s) = cwd s" "devsw (upd_ip k f s) = devsw s"
  "icache (upd_ip k f s) = (icache s)[k := f (icache s ! k)]"
  by (simp_all add: upd_ip_def)

lemma upd_ip_preds [simp]:
  "BBLOCK b (upd_ip k f s) = BBLOCK b s" "IBLOCK i (upd_ip k f s) = IBLOCK i s"
  "meta (upd_ip k f s) = meta s" "bitmap_blocks (upd_ip k f s) = bitmap_blocks s"
  "is_free (upd_ip k f s) a = is_free s a" "layout_ok (upd_ip k f s) = layout_ok s"
  "log_room (upd_ip k f s) c = log_room s c" "log_covers (upd_ip k f s) B = log_covers s B"
  "nfree (upd_ip k f s) = nfree s" "addr_at (upd_ip k f s) ad p = addr_at s ad p"
  "block_of (upd_ip k f s) ad bn = block_of s ad bn" "interior (upd_ip k f s) ad = interior s ad"
proof -
  show b: "BBLOCK b (upd_ip k f s) = BBLOCK b s" "IBLOCK i (upd_ip k f s) = IBLOCK i s" for b i
    by (simp_all add: BBLOCK_def IBLOCK_def)
  show m: "meta (upd_ip k f s) = meta s" by (simp add: meta_def b)
  show "bitmap_blocks (upd_ip k f s) = bitmap_blocks s" by (simp add: bitmap_blocks_def b)
  show f: "is_free (upd_ip k f s) a = is_free s a" for a by (simp add: is_free_def b)
  show "layout_ok (upd_ip k f s) = layout_ok s" by (simp add: layout_ok_def m f b)
  show "log_room (upd_ip k f s) c = log_room s c" "log_covers (upd_ip k f s) B = log_covers s B"
    by (simp_all add: log_room_def log_covers_def log_cap_def)
  show "nfree (upd_ip k f s) = nfree s" by (simp add: nfree_def f)
  show a: "addr_at (upd_ip k f s) ad p = addr_at s ad p" for ad p by (simp add: addr_at_def)
  then show "block_of (upd_ip k f s) ad bn = block_of s ad bn" by (simp add: block_of_def)
  show "interior (upd_ip k f s) ad = interior s ad" by (simp add: interior_def a)
qed

lemma upd_ip_tree [simp]: "tree_ok (upd_ip k f s) ad = tree_ok s ad"
  by (simp add: tree_ok_def)

section \<open>Files as functions from offsets to bytes\<close>

definition file_byte :: "fs \<Rightarrow> nat list \<Rightarrow> nat \<Rightarrow> byte" where
  "file_byte s ad j = (let a = block_of s ad (j div BSIZE) in if a = 0 then 0 else blocks s a (j mod BSIZE))"

lemma file_byte_upd [simp]: "file_byte (upd_ip k f s) ad j = file_byte s ad j"
  by (simp add: file_byte_def Let_def)

definition tree_set :: "fs \<Rightarrow> nat list \<Rightarrow> nat set" where
  "tree_set s ad = {addr_at s ad p |p. valid p \<and> addr_at s ad p \<noteq> 0}"

lemma div_less_MAXFILE: "j < MAXFILE * BSIZE \<Longrightarrow> j div BSIZE < MAXFILE"
  by (simp add: less_mult_imp_div_less)

text \<open>A mapped block is found without touching anything.\<close>

lemma alloc_walk_mapped:
  "walk (blocks s) a is \<noteq> 0 \<Longrightarrow> alloc_walk a is s = Inr (walk (blocks s) a is, s)"
proof (induction "is" arbitrary: a)
  case (Cons i "is")
  then have "a \<noteq> 0" by (auto split: if_splits)
  then have w: "walk (blocks s) (rdw (blocks s a) i) is \<noteq> 0" using Cons.prems by simp
  then have "rdw (blocks s a) i \<noteq> 0" by (cases "is") (auto split: if_splits)
  then show ?case using Cons.IH [OF w] \<open>a \<noteq> 0\<close> by (simp add: ind_slot_def)
qed simp

lemma bmap_mapped:
  assumes "bn < MAXFILE" "block_of s ad bn \<noteq> 0"
  shows "bmap ad bn s = Inr (block_of s ad bn, ad, s)"
proof -
  obtain r ps where p: "path_of bn = (r, ps)" by force
  have w: "walk (blocks s) (ad ! r) ps \<noteq> 0" using assms(2) p by (simp add: block_of_def addr_at_def)
  then have "ad ! r \<noteq> 0" by (cases ps) (auto split: if_splits)
  then show ?thesis
    using bmap_path [OF assms(1)] p alloc_walk_mapped [OF w]
    by (simp add: root_slot_def block_of_def addr_at_def)
qed

lemma upd_ip_same: "k < length (icache s) \<Longrightarrow> f (icache s ! k) = icache s ! k \<Longrightarrow> upd_ip k f s = s"
  by (simp add: upd_ip_def)

lemma bmap_ip_mapped:
  assumes "bn < MAXFILE" "block_of s (i_addrs (icache s ! k)) bn \<noteq> 0" "k < length (icache s)"
  shows "bmap_ip k bn s = Inr (block_of s (i_addrs (icache s ! k)) bn, s)"
  using bmap_mapped [OF assms(1,2)] assms(3) by (simp add: bmap_ip_def upd_ip_same)

text \<open>\<open>m\<close> bytes from \<open>off\<close> stay in one block.\<close>

lemma same_blk:
  assumes "off \<le> j" "j < off + m" "m \<le> BSIZE - off mod BSIZE"
  shows "j div BSIZE = off div BSIZE" "j mod BSIZE = off mod BSIZE + (j - off)"
proof -
  have e: "j = BSIZE * (off div BSIZE) + (off mod BSIZE + (j - off))"
    using assms(1) mult_div_mod_eq [of BSIZE off] by linarith
  have l: "off mod BSIZE + (j - off) < BSIZE" using assms by auto
  show "j div BSIZE = off div BSIZE" using e l
    by (metis div_mult_self4 div_less add.commute add_0 mult.commute zero_neq_numeral)
  then show "j mod BSIZE = off mod BSIZE + (j - off)" using e
    by (metis add_left_cancel mult_div_mod_eq)
qed

lemma read_loop_mapped:
  assumes "\<forall>j. off \<le> j \<and> j < off + n \<longrightarrow> block_of s (i_addrs (icache s ! k)) (j div BSIZE) \<noteq> 0"
    and "k < length (icache s)" "off + n \<le> MAXFILE * BSIZE"
  shows "read_loop k off n s = Inr (map (file_byte s (i_addrs (icache s ! k))) [off..<off + n], s)"
  using assms(1,3)
proof (induction n arbitrary: off rule: less_induct)
  case (less n)
  let ?ad = "i_addrs (icache s ! k)"
  show ?case
  proof (cases "n = 0")
    case True
    then show ?thesis by (simp add: read_loop.simps)
  next
    case False
    define m where "m = min n (BSIZE - off mod BSIZE)"
    have m: "0 < m" "m \<le> n" "m \<le> BSIZE - off mod BSIZE" using False by (auto simp: m_def)
    let ?a = "block_of s ?ad (off div BSIZE)"
    have a: "?a \<noteq> 0" using less.prems(1) False by auto
    have b: "bmap_ip k (off div BSIZE) s = Inr (?a, s)"
      by (rule bmap_ip_mapped [OF div_less_MAXFILE a assms(2)]) (use less.prems(2) False in simp)
    have "read_loop k (off + m) (n - m) s = Inr (map (file_byte s ?ad) [off + m..<off + m + (n - m)], s)"
      by (rule less.IH) (use m less.prems False in auto)
    then have "read_loop k off n s =
        Inr (get_bytes (blocks s ?a) (off mod BSIZE) m @ map (file_byte s ?ad) [off + m..<off + n], s)"
      using False b m(2) by (subst read_loop.simps) (simp add: m_def [symmetric] Let_def)
    moreover have "get_bytes (blocks s ?a) (off mod BSIZE) m = map (file_byte s ?ad) [off..<off + m]"
    proof (rule nth_equalityI)
      fix i assume "i < length (get_bytes (blocks s ?a) (off mod BSIZE) m)"
      then have i: "i < m" by simp
      have "(off + i) div BSIZE = off div BSIZE" "(off + i) mod BSIZE = off mod BSIZE + i"
        using same_blk [of off "off + i" m] i m(3) by simp_all
      then show "get_bytes (blocks s ?a) (off mod BSIZE) m ! i = map (file_byte s ?ad) [off..<off + m] ! i"
        using i a by (simp add: file_byte_def Let_def)
    qed simp
    moreover have "[off..<off + n] = [off..<off + m] @ [off + m..<off + n]"
      using upt_add_eq_append [of off "off + m" "n - m"] m by simp
    ultimately show ?thesis by simp
  qed
qed

section \<open>Writing\<close>

lemma addr_at_cong:
  assumes "\<And>x. x \<in> interior s ad \<Longrightarrow> blocks s' x = blocks s x" "valid p"
  shows "addr_at s' ad p = addr_at s ad p"
proof -
  have "addr_at s' ad (r, is) = addr_at s ad (r, is)" if "valid (r, is)" for r "is"
    using that
  proof (induction "is" rule: rev_induct)
    case Nil
    then show ?case by (simp add: addr_at_root)
  next
    case (snoc j js)
    have "valid (r, js)" "length js < depth r" using snoc.prems by (auto simp: valid_def)
    then have "addr_at s ad (r, js) \<noteq> 0 \<longrightarrow> addr_at s ad (r, js) \<in> interior s ad" by (force simp: interior_def)
    then show ?case using snoc.IH [OF valid_snoc [OF snoc.prems]] assms(1) by (simp add: addr_at_snoc)
  qed
  then show ?thesis using assms(2) by (cases p) simp
qed

lemma tree_ok_cong:
  assumes "tree_ok s ad" "\<And>x. x \<in> interior s ad \<Longrightarrow> blocks s' x = blocks s x"
    and "sb s' = sb s" "meta s' = meta s" "\<And>j. j < sb_size (sb s) \<Longrightarrow> is_free s' j = is_free s j"
  shows "tree_ok s' ad"
  using assms(1) addr_at_cong [OF assms(2)] assms(3-5) unfolding tree_ok_def by metis

lemma nfree_cong:
  assumes "sb s' = sb s" "\<And>j. j < sb_size (sb s) \<Longrightarrow> is_free s' j = is_free s j"
  shows "nfree s' = nfree s"
proof -
  have "{a. a < sb_size (sb s') \<and> is_free s' a} = {a. a < sb_size (sb s) \<and> is_free s a}"
    using assms by auto
  then show ?thesis by (simp add: nfree_def)
qed

lemma write_data:
  fixes d :: blk
  assumes t: "tree_ok s ad" and lay: "layout_ok s" and m: "bn < MAXFILE" "block_of s ad bn \<noteq> 0"
  defines "s' \<equiv> logd (block_of s ad bn) d s"
  shows "tree_ok s' ad" "layout_ok s'" "n < MAXFILE \<Longrightarrow> block_of s' ad n = block_of s ad n"
    "j < sb_size (sb s) \<Longrightarrow> is_free s' j = is_free s j" "nfree s' = nfree s" "tree_set s' ad = tree_set s ad"
proof -
  have v: "valid (path_of bn)" using path_of_valid [OF m(1)] by simp
  have a: "block_of s ad bn \<notin> meta s" using tree_okD(2) [OF t v] m(2) by (simp add: block_of_def)
  have nb: "block_of s ad bn \<notin> (\<lambda>a. BBLOCK a s) ` {..< sb_size (sb s)}"
    using bitmap_meta [OF a] by (simp add: bitmap_blocks_def)
  have ni: "blocks s' x = blocks s x" if "x \<in> interior s ad" for x
    using that data_not_interior [OF t m] by (auto simp: s'_def)
  have f: "is_free s' j = is_free s j" if "j < sb_size (sb s)" for j
    unfolding s'_def by (rule is_free_logd [OF lay that nb])
  have sb: "sb s' = sb s" "meta s' = meta s"
    using frameD(1) [OF frame_logd] meta_frame [OF frame_logd] by (simp_all add: s'_def)
  show "tree_ok s' ad" by (rule tree_ok_cong [OF t ni sb f])
  show "layout_ok s'" unfolding s'_def by (rule layout_ok_logd [OF lay nb])
  show "j < sb_size (sb s) \<Longrightarrow> is_free s' j = is_free s j" by (rule f)
  show "nfree s' = nfree s" by (rule nfree_cong [OF sb(1) f])
  show "n < MAXFILE \<Longrightarrow> block_of s' ad n = block_of s ad n"
    using addr_at_cong [OF ni] path_of_valid by (simp add: block_of_def)
  show "tree_set s' ad = tree_set s ad"
    unfolding tree_set_def using addr_at_cong [OF ni] by (metis (no_types, lifting))
qed

text \<open>\<open>bmap\<close> does not change the contents of the file: a missing block reads as zeros.\<close>

lemma grown_file_byte:
  assumes g: "grown s ad (path_of bn) s' ad'" and bn: "bn < MAXFILE" and t: "tree_ok s ad"
    and j: "j < MAXFILE * BSIZE"
  shows "file_byte s' ad' j = file_byte s ad j"
proof -
  have m: "j div BSIZE < MAXFILE" by (rule div_less_MAXFILE [OF j])
  show ?thesis
  proof (cases "block_of s ad (j div BSIZE) = 0")
    case False
    then show ?thesis using grown_data [OF g bn t m False] by (simp add: file_byte_def Let_def)
  next
    case True
    show ?thesis
    proof (cases "j div BSIZE = bn")
      case True
      then show ?thesis using \<open>block_of s ad (j div BSIZE) = 0\<close> grown_blocks(1,4) [OF g bn]
        by (simp add: file_byte_def Let_def zero_blk_def)
    next
      case False
      then show ?thesis using True grown_blocks(2) [OF g bn m] by (simp add: file_byte_def Let_def)
    qed
  qed
qed

text \<open>One block of the write loop.\<close>

lemma write_block_bytes:
  assumes t: "tree_ok s ad" and lay: "layout_ok s" and off: "off < MAXFILE * BSIZE"
    and a: "block_of s ad (off div BSIZE) \<noteq> 0" and m: "length src \<le> BSIZE - off mod BSIZE"
    and j: "j < MAXFILE * BSIZE"
  defines "s' \<equiv> logd (block_of s ad (off div BSIZE)) (put_bytes (blocks s (block_of s ad (off div BSIZE))) (off mod BSIZE) src) s"
  shows "file_byte s' ad j = (if off \<le> j \<and> j < off + length src then src ! (j - off) else file_byte s ad j)"
proof -
  let ?a = "block_of s ad (off div BSIZE)"
  have bn: "off div BSIZE < MAXFILE" by (rule div_less_MAXFILE [OF off])
  have jn: "j div BSIZE < MAXFILE" by (rule div_less_MAXFILE [OF j])
  have same: "block_of s' ad (j div BSIZE) = block_of s ad (j div BSIZE)"
    unfolding s'_def by (rule write_data(3) [OF t lay bn a jn])
  have b: "blocks s' = (blocks s)(?a := put_bytes (blocks s ?a) (off mod BSIZE) src)"
    by (simp add: s'_def)
  show ?thesis
  proof (cases "off \<le> j \<and> j < off + length src")
    case True
    then have e: "j div BSIZE = off div BSIZE" "j mod BSIZE = off mod BSIZE + (j - off)"
      using same_blk [of off j "length src"] m by auto
    have "file_byte s' ad j = put_bytes (blocks s ?a) (off mod BSIZE) src (off mod BSIZE + (j - off))"
      using same a by (simp add: file_byte_def Let_def b e)
    also have "\<dots> = src ! (j - off)" using True by (subst put_bytes_in) auto
    finally show ?thesis using True by simp
  next
    case False
    show ?thesis
    proof (cases "block_of s ad (j div BSIZE) = ?a")
      case True
      then have "path_of (j div BSIZE) = path_of (off div BSIZE)"
        using tree_okD(4) [OF t _ _ _, of "path_of (off div BSIZE)" "path_of (j div BSIZE)"] a
          path_of_valid [OF bn] path_of_valid [OF jn] by (simp add: block_of_def)
      then have e: "j div BSIZE = off div BSIZE" by (rule path_of_inj)
      have "j mod BSIZE < off mod BSIZE \<or> off mod BSIZE + length src \<le> j mod BSIZE"
      proof (rule ccontr)
        assume c: "\<not> ?thesis"
        have "j = BSIZE * (off div BSIZE) + j mod BSIZE" using e by (metis mult_div_mod_eq)
        moreover have "off = BSIZE * (off div BSIZE) + off mod BSIZE" by simp
        ultimately show False using c False by linarith
      qed
      then have "put_bytes (blocks s ?a) (off mod BSIZE) src (j mod BSIZE) = blocks s ?a (j mod BSIZE)"
        by (rule put_bytes_out)
      then show ?thesis unfolding if_not_P [OF False] using same True b by (simp add: file_byte_def Let_def)
    next
      case ne: False
      then show ?thesis unfolding if_not_P [OF False] using same b by (simp add: file_byte_def Let_def)
    qed
  qed
qed

definition nblks :: "nat \<Rightarrow> nat \<Rightarrow> nat" where
  "nblks off n = (if n = 0 then 0 else (off + n - 1) div BSIZE - off div BSIZE + 1)"

lemma nblks_step:
  assumes "0 < n" "m = min n (BSIZE - off mod BSIZE)"
  shows "Suc (nblks (off + m) (n - m)) \<le> nblks off n"
proof (cases "n - m = 0")
  case True
  then show ?thesis using assms(1) by (simp add: nblks_def)
next
  case False
  then have m: "m = BSIZE - off mod BSIZE" "m < n" using assms(2) by auto
  have "off = BSIZE * (off div BSIZE) + off mod BSIZE" "off mod BSIZE < BSIZE" by simp_all
  then have "off + m = BSIZE * Suc (off div BSIZE)" using m(1) unfolding mult_Suc_right by linarith
  then have d: "(off + m) div BSIZE = Suc (off div BSIZE)" by simp
  have "(off + m) div BSIZE \<le> (off + n - 1) div BSIZE" by (rule div_le_mono) (use m(2) in simp)
  then show ?thesis using False assms(1) m(2) d by (simp add: nblks_def) arith
qed

text \<open>What the write loop leaves, for the file and for everything else.\<close>

definition wrote :: "fs \<Rightarrow> nat list \<Rightarrow> nat \<Rightarrow> byte list \<Rightarrow> fs \<Rightarrow> nat list \<Rightarrow> bool" where
  "wrote s ad off src s' ad' \<longleftrightarrow> tree_ok s' ad' \<and> layout_ok s' \<and> sb s' = sb s \<and>
     (\<forall>j<MAXFILE * BSIZE. file_byte s' ad' j =
        (if off \<le> j \<and> j < off + length src then src ! (j - off) else file_byte s ad j)) \<and>
     (\<forall>x< sb_size (sb s). \<not> is_free s x \<and> x \<notin> bitmap_blocks s \<and> x \<notin> tree_set s ad \<longrightarrow>
        blocks s' x = blocks s x) \<and>
     (\<forall>x< sb_size (sb s). is_free s' x \<longrightarrow> is_free s x) \<and>
     (\<forall>a\<in>tree_set s' ad'. a \<in> tree_set s ad \<or> is_free s a) \<and>
     (\<forall>bn<MAXFILE. block_of s ad bn \<noteq> 0 \<longrightarrow> block_of s' ad' bn = block_of s ad bn) \<and>
     (\<forall>j<MAXFILE * BSIZE. off \<le> j \<and> j < off + length src \<longrightarrow> block_of s' ad' (j div BSIZE) \<noteq> 0)"

lemma wrote_refl: "tree_ok s ad \<Longrightarrow> layout_ok s \<Longrightarrow> wrote s ad off [] s ad"
  by (auto simp: wrote_def)

lemma wrote_trans:
  assumes w1: "wrote s ad off xs s1 ad1" and w2: "wrote s1 ad1 (off + length xs) ys s' ad'"
    and t: "tree_ok s ad"
  shows "wrote s ad off (xs @ ys) s' ad'"
proof -
  have sb: "sb s1 = sb s" "bitmap_blocks s1 = bitmap_blocks s" "sb s' = sb s"
    using w1 w2 by (auto simp: wrote_def bitmap_blocks_def BBLOCK_def)
  have bytes: "file_byte s' ad' j =
      (if off \<le> j \<and> j < off + length (xs @ ys) then (xs @ ys) ! (j - off) else file_byte s ad j)"
    if "j < MAXFILE * BSIZE" for j
  proof -
    have 1: "file_byte s1 ad1 j = (if off \<le> j \<and> j < off + length xs then xs ! (j - off) else file_byte s ad j)"
      and 2: "file_byte s' ad' j = (if off + length xs \<le> j \<and> j < off + length xs + length ys
        then ys ! (j - (off + length xs)) else file_byte s1 ad1 j)"
      using w1 w2 that by (auto simp: wrote_def)
    show ?thesis unfolding 1 2 by (auto simp: nth_append)
  qed
  have in_tree: "x \<in> tree_set s ad" if "x \<in> tree_set s1 ad1" "\<not> is_free s x" for x
    using w1 that by (auto simp: wrote_def)
  have free1: "is_free s x" if "is_free s1 x" "x < sb_size (sb s)" for x
    using w1 that by (auto simp: wrote_def)
  have keep: "blocks s' x = blocks s x"
    if "x < sb_size (sb s)" "\<not> is_free s x" "x \<notin> bitmap_blocks s" "x \<notin> tree_set s ad" for x
  proof -
    have "blocks s1 x = blocks s x" using w1 that by (auto simp: wrote_def)
    moreover have "blocks s' x = blocks s1 x"
      using w2 that in_tree free1 sb by (auto simp: wrote_def)
    ultimately show ?thesis by simp
  qed
  have new: "a \<in> tree_set s ad \<or> is_free s a" if "a \<in> tree_set s' ad'" for a
  proof -
    have "a \<in> tree_set s1 ad1 \<or> is_free s1 a" using w2 that by (auto simp: wrote_def)
    moreover have "a < sb_size (sb s)"
      using that w2 sb tree_okD(1) [of s' ad'] by (auto simp: wrote_def tree_set_def)
    ultimately show ?thesis using w1 free1 by (auto simp: wrote_def)
  qed
  have "is_free s x" if "x < sb_size (sb s)" "is_free s' x" for x
    using w1 w2 that sb by (auto simp: wrote_def)
  moreover have "block_of s' ad' (j div BSIZE) \<noteq> 0"
    if "j < MAXFILE * BSIZE" "off \<le> j" "j < off + length (xs @ ys)" for j
  proof (cases "j < off + length xs")
    case True
    then have "block_of s1 ad1 (j div BSIZE) \<noteq> 0" using w1 that by (simp add: wrote_def)
    then show ?thesis using w2 div_less_MAXFILE [OF that(1)] by (simp add: wrote_def)
  next
    case False
    then show ?thesis using w2 that by (simp add: wrote_def)
  qed
  moreover have "block_of s' ad' bn = block_of s ad bn" if "bn < MAXFILE" "block_of s ad bn \<noteq> 0" for bn
    using w1 w2 that by (simp add: wrote_def)
  ultimately show ?thesis using w2 sb bytes keep new by (auto simp: wrote_def)
qed

lemma interior_tree: "x \<in> interior s ad \<Longrightarrow> x \<in> tree_set s ad"
  by (auto simp: interior_def tree_set_def)

lemma grown_wrote:
  assumes g: "grown s ad (path_of bn) s' ad'" and bn: "bn < MAXFILE" and t: "tree_ok s ad"
  shows "wrote s ad off [] s' ad'"
proof -
  note D = grownD [OF g]
  have sb: "sb s' = sb s" by (rule frameD(1) [OF D(3)])
  have "blocks s' x = blocks s x"
    if "x < sb_size (sb s)" "\<not> is_free s x" "x \<notin> bitmap_blocks s" "x \<notin> tree_set s ad" for x
    using D(12) that interior_tree by blast
  moreover have "a \<in> tree_set s ad \<or> is_free s a" if "a \<in> tree_set s' ad'" for a
    using D(7) that by (auto simp: tree_set_def) (metis prod.exhaust)
  moreover have "file_byte s' ad' j = file_byte s ad j" if "j < MAXFILE * BSIZE" for j
    by (rule grown_file_byte [OF g bn t that])
  moreover have "block_of s' ad' m = block_of s ad m" if "m < MAXFILE" "block_of s ad m \<noteq> 0" for m
    using D(5) [of "path_of m"] path_of_valid [OF that(1)] that(2) by (simp add: block_of_def)
  ultimately show ?thesis using D(1,2,10) sb by (auto simp: wrote_def)
qed

lemma data_in_tree: "bn < MAXFILE \<Longrightarrow> block_of s ad bn \<noteq> 0 \<Longrightarrow> block_of s ad bn \<in> tree_set s ad"
  using path_of_valid unfolding tree_set_def block_of_def mem_Collect_eq by blast

lemma write_wrote:
  assumes t: "tree_ok s ad" and lay: "layout_ok s" and off: "off < MAXFILE * BSIZE"
    and a: "block_of s ad (off div BSIZE) \<noteq> 0" and m: "length src \<le> BSIZE - off mod BSIZE"
  defines "s' \<equiv> logd (block_of s ad (off div BSIZE)) (put_bytes (blocks s (block_of s ad (off div BSIZE))) (off mod BSIZE) src) s"
  shows "wrote s ad off src s' ad"
proof -
  have bn: "off div BSIZE < MAXFILE" by (rule div_less_MAXFILE [OF off])
  note W = write_data [OF t lay bn a, where d = "put_bytes (blocks s (block_of s ad (off div BSIZE))) (off mod BSIZE) src", folded s'_def]
  have "sb s' = sb s" using frameD(1) [OF frame_logd] by (simp add: s'_def)
  moreover have "blocks s' x = blocks s x" if "x \<notin> tree_set s ad" for x
    using data_in_tree [OF bn a] that by (auto simp: s'_def)
  moreover have "block_of s ad (j div BSIZE) \<noteq> 0" if "off \<le> j" "j < off + length src" for j
    using same_blk(1) [OF that m] a by simp
  ultimately show ?thesis
    using W write_block_bytes [OF t lay off a m] unfolding s'_def [symmetric] by (auto simp: wrote_def)
qed

lemma wrote_upd_ip [simp]: "wrote s ad off src (upd_ip k f s') ad' = wrote s ad off src s' ad'"
  "wrote (upd_ip k f s) ad off src s' ad' = wrote s ad off src s' ad'"
proof -
  have "tree_set (upd_ip k f s) ad = tree_set s ad" for s ad by (simp add: tree_set_def)
  then show "wrote s ad off src (upd_ip k f s') ad' = wrote s ad off src s' ad'"
    "wrote (upd_ip k f s) ad off src s' ad' = wrote s ad off src s' ad'"
    by (simp_all add: wrote_def)
qed

lemma write_loop_ok:
  assumes "tree_ok s (i_addrs (icache s ! k))" "layout_ok s" "k < length (icache s)"
    and "off + length src \<le> MAXFILE * BSIZE"
    and "log_room s (c + 12 * nblks off (length src))" "4 * nblks off (length src) \<le> nfree s"
  shows "\<exists>s' ad'. write_loop k src off s = Inr (off + length src, s') \<and>
    wrote s (i_addrs (icache s ! k)) off src s' ad' \<and> log_room s' c \<and>
    icache s' = (icache s)[k := (icache s ! k)\<lparr>i_addrs := ad'\<rparr>]"
  using assms
proof (induction src arbitrary: off s rule: length_induct)
  case (1 src)
  let ?ad = "i_addrs (icache s ! k)"
  note pre = "1.prems"
  show ?case
  proof (cases "src = []")
    case True
    then show ?thesis using wrote_refl [OF pre(1,2)] log_room_mono [OF pre(5)] pre(3)
      by (intro exI [of _ s] exI [of _ ?ad]) (simp add: write_loop.simps)
  next
    case False
    let ?n = "length src"
    define m where "m = min ?n (BSIZE - off mod BSIZE)"
    have m: "0 < m" "m \<le> ?n" "m \<le> BSIZE - off mod BSIZE" using False by (auto simp: m_def)
    have nb: "Suc (nblks (off + m) (?n - m)) \<le> nblks off ?n"
      by (rule nblks_step) (use False in \<open>auto simp: m_def\<close>)
    have off: "off < MAXFILE * BSIZE" using pre(4) False by (cases src) auto
    have bn: "off div BSIZE < MAXFILE" by (rule div_less_MAXFILE [OF off])
    let ?c = "c + 12 * nblks (off + m) (?n - m)"
    have "log_room s (Suc ?c + 11)" by (rule log_room_mono [OF pre(5)]) (use nb in linarith)
    moreover have "4 \<le> nfree s" using pre(6) nb by linarith
    ultimately obtain s1 ad1 a where
      b: "bmap ?ad (off div BSIZE) s = Inr (a, ad1, s1)" "a = block_of s1 ad1 (off div BSIZE)"
      "grown s ?ad (path_of (off div BSIZE)) s1 ad1" "log_room s1 (Suc ?c)" "nfree s1 \<ge> nfree s - 4"
      using bmap_ok [OF pre(1,2) bn] by blast
    note D = grownD [OF b(3)]
    define s2 where "s2 = upd_ip k (\<lambda>ip. ip\<lparr>i_addrs := ad1\<rparr>) s1"
    have ic: "icache s2 = (icache s)[k := (icache s ! k)\<lparr>i_addrs := ad1\<rparr>]"
      using frameD(2) [OF D(3)] by (simp add: s2_def)
    have a: "block_of s2 ad1 (off div BSIZE) \<noteq> 0" "a = block_of s2 ad1 (off div BSIZE)"
      using grown_blocks(1) [OF b(3) bn] b(2) by (simp_all add: s2_def)
    define s3 where "s3 = logd a (put_bytes (blocks s2 a) (off mod BSIZE) (take m src)) s2"
    have t2: "tree_ok s2 ad1" "layout_ok s2" using D(1,2) by (simp_all add: s2_def)
    have room2: "log_room s2 (Suc ?c)" using b(4) by (simp add: s2_def)
    note w = log_write_ok [OF room2, of a "put_bytes (blocks s2 a) (off mod BSIZE) (take m src)", folded s3_def]
    have w1: "wrote s ?ad off [] s2 ad1" using grown_wrote [OF b(3) bn pre(1)] by (simp add: s2_def)
    have w2: "wrote s2 ad1 (off + length ([] :: byte list)) (take m src) s3 ad1"
      using write_wrote [OF t2 off a(1), of "take m src"] m by (simp add: s3_def a(2))
    have w12: "wrote s ?ad off (take m src) s3 ad1" using wrote_trans [OF w1 w2 pre(1)] by simp
    have ic3: "icache s3 = icache s2" using frameD(2) [OF frame_logd] by (simp add: s3_def)
    have ad3: "i_addrs (icache s3 ! k) = ad1" using ic ic3 pre(3) by simp
    have t3: "tree_ok s3 ad1" "layout_ok s3" using w2 by (auto simp: wrote_def)
    have nf: "nfree s3 = nfree s1"
      using write_data(5) [OF t2 bn a(1)] by (simp add: s3_def a(2) s2_def)
    have "\<exists>s' ad'. write_loop k (drop m src) (off + m) s3 = Inr (off + m + length (drop m src), s') \<and>
      wrote s3 (i_addrs (icache s3 ! k)) (off + m) (drop m src) s' ad' \<and> log_room s' c \<and>
      icache s' = (icache s3)[k := (icache s3 ! k)\<lparr>i_addrs := ad'\<rparr>]"
    proof (rule "1.IH" [rule_format])
      show "length (drop m src) < length src" using m by simp
      show "tree_ok s3 (i_addrs (icache s3 ! k))" "layout_ok s3" using t3 ad3 by simp_all
      show "k < length (icache s3)" using pre(3) ic ic3 by simp
      show "off + m + length (drop m src) \<le> MAXFILE * BSIZE" using pre(4) m by simp
      show "log_room s3 (c + 12 * nblks (off + m) (length (drop m src)))" using w(2) by simp
      show "4 * nblks (off + m) (length (drop m src)) \<le> nfree s3" using pre(6) nb b(5) nf by simp
    qed
    then obtain s' ad' where
      r: "write_loop k (drop m src) (off + m) s3 = Inr (off + ?n, s')"
      "wrote s3 ad1 (off + length (take m src)) (drop m src) s' ad'" "log_room s' c"
      "icache s' = (icache s)[k := (icache s ! k)\<lparr>i_addrs := ad'\<rparr>]"
      using m pre(3) ic ic3 ad3 by auto
    have "bmap_ip k (off div BSIZE) s = Inr (a, s2)" using b(1) by (simp add: bmap_ip_def s2_def)
    then have "write_loop k src off s = Inr (off + ?n, s')"
      using False w(1) r(1) by (subst write_loop.simps) (simp add: m_def [symmetric] Let_def)
    moreover have "wrote s ?ad off src s' ad'" using wrote_trans [OF w12 r(2) pre(1)] by simp
    ultimately show ?thesis using r(3,4) by blast
  qed
qed

end
