(* ===== verification/Fs_Dir.thy ===== *)
theory Fs_Dir
  imports Fs_Rw
begin

text \<open>
  Directories and path names of Project03-FileSystem/fs.c: \<open>namecmp\<close>, \<open>dirlookup\<close>,
  \<open>dirlink\<close>, \<open>skipelem\<close>, \<open>namex\<close>, \<open>namei\<close>, \<open>nameiparent\<close>, and on top of them the
  complete \<open>readi\<close> and \<open>writei\<close> with their loop over symbolic links. \<open>dirlookup\<close> and
  \<open>dirlink\<close> call \<open>readi\<close> and \<open>writei\<close> on a directory, where that loop does nothing.
\<close>

section \<open>What reading leaves alone\<close>

lemma log_write_frame: "log_write b d s = Inr s' \<Longrightarrow> frame s s'"
  by (auto simp: log_write_def guardR_def frame_def split: if_splits)

lemma balloc_from_frame: "balloc_from b s = Inr (a, s') \<Longrightarrow> frame s s'"
proof (induction b s rule: balloc_from.induct)
  case (1 b s)
  show ?case
  proof (cases "b < sb_size (sb s)")
    case True
    show ?thesis
    proof (cases "find_free (blocks s (BBLOCK b s)) (sb_size (sb s) - b) 0 BPB")
      case None
      then show ?thesis using 1 True by (subst (asm) (2) balloc_from.simps) simp
    next
      case (Some bi)
      then show ?thesis using 1(2) True
        by (subst (asm) balloc_from.simps)
          (auto simp: bindR_eq_Inr bzero_def dest!: log_write_frame intro: frame_trans)
    qed
  next
    case False
    then show ?thesis using 1(2) by (subst (asm) balloc_from.simps) simp
  qed
qed

lemma root_slot_frame: "root_slot r ad s = Inr (a, ad', s') \<Longrightarrow> frame s s'"
  by (auto simp: root_slot_def balloc_def bindR_eq_Inr split: if_splits dest: balloc_from_frame)

lemma ind_slot_frame: "ind_slot b i s = Inr (a, s') \<Longrightarrow> frame s s'"
  by (auto simp: ind_slot_def balloc_def bindR_eq_Inr split: if_splits
      dest!: balloc_from_frame log_write_frame intro: frame_trans)

lemma alloc_walk_frame: "alloc_walk a is s = Inr (b, s') \<Longrightarrow> frame s s'"
proof (induction a "is" s rule: alloc_walk.induct)
  case (2 a i "is" s)
  then show ?case by (auto simp: bindR_eq_Inr intro: frame_trans dest: ind_slot_frame)
qed simp

lemma bmap_frame: "bmap ad bn s = Inr (a, ad', s') \<Longrightarrow> frame s s'"
proof (cases "bn < MAXFILE")
  case True
  assume "bmap ad bn s = Inr (a, ad', s')"
  then show ?thesis unfolding bmap_path [OF True]
    by (auto simp: bindR_eq_Inr dest!: root_slot_frame alloc_walk_frame intro: frame_trans)
next
  case False
  then have "\<not> bn < 10" "\<not> bn - 10 < 128" "\<not> bn - 138 < 16384" "\<not> bn - 16522 < 2097152" by auto
  moreover assume "bmap ad bn s = Inr (a, ad', s')"
  ultimately show ?thesis by (simp add: bmap_def Let_def)
qed

text \<open>Everything but blocks, log and the addresses of inode \<open>k\<close>.\<close>

definition same_but :: "nat \<Rightarrow> fs \<Rightarrow> fs \<Rightarrow> bool" where
  "same_but k s s' \<longleftrightarrow> sb s' = sb s \<and> cwd s' = cwd s \<and> devsw s' = devsw s \<and> outstanding s' = outstanding s \<and>
     log_size s' = log_size s \<and> (\<exists>ad. icache s' = (icache s)[k := (icache s ! k)\<lparr>i_addrs := ad\<rparr>])"

lemma same_but_refl [simp]: "same_but k s s"
proof -
  have "(icache s)[k := (icache s ! k)\<lparr>i_addrs := i_addrs (icache s ! k)\<rparr>] = icache s" by simp
  then show ?thesis unfolding same_but_def by metis
qed

lemma same_but_trans: "same_but k s s' \<Longrightarrow> same_but k s' s'' \<Longrightarrow> same_but k s s''"
  by (cases "k < length (icache s)") (auto simp: same_but_def list_update_beyond)

lemma bmap_ip_same: "bmap_ip k bn s = Inr (a, s') \<Longrightarrow> same_but k s s'"
proof -
  assume "bmap_ip k bn s = Inr (a, s')"
  then obtain ad s1 where b: "bmap (i_addrs (icache s ! k)) bn s = Inr (a, ad, s1)"
    and s': "s' = upd_ip k (\<lambda>ip. ip\<lparr>i_addrs := ad\<rparr>) s1"
    by (auto simp: bmap_ip_def bindR_eq_Inr)
  show ?thesis using frameD(1-6) [OF bmap_frame [OF b]] by (auto simp: same_but_def s')
qed

lemma read_loop_same: "read_loop k off n s = Inr (bs, s') \<Longrightarrow> same_but k s s'"
proof (induction k off n s arbitrary: bs s' rule: read_loop.induct)
  case (1 k off n s)
  show ?case
  proof (cases "n = 0")
    case True
    then show ?thesis using 1(2) by (subst (asm) read_loop.simps) simp
  next
    case False
    let ?m = "min n (BSIZE - off mod BSIZE)"
    obtain a s1 rest where r: "bmap_ip k (off div BSIZE) s = Inr (a, s1)"
      "read_loop k (off + ?m) (n - ?m) s1 = Inr (rest, s')"
      using 1(2) False by (subst (asm) read_loop.simps) (auto simp: bindR_eq_Inr Let_def)
    then show ?thesis using 1(1) [OF False r(1) refl refl r(2)] bmap_ip_same [OF r(1)] same_but_trans by blast
  qed
qed

lemma readi_data_same: "readi_data k off n s = Inr (r, bs, s') \<Longrightarrow> same_but k s s'"
  by (auto simp: readi_data_def Let_def bindR_eq_Inr split: if_splits dest: read_loop_same)

lemma same_but_ip: "same_but k s s' \<Longrightarrow> i_size (icache s' ! k) = i_size (icache s ! k) \<and> i_type (icache s' ! k) = i_type (icache s ! k)"
  by (cases "k < length (icache s)") (auto simp: same_but_def list_update_beyond)

section \<open>Directory entries\<close>

abbreviation DIRSIZ :: nat where "DIRSIZ \<equiv> 14"

abbreviation DESIZE :: nat where "DESIZE \<equiv> 16"

text \<open>The bytes of a \<open>struct dirent\<close>: the inode number, little endian, and the name.\<close>

definition de_inum :: "byte list \<Rightarrow> nat" where
  "de_inum de = unat (de ! 0) + 256 * unat (de ! 1)"

definition de_name :: "byte list \<Rightarrow> byte list" where
  "de_name de = take DIRSIZ (drop 2 de)"

definition mk_dirent :: "nat \<Rightarrow> byte list \<Rightarrow> byte list" where
  "mk_dirent inum name = [word_of_nat inum, word_of_nat (inum div 256)] @ strncpy name DIRSIZ"

definition namecmp :: "byte list \<Rightarrow> byte list \<Rightarrow> int" where
  "namecmp a b = strncmp a b DIRSIZ"

text \<open>The loops over the entries: the first one from \<open>off\<close> on that satisfies \<open>P\<close>, with the
  offset where the loop stopped.\<close>

function dir_scan :: "string \<Rightarrow> (byte list \<Rightarrow> bool) \<Rightarrow> nat \<Rightarrow> nat \<Rightarrow> fs \<Rightarrow> (nat \<times> byte list option \<times> fs) res" where
  "dir_scan msg P k off s =
     (if off < i_size (icache s ! k)
      then bindR (readi_data k off DESIZE s) (\<lambda>(r, de, s1).
             guardR (r = int DESIZE) (Panic msg)
               (if P de then Inr (off, Some de, s1) else dir_scan msg P k (off + DESIZE) s1))
      else Inr (off, None, s))"
  by pat_completeness auto

termination
  by (relation "measure (\<lambda>(msg, P, k, off, s). i_size (icache s ! k) - off)")
    (auto dest!: readi_data_same same_but_ip)

declare dir_scan.simps [simp del]

definition dirlookup :: "nat \<Rightarrow> byte list \<Rightarrow> fs \<Rightarrow> ((nat \<times> nat) option \<times> fs) res" where
  "dirlookup k name s =
     guardR (i_type (icache s ! k) = T_DIR) (Panic ''dirlookup not DIR'')
       (bindR (dir_scan ''dirlookup read'' (\<lambda>de. de_inum de \<noteq> 0 \<and> namecmp name (de_name de) = 0) k 0 s)
          (\<lambda>(off, r, s1). case r of
             None \<Rightarrow> Inr (None, s1)
           | Some de \<Rightarrow> bindR (iget (i_dev (icache s1 ! k)) (de_inum de) s1) (\<lambda>(j, s2). Inr (Some (j, off), s2))))"

definition dirlink :: "nat \<Rightarrow> byte list \<Rightarrow> nat \<Rightarrow> fs \<Rightarrow> (int \<times> fs) res" where
  "dirlink k name inum s =
     bindR (dirlookup k name s) (\<lambda>(r, s1). case r of
       Some (j, _) \<Rightarrow> bindR (iput j s1) (\<lambda>s2. Inr (-1, s2))
     | None \<Rightarrow>
         bindR (dir_scan ''dirlink read'' (\<lambda>de. de_inum de = 0) k 0 s1) (\<lambda>(off, _, s2).
         bindR (writei_data k (mk_dirent inum name) off s2) (\<lambda>(w, s3).
           guardR (w = int DESIZE) (Panic ''dirlink'') (Inr (0, s3)))))"

section \<open>Paths\<close>

abbreviation slash :: byte where "slash \<equiv> 47"

text \<open>The rest of the path and the element copied into \<open>name\<close>.\<close>

definition skipelem :: "byte list \<Rightarrow> (byte list \<times> byte list) option" where
  "skipelem p =
     (let s = dropWhile (\<lambda>c. c = slash) p in
      if s = [] then None
      else Some (dropWhile (\<lambda>c. c = slash) (dropWhile (\<lambda>c. c \<noteq> slash) s),
                 take DIRSIZ (takeWhile (\<lambda>c. c \<noteq> slash) s)))"

lemma skipelem_shorter: "skipelem p = Some (q, name) \<Longrightarrow> length q < length p"
proof -
  assume a: "skipelem p = Some (q, name)"
  let ?s = "dropWhile (\<lambda>c. c = slash) p"
  have s: "?s \<noteq> []" "q = dropWhile (\<lambda>c. c = slash) (dropWhile (\<lambda>c. c \<noteq> slash) ?s)"
    using a by (auto simp: skipelem_def Let_def split: if_splits)
  obtain c cs where c: "?s = c # cs" using s(1) by (cases ?s) auto
  then have "c \<noteq> slash" using hd_dropWhile [OF s(1)] by simp
  then have "length q \<le> length cs"
    using s(2) c by (simp add: order_trans [OF length_dropWhile_le length_dropWhile_le])
  moreover have "length ?s \<le> length p" by (rule length_dropWhile_le)
  ultimately show ?thesis using c by simp
qed

text \<open>The loop of \<open>namex\<close>; the result is the inode and what is left in \<open>name\<close>.\<close>

function namex_loop :: "bool \<Rightarrow> byte list \<Rightarrow> byte list \<Rightarrow> nat \<Rightarrow> fs \<Rightarrow> ((nat \<times> byte list) option \<times> fs) res" where
  "namex_loop par name path k s =
     (case skipelem path of
        None \<Rightarrow>
          if par then bindR (iput k s) (\<lambda>s1. Inr (None, s1)) else Inr (Some (k, name), s)
      | Some (path', name') \<Rightarrow>
          bindR (ilock k s) (\<lambda>s1.
          if i_type (icache s1 ! k) \<noteq> T_DIR then bindR (iunlockput k s1) (\<lambda>s2. Inr (None, s2))
          else if par \<and> path' = [] then bindR (iunlock k s1) (\<lambda>s2. Inr (Some (k, name'), s2))
          else bindR (dirlookup k name' s1) (\<lambda>(r, s2). case r of
                 None \<Rightarrow> bindR (iunlockput k s2) (\<lambda>s3. Inr (None, s3))
               | Some (next, _) \<Rightarrow> bindR (iunlockput k s2) (\<lambda>s3. namex_loop par name' path' next s3))))"
  by pat_completeness auto

termination
  by (relation "measure (\<lambda>(par, name, path, k, s). length path)") (auto dest: skipelem_shorter)

declare namex_loop.simps [simp del]

definition namex :: "byte list \<Rightarrow> bool \<Rightarrow> fs \<Rightarrow> ((nat \<times> byte list) option \<times> fs) res" where
  "namex path par s =
     bindR (if char_at path = slash then iget ROOTDEV ROOTINO s else Inr (idup (cwd s) s))
       (\<lambda>(k, s1). namex_loop par [] path k s1)"

definition namei :: "byte list \<Rightarrow> fs \<Rightarrow> (nat option \<times> fs) res" where
  "namei path s = bindR (namex path False s) (\<lambda>(r, s1). Inr (map_option fst r, s1))"

definition nameiparent :: "byte list \<Rightarrow> fs \<Rightarrow> ((nat \<times> byte list) option \<times> fs) res" where
  "nameiparent path s = namex path True s"

section \<open>Symbolic links\<close>

text \<open>The bytes of \<open>ip->addrs\<close> in memory; a link keeps its path there.\<close>

definition le_bytes :: "nat \<Rightarrow> byte list" where
  "le_bytes v = [word_of_nat v, word_of_nat (v div 256), word_of_nat (v div 65536), word_of_nat (v div 16777216)]"

definition addr_bytes :: "nat list \<Rightarrow> byte list" where
  "addr_bytes ad = concat (map le_bytes ad)"

text \<open>\<open>safestrcpy(path, (char*)(ip->addrs), len + 1)\<close>: without a terminator among the 52 bytes
  of the array it reads on behind it.\<close>

definition link_path :: "inode \<Rightarrow> byte list res" where
  "link_path ip =
     (let bs = addr_bytes (i_addrs ip)
      in guardR (i_size ip \<le> length bs \<or> 0 \<in> set bs) (Overrun ''addrs'') (Inr (safestrcpy bs (i_size ip + 1))))"

text \<open>\<open>n\<close> is what \<open>cyclic\<close> lacks to 10. The result is the inode reached, locked, or
  nothing when the call is to return -1.\<close>

definition relock :: "nat \<Rightarrow> nat \<Rightarrow> fs \<Rightarrow> fs res" where
  "relock oip k s = (if oip \<noteq> k then bindR (iunlock k s) (ilock oip) else Inr s)"

fun follow :: "nat \<Rightarrow> nat \<Rightarrow> nat \<Rightarrow> fs \<Rightarrow> (nat option \<times> fs) res" where
  "follow 0 oip k s =
     (if i_type (icache s ! k) \<noteq> T_SYMLINK then Inr (Some k, s)
      else bindR (relock oip k s) (\<lambda>s1. Inr (None, s1)))"
| "follow (Suc n) oip k s =
     (if i_type (icache s ! k) \<noteq> T_SYMLINK then Inr (Some k, s)
      else bindR (link_path (icache s ! k)) (\<lambda>path.
           bindR (iunlock k s) (\<lambda>s1.
           bindR (namei path s1) (\<lambda>(r, s2). case r of
             None \<Rightarrow> bindR (ilock oip s2) (\<lambda>s3. Inr (None, s3))
           | Some k' \<Rightarrow> bindR (ilock k' s2) (\<lambda>s3. follow n oip k' s3)))))"

definition readi :: "nat \<Rightarrow> nat \<Rightarrow> nat \<Rightarrow> fs \<Rightarrow> (int \<times> byte list \<times> fs) res" where
  "readi oip off n s =
     bindR (follow 10 oip oip s) (\<lambda>(t, s1). case t of
       None \<Rightarrow> Inr (-1, [], s1)
     | Some k \<Rightarrow>
         if i_type (icache s1 ! k) = T_DEV
         then (case dev_of k s1 of
                 None \<Rightarrow> bindR (relock oip k s1) (\<lambda>s2. Inr (-1, [], s2))
               | Some d \<Rightarrow> bindR (relock oip k s1) (consoleread d k n))
         else bindR (readi_data k off n s1) (\<lambda>(r, bs, s2).
              bindR (relock oip k s2) (\<lambda>s3. Inr (r, bs, s3))))"

definition writei :: "nat \<Rightarrow> byte list \<Rightarrow> nat \<Rightarrow> fs \<Rightarrow> (int \<times> fs) res" where
  "writei oip src off s =
     bindR (follow 10 oip oip s) (\<lambda>(t, s1). case t of
       None \<Rightarrow> Inr (-1, s1)
     | Some k \<Rightarrow>
         if i_type (icache s1 ! k) = T_DEV
         then (case dev_of k s1 of
                 None \<Rightarrow> bindR (relock oip k s1) (\<lambda>s2. Inr (-1, s2))
               | Some d \<Rightarrow> bindR (relock oip k s1) (consolewrite d k src))
         else bindR (writei_data k src off s1) (\<lambda>(r, s2).
              bindR (relock oip k s2) (\<lambda>s3. Inr (r, s3))))"

end
