(* ===== verification/Ring.thy ===== *)
theory Ring
  imports Kernel_Prelude
begin

text \<open>
  Ring buffers indexed by free-running 32-bit counters, as the pipes and the console input use
  them: an element goes to the slot of the counter modulo the size, and the counters wrap
  around at 32 bits, which is harmless because the size divides \<open>2 ^ 32\<close>. \<open>ring_list N d r n\<close> is what the
  ring holds from counter \<open>r\<close> on, \<open>n\<close> elements long.
\<close>

definition ring_list :: "nat \<Rightarrow> 'a list \<Rightarrow> nat \<Rightarrow> nat \<Rightarrow> 'a list" where
  "ring_list N d r n = map (\<lambda>i. d ! (wrap32 (r + i) mod N)) [0..<n]"

lemma ring_list_length [simp]: "length (ring_list N d r n) = n"
  by (simp add: ring_list_def)

lemma ring_list_0 [simp]: "ring_list N d r 0 = []"
  by (simp add: ring_list_def)

lemma wrap32_add: "wrap32 (wrap32 r + k) = wrap32 (r + k)"
  by (simp add: wrap32_def mod_add_left_eq)

lemma ring_list_snoc: "ring_list N d r (Suc n) = ring_list N d r n @ [d ! (wrap32 (r + n) mod N)]"
  by (simp add: ring_list_def)

lemma ring_list_append: "ring_list N d r (a + b) = ring_list N d r a @ ring_list N d (wrap32 (r + a)) b"
  by (induction b) (simp_all add: ring_list_snoc wrap32_add add.assoc)

lemma ring_list_Cons:
  assumes "0 < n" "r < 4294967296"
  shows "ring_list N d r n = d ! (r mod N) # ring_list N d (wrap32 (r + 1)) (n - 1)"
  using ring_list_append [of N d r 1 "n - 1"] ring_list_snoc [of N d r 0] assms by simp

text \<open>The distance of two counters.\<close>

lemma sub32_unique:
  assumes "r < 4294967296" "c < 4294967296"
  shows "sub32 (wrap32 (r + c)) r = c"
proof (cases "r + c < 4294967296")
  case True
  then show ?thesis using sub32_small [of r "r + c"] by simp
next
  case False
  then have w: "wrap32 (r + c) = r + c - 4294967296" using assms by (simp add: wrap32_def mod_if)
  have "r + c - 4294967296 + (4294967296 - r) = c" using False assms by linarith
  then show ?thesis unfolding w sub32_def using assms by simp
qed

lemma wrap32_sub32:
  assumes "r < 4294967296" "w < 4294967296"
  shows "wrap32 (r + sub32 w r) = w"
proof (cases "r \<le> w")
  case True
  then show ?thesis using assms by (simp add: sub32_small)
next
  case False
  then have "sub32 w r = w + (4294967296 - r)" unfolding sub32_def using assms by simp
  moreover have "r + (w + (4294967296 - r)) = w + 4294967296" using assms by linarith
  ultimately show ?thesis using assms by (simp add: wrap32_def)
qed

lemma sub32_bound: "sub32 a b < 4294967296"
  by (simp add: sub32_def)

text \<open>Distinct counters of a window no longer than the ring have distinct slots.\<close>

lemma mod_add_inj:
  assumes "i < N" "j < N" "(r + i) mod N = (r + j) mod N"
  shows "i = (j :: nat)"
  using ring_distinct [of i j N r] ring_distinct [of j i N r] assms by (metis linorder_neqE_nat)

lemma wrap32_mod: "N dvd 4294967296 \<Longrightarrow> wrap32 n mod N = n mod N"
  by (simp add: wrap32_def mod_mod_cancel)

lemma ring_list_put:
  assumes "N dvd 4294967296" "0 < N" "length d = N" "n < N"
  shows "ring_list N (d[wrap32 (r + n) mod N := x]) r (Suc n) = ring_list N d r n @ [x]"
proof -
  have "ring_list N (d[wrap32 (r + n) mod N := x]) r n = ring_list N d r n"
    unfolding ring_list_def
  proof (rule map_cong [OF refl])
    fix i assume "i \<in> set [0..<n]"
    then have "(r + i) mod N \<noteq> (r + n) mod N" using mod_add_inj [of i N n r] assms(4) by auto
    then show "d[wrap32 (r + n) mod N := x] ! (wrap32 (r + i) mod N) = d ! (wrap32 (r + i) mod N)"
      by (simp add: wrap32_mod [OF assms(1)])
  qed
  then show ?thesis using assms(2,3) by (simp add: ring_list_snoc)
qed

end
