(* ===== verification/Pipe.thy ===== *)
theory Pipe
  imports C_String Ring
begin

text \<open>
  Pipes, pipe.c (the same file in the three projects): the ring buffer with its two free-running
  32-bit counters. A call that would sleep stops where it sleeps; what it still has to do is
  the remaining argument of a later call, so that any interleaving of readers and writers is a
  sequence of these steps. \<open>wakeup\<close> has no effect on the pipe itself.
\<close>

abbreviation PIPESIZE :: nat where "PIPESIZE \<equiv> 512"

record pipe =
  p_data :: "byte list"
  nread :: nat
  nwrite :: nat
  readopen :: bool
  writeopen :: bool

definition pipe_init :: "byte list \<Rightarrow> pipe" where
  "pipe_init d = \<lparr>p_data = d, nread = 0, nwrite = 0, readopen = True, writeopen = True\<rparr>"

definition pipe_full :: "pipe \<Rightarrow> bool" where
  "pipe_full p \<longleftrightarrow> nwrite p = wrap32 (nread p + PIPESIZE)"

definition pipe_put :: "byte \<Rightarrow> pipe \<Rightarrow> pipe" where
  "pipe_put c p = p\<lparr>p_data := (p_data p)[nwrite p mod PIPESIZE := c], nwrite := wrap32 (nwrite p + 1)\<rparr>"

fun pipewrite_loop :: "bool \<Rightarrow> int \<Rightarrow> byte list \<Rightarrow> pipe \<Rightarrow> (byte list \<times> pipe) outcome" where
  "pipewrite_loop killed n [] p = Returns n ([], p)"
| "pipewrite_loop killed n (c # cs) p =
     (if pipe_full p
      then (if \<not> readopen p \<or> killed then Returns (-1) (c # cs, p) else Sleeps (c # cs, p))
      else pipewrite_loop killed n cs (pipe_put c p))"

fun piperead_loop :: "nat \<Rightarrow> pipe \<Rightarrow> byte list \<times> pipe" where
  "piperead_loop 0 p = ([], p)"
| "piperead_loop (Suc n) p =
     (if nread p = nwrite p then ([], p)
      else let (bs, p') = piperead_loop n (p\<lparr>nread := wrap32 (nread p + 1)\<rparr>)
           in (p_data p ! (nread p mod PIPESIZE) # bs, p'))"

definition piperead :: "bool \<Rightarrow> nat \<Rightarrow> pipe \<Rightarrow> (byte list \<times> pipe) outcome" where
  "piperead killed n p =
     (if nread p = nwrite p \<and> writeopen p
      then (if killed then Returns (-1) ([], p) else Sleeps ([], p))
      else let (bs, p') = piperead_loop n p in Returns (int (length bs)) (bs, p'))"

text \<open>The result tells whether the page of the pipe is freed.\<close>

definition pipeclose :: "bool \<Rightarrow> pipe \<Rightarrow> bool \<times> pipe" where
  "pipeclose writable p =
     (let p' = (if writable then p\<lparr>writeopen := False\<rparr> else p\<lparr>readopen := False\<rparr>)
      in (\<not> readopen p' \<and> \<not> writeopen p', p'))"

section \<open>The bytes in the pipe\<close>

definition pipe_count :: "pipe \<Rightarrow> nat" where
  "pipe_count p = sub32 (nwrite p) (nread p)"

definition pipe_ok :: "pipe \<Rightarrow> bool" where
  "pipe_ok p \<longleftrightarrow> length (p_data p) = PIPESIZE \<and> nread p < 4294967296 \<and> nwrite p < 4294967296 \<and>
     pipe_count p \<le> PIPESIZE"

definition contents :: "pipe \<Rightarrow> byte list" where
  "contents p = ring_list PIPESIZE (p_data p) (nread p) (pipe_count p)"

lemma count_cases: "pipe_ok p \<Longrightarrow> wrap32 (nread p + pipe_count p) = nwrite p"
  by (simp add: pipe_ok_def pipe_count_def wrap32_sub32)

lemma full_iff:
  assumes "pipe_ok p"
  shows "pipe_full p \<longleftrightarrow> pipe_count p = PIPESIZE"
  using count_cases [OF assms] assms sub32_unique [of "nread p" PIPESIZE]
  by (auto simp: pipe_full_def pipe_ok_def pipe_count_def)

lemma empty_iff:
  assumes "pipe_ok p"
  shows "nread p = nwrite p \<longleftrightarrow> pipe_count p = 0"
  using count_cases [OF assms] assms by (auto simp: pipe_ok_def pipe_count_def sub32_small)

text \<open>One byte in, one byte out.\<close>

lemma pipe_put_ok:
  assumes p: "pipe_ok p" "\<not> pipe_full p"
  shows "pipe_ok (pipe_put c p)" "contents (pipe_put c p) = contents p @ [c]"
proof -
  let ?q = "pipe_put c p" and ?n = "pipe_count p"
  have n: "?n < PIPESIZE" using p full_iff [OF p(1)] by (auto simp: pipe_ok_def)
  have w: "nwrite p = wrap32 (nread p + ?n)" using count_cases [OF p(1)] by simp
  have "wrap32 (nwrite p + 1) = wrap32 (nread p + Suc ?n)"
    unfolding w wrap32_add by simp
  then have cnt: "pipe_count ?q = Suc ?n"
    using sub32_unique [of "nread p" "Suc ?n"] n p by (simp add: pipe_count_def pipe_put_def pipe_ok_def)
  show "pipe_ok ?q"
    using p cnt n wrap32_bound by (simp add: pipe_ok_def) (simp add: pipe_put_def wrap32_def)
  show "contents ?q = contents p @ [c]"
    unfolding contents_def cnt using ring_list_put [of PIPESIZE "p_data p" ?n "nread p" c] p n
    by (simp add: pipe_put_def pipe_ok_def w)
qed

lemma pipe_get_ok:
  assumes p: "pipe_ok p" "nread p \<noteq> nwrite p"
  defines "q \<equiv> p\<lparr>nread := wrap32 (nread p + 1)\<rparr>"
  shows "pipe_ok q" "contents p = p_data p ! (nread p mod PIPESIZE) # contents q"
proof -
  let ?n = "pipe_count p"
  have n: "0 < ?n" "?n \<le> PIPESIZE" using p empty_iff [OF p(1)] by (auto simp: pipe_ok_def)
  have "wrap32 (wrap32 (nread p + 1) + (?n - 1)) = nwrite p"
    using count_cases [OF p(1)] n unfolding wrap32_add by simp
  then have cnt: "pipe_count q = ?n - 1"
    using sub32_unique [OF wrap32_bound, of "?n - 1" "nread p + 1"] n by (simp add: pipe_count_def q_def)
  show "pipe_ok q" using p cnt n wrap32_bound by (simp add: pipe_ok_def) (simp add: q_def wrap32_def)
  show "contents p = p_data p ! (nread p mod PIPESIZE) # contents q"
    unfolding contents_def cnt using ring_list_Cons [of ?n "nread p" PIPESIZE "p_data p"] p n
    by (simp add: q_def pipe_ok_def)
qed

lemma pipewrite_stream:
  "pipe_ok p \<Longrightarrow> (case pipewrite_loop k n bs p of Returns _ x \<Rightarrow> x | Sleeps x \<Rightarrow> x) = (rest, q) \<Longrightarrow>
   pipe_ok q \<and> contents q @ rest = contents p @ bs \<and> length rest \<le> length bs"
proof (induction k n bs p rule: pipewrite_loop.induct)
  case (1 killed n p)
  then show ?case by simp
next
  case (2 killed n c cs p)
  show ?case
  proof (cases "pipe_full p")
    case True
    then have "rest = c # cs" "q = p" using 2(3) by (auto split: if_splits)
    then show ?thesis using 2(2) by simp
  next
    case False
    note P = pipe_put_ok [OF 2(2) False, of c]
    have "(case pipewrite_loop killed n cs (pipe_put c p) of Returns _ x \<Rightarrow> x | Sleeps x \<Rightarrow> x) = (rest, q)"
      using 2(3) False by simp
    note I = 2(1) [OF False P(1) this]
    then have "contents q @ rest = contents p @ c # cs" using P(2) by simp
    then show ?thesis using I by simp
  qed
qed

lemma piperead_stream:
  "pipe_ok p \<Longrightarrow> piperead_loop n p = (bs, q) \<Longrightarrow>
   pipe_ok q \<and> contents p = bs @ contents q \<and> length bs = min n (length (contents p))"
proof (induction n arbitrary: p bs)
  case (Suc n)
  show ?case
  proof (cases "nread p = nwrite p")
    case True
    then show ?thesis using Suc.prems empty_iff [of p] by (auto simp: contents_def)
  next
    case False
    note G = pipe_get_ok [OF Suc.prems(1) False]
    obtain bs' where b: "piperead_loop n (p\<lparr>nread := wrap32 (nread p + 1)\<rparr>) = (bs', q)"
      "bs = p_data p ! (nread p mod PIPESIZE) # bs'"
      using Suc.prems(2) False by (auto split: prod.splits)
    from Suc.IH [OF G(1) b(1)] have I: "pipe_ok q"
      "contents (p\<lparr>nread := wrap32 (nread p + 1)\<rparr>) = bs' @ contents q"
      "length bs' = min n (length (contents (p\<lparr>nread := wrap32 (nread p + 1)\<rparr>)))" by blast+
    show ?thesis unfolding G(2) b(2) I(2) using I(1) I(3) [unfolded I(2)] by simp
  qed
qed auto

section \<open>Streams\<close>

text \<open>Any interleaving of reads and writes: the bytes read so far and those accepted.\<close>

datatype pipe_op = Write "byte list" | Read nat

fun pipe_step :: "bool \<Rightarrow> pipe_op \<Rightarrow> byte list \<times> byte list \<times> pipe \<Rightarrow> byte list \<times> byte list \<times> pipe" where
  "pipe_step k (Write bs) (sent, got, p) =
     (let (rest, q) = (case pipewrite_loop k (int (length bs)) bs p of Returns _ x \<Rightarrow> x | Sleeps x \<Rightarrow> x)
      in (sent @ take (length bs - length rest) bs, got, q))"
| "pipe_step k (Read n) (sent, got, p) =
     (let (bs, q) = (case piperead k n p of Returns _ x \<Rightarrow> x | Sleeps x \<Rightarrow> x)
      in (sent, got @ bs, q))"

lemma pipe_step_ok:
  assumes "pipe_ok p" "sent = got @ contents p" "pipe_step k op (sent, got, p) = (sent', got', p')"
  shows "pipe_ok p' \<and> sent' = got' @ contents p'"
proof (cases op)
  case (Write bs)
  obtain rest q where r: "(case pipewrite_loop k (int (length bs)) bs p of Returns _ x \<Rightarrow> x | Sleeps x \<Rightarrow> x) = (rest, q)"
    by force
  note S = pipewrite_stream [OF assms(1) r]
  have a: "contents q @ rest = contents p @ bs" "length rest \<le> length bs" using S by auto
  have "length (contents q) + length rest = length (contents p) + length bs"
    using arg_cong [OF a(1), of length] by simp
  then have l: "length (contents q) = length (contents p) + (length bs - length rest)" using a(2) by linarith
  have "contents q = contents p @ take (length bs - length rest) bs"
    using arg_cong [OF a(1), of "take (length (contents q))"] by (simp add: l)
  then show ?thesis using assms(2,3) Write r S by auto
next
  case (Read n)
  show ?thesis
  proof (cases "nread p = nwrite p \<and> writeopen p")
    case True
    then show ?thesis using assms Read by (auto simp: piperead_def split: if_splits)
  next
    case False
    obtain bs q where l: "piperead_loop n p = (bs, q)" by force
    note R = piperead_stream [OF assms(1) l]
    have "piperead k n p = Returns (int (length bs)) (bs, q)"
      unfolding piperead_def if_not_P [OF False] l by simp
    then have e: "sent' = sent" "got' = got @ bs" "p' = q" using assms(3) Read by simp_all
    have "contents p = bs @ contents q" using R by blast
    then show ?thesis unfolding e assms(2) using R by simp
  qed
qed

text \<open>C39: a pipe is a first-in first-out stream without loss: after any interleaving of reads and
  writes, of any sizes, with the counters wrapping around at 32 bits, the bytes accepted are the bytes read
  followed by at most 512 bytes still in the ring.\<close>

theorem pipe_fifo:
  assumes "pipe_ok p" "contents p = []" "fold (pipe_step k) ops ([], [], p) = (sent, got, p')"
  shows "sent = got @ contents p' \<and> length (contents p') \<le> PIPESIZE"
proof -
  have "pipe_ok q' \<and> s' = g' @ contents q'"
    if "pipe_ok q" "s = g @ contents q" "fold (pipe_step k) ops (s, g, q) = (s', g', q')" for s g q s' g' q'
    using that
  proof (induction ops arbitrary: s g q)
    case (Cons op ops)
    obtain s1 g1 q1 where st: "pipe_step k op (s, g, q) = (s1, g1, q1)" by (metis prod_cases3)
    show ?case using Cons.IH [of q1 s1 g1] Cons.prems(3) pipe_step_ok [OF Cons.prems(1,2) st] st by simp
  qed simp
  from this [of p "[]" "[]"] show ?thesis using assms by (auto simp: pipe_ok_def contents_def)
qed

theorem pipe_fifo_witness:
  "\<exists>sent got p'. fold (pipe_step False) [Write [1, 2, 3], Read 2] ([], [], (pipe_init (replicate PIPESIZE 0))\<lparr>nread := 4294967295, nwrite := 4294967295\<rparr>) =
     (sent, got, p') \<and> sent = got @ contents p'"
proof -
  let ?p = "(pipe_init (replicate PIPESIZE 0))\<lparr>nread := 4294967295, nwrite := 4294967295\<rparr>"
  have c: "pipe_count ?p = 0" by (simp add: pipe_count_def sub32_small)
  then have "pipe_ok ?p" "contents ?p = []" by (simp_all add: pipe_ok_def contents_def pipe_init_def)
  then show ?thesis using pipe_fifo [of ?p False "[Write [1, 2, 3], Read 2]"] by (metis prod_cases3)
qed

end
