(* ===== verification/Fs_Sys.thy ===== *)
theory Fs_Sys
  imports Fs_Dir Pipe
begin

text \<open>
  The file table and the file system calls of Project03-FileSystem, file.c and sysfile.c. A call gets its
  arguments as \<open>argint\<close>, \<open>argstr\<close> and \<open>argptr\<close> deliver them: \<open>None\<close> when they fail. One
  process runs: its descriptors are \<open>ofile\<close>, its directory is \<open>cwd\<close>; a call that would have to wait
  for another process ends in \<open>Hang\<close>.
\<close>

section \<open>State\<close>

datatype ftype = FD_NONE | FD_PIPE | FD_INODE

record kfile =
  f_type :: ftype
  f_ref :: int
  f_readable :: bool
  f_writable :: bool
  f_pipe :: nat
  f_ip :: nat
  f_off :: nat

record sys =
  sfs :: fs
  ftable :: "kfile list"
  ofile :: "nat option list"
  pipes :: "pipe list"
  killed :: bool

definition on_fs :: "(fs \<Rightarrow> fs res) \<Rightarrow> sys \<Rightarrow> sys res" where
  "on_fs f s = bindR (f (sfs s)) (\<lambda>v. Inr (s\<lparr>sfs := v\<rparr>))"

definition begin_op :: "fs \<Rightarrow> fs" where
  "begin_op s = s\<lparr>outstanding := outstanding s + 1\<rparr>"

definition end_op :: "fs \<Rightarrow> fs" where
  "end_op s = s\<lparr>outstanding := outstanding s - 1\<rparr>"

section \<open>The file table\<close>

definition upd_file :: "nat \<Rightarrow> (kfile \<Rightarrow> kfile) \<Rightarrow> sys \<Rightarrow> sys" where
  "upd_file f g s = s\<lparr>ftable := (ftable s)[f := g (ftable s ! f)]\<rparr>"

definition filealloc :: "sys \<Rightarrow> nat option \<times> sys" where
  "filealloc s = (case find_idx (\<lambda>f. f_ref f = 0) (ftable s) of
     None \<Rightarrow> (None, s)
   | Some f \<Rightarrow> (Some f, upd_file f (\<lambda>x. x\<lparr>f_ref := 1\<rparr>) s))"

definition filedup :: "nat \<Rightarrow> sys \<Rightarrow> sys res" where
  "filedup f s = guardR (f_ref (ftable s ! f) \<ge> 1) (Panic ''filedup'')
     (Inr (upd_file f (\<lambda>x. x\<lparr>f_ref := f_ref x + 1\<rparr>) s))"

definition fileclose :: "nat \<Rightarrow> sys \<Rightarrow> sys res" where
  "fileclose f s =
     (let ff = ftable s ! f in
      guardR (f_ref ff \<ge> 1) (Panic ''fileclose'')
       (if f_ref ff - 1 > 0 then Inr (upd_file f (\<lambda>x. x\<lparr>f_ref := f_ref x - 1\<rparr>) s)
        else let s1 = upd_file f (\<lambda>x. x\<lparr>f_ref := 0, f_type := FD_NONE\<rparr>) s in
          (case f_type ff of
             FD_PIPE \<Rightarrow> Inr (s1\<lparr>pipes := (pipes s1)[f_pipe ff := snd (pipeclose (f_writable ff) (pipes s1 ! f_pipe ff))]\<rparr>)
           | FD_INODE \<Rightarrow> on_fs (\<lambda>v. bindR (iput (f_ip ff) (begin_op v)) (\<lambda>v1. Inr (end_op v1))) s1
           | FD_NONE \<Rightarrow> Inr s1)))"

definition filestat :: "nat \<Rightarrow> sys \<Rightarrow> (int \<times> fstat option \<times> sys) res" where
  "filestat f s =
     (let ff = ftable s ! f in
      if f_type ff = FD_INODE
      then bindR (ilock (f_ip ff) (sfs s)) (\<lambda>v.
           bindR (iunlock (f_ip ff) v) (\<lambda>v1. Inr (0, Some (stati (f_ip ff) v), s\<lparr>sfs := v1\<rparr>)))
      else Inr (-1, None, s))"

definition fileread :: "nat \<Rightarrow> nat \<Rightarrow> sys \<Rightarrow> (int \<times> byte list \<times> sys) res" where
  "fileread f n s =
     (let ff = ftable s ! f in
      if \<not> f_readable ff then Inr (-1, [], s)
      else case f_type ff of
        FD_PIPE \<Rightarrow> (case piperead (killed s) n (pipes s ! f_pipe ff) of
            Returns r (bs, p) \<Rightarrow> Inr (r, bs, s\<lparr>pipes := (pipes s)[f_pipe ff := p]\<rparr>)
          | Sleeps _ \<Rightarrow> Inl (Hang ''piperead''))
      | FD_INODE \<Rightarrow>
          bindR (ilock (f_ip ff) (sfs s)) (\<lambda>v.
          bindR (readi (f_ip ff) (f_off ff) n v) (\<lambda>(r, bs, v1).
          bindR (iunlock (f_ip ff) v1) (\<lambda>v2.
            let s1 = s\<lparr>sfs := v2\<rparr> in
            Inr (r, bs, if r > 0 then upd_file f (\<lambda>x. x\<lparr>f_off := wrap32 (f_off x + nat r)\<rparr>) s1 else s1))))
      | FD_NONE \<Rightarrow> Inl (Panic ''fileread''))"

text \<open>\<open>max\<close> of \<open>filewrite\<close>, and its loop over chunks; \<open>i\<close> bytes are written.\<close>

abbreviation WCHUNK :: nat where "WCHUNK \<equiv> 1536"

function filewrite_loop :: "nat \<Rightarrow> byte list \<Rightarrow> sys \<Rightarrow> (bool \<times> sys) res" where
  "filewrite_loop f src s =
     (if src = [] then Inr (True, s)
      else let n1 = min (length src) WCHUNK; ip = f_ip (ftable s ! f) in
        bindR (ilock ip (begin_op (sfs s))) (\<lambda>v.
        bindR (writei ip (take n1 src) (f_off (ftable s ! f)) v) (\<lambda>(r, v1).
        bindR (iunlock ip v1) (\<lambda>v2.
          let s1 = s\<lparr>sfs := end_op v2\<rparr>;
              s2 = (if r > 0 then upd_file f (\<lambda>x. x\<lparr>f_off := wrap32 (f_off x + nat r)\<rparr>) s1 else s1)
          in if r < 0 then Inr (False, s2)
             else guardR (r = int n1) (Panic ''short filewrite'') (filewrite_loop f (drop n1 src) s2)))))"
  by pat_completeness auto

termination
  by (relation "measure (\<lambda>(f, src, s). length src)") auto

declare filewrite_loop.simps [simp del]

definition filewrite :: "nat \<Rightarrow> byte list \<Rightarrow> sys \<Rightarrow> (int \<times> sys) res" where
  "filewrite f src s =
     (let ff = ftable s ! f in
      if \<not> f_writable ff then Inr (-1, s)
      else case f_type ff of
        FD_PIPE \<Rightarrow> (case pipewrite_loop (killed s) (int (length src)) src (pipes s ! f_pipe ff) of
            Returns r (_, p) \<Rightarrow> Inr (r, s\<lparr>pipes := (pipes s)[f_pipe ff := p]\<rparr>)
          | Sleeps _ \<Rightarrow> Inl (Hang ''pipewrite''))
      | FD_INODE \<Rightarrow> bindR (filewrite_loop f src s) (\<lambda>(ok, s1). Inr (if ok then int (length src) else -1, s1))
      | FD_NONE \<Rightarrow> Inl (Panic ''filewrite''))"

section \<open>Descriptors\<close>

definition argfd :: "int option \<Rightarrow> sys \<Rightarrow> (nat \<times> nat) option" where
  "argfd a s = (case a of None \<Rightarrow> None
     | Some fd \<Rightarrow> if fd < 0 \<or> fd \<ge> 16 then None
         else map_option (\<lambda>f. (nat fd, f)) (ofile s ! nat fd))"

definition fdalloc :: "nat \<Rightarrow> sys \<Rightarrow> (int \<times> sys)" where
  "fdalloc f s = (case find_idx (\<lambda>o'. o' = None) (ofile s) of
     Some fd \<Rightarrow> (int fd, s\<lparr>ofile := (ofile s)[fd := Some f]\<rparr>)
   | None \<Rightarrow> (-1, s))"

definition sys_dup :: "int option \<Rightarrow> sys \<Rightarrow> (int \<times> sys) res" where
  "sys_dup a s = (case argfd a s of None \<Rightarrow> Inr (-1, s)
     | Some (_, f) \<Rightarrow>
         let (fd, s1) = fdalloc f s in
         if fd < 0 then Inr (-1, s1) else bindR (filedup f s1) (\<lambda>s2. Inr (fd, s2)))"

definition sys_read :: "int option \<Rightarrow> nat option \<Rightarrow> sys \<Rightarrow> (int \<times> byte list \<times> sys) res" where
  "sys_read a n s = (case (argfd a s, n) of (Some (_, f), Some n') \<Rightarrow> fileread f n' s | _ \<Rightarrow> Inr (-1, [], s))"

definition sys_write :: "int option \<Rightarrow> byte list option \<Rightarrow> sys \<Rightarrow> (int \<times> sys) res" where
  "sys_write a p s = (case (argfd a s, p) of (Some (_, f), Some src) \<Rightarrow> filewrite f src s | _ \<Rightarrow> Inr (-1, s))"

definition sys_close :: "int option \<Rightarrow> sys \<Rightarrow> (int \<times> sys) res" where
  "sys_close a s = (case argfd a s of None \<Rightarrow> Inr (-1, s)
     | Some (fd, f) \<Rightarrow> bindR (fileclose f (s\<lparr>ofile := (ofile s)[fd := None]\<rparr>)) (\<lambda>s1. Inr (0, s1)))"

definition sys_fstat :: "int option \<Rightarrow> bool \<Rightarrow> sys \<Rightarrow> (int \<times> fstat option \<times> sys) res" where
  "sys_fstat a ptr s = (case argfd a s of None \<Rightarrow> Inr (-1, None, s)
     | Some (_, f) \<Rightarrow> if ptr then filestat f s else Inr (-1, None, s))"

section \<open>Links\<close>

text \<open>A \<open>short\<close> counter.\<close>

definition to_short :: "int \<Rightarrow> int" where
  "to_short x = dec16 (enc16 x)"

definition add_nlink :: "int \<Rightarrow> nat \<Rightarrow> fs \<Rightarrow> fs res" where
  "add_nlink d k s = iupdate k (upd_ip k (\<lambda>ip. ip\<lparr>i_nlink := to_short (i_nlink ip + d)\<rparr>) s)"

text \<open>The body of a call between \<open>begin_op\<close> and \<open>end_op\<close>.\<close>

definition transact :: "(fs \<Rightarrow> ('a \<times> fs) res) \<Rightarrow> fs \<Rightarrow> ('a \<times> fs) res" where
  "transact body s = bindR (body (begin_op s)) (\<lambda>(r, s1). Inr (r, end_op s1))"

definition link_bad :: "nat \<Rightarrow> fs \<Rightarrow> (int \<times> fs) res" where
  "link_bad k s = bindR (ilock k s) (\<lambda>s1. bindR (add_nlink (-1) k s1) (\<lambda>s2.
     bindR (iunlockput k s2) (\<lambda>s3. Inr (-1, s3))))"

definition link_body :: "byte list \<Rightarrow> byte list \<Rightarrow> fs \<Rightarrow> (int \<times> fs) res" where
  "link_body old new s =
     bindR (namei old s) (\<lambda>(r, s1). case r of
       None \<Rightarrow> Inr (-1, s1)
     | Some k \<Rightarrow>
         bindR (ilock k s1) (\<lambda>s2.
         if i_type (icache s2 ! k) = T_DIR then bindR (iunlockput k s2) (\<lambda>s3. Inr (-1, s3))
         else bindR (add_nlink 1 k s2) (\<lambda>s3.
              bindR (iunlock k s3) (\<lambda>s4.
              bindR (nameiparent new s4) (\<lambda>(q, s5). case q of
                None \<Rightarrow> link_bad k s5
              | Some (dp, name) \<Rightarrow>
                  bindR (ilock dp s5) (\<lambda>s6.
                  bindR (if i_dev (icache s6 ! dp) \<noteq> i_dev (icache s6 ! k) then Inr (-1, s6)
                         else dirlink dp name (i_inum (icache s6 ! k)) s6) (\<lambda>(l, s7).
                  if l < 0 then bindR (iunlockput dp s7) (link_bad k)
                  else bindR (iunlockput dp s7) (\<lambda>s8. bindR (iput k s8) (\<lambda>s9. Inr (0, s9))))))))))"

definition sys_link :: "byte list option \<Rightarrow> byte list option \<Rightarrow> fs \<Rightarrow> (int \<times> fs) res" where
  "sys_link old new s = (case (old, new) of (Some o', Some n) \<Rightarrow> transact (link_body o' n) s | _ \<Rightarrow> Inr (-1, s))"

definition isdirempty :: "nat \<Rightarrow> fs \<Rightarrow> (bool \<times> fs) res" where
  "isdirempty k s = bindR (dir_scan ''isdirempty: readi'' (\<lambda>de. de_inum de \<noteq> 0) k (2 * DESIZE) s)
     (\<lambda>(_, r, s1). Inr (r = None, s1))"

definition unlink_body :: "byte list \<Rightarrow> fs \<Rightarrow> (int \<times> fs) res" where
  "unlink_body path s =
     bindR (nameiparent path s) (\<lambda>(q, s1). case q of
       None \<Rightarrow> Inr (-1, s1)
     | Some (dp, name) \<Rightarrow>
         bindR (ilock dp s1) (\<lambda>s2.
         if namecmp name [46] = 0 \<or> namecmp name [46, 46] = 0 then bindR (iunlockput dp s2) (\<lambda>s3. Inr (-1, s3))
         else bindR (dirlookup dp name s2) (\<lambda>(r, s3). case r of
           None \<Rightarrow> bindR (iunlockput dp s3) (\<lambda>s4. Inr (-1, s4))
         | Some (k, off) \<Rightarrow>
             bindR (ilock k s3) (\<lambda>s4.
             guardR (i_nlink (icache s4 ! k) \<ge> 1) (Panic ''unlink: nlink < 1'')
              (bindR (if i_type (icache s4 ! k) = T_DIR then isdirempty k s4 else Inr (True, s4)) (\<lambda>(e, s5).
               if \<not> e then bindR (iunlockput k s5) (\<lambda>s6. bindR (iunlockput dp s6) (\<lambda>s7. Inr (-1, s7)))
               else bindR (writei_data dp (replicate DESIZE 0) off s5) (\<lambda>(w, s6).
                 guardR (w = int DESIZE) (Panic ''unlink: writei'')
                  (bindR (if i_type (icache s6 ! k) = T_DIR then add_nlink (-1) dp s6 else Inr s6) (\<lambda>s7.
                   bindR (iunlockput dp s7) (\<lambda>s8.
                   bindR (add_nlink (-1) k s8) (\<lambda>s9.
                   bindR (iunlockput k s9) (\<lambda>s10. Inr (0, s10)))))))))))))"

definition sys_unlink :: "byte list option \<Rightarrow> fs \<Rightarrow> (int \<times> fs) res" where
  "sys_unlink path s = (case path of None \<Rightarrow> Inr (-1, s) | Some p \<Rightarrow> transact (unlink_body p) s)"

section \<open>Creating\<close>

text \<open>\<open>dp\<close> is locked; the new inode is returned locked.\<close>

definition create_new :: "nat \<Rightarrow> byte list \<Rightarrow> int \<Rightarrow> int \<Rightarrow> int \<Rightarrow> fs \<Rightarrow> (nat option \<times> fs) res" where
  "create_new dp name ty maj mi s =
     bindR (ialloc (i_dev (icache s ! dp)) ty s) (\<lambda>(k, s1).
     bindR (ilock k s1) (\<lambda>s2.
     bindR (iupdate k (upd_ip k (\<lambda>ip. ip\<lparr>i_major := maj, i_minor := mi, i_nlink := 1,
              i_type := if ty = T_SYMLINK then T_SYMLINK else i_type ip\<rparr>) s2)) (\<lambda>s3.
     bindR (if ty = T_DIR
            then bindR (add_nlink 1 dp s3) (\<lambda>s4.
                 bindR (dirlink k [46] (i_inum (icache s4 ! k)) s4) (\<lambda>(a, s5).
                 guardR (a \<ge> 0) (Panic ''create dots'')
                  (bindR (dirlink k [46, 46] (i_inum (icache s5 ! dp)) s5) (\<lambda>(b, s6).
                   guardR (b \<ge> 0) (Panic ''create dots'') (Inr s6)))))
            else Inr s3) (\<lambda>s7.
     bindR (dirlink dp name (i_inum (icache s7 ! k)) s7) (\<lambda>(t, s8).
     guardR (t \<ge> 0) (Panic ''create: dirlink'')
      (bindR (iunlockput dp s8) (\<lambda>s9. Inr (Some k, s9))))))))"

definition create :: "byte list \<Rightarrow> int \<Rightarrow> int \<Rightarrow> int \<Rightarrow> fs \<Rightarrow> (nat option \<times> fs) res" where
  "create path ty maj mi s =
     bindR (nameiparent path s) (\<lambda>(q, s1). case q of
       None \<Rightarrow> Inr (None, s1)
     | Some (dp, name) \<Rightarrow>
         bindR (ilock dp s1) (\<lambda>s2.
         bindR (dirlookup dp name s2) (\<lambda>(r, s3). case r of
           Some (k, _) \<Rightarrow>
             bindR (ilock k s3) (\<lambda>s4.
             bindR (iunlockput dp s4) (\<lambda>s5.
             if ty = T_FILE \<and> i_type (icache s5 ! k) = T_FILE then Inr (Some k, s5)
             else if ty = T_SYMLINK then Inr (Some k, upd_ip k (\<lambda>ip. ip\<lparr>i_type := T_SYMLINK\<rparr>) s5)
             else bindR (iunlockput k s5) (\<lambda>s6. Inr (None, s6))))
         | None \<Rightarrow> create_new dp name ty maj mi s3)))"

definition mkdir_body :: "byte list option \<Rightarrow> int \<Rightarrow> int \<Rightarrow> int \<Rightarrow> fs \<Rightarrow> (int \<times> fs) res" where
  "mkdir_body path ty maj mi s =
     bindR (case path of None \<Rightarrow> Inr (None, s) | Some p \<Rightarrow> create p ty maj mi s) (\<lambda>(r, s1). case r of
       None \<Rightarrow> Inr (-1, s1)
     | Some k \<Rightarrow> bindR (iunlockput k s1) (\<lambda>s2. Inr (0, s2)))"

definition sys_mkdir :: "byte list option \<Rightarrow> fs \<Rightarrow> (int \<times> fs) res" where
  "sys_mkdir path s = transact (mkdir_body path T_DIR 0 0) s"

definition sys_mknod :: "byte list option \<Rightarrow> int option \<Rightarrow> int option \<Rightarrow> fs \<Rightarrow> (int \<times> fs) res" where
  "sys_mknod path maj mino s =
     (case (maj, mino) of
        (Some mj, Some mi) \<Rightarrow> transact (mkdir_body path T_DEV (to_short mj) (to_short mi)) s
      | _ \<Rightarrow> transact (\<lambda>s. Inr (-1, s)) s)"

definition chdir_body :: "byte list option \<Rightarrow> fs \<Rightarrow> (nat option \<times> fs) res" where
  "chdir_body path s =
     bindR (case path of None \<Rightarrow> Inr (None, s) | Some p \<Rightarrow> namei p s) (\<lambda>(r, s1). case r of
       None \<Rightarrow> Inr (None, s1)
     | Some k \<Rightarrow>
         bindR (ilock k s1) (\<lambda>s2.
         if i_type (icache s2 ! k) \<noteq> T_DIR then bindR (iunlockput k s2) (\<lambda>s3. Inr (None, s3))
         else bindR (iunlock k s2) (\<lambda>s3. bindR (iput (cwd s3) s3) (\<lambda>s4. Inr (Some k, s4)))))"

definition sys_chdir :: "byte list option \<Rightarrow> fs \<Rightarrow> (int \<times> fs) res" where
  "sys_chdir path s = bindR (transact (chdir_body path) s) (\<lambda>(r, s1). case r of
     None \<Rightarrow> Inr (-1, s1) | Some k \<Rightarrow> Inr (0, s1\<lparr>cwd := k\<rparr>))"

section \<open>Opening\<close>

abbreviation O_RDONLY :: int where "O_RDONLY \<equiv> 0"
abbreviation O_WRONLY :: int where "O_WRONLY \<equiv> 1"
abbreviation O_RDWR :: int where "O_RDWR \<equiv> 2"
abbreviation O_CREATE :: int where "O_CREATE \<equiv> 512"

definition open_inode :: "byte list \<Rightarrow> int \<Rightarrow> fs \<Rightarrow> (nat option \<times> fs) res" where
  "open_inode path omode s =
     (if omode AND O_CREATE \<noteq> 0 then create path T_FILE 0 0 s
      else bindR (namei path s) (\<lambda>(r, s1). case r of
        None \<Rightarrow> Inr (None, s1)
      | Some k \<Rightarrow>
          bindR (ilock k s1) (\<lambda>s2.
          if i_type (icache s2 ! k) = T_DIR \<and> omode \<noteq> O_RDONLY
          then bindR (iunlockput k s2) (\<lambda>s3. Inr (None, s3)) else Inr (Some k, s2))))"

definition open_fail :: "nat \<Rightarrow> sys \<Rightarrow> (int \<times> sys) res" where
  "open_fail k s = bindR (on_fs (\<lambda>v. bindR (iunlockput k v) (\<lambda>v1. Inr (end_op v1))) s) (\<lambda>s1. Inr (-1, s1))"

definition sys_open :: "byte list option \<Rightarrow> int option \<Rightarrow> sys \<Rightarrow> (int \<times> sys) res" where
  "sys_open path mode s = (case (path, mode) of
     (Some p, Some omode) \<Rightarrow>
       bindR (open_inode p omode (begin_op (sfs s))) (\<lambda>(r, v). case r of
         None \<Rightarrow> Inr (-1, s\<lparr>sfs := end_op v\<rparr>)
       | Some k \<Rightarrow>
           let s1 = s\<lparr>sfs := v\<rparr> in
           (case filealloc s1 of
              (None, s2) \<Rightarrow> open_fail k s2
            | (Some f, s2) \<Rightarrow>
                let (fd, s3) = fdalloc f s2 in
                if fd < 0 then bindR (fileclose f s3) (open_fail k)
                else bindR (on_fs (\<lambda>v. bindR (iunlock k v) (\<lambda>v1. Inr (end_op v1))) s3) (\<lambda>s4.
                  Inr (fd, upd_file f (\<lambda>x. x\<lparr>f_type := FD_INODE, f_ip := k, f_off := 0,
                         f_readable := (omode AND O_WRONLY = 0),
                         f_writable := (omode AND O_WRONLY \<noteq> 0 \<or> omode AND O_RDWR \<noteq> 0)\<rparr>) s4))))
   | _ \<Rightarrow> Inr (-1, s))"

text \<open>\<open>page\<close> is the page that \<open>kalloc\<close> returned, if any.\<close>

definition pipealloc :: "byte list option \<Rightarrow> sys \<Rightarrow> ((nat \<times> nat) option \<times> sys) res" where
  "pipealloc page s =
     (case filealloc s of
        (None, s1) \<Rightarrow> Inr (None, s1)
      | (Some f0, s1) \<Rightarrow>
          (case filealloc s1 of
             (None, s2) \<Rightarrow> bindR (fileclose f0 s2) (\<lambda>s3. Inr (None, s3))
           | (Some f1, s2) \<Rightarrow>
               (case page of
                  None \<Rightarrow> bindR (fileclose f0 s2) (\<lambda>s3. bindR (fileclose f1 s3) (\<lambda>s4. Inr (None, s4)))
                | Some d \<Rightarrow>
                    let p = length (pipes s2); s3 = s2\<lparr>pipes := pipes s2 @ [pipe_init d]\<rparr>;
                        s4 = upd_file f0 (\<lambda>x. x\<lparr>f_type := FD_PIPE, f_readable := True, f_writable := False, f_pipe := p\<rparr>) s3;
                        s5 = upd_file f1 (\<lambda>x. x\<lparr>f_type := FD_PIPE, f_readable := False, f_writable := True, f_pipe := p\<rparr>) s4
                    in Inr (Some (f0, f1), s5))))"

definition sys_pipe :: "bool \<Rightarrow> byte list option \<Rightarrow> sys \<Rightarrow> (int \<times> (int \<times> int) option \<times> sys) res" where
  "sys_pipe ptr page s =
     (if \<not> ptr then Inr (-1, None, s)
      else bindR (pipealloc page s) (\<lambda>(r, s1). case r of
        None \<Rightarrow> Inr (-1, None, s1)
      | Some (rf, wrf) \<Rightarrow>
          let (fd0, s2) = fdalloc rf s1; (fd1, s3) = (if fd0 < 0 then (-1, s2) else fdalloc wrf s2) in
          if fd0 < 0 \<or> fd1 < 0
          then let s4 = (if fd0 \<ge> 0 then s3\<lparr>ofile := (ofile s3)[nat fd0 := None]\<rparr> else s3) in
               bindR (fileclose rf s4) (\<lambda>s5. bindR (fileclose wrf s5) (\<lambda>s6. Inr (-1, None, s6)))
          else Inr (0, Some (fd0, fd1), s3)))"

section \<open>Symbolic links\<close>

text \<open>The array \<open>addrs\<close> after its bytes are set.\<close>

fun words_of :: "byte list \<Rightarrow> nat list" where
  "words_of (a # b # c # d # r) =
     (unat a + 256 * unat b + 65536 * unat c + 16777216 * unat d) # words_of r"
| "words_of _ = []"

definition set_link :: "byte list \<Rightarrow> inode \<Rightarrow> inode" where
  "set_link old ip = ip\<lparr>i_size := length old,
     i_addrs := words_of (old @ [0] @ drop (length old + 1) (addr_bytes (i_addrs ip)))\<rparr>"

definition symlink_body :: "byte list \<Rightarrow> byte list \<Rightarrow> fs \<Rightarrow> (int \<times> fs) res" where
  "symlink_body old new s =
     bindR (namei old s) (\<lambda>(r, s1).
     if r = None then Inr (-1, s1)
     else bindR (namei new s1) (\<lambda>(q, s2).
     if q \<noteq> None then Inr (-1, s2)
     else bindR (create new T_SYMLINK 0 0 s2) (\<lambda>(c, s3). case c of
       None \<Rightarrow> Inr (-1, s3)
     | Some k \<Rightarrow>
         guardR (length old + 1 \<le> length (addr_bytes (i_addrs (icache s3 ! k)))) (Overrun ''addrs'')
          (bindR (iupdate k (upd_ip k (set_link old) s3)) (\<lambda>s4.
           bindR (iunlock k s4) (\<lambda>s5. Inr (0, s5)))))))"

definition sys_symlink :: "byte list option \<Rightarrow> byte list option \<Rightarrow> fs \<Rightarrow> (int \<times> fs) res" where
  "sys_symlink old new s = (case (old, new) of (Some o', Some n) \<Rightarrow> transact (symlink_body o' n) s | _ \<Rightarrow> Inr (-1, s))"

end
