(* ===== verification/Fs_Props.thy ===== *)
theory Fs_Props
  imports Fs_Rw
begin

text \<open>
  What the block and inode layers of Project03-FileSystem/fs.c guarantee: the allocator
  against "the first free block", the round trips of blocks and inodes, the three
  indirection levels of \<open>bmap\<close>, reading after writing, the bounds of \<open>readi\<close>, and what
  \<open>itrunc\<close> frees. The theorems that end in \<open>_witness\<close> apply each to a small disk.
\<close>

section \<open>A small disk\<close>

text \<open>Twenty blocks: 3 holds the inodes 0 to 7, 4 the bitmap, in which 0 to 4 are marked.\<close>

definition demo_sb :: sblock where
  "demo_sb = \<lparr>sb_size = 20, sb_nblocks = 15, sb_ninodes = 8, sb_nlog = 30, sb_logstart = 2, sb_inodestart = 3,
     sb_bmapstart = 4\<rparr>"

definition demo_ip :: inode where
  "demo_ip = \<lparr>i_dev = 1, i_inum = 2, i_ref = 1, i_locked = True, i_valid = True, i_type = T_FILE, i_major = 0,
     i_minor = 0, i_nlink = 1, i_size = 0, i_addrs = replicate 13 0\<rparr>"

definition demo_fs :: fs where
  "demo_fs = \<lparr>blocks = (\<lambda>b. if b = 4 then zero_blk(0 := 31) else zero_blk), logged = [], log_size = 30,
     outstanding = 1, sb = demo_sb, icache = [demo_ip], cwd = 0, devsw = (\<lambda>_. None)\<rparr>"

lemma demo_sel [simp]:
  "sb_size (sb demo_fs) = 20" "sb_ninodes (sb demo_fs) = 8" "icache demo_fs = [demo_ip]" "logged demo_fs = []"
  "BBLOCK a demo_fs = a div BPB + 4" "IBLOCK i demo_fs = i div IPB + 3" "outstanding demo_fs = 1"
  "log_size demo_fs = 30" "i_addrs demo_ip = replicate 13 0" "i_inum demo_ip = 2" "i_size demo_ip = 0" "i_dev demo_ip = 1"
  "i_type demo_ip = 2" "i_locked demo_ip" "i_valid demo_ip" "i_ref demo_ip = 1" "i_nlink demo_ip = 1"
  "i_major demo_ip = 0" "i_minor demo_ip = 0"
  by (simp_all add: demo_fs_def demo_sb_def demo_ip_def BBLOCK_def IBLOCK_def)

lemma demo_free: "a < 20 \<Longrightarrow> is_free demo_fs a \<longleftrightarrow> 5 \<le> a"
proof -
  assume a: "a < 20"
  have b31: "bit (31 :: byte) n \<longleftrightarrow> n < 5" if "n < 8" for n
  proof -
    have "(31 :: byte) = mask 5" by (simp add: mask_eq_exp_minus_1)
    moreover have "bit (mask 5 :: byte) n \<longleftrightarrow> n < 5" using that by (simp only: bit_mask_iff) auto
    ultimately show ?thesis by simp
  qed
  have "is_free demo_fs a \<longleftrightarrow> \<not> bit ((zero_blk(0 := 31)) (a div 8)) (a mod 8)"
    using a by (simp add: is_free_def bit_clear_iff) (simp add: demo_fs_def)
  also have "\<dots> \<longleftrightarrow> 5 \<le> a"
  proof (cases "a < 8")
    case True
    then show ?thesis using b31 [OF True] by auto
  next
    case False
    then have "a div 8 \<noteq> 0" by simp
    then show ?thesis using False by (simp add: zero_blk_def)
  qed
  finally show ?thesis .
qed

lemma demo_layout [simp]: "layout_ok demo_fs"
  using demo_free by (auto simp: layout_ok_def meta_def)

lemma demo_room [simp]: "log_room demo_fs k \<longleftrightarrow> k \<le> 29"
  by (simp add: log_room_def log_cap_def)

lemma demo_nfree: "4 \<le> nfree demo_fs"
proof -
  have "card {5, 6, 7, 8 :: nat} \<le> nfree demo_fs"
    unfolding nfree_def by (rule card_mono) (auto simp: demo_free)
  then show ?thesis by simp
qed

lemma walk_zero [simp]: "walk B 0 is = 0"
  by (cases "is") auto

lemma addr_at_empty: "valid p \<Longrightarrow> addr_at s (replicate 13 0) p = 0"
  by (simp add: addr_at_def valid_def)

lemma tree_ok_empty [simp]: "tree_ok s (replicate 13 0)"
  unfolding tree_ok_def using addr_at_empty by (metis length_replicate)

lemma demo_covers [simp]: "log_covers demo_fs {3, 4}"
  by (simp add: log_covers_def log_cap_def)

section \<open>The allocator\<close>

lemma balloc_from_None:
  "\<forall>a< sb_size (sb s). \<not> is_free s a \<Longrightarrow> b mod BPB = 0 \<Longrightarrow> balloc_from b s = Inl (Panic ''balloc: out of blocks'')"
proof (induction b s rule: balloc_from.induct)
  case (1 b s)
  show ?case
  proof (cases "b < sb_size (sb s)")
    case True
    obtain q where q: "b = BPB * q" using 1(3) by (metis mod_0_imp_dvd dvd_def)
    have "\<not> bit_clear (blocks s (BBLOCK b s)) k" if "k < BPB" "k < sb_size (sb s) - b" for k
      using 1(2) [rule_format, of "b + k"] that by (simp add: is_free_def BBLOCK_def q)
    then have "find_free (blocks s (BBLOCK b s)) (sb_size (sb s) - b) 0 BPB = None"
      unfolding find_free_None by simp
    then show ?thesis using 1 True by (subst balloc_from.simps) simp
  qed (subst balloc_from.simps, simp)
qed

lemma find_upt: "find_idx P [0..<n] = Some a \<longleftrightarrow> a < n \<and> P a \<and> (\<forall>j<a. \<not> P j)"
  by (auto simp: find_idx_Some)

definition alloc_ref :: "fs \<Rightarrow> (nat \<times> fs) res" where
  "alloc_ref s = (case find_idx (is_free s) [0..< sb_size (sb s)] of
     None \<Rightarrow> Inl (Panic ''balloc: out of blocks'')
   | Some a \<Rightarrow> Inr (a, logd a zero_blk (logd (BBLOCK a s) (set_mark (blocks s (BBLOCK a s)) (a mod BPB)) s)))"

lemma balloc_ref: "log_room s 2 \<Longrightarrow> balloc s = alloc_ref s"
proof -
  assume room: "log_room s 2"
  show ?thesis
  proof (cases "find_idx (is_free s) [0..< sb_size (sb s)]")
    case None
    then have "\<forall>a< sb_size (sb s). \<not> is_free s a" unfolding find_idx_None by auto
    then show ?thesis using None balloc_from_None [of s 0] by (simp add: balloc_def alloc_ref_def)
  next
    case (Some a)
    then have a: "a < sb_size (sb s)" "is_free s a" "\<forall>j<a. \<not> is_free s j" unfolding find_upt by auto
    have "log_room s (Suc (Suc 0))" using room by (simp add: numeral_2_eq_2)
    note w1 = log_write_ok [OF this, of "BBLOCK a s" "set_mark (blocks s (BBLOCK a s)) (a mod BPB)"]
    note w2 = log_write_ok [OF w1(2), of a zero_blk]
    have "balloc s = Inr (a, logd a zero_blk (logd (BBLOCK a s) (set_mark (blocks s (BBLOCK a s)) (a mod BPB)) s))"
      using balloc_from_spec [of 0 s a] a w1(1) w2(1) by (simp add: balloc_def bzero_def)
    then show ?thesis using Some by (simp add: alloc_ref_def)
  qed
qed

text \<open>C34: the scan of \<open>balloc\<close> over the bitmap, block by block and bit by bit, is the
  reference allocator: it returns the lowest free block, marked and zeroed, and panics exactly
  when no block of the disk is free.\<close>

theorem balloc_first_free:
  assumes "log_room s 2"
  shows "balloc s = (case find_idx (is_free s) [0..< sb_size (sb s)] of
     None \<Rightarrow> Inl (Panic ''balloc: out of blocks'')
   | Some a \<Rightarrow> Inr (a, logd a zero_blk (logd (BBLOCK a s) (set_mark (blocks s (BBLOCK a s)) (a mod BPB)) s)))"
  using balloc_ref [OF assms] by (simp only: alloc_ref_def)

lemma demo_find: "find_idx (is_free demo_fs) [0..<20] = Some 5"
  unfolding find_upt using demo_free by auto

theorem balloc_first_free_witness:
  "log_room demo_fs 2 \<and> map_prod id (\<lambda>_. ()) (projr (balloc demo_fs)) = (5, ())"
  using balloc_first_free [of demo_fs] demo_find by simp

lemma clear_set_mark: "bit_clear d bi \<Longrightarrow> clear_mark (set_mark d bi) bi = d"
proof -
  assume c: "bit_clear d bi"
  have "(d (bi div 8) OR mark bi) AND NOT (mark bi) = d (bi div 8)"
    by (rule bit_word_eqI) (use c in \<open>auto simp: bit_clear_mark bit_set_mark bit_clear_iff\<close>)
  then show ?thesis by (simp add: clear_mark_def set_mark_def)
qed

lemma clear_twice: "bit_clear (clear_mark d bi) bi"
  by (simp add: bit_clear_clear)

text \<open>\<open>bfree\<close> undoes \<open>balloc\<close>: freeing the block just allocated leaves every block of the
  disk, the bitmap included, as it was, except that the freed block is now zeroed; and freeing it once more panics.\<close>

theorem alloc_free_roundtrip:
  assumes "layout_ok s" "log_room s 3" "balloc s = Inr (a, s1)"
  shows "\<exists>s2. bfree a s1 = Inr s2 \<and> blocks s2 = (blocks s)(a := zero_blk) \<and>
    (\<forall>j< sb_size (sb s). is_free s2 j = is_free s j) \<and> bfree a s2 = Inl (Panic ''freeing free block'')"
proof -
  have room: "log_room s 2" by (rule log_room_mono [OF assms(2)]) simp
  have "alloc_ref s = Inr (a, s1)" using balloc_ref [OF room] assms(3) by simp
  then have f: "find_idx (is_free s) [0..< sb_size (sb s)] = Some a"
    and s1: "s1 = logd a zero_blk (logd (BBLOCK a s) (set_mark (blocks s (BBLOCK a s)) (a mod BPB)) s)"
    by (auto simp: alloc_ref_def split: option.splits)
  have a: "a < sb_size (sb s)" "is_free s a" using f unfolding find_upt by auto
  have "log_room s (Suc (Suc (Suc 0)))" using assms(2) by (simp add: numeral_3_eq_3)
  note w1 = log_write_ok [OF this, of "BBLOCK a s" "set_mark (blocks s (BBLOCK a s)) (a mod BPB)"]
  note w2 = log_write_ok [OF w1(2), of a zero_blk, folded s1]
  have fr: "frame s s1" unfolding s1 using frame_trans [OF frame_logd frame_logd] .
  have "a \<notin> meta s" by (rule free_not_meta [OF assms(1) a(2)])
  then have ne: "BBLOCK a s \<noteq> a" using BBLOCK_meta [OF a(1)] by auto
  have c: "bit_clear (blocks s (BBLOCK a s)) (a mod BPB)" using a(2) by (simp add: is_free_def)
  define s2 where "s2 = logd (BBLOCK a s) (blocks s (BBLOCK a s)) s1"
  have b1: "blocks s1 (BBLOCK a s) = set_mark (blocks s (BBLOCK a s)) (a mod BPB)" using ne by (simp add: s1)
  have "bfree a s1 = Inr s2"
    using log_write_ok(1) [OF w2(2)] clear_set_mark [OF c]
    by (simp add: bfree_def Let_def frameD(8) [OF fr] b1 bit_clear_set s2_def)
  moreover have bl: "blocks s2 = (blocks s)(a := zero_blk)"
    using ne by (auto simp: s2_def s1)
  moreover have fr2: "frame s s2" unfolding s2_def using frame_trans [OF fr frame_logd] .
  have free: "is_free s2 j = is_free s j" if "j < sb_size (sb s)" for j
  proof -
    have "BBLOCK j s \<noteq> a" using BBLOCK_meta [OF that] \<open>a \<notin> meta s\<close> by auto
    then show ?thesis by (simp add: is_free_def frameD(8) [OF fr2] bl)
  qed
  moreover have "bfree a s2 = Inl (Panic ''freeing free block'')"
    using free [OF a(1)] a(2) by (simp add: bfree_def Let_def is_free_def)
  ultimately show ?thesis by blast
qed

theorem alloc_free_roundtrip_witness:
  "\<exists>s1 s2. balloc demo_fs = Inr (5, s1) \<and> bfree 5 s1 = Inr s2 \<and> bfree 5 s2 = Inl (Panic ''freeing free block'')"
proof -
  obtain s1 where "balloc demo_fs = Inr (5, s1)"
    using balloc_ref [of demo_fs] demo_find by (simp add: alloc_ref_def)
  then show ?thesis using alloc_free_roundtrip [of demo_fs 5 s1] by auto
qed

section \<open>Block addresses\<close>

text \<open>C25: on every well-formed inode \<open>bmap\<close> returns, through up to three levels of indirect
  blocks, a block for any \<open>bn\<close> below \<open>MAXFILE\<close> and does not panic, given room in the log and four
  free blocks; a mapped block is returned without any change, a new one is zeroed and was free, all other
  file blocks keep their address and the file its bytes; from \<open>MAXFILE\<close> on it panics.\<close>

theorem bmap_maps:
  assumes "tree_ok s ad" "layout_ok s" "log_room s 11" "4 \<le> nfree s"
  shows "if bn < MAXFILE
    then \<exists>s' ad' a. bmap ad bn s = Inr (a, ad', s') \<and> a \<noteq> 0 \<and> a = block_of s' ad' bn \<and> tree_ok s' ad' \<and>
      (if block_of s ad bn \<noteq> 0 then s' = s \<and> ad' = ad \<and> a = block_of s ad bn
       else is_free s a \<and> blocks s' a = zero_blk) \<and>
      (\<forall>m<MAXFILE. m \<noteq> bn \<longrightarrow> block_of s' ad' m = block_of s ad m) \<and>
      (\<forall>j<MAXFILE * BSIZE. file_byte s' ad' j = file_byte s ad j)
    else bmap ad bn s = Inl (Panic ''bmap: out of range'')"
proof (cases "bn < MAXFILE")
  case True
  have "log_room s (0 + 11)" using assms(3) by simp
  then obtain s' ad' a where b: "bmap ad bn s = Inr (a, ad', s')" "a = block_of s' ad' bn"
    "grown s ad (path_of bn) s' ad'"
    using bmap_ok [OF assms(1,2) True _ assms(4)] by blast
  note G = grown_blocks [OF b(3) True]
  have new: "if block_of s ad bn \<noteq> 0 then s' = s \<and> ad' = ad \<and> a = block_of s ad bn
       else is_free s a \<and> blocks s' a = zero_blk"
  proof (cases "block_of s ad bn = 0")
    case True
    have "block_of s' ad' bn \<noteq> block_of s ad bn" using G(1) True by simp
    then have "is_free s a"
      using grownD(7) [OF b(3), of "path_of bn"] path_of_valid [OF \<open>bn < MAXFILE\<close>] b(2) by (simp add: block_of_def)
    then show ?thesis using True G(4) b(2) by simp
  qed (use G(3) b(2) in simp)
  have "tree_ok s' ad'" by (rule grownD(1) [OF b(3)])
  moreover have "\<forall>m<MAXFILE. m \<noteq> bn \<longrightarrow> block_of s' ad' m = block_of s ad m" using G(2) by blast
  moreover have "\<forall>j<MAXFILE * BSIZE. file_byte s' ad' j = file_byte s ad j"
    using grown_file_byte [OF b(3) True assms(1)] by blast
  ultimately show ?thesis unfolding if_P [OF True] using b(1,2) G(1) new by blast
next
  case False
  then have "\<not> bn < 10" "\<not> bn - 10 < 128" "\<not> bn - 138 < 16384" "\<not> bn - 16522 < 2097152" by auto
  then show ?thesis unfolding if_not_P [OF False] by (simp add: bmap_def Let_def)
qed

theorem bmap_maps_witness:
  "\<exists>s' ad' a. bmap (replicate 13 0) 20000 demo_fs = Inr (a, ad', s') \<and> a \<noteq> 0 \<and> blocks s' a = zero_blk"
proof -
  have "valid (path_of 20000)" using path_of_valid [of 20000] by simp
  then have "block_of demo_fs (replicate 13 0) 20000 = 0" by (simp only: block_of_def addr_at_empty)
  then show ?thesis using bmap_maps [of demo_fs "replicate 13 0" 20000] demo_nfree by auto
qed

section \<open>Inodes\<close>

lemma dino_off_apart: "inum mod IPB \<noteq> i mod IPB \<Longrightarrow> dino_off inum + 64 \<le> dino_off i \<or> dino_off i + 64 \<le> dino_off inum"
  unfolding dino_off_def by linarith

lemma iupdate_eq:
  assumes "log_room s (Suc c)"
  shows "iupdate k s = Inr (logd (IBLOCK (i_inum (icache s ! k)) s)
     (put_dinode (blocks s (IBLOCK (i_inum (icache s ! k)) s)) (dino_off (i_inum (icache s ! k))) (dinode_of (icache s ! k))) s)"
  using log_write_ok(1) [OF assms] by (simp add: iupdate_def Let_def)

lemma logd_sel [simp]: "icache (logd b d s) = icache s" "sb (logd b d s) = sb s" "outstanding (logd b d s) = outstanding s"
  "IBLOCK i (logd b d s) = IBLOCK i s"
  using frameD [OF frame_logd] by (simp_all add: IBLOCK_def)

text \<open>C36: what \<open>iupdate\<close> writes to the disk, \<open>ilock\<close> reads back: a cache slot for the same inode
  number that is not valid gets the type, device numbers, link count, size and addresses of the inode
  written, for all values that fit in their C types; and the other inodes of the block keep theirs.\<close>

theorem inode_roundtrip:
  assumes "log_room s 1" "dinode_ok (dinode_of (icache s ! k))"
    and "i_ref (icache s ! k') \<ge> 1" "\<not> i_locked (icache s ! k')" "\<not> i_valid (icache s ! k')"
    and "i_inum (icache s ! k') = i_inum (icache s ! k)" "i_type (icache s ! k) \<noteq> 0" "k' < length (icache s)"
  shows "\<exists>s1 s2. iupdate k s = Inr s1 \<and> ilock k' s1 = Inr s2 \<and>
    dinode_of (icache s2 ! k') = dinode_of (icache s ! k) \<and> i_valid (icache s2 ! k') \<and>
    (\<forall>i. i \<noteq> i_inum (icache s ! k) \<longrightarrow> get_dinode (blocks s2 (IBLOCK i s)) (dino_off i)
       = get_dinode (blocks s (IBLOCK i s)) (dino_off i))"
proof -
  let ?ip = "icache s ! k"
  let ?b = "IBLOCK (i_inum ?ip) s"
  define s1 where "s1 = logd ?b (put_dinode (blocks s ?b) (dino_off (i_inum ?ip)) (dinode_of ?ip)) s"
  have room: "log_room s (Suc 0)" using assms(1) by simp
  have u: "iupdate k s = Inr s1" using iupdate_eq [OF room] by (simp add: s1_def)
  have g: "get_dinode (blocks s1 ?b) (dino_off (i_inum ?ip)) = dinode_of ?ip"
    by (simp add: s1_def get_put_dinode [OF assms(2)])
  define s2 where "s2 = upd_ip k' (load_ip (dinode_of ?ip)) (upd_ip k' (\<lambda>ip. ip\<lparr>i_locked := True\<rparr>) s1)"
  have "d_type (dinode_of ?ip) \<noteq> 0" using assms(7) by (simp add: dinode_of_def)
  then have l: "ilock k' s1 = Inr s2"
    using assms(3-6) g by (simp add: ilock_def s2_def Let_def s1_def)
  have "dinode_of (icache s2 ! k') = dinode_of ?ip" "i_valid (icache s2 ! k')"
    using assms(8) by (simp_all add: s2_def s1_def dinode_of_def load_ip_def)
  moreover have "get_dinode (blocks s2 (IBLOCK i s)) (dino_off i) = get_dinode (blocks s (IBLOCK i s)) (dino_off i)"
    if "i \<noteq> i_inum ?ip" for i
  proof (cases "IBLOCK i s = ?b")
    case True
    then have "i div IPB = i_inum ?ip div IPB" by (simp add: IBLOCK_def)
    then have "i_inum ?ip mod IPB \<noteq> i mod IPB" using that by (metis div_mult_mod_eq)
    note ap = dino_off_apart [OF this]
    have "length (d_addrs (dinode_of ?ip)) = 13" using assms(2) by (simp add: dinode_ok_def)
    then show ?thesis using True get_put_dinode_other [OF _ ap] by (simp add: s2_def s1_def)
  qed (simp add: s2_def s1_def)
  ultimately show ?thesis using u l by blast
qed

definition demo_two :: fs where
  "demo_two = demo_fs\<lparr>icache := [demo_ip, demo_ip\<lparr>i_valid := False, i_locked := False, i_type := 0\<rparr>]\<rparr>"

theorem inode_roundtrip_witness:
  "\<exists>s1 s2. iupdate 0 demo_two = Inr s1 \<and> ilock 1 s1 = Inr s2 \<and> i_type (icache s2 ! 1) = T_FILE"
proof -
  have "log_room demo_two 1" by (simp add: demo_two_def log_room_def log_cap_def)
  then have "\<exists>s1 s2. iupdate 0 demo_two = Inr s1 \<and> ilock 1 s1 = Inr s2 \<and>
      dinode_of (icache s2 ! 1) = dinode_of (icache demo_two ! 0)"
    using inode_roundtrip [of demo_two 0 1]
    by (auto simp: demo_two_def dinode_ok_def dinode_of_def)
  then obtain s1 s2 where r: "iupdate 0 demo_two = Inr s1" "ilock 1 s1 = Inr s2"
    "dinode_of (icache s2 ! 1) = dinode_of (icache demo_two ! 0)" by blast
  have "i_type (icache s2 ! 1) = T_FILE" using arg_cong [OF r(3), of d_type] by (simp add: dinode_of_def demo_two_def)
  then show ?thesis using r by blast
qed

section \<open>Contents\<close>

lemma logd_meta:
  assumes t: "tree_ok s ad" and b: "b \<in> meta s"
  shows "valid p \<Longrightarrow> addr_at (logd b d s) ad p = addr_at s ad p"
    "n < MAXFILE \<Longrightarrow> block_of (logd b d s) ad n = block_of s ad n"
    "j < MAXFILE * BSIZE \<Longrightarrow> file_byte (logd b d s) ad j = file_byte s ad j"
proof -
  have ni: "x \<noteq> b" if "x \<in> interior s ad" for x
    using that tree_okD(2) [OF t] b by (auto simp: interior_def)
  then have c: "blocks (logd b d s) x = blocks s x" if "x \<in> interior s ad" for x
    using that by (auto)
  show "valid p \<Longrightarrow> addr_at (logd b d s) ad p = addr_at s ad p" using addr_at_cong [OF c] by blast
  show bo: "block_of (logd b d s) ad n = block_of s ad n" if "n < MAXFILE" for n
    using addr_at_cong [OF c] path_of_valid [OF that] by (simp add: block_of_def)
  show "file_byte (logd b d s) ad j = file_byte s ad j" if "j < MAXFILE * BSIZE"
  proof -
    have m: "j div BSIZE < MAXFILE" by (rule div_less_MAXFILE [OF that])
    have v: "valid (path_of (j div BSIZE))" using path_of_valid [OF m] by simp
    have "block_of s ad (j div BSIZE) \<noteq> b \<or> block_of s ad (j div BSIZE) = 0"
      using tree_okD(2) [OF t v] b by (auto simp: block_of_def)
    then show ?thesis using bo [OF m] by (auto simp: file_byte_def Let_def)
  qed
qed

lemma readi_file_mapped:
  assumes k: "k < length (icache s)" and ty: "i_type (icache s ! k) \<noteq> T_DEV" and n: "n < 4294967296"
    and m: "\<forall>j< i_size (icache s ! k). block_of s (i_addrs (icache s ! k)) (j div BSIZE) \<noteq> 0"
    and sz: "i_size (icache s ! k) \<le> MAXFILE * BSIZE"
  shows "readi_file k off n s =
    (if off > i_size (icache s ! k) \<or> off + n \<ge> 4294967296 then Inr (-1, [], s)
     else let l = min n (i_size (icache s ! k) - off)
          in Inr (int l, map (file_byte s (i_addrs (icache s ! k))) [off..<off + l], s))"
proof -
  let ?ip = "icache s ! k"
  have w: "wrap32 (off + n) < off \<longleftrightarrow> off + n \<ge> 4294967296" if "off \<le> i_size ?ip"
  proof (cases "off + n < 4294967296")
    case False
    have "off + n < 2 * 4294967296" using that sz n by simp
    then have "wrap32 (off + n) = off + n - 4294967296" using False by (simp add: wrap32_def mod_if)
    then show ?thesis using False n by simp
  qed simp
  show ?thesis
  proof (cases "off > i_size ?ip \<or> off + n \<ge> 4294967296")
    case True
    then show ?thesis using w ty by (auto simp: readi_file_def readi_data_def Let_def)
  next
    case False
    let ?l = "min n (i_size ?ip - off)"
    have "read_loop k off ?l s = Inr (map (file_byte s (i_addrs ?ip)) [off..<off + ?l], s)"
      by (rule read_loop_mapped) (use m k sz False in auto)
    moreover have "(if off + n > i_size ?ip then i_size ?ip - off else n) = ?l" by auto
    ultimately show ?thesis using False w ty by (simp add: readi_file_def readi_data_def Let_def)
  qed
qed

text \<open>\<open>readi\<close> on a file without holes returns the bytes from \<open>off\<close> on, \<open>n\<close> of them or as
  many as the file has, and -1 exactly when \<open>off\<close> is past the end or \<open>off + n\<close> overflows 32 bits; it never writes.\<close>

theorem readi_bounds:
  assumes "k < length (icache s)" "i_type (icache s ! k) \<noteq> T_DEV" "n < 4294967296"
    and "\<forall>j< i_size (icache s ! k). block_of s (i_addrs (icache s ! k)) (j div BSIZE) \<noteq> 0"
    and "i_size (icache s ! k) \<le> MAXFILE * BSIZE"
  shows "\<exists>r bs. readi_file k off n s = Inr (r, bs, s) \<and>
    (if off > i_size (icache s ! k) \<or> off + n \<ge> 4294967296 then r = -1 \<and> bs = []
     else r = int (min n (i_size (icache s ! k) - off)) \<and> length bs = min n (i_size (icache s ! k) - off) \<and>
       (\<forall>i<length bs. bs ! i = file_byte s (i_addrs (icache s ! k)) (off + i)))"
  unfolding readi_file_mapped [OF assms] by (simp add: Let_def)

theorem readi_bounds_witness: "\<exists>bs. readi_file 0 0 10 demo_fs = Inr (0, bs, demo_fs)"
  using readi_bounds [of 0 demo_fs 10 0] by simp

lemma write_file_ok:
  fixes s :: fs and k :: nat
  defines "ip \<equiv> icache s ! k"
  assumes t: "tree_ok s (i_addrs ip)" and lay: "layout_ok s" and k: "k < length (icache s)"
    and ty: "i_type ip \<noteq> T_DEV" and off: "off \<le> i_size ip" and le: "off + length src \<le> MAXFILE * BSIZE"
    and inum: "i_inum ip < sb_ninodes (sb s)"
    and room: "log_room s (12 * nblks off (length src) + 1)" and nf: "4 * nblks off (length src) \<le> nfree s"
  shows "\<exists>s' ad'. writei_file k src off s = Inr (int (length src), s') \<and>
    icache s' = (icache s)[k := ip\<lparr>i_addrs := ad', i_size := max (i_size ip) (off + length src)\<rparr>] \<and>
    (\<forall>j<MAXFILE * BSIZE. file_byte s' ad' j = (if off \<le> j \<and> j < off + length src then src ! (j - off)
       else file_byte s (i_addrs ip) j)) \<and>
    (\<forall>j<MAXFILE * BSIZE. off \<le> j \<and> j < off + length src \<longrightarrow> block_of s' ad' (j div BSIZE) \<noteq> 0) \<and>
    (\<forall>x< sb_size (sb s). \<not> is_free s x \<and> x \<notin> meta s \<and> x \<notin> tree_set s (i_addrs ip) \<longrightarrow> blocks s' x = blocks s x) \<and>
    (\<forall>bn<MAXFILE. block_of s (i_addrs ip) bn \<noteq> 0 \<longrightarrow> block_of s' ad' bn \<noteq> 0)"
proof -
  have room': "log_room s (1 + 12 * nblks off (length src))" using room by (simp add: add.commute)
  from write_loop_ok [OF t [unfolded ip_def] lay k le room' nf] obtain s1 ad1 where
    1: "write_loop k src off s = Inr (off + length src, s1)" "wrote s (i_addrs ip) off src s1 ad1" "log_room s1 1"
      "icache s1 = (icache s)[k := ip\<lparr>i_addrs := ad1\<rparr>]"
    by (auto simp: ip_def)
  have w: "wrap32 (off + length src) = off + length src" using le by simp
  have t1: "tree_ok s1 ad1" "layout_ok s1" "sb s1 = sb s" using 1(2) by (auto simp: wrote_def)
  have ip1: "icache s1 ! k = ip\<lparr>i_addrs := ad1\<rparr>" using 1(4) k by simp
  have keep: "\<forall>x< sb_size (sb s). \<not> is_free s x \<and> x \<notin> meta s \<and> x \<notin> tree_set s (i_addrs ip) \<longrightarrow> blocks s1 x = blocks s x"
    using 1(2) bitmap_meta by (auto simp: wrote_def)
  show ?thesis
  proof (cases "length src > 0 \<and> off + length src > i_size ip")
    case False
    then have "max (i_size ip) (off + length src) = i_size ip" using off by auto
    moreover have "writei_file k src off s = Inr (int (length src), s1)"
      using False ty off le w 1(1) ip1 by (auto simp: writei_file_def writei_data_def Let_def ip_def [symmetric])
    moreover have "icache s1 = (icache s)[k := ip\<lparr>i_addrs := ad1, i_size := i_size ip\<rparr>]" using 1(4) by simp
    ultimately show ?thesis using 1(2) keep unfolding wrote_def by (intro exI [of _ s1] exI [of _ ad1]) simp
  next
    case True
    define s2 where "s2 = upd_ip k (\<lambda>ip. ip\<lparr>i_size := off + length src\<rparr>) s1"
    have k2: "k < length (icache s1)" using 1(4) k by simp
    have ip2: "icache s2 ! k = ip\<lparr>i_addrs := ad1, i_size := off + length src\<rparr>" using k2 ip1 by (simp add: s2_def)
    let ?b = "IBLOCK (i_inum ip) s"
    define s3 where "s3 = logd ?b (put_dinode (blocks s2 ?b) (dino_off (i_inum ip)) (dinode_of (icache s2 ! k))) s2"
    have b: "?b \<in> meta s2" "IBLOCK (i_inum ip) s2 = ?b"
      using IBLOCK_meta [OF inum] t1(3) by (simp_all add: s2_def meta_def IBLOCK_def BBLOCK_def)
    have "log_room s2 (Suc 0)" using 1(3) by (simp add: s2_def)
    from iupdate_eq [OF this, of k] have u: "iupdate k s2 = Inr s3" by (simp add: ip2 s3_def b(2))
    have wr: "writei_file k src off s = Inr (int (length src), s3)"
      using True ty off le w 1(1) ip1 u by (simp add: writei_file_def writei_data_def Let_def ip_def [symmetric] s2_def)
    have t2: "tree_ok s2 ad1" using t1(1) by (simp add: s2_def)
    note M = logd_meta [OF t2 b(1), of _ "put_dinode (blocks s2 ?b) (dino_off (i_inum ip)) (dinode_of (icache s2 ! k))", folded s3_def]
    have ic: "icache s3 = (icache s)[k := ip\<lparr>i_addrs := ad1, i_size := max (i_size ip) (off + length src)\<rparr>]"
      using True 1(4) k by (simp add: s3_def s2_def ip1 max_def)
    have fb: "\<forall>j<MAXFILE * BSIZE. file_byte s3 ad1 j = (if off \<le> j \<and> j < off + length src then src ! (j - off)
       else file_byte s (i_addrs ip) j)"
      using 1(2) M(3) by (simp add: wrote_def s2_def)
    have mp: "\<forall>j<MAXFILE * BSIZE. off \<le> j \<and> j < off + length src \<longrightarrow> block_of s3 ad1 (j div BSIZE) \<noteq> 0"
      using 1(2) M(2) [OF div_less_MAXFILE] by (simp add: wrote_def s2_def)
    have "?b \<in> meta s" by (rule IBLOCK_meta [OF inum])
    then have kp: "\<forall>x< sb_size (sb s). \<not> is_free s x \<and> x \<notin> meta s \<and> x \<notin> tree_set s (i_addrs ip) \<longrightarrow> blocks s3 x = blocks s x"
      using keep by (auto simp: s3_def s2_def)
    have st: "\<forall>bn<MAXFILE. block_of s (i_addrs ip) bn \<noteq> 0 \<longrightarrow> block_of s3 ad1 bn \<noteq> 0"
      using 1(2) M(2) by (simp add: wrote_def s2_def)
    show ?thesis
      by (rule exI [of _ s3], rule exI [of _ ad1]) (use wr ic fb mp kp st in simp)
  qed
qed

text \<open>C22: bytes written are the bytes read back. \<open>writei\<close> on a well-formed inode, with room in the
  log and free blocks, returns the whole count; \<open>readi\<close> at the same offset then returns exactly the
  bytes written; all other bytes of the file are unchanged, the size is the larger of the old one and the end of the
  write, and no block in use outside the file's own tree, the bitmap and the inode blocks has changed.\<close>

theorem write_then_read:
  assumes "tree_ok s (i_addrs (icache s ! k))" "layout_ok s" "k < length (icache s)"
    and "i_type (icache s ! k) \<noteq> T_DEV" "off \<le> i_size (icache s ! k)" "off + length src \<le> MAXFILE * BSIZE"
    and "i_inum (icache s ! k) < sb_ninodes (sb s)"
    and "log_room s (12 * nblks off (length src) + 1)" "4 * nblks off (length src) \<le> nfree s"
  shows "\<exists>s'. writei_file k src off s = Inr (int (length src), s') \<and>
    readi_file k off (length src) s' = Inr (int (length src), src, s') \<and>
    i_size (icache s' ! k) = max (i_size (icache s ! k)) (off + length src) \<and>
    (\<forall>j<MAXFILE * BSIZE. \<not> (off \<le> j \<and> j < off + length src) \<longrightarrow>
       file_byte s' (i_addrs (icache s' ! k)) j = file_byte s (i_addrs (icache s ! k)) j) \<and>
    (\<forall>x< sb_size (sb s). \<not> is_free s x \<and> x \<notin> meta s \<and> x \<notin> tree_set s (i_addrs (icache s ! k)) \<longrightarrow>
       blocks s' x = blocks s x)"
proof -
  let ?ip = "icache s ! k"
  obtain s' ad' where w: "writei_file k src off s = Inr (int (length src), s')"
    "icache s' = (icache s)[k := ?ip\<lparr>i_addrs := ad', i_size := max (i_size ?ip) (off + length src)\<rparr>]"
    "\<forall>j<MAXFILE * BSIZE. file_byte s' ad' j = (if off \<le> j \<and> j < off + length src then src ! (j - off)
       else file_byte s (i_addrs ?ip) j)"
    "\<forall>j<MAXFILE * BSIZE. off \<le> j \<and> j < off + length src \<longrightarrow> block_of s' ad' (j div BSIZE) \<noteq> 0"
    "\<forall>x< sb_size (sb s). \<not> is_free s x \<and> x \<notin> meta s \<and> x \<notin> tree_set s (i_addrs ?ip) \<longrightarrow> blocks s' x = blocks s x"
    using write_file_ok [OF assms] by blast
  have ip': "icache s' ! k = ?ip\<lparr>i_addrs := ad', i_size := max (i_size ?ip) (off + length src)\<rparr>"
    using w(2) assms(3) by simp
  have "read_loop k off (length src) s' = Inr (map (file_byte s' ad') [off..<off + length src], s')"
    using read_loop_mapped [of off "length src" s' k] w(2,4) assms(3,6) ip' by simp
  moreover have "map (file_byte s' ad') [off..<off + length src] = src"
    by (rule nth_equalityI) (use w(3) assms(6) in auto)
  ultimately have "readi_file k off (length src) s' = Inr (int (length src), src, s')"
    using assms(4,6) by (simp add: readi_file_def readi_data_def Let_def ip')
  then show ?thesis using w(1,3,5) ip' by auto
qed

theorem write_then_read_witness:
  "\<exists>s'. writei_file 0 [104, 105] 0 demo_fs = Inr (2, s') \<and> readi_file 0 0 2 s' = Inr (2, [104, 105], s')"
proof -
  have "nblks 0 (length [104, 105 :: byte]) = 1" by (simp add: nblks_def)
  then show ?thesis using write_then_read [of demo_fs 0 0 "[104, 105]"] demo_nfree
    by (auto simp: numeral_2_eq_2)
qed



end
