(* ===== verification/Fs_Dir_Props.thy ===== *)
theory Fs_Dir_Props
  imports Fs_Dir Fs_Props
begin

text \<open>
  What directories, path names and symbolic links of Project03-FileSystem/fs.c guarantee:
  \<open>dirlookup\<close> and \<open>dirlink\<close> against the list of entries, \<open>namex\<close> against the list of path
  elements, and the references that a path walk and a read through a link take.
\<close>

section \<open>Directories as lists of entries\<close>

definition dirent_at :: "fs \<Rightarrow> nat list \<Rightarrow> nat \<Rightarrow> byte list" where
  "dirent_at s ad off = map (file_byte s ad) [off..<off + DESIZE]"

definition entries :: "fs \<Rightarrow> inode \<Rightarrow> byte list list" where
  "entries s ip = map (\<lambda>i. dirent_at s (i_addrs ip) (DESIZE * i)) [0..< i_size ip div DESIZE]"

definition dir_ok :: "fs \<Rightarrow> nat \<Rightarrow> bool" where
  "dir_ok s k \<longleftrightarrow> k < length (icache s) \<and> i_type (icache s ! k) = T_DIR \<and>
     i_size (icache s ! k) mod DESIZE = 0 \<and> i_size (icache s ! k) \<le> MAXFILE * BSIZE \<and>
     (\<forall>j< i_size (icache s ! k). block_of s (i_addrs (icache s ! k)) (j div BSIZE) \<noteq> 0)"

lemma readi_data_file: "i_type (icache s ! k) \<noteq> T_DEV \<Longrightarrow> readi_data k off n s = readi_file k off n s"
  by (simp add: readi_file_def)

lemma dir_read:
  assumes d: "dir_ok s k" and i: "i < i_size (icache s ! k) div DESIZE"
  shows "readi_data k (DESIZE * i) DESIZE s = Inr (int DESIZE, entries s (icache s ! k) ! i, s)"
proof -
  have le: "DESIZE * i + DESIZE \<le> i_size (icache s ! k)"
    using i d div_times_less_eq_dividend [of "i_size (icache s ! k)" DESIZE] unfolding dir_ok_def by linarith
  have "readi_data k (DESIZE * i) DESIZE s = readi_file k (DESIZE * i) DESIZE s"
    using d by (intro readi_data_file) (simp add: dir_ok_def)
  also have "\<dots> = Inr (int DESIZE, map (file_byte s (i_addrs (icache s ! k))) [DESIZE * i..<DESIZE * i + DESIZE], s)"
    by (subst readi_file_mapped) (use d le in \<open>auto simp: dir_ok_def Let_def\<close>)
  finally show ?thesis using i by (simp add: entries_def dirent_at_def)
qed

lemma dir_scan_from:
  assumes d: "dir_ok s k"
  shows "i \<le> i_size (icache s ! k) div DESIZE \<Longrightarrow> dir_scan msg P k (DESIZE * i) s =
    (case find_idx P (drop i (entries s (icache s ! k))) of
       None \<Rightarrow> Inr (i_size (icache s ! k), None, s)
     | Some j \<Rightarrow> Inr (DESIZE * (i + j), Some (entries s (icache s ! k) ! (i + j)), s))"
proof (induction "i_size (icache s ! k) div DESIZE - i" arbitrary: i)
  case 0
  let ?n = "i_size (icache s ! k) div DESIZE"
  have "i = ?n" using 0 by simp
  moreover have "DESIZE * ?n = i_size (icache s ! k)" using d by (auto simp: dir_ok_def)
  ultimately show ?case by (subst dir_scan.simps) (simp add: entries_def)
next
  case (Suc m)
  let ?es = "entries s (icache s ! k)" and ?n = "i_size (icache s ! k) div DESIZE"
  have i: "i < ?n" using Suc.hyps(2) by simp
  have lt: "DESIZE * i < i_size (icache s ! k)" using i by (simp add: less_eq_div_iff_mult_less_eq [symmetric])
  have dr: "drop i ?es = ?es ! i # drop (Suc i) ?es" 
    by (rule Cons_nth_drop_Suc [symmetric]) (use i in \<open>simp add: entries_def\<close>)
  have e: "dir_scan msg P k (DESIZE * i) s =
      (if P (?es ! i) then Inr (DESIZE * i, Some (?es ! i), s) else dir_scan msg P k (DESIZE * Suc i) s)"
    using lt dir_read [OF d i] by (subst dir_scan.simps) (simp add: algebra_simps)
  show ?case
  proof (cases "P (?es ! i)")
    case True
    then show ?thesis using e dr by simp
  next
    case False
    have "dir_scan msg P k (DESIZE * Suc i) s = (case find_idx P (drop (Suc i) ?es) of
       None \<Rightarrow> Inr (i_size (icache s ! k), None, s)
     | Some j \<Rightarrow> Inr (DESIZE * (Suc i + j), Some (?es ! (Suc i + j)), s))"
      by (rule Suc.hyps(1)) (use Suc.hyps(2) i in auto)
    then show ?thesis using e dr False by (simp split: option.splits)
  qed
qed

lemma dir_scan_ok:
  assumes "dir_ok s k"
  shows "dir_scan msg P k 0 s = (case find_idx P (entries s (icache s ! k)) of
       None \<Rightarrow> Inr (i_size (icache s ! k), None, s)
     | Some j \<Rightarrow> Inr (DESIZE * j, Some (entries s (icache s ! k) ! j), s))"
  using dir_scan_from [OF assms, of 0] by (auto split: option.splits)

definition named :: "byte list \<Rightarrow> byte list \<Rightarrow> bool" where
  "named name de \<longleftrightarrow> de_inum de \<noteq> 0 \<and> take DIRSIZ (c_str name) = c_str (de_name de)"

lemma named_iff: "named name de \<longleftrightarrow> de_inum de \<noteq> 0 \<and> namecmp name (de_name de) = 0"
proof -
  have "length (c_str (de_name de)) \<le> DIRSIZ"
    using length_takeWhile_le [of "\<lambda>c. c \<noteq> 0" "de_name de"] by (simp add: c_str_def de_name_def)
  then show ?thesis by (simp add: named_def namecmp_def strncmp_eq)
qed

definition lookup_ref :: "nat \<Rightarrow> byte list \<Rightarrow> fs \<Rightarrow> ((nat \<times> nat) option \<times> fs) res" where
  "lookup_ref k name s = (case find_idx (named name) (entries s (icache s ! k)) of
     None \<Rightarrow> Inr (None, s)
   | Some i \<Rightarrow> bindR (iget (i_dev (icache s ! k)) (de_inum (entries s (icache s ! k) ! i)) s)
       (\<lambda>(j, s2). Inr (Some (j, DESIZE * i), s2)))"

lemma dirlookup_ref:
  assumes "dir_ok s k"
  shows "dirlookup k name s = lookup_ref k name s"
proof -
  have "(\<lambda>de. de_inum de \<noteq> 0 \<and> namecmp name (de_name de) = 0) = named name"
    using named_iff by blast
  moreover have "i_type (icache s ! k) = T_DIR" using assms by (simp add: dir_ok_def)
  ultimately show ?thesis
    unfolding dirlookup_def lookup_ref_def dir_scan_ok [OF assms] by (auto split: option.splits)
qed

text \<open>\<open>dirlookup\<close> is a search in the list of entries: in a directory without holes it
  returns the inode and the offset of the first entry in use with that name, names compared up to 14
  characters, and nothing when there is none; the directory and the disk are not changed.\<close>

theorem dirlookup_finds:
  assumes "dir_ok s k"
  shows "dirlookup k name s = (case find_idx (\<lambda>de. de_inum de \<noteq> 0 \<and> take DIRSIZ (c_str name) = c_str (de_name de))
       (entries s (icache s ! k)) of
     None \<Rightarrow> Inr (None, s)
   | Some i \<Rightarrow> bindR (iget (i_dev (icache s ! k)) (de_inum (entries s (icache s ! k) ! i)) s)
       (\<lambda>(j, s2). Inr (Some (j, DESIZE * i), s2)))"
proof -
  have "(\<lambda>de. de_inum de \<noteq> 0 \<and> take DIRSIZ (c_str name) = c_str (de_name de)) = named name"
    by (rule ext) (simp add: named_def)
  then show ?thesis using dirlookup_ref [OF assms] by (simp add: lookup_ref_def)
qed

definition demo_dir :: fs where
  "demo_dir = demo_fs\<lparr>icache := [demo_ip\<lparr>i_type := T_DIR\<rparr>]\<rparr>"

lemma demo_dir_ok: "dir_ok demo_dir 0"
  by (simp add: dir_ok_def demo_dir_def)

theorem dirlookup_finds_witness: "dirlookup 0 [46] demo_dir = Inr (None, demo_dir)"
  using dirlookup_finds [OF demo_dir_ok, of "[46]"] by (simp add: entries_def demo_dir_def)

section \<open>Linking\<close>

lemma mk_dirent:
  assumes "inum < 65536"
  shows "length (mk_dirent inum name) = DESIZE" "de_inum (mk_dirent inum name) = inum"
    "c_str (de_name (mk_dirent inum name)) = take DIRSIZ (c_str name)"
proof -
  show "length (mk_dirent inum name) = DESIZE" by (simp add: mk_dirent_def)
  have "inum mod 256 + 256 * (inum div 256 mod 256) = inum"
    using assms mod_mult2_eq [of inum 256 256] by simp
  then show "de_inum (mk_dirent inum name) = inum" by (simp add: mk_dirent_def de_inum_def unat_of_nat8)
  show "c_str (de_name (mk_dirent inum name)) = take DIRSIZ (c_str name)"
    by (simp add: mk_dirent_def de_name_def c_str_strncpy)
qed

text \<open>Writing one entry at a multiple of 16 replaces or appends it.\<close>

lemma write_entry:
  fixes s :: fs and k :: nat
  defines "ip \<equiv> icache s ! k"
  assumes d: "dir_ok s k" and t: "tree_ok s (i_addrs ip)" "layout_ok s" "i_inum ip < sb_ninodes (sb s)"
    and i: "i \<le> i_size ip div DESIZE" and le: "DESIZE * i + DESIZE \<le> MAXFILE * BSIZE" and de: "length de = DESIZE"
    and room: "log_room s 13" "4 \<le> nfree s"
  shows "\<exists>s' ad'. writei_data k de (DESIZE * i) s = Inr (int DESIZE, s') \<and> dir_ok s' k \<and>
    icache s' = (icache s)[k := ip\<lparr>i_addrs := ad', i_size := max (i_size ip) (DESIZE * i + DESIZE)\<rparr>] \<and>
    entries s' (icache s' ! k) = (if i < i_size ip div DESIZE then (entries s ip)[i := de] else entries s ip @ [de])"
proof -
  have k: "k < length (icache s)" and ty: "i_type ip = T_DIR" and sz: "i_size ip = DESIZE * (i_size ip div DESIZE)"
    "i_size ip \<le> MAXFILE * BSIZE"
    using d by (auto simp: dir_ok_def ip_def)
  have nb: "nblks (DESIZE * i) (length de) = 1"
  proof -
    have "(DESIZE * i + DESIZE - 1) div BSIZE = DESIZE * i div BSIZE"
    proof -
      have "DESIZE * i = 512 * (i div 32) + 16 * (i mod 32)" using mult_div_mod_eq [of 32 i] by linarith
      moreover have "i mod 32 < 32" by simp
      ultimately show ?thesis by simp
    qed
    then show ?thesis by (simp add: nblks_def de)
  qed
  have off: "DESIZE * i \<le> i_size ip" using i sz(1) by linarith
  obtain s' ad' where w: "writei_file k de (DESIZE * i) s = Inr (int (length de), s')"
    "icache s' = (icache s)[k := ip\<lparr>i_addrs := ad', i_size := max (i_size ip) (DESIZE * i + length de)\<rparr>]"
    "\<forall>j<MAXFILE * BSIZE. file_byte s' ad' j = (if DESIZE * i \<le> j \<and> j < DESIZE * i + length de then de ! (j - DESIZE * i)
       else file_byte s (i_addrs ip) j)"
    "\<forall>j<MAXFILE * BSIZE. DESIZE * i \<le> j \<and> j < DESIZE * i + length de \<longrightarrow> block_of s' ad' (j div BSIZE) \<noteq> 0"
    "\<forall>bn<MAXFILE. block_of s (i_addrs ip) bn \<noteq> 0 \<longrightarrow> block_of s' ad' bn \<noteq> 0"
    using write_file_ok [of s k "DESIZE * i" de, folded ip_def] d t off le room nb de
    by (auto simp: ip_def dir_ok_def)
  have ip': "icache s' ! k = ip\<lparr>i_addrs := ad', i_size := max (i_size ip) (DESIZE * i + DESIZE)\<rparr>"
    using w(2) k de by simp
  let ?n = "i_size ip div DESIZE"
  have sz': "max (i_size ip) (DESIZE * i + DESIZE) = DESIZE * (if i < ?n then ?n else Suc i)"
    using sz(1) i by (cases "i < ?n") auto
  have ent: "dirent_at s' ad' (DESIZE * j) = (if j = i then de else dirent_at s (i_addrs ip) (DESIZE * j))"
    if j: "j < (if i < ?n then ?n else Suc i)" for j
  proof (rule nth_equalityI)
    show "length (dirent_at s' ad' (DESIZE * j)) = length (if j = i then de else dirent_at s (i_addrs ip) (DESIZE * j))"
      using de by (simp add: dirent_at_def)
    fix x assume "x < length (dirent_at s' ad' (DESIZE * j))"
    then have x: "x < DESIZE" by (simp add: dirent_at_def)
    have b: "DESIZE * j + x < MAXFILE * BSIZE" using j x le sz i by (auto split: if_splits)
    show "dirent_at s' ad' (DESIZE * j) ! x = (if j = i then de else dirent_at s (i_addrs ip) (DESIZE * j)) ! x"
    proof (cases "j = i")
      case True
      then show ?thesis using x b w(3) de by (simp add: dirent_at_def)
    next
      case False
      then have n: "\<not> (DESIZE * i \<le> DESIZE * j + x \<and> DESIZE * j + x < DESIZE * i + DESIZE)" using x by linarith
      have "file_byte s' ad' (DESIZE * j + x) = file_byte s (i_addrs ip) (DESIZE * j + x)"
        using w(3) [rule_format, OF b] unfolding de if_not_P [OF n] .
      then show ?thesis using False x by (simp add: dirent_at_def)
    qed
  qed
  have e': "entries s' (icache s' ! k) = (if i < ?n then (entries s ip)[i := de] else entries s ip @ [de])"
  proof (rule nth_equalityI)
    show "length (entries s' (icache s' ! k)) = length (if i < ?n then (entries s ip)[i := de] else entries s ip @ [de])"
      using i by (simp add: entries_def ip' sz' del: max_absorb1 max_absorb2)
    fix j assume "j < length (entries s' (icache s' ! k))"
    then have j: "j < (if i < ?n then ?n else Suc i)" by (simp add: entries_def ip' sz')
    then have "entries s' (icache s' ! k) ! j = dirent_at s' ad' (DESIZE * j)" by (simp add: entries_def ip' sz')
    then show "entries s' (icache s' ! k) ! j = (if i < ?n then (entries s ip)[i := de] else entries s ip @ [de]) ! j"
      using ent [OF j] j i by (auto simp: entries_def nth_append nth_list_update)
  qed
  have m: "block_of s' ad' (j div BSIZE) \<noteq> 0" if "j < DESIZE * (if i < ?n then ?n else Suc i)" for j
  proof (cases "j < i_size ip")
    case True
    then have "block_of s (i_addrs ip) (j div BSIZE) \<noteq> 0" "j div BSIZE < MAXFILE"
      using d sz(2) by (auto simp: dir_ok_def ip_def intro: div_less_MAXFILE)
    then show ?thesis using w(5) by blast
  next
    case False
    then have "DESIZE * i \<le> j \<and> j < DESIZE * i + length de" using that sz(1) i de by (auto split: if_splits)
    then show ?thesis using w(4) le de by auto
  qed
  have "dir_ok s' k"
    unfolding dir_ok_def ip'
  proof (intro conjI allI impI)
    show "k < length (icache s')" using k w(2) by simp
  qed (use ty m le sz i sz' in \<open>auto split: if_splits\<close>)
  moreover have "writei_data k de (DESIZE * i) s = Inr (int DESIZE, s')"
    using w(1) ty de by (simp add: writei_file_def ip_def)
  ultimately show ?thesis
    by (intro exI [of _ s'] exI [of _ ad'] conjI) (use e' w(2) de in simp_all)
qed

lemma link_slot:
  assumes "find_idx (named name) es = None" "named name de"
  shows "find_idx (named name) (if i < length es then es[i := de] else es @ [de]) = Some (if i < length es then i else length es)"
  using assms unfolding find_idx_None find_idx_Some
  by (auto simp: nth_list_update nth_append)

text \<open>C37: linking a fresh name works and is found again: on a well-formed directory, with
  room for one more entry, \<open>dirlink\<close> returns 0, the entry goes into the first unused slot or to the end, no
  other entry changes, and \<open>dirlookup\<close> then finds exactly this inode number under the name.\<close>

theorem dirlink_dirlookup:
  assumes "dir_ok s k" "tree_ok s (i_addrs (icache s ! k))" "layout_ok s" "i_inum (icache s ! k) < sb_ninodes (sb s)"
    and "log_room s 13" "4 \<le> nfree s" "i_size (icache s ! k) + DESIZE \<le> MAXFILE * BSIZE"
    and "find_idx (named name) (entries s (icache s ! k)) = None" "0 < inum" "inum < 65536"
  shows "\<exists>s' de. dirlink k name inum s = Inr (0, s') \<and> named name de \<and> de_inum de = inum \<and>
    entries s' (icache s' ! k) = (case find_idx (\<lambda>de. de_inum de = 0) (entries s (icache s ! k)) of
       Some i \<Rightarrow> (entries s (icache s ! k))[i := de] | None \<Rightarrow> entries s (icache s ! k) @ [de]) \<and>
    (\<exists>off. dirlookup k name s' = bindR (iget (i_dev (icache s' ! k)) inum s') (\<lambda>(j, s2). Inr (Some (j, off), s2)))"
proof -
  let ?ip = "icache s ! k"
  let ?es = "entries s ?ip" and ?n = "i_size (icache s ! k) div DESIZE"
  have len: "length ?es = ?n" by (simp add: entries_def)
  have sz: "i_size ?ip = DESIZE * ?n" using assms(1) by (auto simp: dir_ok_def)
  let ?de = "mk_dirent inum name"
  have nm: "named name ?de" using mk_dirent [OF assms(10)] assms(9) by (simp add: named_def)
  have l: "dirlookup k name s = Inr (None, s)" using dirlookup_ref [OF assms(1)] assms(8) by (simp add: lookup_ref_def)
  obtain i where i: "dir_scan ''dirlink read'' (\<lambda>de. de_inum de = 0) k 0 s = Inr (DESIZE * i, map_option (nth ?es) (find_idx (\<lambda>de. de_inum de = 0) ?es), s)"
    "i = (case find_idx (\<lambda>de. de_inum de = 0) ?es of Some j \<Rightarrow> j | None \<Rightarrow> ?n)"
    using dir_scan_ok [OF assms(1), of "''dirlink read''"] sz by (auto split: option.splits)
  have ile: "i \<le> ?n" using i(2) len find_idx_SomeD [of "\<lambda>de. de_inum de = 0" ?es] by (auto split: option.splits)
  have "DESIZE * i + DESIZE \<le> MAXFILE * BSIZE" using ile sz assms(7) by linarith
  then obtain s' ad' where w: "writei_data k ?de (DESIZE * i) s = Inr (int DESIZE, s')" "dir_ok s' k"
    "icache s' = (icache s)[k := ?ip\<lparr>i_addrs := ad', i_size := max (i_size ?ip) (DESIZE * i + DESIZE)\<rparr>]"
    "entries s' (icache s' ! k) = (if i < ?n then ?es[i := ?de] else ?es @ [?de])"
    using write_entry [OF assms(1-4) ile _ mk_dirent(1) [OF assms(10)] assms(5,6)] by blast
  have dl: "dirlink k name inum s = Inr (0, s')" using l i(1) w(1) by (simp add: dirlink_def)
  have es': "entries s' (icache s' ! k) = (case find_idx (\<lambda>de. de_inum de = 0) ?es of
       Some i \<Rightarrow> ?es[i := ?de] | None \<Rightarrow> ?es @ [?de])"
    using w(4) i(2) len find_idx_SomeD [of "\<lambda>de. de_inum de = 0" ?es] by (auto split: option.splits)
  have f: "find_idx (named name) (entries s' (icache s' ! k)) = Some (if i < length ?es then i else length ?es)"
    using link_slot [OF assms(8) nm, of i] w(4) len by simp
  have "entries s' (icache s' ! k) ! (if i < length ?es then i else length ?es) = ?de"
    using w(4) len by (simp add: nth_append)
  then have "dirlookup k name s' = bindR (iget (i_dev (icache s' ! k)) inum s')
      (\<lambda>(j, s2). Inr (Some (j, DESIZE * (if i < length ?es then i else length ?es)), s2))"
    using dirlookup_ref [OF w(2)] f mk_dirent(2) [OF assms(10)] by (simp add: lookup_ref_def)
  then show ?thesis using dl nm mk_dirent(2) [OF assms(10)] es' by blast
qed

lemma demo_upd:
  fixes ics :: "inode list"
  defines "s \<equiv> demo_fs\<lparr>icache := ics\<rparr>"
  shows "layout_ok s" "log_room s k \<longleftrightarrow> k \<le> 29" "4 \<le> nfree s" "sb s = demo_sb" "log_covers s {3, 4}"
proof -
  have b: "BBLOCK a s = BBLOCK a demo_fs" "IBLOCK i s = IBLOCK i demo_fs" "sb s = sb demo_fs" "is_free s a = is_free demo_fs a"
    "meta s = meta demo_fs" for a i
    by (simp_all add: s_def BBLOCK_def IBLOCK_def is_free_def meta_def)
  show "layout_ok s" using demo_layout unfolding layout_ok_def b .
  show "4 \<le> nfree s" using demo_nfree unfolding nfree_def b .
  show "log_room s k \<longleftrightarrow> k \<le> 29" using demo_room [of k] by (simp add: log_room_def log_cap_def s_def)
  show "sb s = demo_sb" by (simp add: s_def demo_fs_def)
  show "log_covers s {3, 4}" using demo_covers by (simp add: log_covers_def log_cap_def s_def)
qed

theorem dirlink_dirlookup_witness:
  "\<exists>s'. dirlink 0 [97] 7 demo_dir = Inr (0, s') \<and> length (entries s' (icache s' ! 0)) = 1"
proof -
  have ic: "icache demo_dir ! 0 = demo_ip\<lparr>i_type := T_DIR\<rparr>" by (simp add: demo_dir_def)
  have e: "entries demo_dir (icache demo_dir ! 0) = []" by (simp add: entries_def ic)
  show ?thesis
    using dirlink_dirlookup [OF demo_dir_ok, of "[97]" 7] demo_upd [of "[demo_ip\<lparr>i_type := T_DIR\<rparr>]", folded demo_dir_def]
    unfolding e by (auto simp: ic demo_sb_def)
qed

end
