(* ===== verification/Fs_Path_Props.thy ===== *)
theory Fs_Path_Props
  imports Fs_Dir_Props
begin

text \<open>
  Path names and symbolic links of Project03-FileSystem/fs.c: the walk of \<open>namex\<close> over the
  elements of a path, the references to cached inodes that a walk takes, and what a read
  through a link does to them and to the console.
\<close>

section \<open>The elements of a path\<close>

fun split_path :: "byte list \<Rightarrow> byte list list" where
  "split_path [] = [[]]"
| "split_path (c # cs) = (if c = slash then [] # split_path cs else (c # hd (split_path cs)) # tl (split_path cs))"

definition elems :: "byte list \<Rightarrow> byte list list" where
  "elems p = map (take DIRSIZ) (filter (\<lambda>e. e \<noteq> []) (split_path p))"

lemma split_path_takeWhile:
  "split_path p = takeWhile (\<lambda>c. c \<noteq> slash) p #
     (case dropWhile (\<lambda>c. c \<noteq> slash) p of [] \<Rightarrow> [] | c # cs \<Rightarrow> split_path cs)"
  by (induction p) (auto)

lemma elems_slash: "elems (slash # p) = elems p"
  by (simp add: elems_def)

lemma elems_dropWhile: "elems (dropWhile (\<lambda>c. c = slash) p) = elems p"
  by (induction p) (auto simp: elems_slash)

lemma elems_nonslash:
  assumes "s \<noteq> []" "hd s \<noteq> slash"
  shows "elems s = take DIRSIZ (takeWhile (\<lambda>c. c \<noteq> slash) s) # elems (dropWhile (\<lambda>c. c \<noteq> slash) s)"
proof -
  obtain c cs where s: "s = c # cs" "c \<noteq> slash" using assms by (cases s) auto
  show ?thesis
  proof (cases "dropWhile (\<lambda>c. c \<noteq> slash) s")
    case Nil
    then show ?thesis unfolding elems_def by (subst split_path_takeWhile, unfold Nil) (use s in simp)
  next
    case (Cons d ds)
    then have "d = slash" using hd_dropWhile [of "\<lambda>c. c \<noteq> slash" s] by simp
    then have "elems (dropWhile (\<lambda>c. c \<noteq> slash) s) = elems ds" using Cons elems_slash by simp
    then show ?thesis using s Cons by (subst (1) elems_def, subst split_path_takeWhile) (simp add: elems_def)
  qed
qed

lemma skipelem_elems:
  "case skipelem p of None \<Rightarrow> elems p = [] | Some (q, e) \<Rightarrow> elems p = e # elems q \<and> (q = [] \<longleftrightarrow> elems q = [])"
proof -
  let ?s = "dropWhile (\<lambda>c. c = slash) p"
  show ?thesis
  proof (cases "?s = []")
    case True
    have "elems p = elems []" using elems_dropWhile [of p] unfolding True by (rule sym)
    then have "elems p = []" by (simp only: elems_def split_path.simps filter.simps list.map) simp
    moreover have "skipelem p = None" unfolding skipelem_def Let_def if_P [OF True] ..
    ultimately show ?thesis by (simp only: option.case)
  next
    case False
    have hd: "hd ?s \<noteq> slash" using hd_dropWhile [OF False] by simp
    let ?q = "dropWhile (\<lambda>c. c = slash) (dropWhile (\<lambda>c. c \<noteq> slash) ?s)"
    have "elems p = take DIRSIZ (takeWhile (\<lambda>c. c \<noteq> slash) ?s) # elems ?q"
      using elems_nonslash [OF False hd] unfolding elems_dropWhile .
    moreover have "?q = [] \<longleftrightarrow> elems ?q = []"
    proof (cases "?q = []")
      case False
      have "hd ?q \<noteq> slash" using hd_dropWhile [OF False] by blast
      from elems_nonslash [OF False this] have "elems ?q \<noteq> []" by (simp only: list.distinct) simp
      then show ?thesis using False by blast
    next
      case True
      then show ?thesis by (simp only: elems_def split_path.simps) simp
    qed
    moreover have "skipelem p = Some (?q, take DIRSIZ (takeWhile (\<lambda>c. c \<noteq> slash) ?s))"
      unfolding skipelem_def Let_def if_not_P [OF False] ..
    ultimately show ?thesis by (simp only: option.case prod.case)
  qed
qed

text \<open>The walk, one element at a time.\<close>

fun walk_elems :: "bool \<Rightarrow> byte list \<Rightarrow> byte list list \<Rightarrow> nat \<Rightarrow> fs \<Rightarrow> ((nat \<times> byte list) option \<times> fs) res" where
  "walk_elems par name [] k s = (if par then bindR (iput k s) (\<lambda>s1. Inr (None, s1)) else Inr (Some (k, name), s))"
| "walk_elems par name (e # es) k s =
     bindR (ilock k s) (\<lambda>s1.
     if i_type (icache s1 ! k) \<noteq> T_DIR then bindR (iunlockput k s1) (\<lambda>s2. Inr (None, s2))
     else if par \<and> es = [] then bindR (iunlock k s1) (\<lambda>s2. Inr (Some (k, e), s2))
     else bindR (dirlookup k e s1) (\<lambda>(r, s2). bindR (iunlockput k s2) (\<lambda>s3.
            case r of None \<Rightarrow> Inr (None, s3) | Some (next, _) \<Rightarrow> walk_elems par e es next s3)))"

lemma namex_loop_elems: "namex_loop par name path k s = walk_elems par name (elems path) k s"
proof (induction par name path k s rule: namex_loop.induct)
  case (1 par name path k s)
  note E = skipelem_elems [of path]
  show ?case
  proof (cases "skipelem path")
    case None
    then show ?thesis using E by (subst namex_loop.simps) simp
  next
    case (Some x)
    obtain q e where x: "x = (q, e)" by force
    have el: "elems path = e # elems q" "q = [] \<longleftrightarrow> elems q = []" using E Some x by auto
    have ih: "namex_loop par e q next s3 = walk_elems par e (elems q) next s3"
      if "ilock k s = Inr s1" "\<not> i_type (icache s1 ! k) \<noteq> T_DIR" "\<not> (par \<and> q = [])"
        "dirlookup k e s1 = Inr (Some (next, off), s2)" "iunlockput k s2 = Inr s3" for s1 s2 s3 "next" off
      using 1(1) [OF Some x [symmetric] that(1) that(2,3,4) refl refl refl that(5)] .
    show ?thesis
      by (subst namex_loop.simps, unfold Some option.case x prod.case el(1) walk_elems.simps)
        (rule bindR_cong [OF refl], insert ih el(2), auto intro!: bindR_cong split: option.splits)
  qed
qed

text \<open>C38: a path is walked element by element: \<open>namex\<close> depends on the path only through
  whether it starts with a slash and through the list of its non-empty elements, each cut to 14 characters; so
  repeated and trailing slashes do not matter, and \<open>nameiparent\<close> stops before the last element.\<close>

theorem namex_elements:
  "namex path par s = bindR (if char_at path = slash then iget ROOTDEV ROOTINO s else Inr (idup (cwd s) s))
     (\<lambda>(k, s1). walk_elems par [] (elems path) k s1)"
  by (simp add: namex_def namex_loop_elems)

section \<open>References\<close>

definition total_refs :: "fs \<Rightarrow> int" where
  "total_refs s = sum_list (map i_ref (icache s))"

definition refs_by :: "int \<Rightarrow> fs \<Rightarrow> fs \<Rightarrow> bool" where
  "refs_by d s s' \<longleftrightarrow> length (icache s') = length (icache s) \<and> cwd s' = cwd s \<and> total_refs s' = total_refs s + d"

lemma refs_by_refl: "refs_by 0 s s"
  by (simp add: refs_by_def)

lemma refs_by_trans: "refs_by d s s' \<Longrightarrow> refs_by e s' s'' \<Longrightarrow> refs_by (d + e) s s''"
  by (simp add: refs_by_def)

lemma refs_by_length: "refs_by d s s' \<Longrightarrow> length (icache s') = length (icache s)"
  by (simp add: refs_by_def)

lemma sum_list_upd: "k < length xs \<Longrightarrow> sum_list (xs[k := x]) = sum_list xs + x - (xs ! k :: int)"
  by (induction xs arbitrary: k) (auto simp: nth_Cons split: nat.splits)

lemma refs_by_upd: "k < length (icache s) \<Longrightarrow> i_ref (f (icache s ! k)) = i_ref (icache s ! k) + d \<Longrightarrow> refs_by d s (upd_ip k f s)"
  by (simp add: refs_by_def total_refs_def map_update sum_list_upd)

lemma upd_ip_out: "\<not> k < length (icache s) \<Longrightarrow> upd_ip k f s = s"
  by (simp add: upd_ip_def list_update_beyond)

lemma refs_by_upd0: "i_ref (f (icache s ! k)) = i_ref (icache s ! k) \<Longrightarrow> refs_by 0 s (upd_ip k f s)"
  using refs_by_upd [of k s f 0] by (cases "k < length (icache s)") (simp_all add: upd_ip_out refs_by_refl)

lemma refs_by_frame: "frame s s' \<Longrightarrow> refs_by 0 s s'"
  using frameD [of s s'] by (simp add: refs_by_def total_refs_def)

lemma refs_by_same: "same_but k s s' \<Longrightarrow> refs_by 0 s s'"
  by (cases "k < length (icache s)")
    (auto simp: same_but_def refs_by_def total_refs_def map_update sum_list_upd list_update_beyond)

lemma refs_ilock: "ilock k s = Inr s' \<Longrightarrow> refs_by 0 s s'"
  using refs_by_trans [OF refs_by_upd0 refs_by_upd0, of "\<lambda>ip. ip\<lparr>i_locked := True\<rparr>" s k]
    refs_by_upd0 [of "\<lambda>ip. ip\<lparr>i_locked := True\<rparr>" s k]
  by (auto simp: ilock_def guardR_eq_Inr Let_def load_ip_def split: if_splits)

lemma refs_iunlock: "iunlock k s = Inr s' \<Longrightarrow> refs_by 0 s s'"
  by (auto simp: iunlock_def guardR_eq_Inr intro: refs_by_upd0)

lemma bfree_frame: "bfree b s = Inr s' \<Longrightarrow> frame s s'"
  by (auto simp: bfree_def Let_def guardR_eq_Inr dest: log_write_frame)

lemma free_ind_frame: "free_ind b js s = Inr s' \<Longrightarrow> frame s s'"
proof (induction b js s rule: free_ind.induct)
  case (2 b j js s)
  then show ?case by (auto simp: bindR_eq_Inr split: if_splits dest: bfree_frame intro: frame_trans)
qed simp

lemma free_ind2_frame: "free_ind2 b js s = Inr s' \<Longrightarrow> frame s s'"
proof (induction b js s rule: free_ind2.induct)
  case (2 b j js s)
  show ?case
  proof (cases "rdw (blocks s b) j = 0")
    case False
    then obtain s1 s2 where r: "free_ind (rdw (blocks s b) j) [0..<NINDIRECT] s = Inr s1"
      "bfree (rdw (blocks s1 b) j) s1 = Inr s2" "free_ind2 b js s2 = Inr s'"
      using 2(3) by (auto simp: bindR_eq_Inr)
    have "frame s2 s'" by (rule 2(1) [OF _ r]) (use False in simp)
    then show ?thesis using frame_trans [OF frame_trans [OF free_ind_frame [OF r(1)] bfree_frame [OF r(2)]]] by blast
  qed (use 2 in auto)
qed simp

lemma free_ind3_frame: "free_ind3 b js s = Inr s' \<Longrightarrow> frame s s'"
proof (induction b js s rule: free_ind3.induct)
  case (2 b j js s)
  show ?case
  proof (cases "rdw (blocks s b) j = 0")
    case False
    then obtain s1 s2 where r: "free_ind2 (rdw (blocks s b) j) [0..<NINDIRECT] s = Inr s1"
      "bfree (rdw (blocks s1 b) j) s1 = Inr s2" "free_ind3 b js s2 = Inr s'"
      using 2(3) by (auto simp: bindR_eq_Inr)
    have "frame s2 s'" by (rule 2(1) [OF _ r]) (use False in simp)
    then show ?thesis using frame_trans [OF frame_trans [OF free_ind2_frame [OF r(1)] bfree_frame [OF r(2)]]] by blast
  qed (use 2 in auto)
qed simp

lemma free_direct_frame: "free_direct js ad s = Inr (ad', s') \<Longrightarrow> frame s s'"
proof (induction js ad s rule: free_direct.induct)
  case (2 i "is" ad s)
  then show ?case by (auto simp: bindR_eq_Inr split: if_splits dest: bfree_frame intro: frame_trans)
qed simp

lemma free_slot_frame:
  assumes "\<And>b js s s'. loop b js s = Inr s' \<Longrightarrow> frame s s'" "free_slot loop r ad s = Inr (ad', s')"
  shows "frame s s'"
  using assms(2) by (auto simp: free_slot_def bindR_eq_Inr split: if_splits dest!: bfree_frame assms(1) intro: frame_trans)

lemma free_tree_frame: "free_tree ad s = Inr (ad', s') \<Longrightarrow> frame s s'"
proof -
  assume "free_tree ad s = Inr (ad', s')"
  then obtain ad1 s1 ad2 s2 ad3 s3 where r: "free_direct [0..<NDIRECT] ad s = Inr (ad1, s1)"
    "free_slot free_ind NDIRECT ad1 s1 = Inr (ad2, s2)" "free_slot free_ind2 (NDIRECT + 1) ad2 s2 = Inr (ad3, s3)"
    "free_slot free_ind3 (NDIRECT + 1 + 1) ad3 s3 = Inr (ad', s')"
    by (auto simp: free_tree_def bindR_eq_Inr)
  have "frame s s2" using free_direct_frame [OF r(1)] free_slot_frame [OF free_ind_frame r(2)] by (rule frame_trans)
  moreover have "frame s2 s'"
    using free_slot_frame [OF free_ind2_frame r(3)] free_slot_frame [OF free_ind3_frame r(4)] by (rule frame_trans)
  ultimately show ?thesis by (rule frame_trans)
qed

lemma refs_iupdate: "iupdate k s = Inr s' \<Longrightarrow> refs_by 0 s s'"
  by (auto simp: iupdate_def Let_def dest: log_write_frame intro: refs_by_frame)

lemma refs_upd_iupdate:
  assumes "iupdate k (upd_ip k f s) = Inr s'" "i_ref (f (icache s ! k)) = i_ref (icache s ! k)"
  shows "refs_by 0 s s'"
  using refs_by_trans [OF refs_by_upd0 [of f s k, OF assms(2)] refs_iupdate [OF assms(1)]] by simp

lemma refs_itrunc: "itrunc k s = Inr s' \<Longrightarrow> refs_by 0 s s'"
proof -
  assume "itrunc k s = Inr s'"
  then obtain ad s1 where r: "free_tree (i_addrs (icache s ! k)) s = Inr (ad, s1)"
    "iupdate k (upd_ip k (\<lambda>ip. ip\<lparr>i_addrs := ad, i_size := 0\<rparr>) s1) = Inr s'"
    by (auto simp: itrunc_def bindR_eq_Inr)
  show ?thesis
    using refs_by_trans [OF refs_by_frame [OF free_tree_frame [OF r(1)]] refs_upd_iupdate [OF r(2)]] by simp
qed

lemma refs_iput:
  assumes "iput k s = Inr s'" "k < length (icache s)"
  shows "refs_by (-1) s s'"
proof -
  obtain s3 where s3: "s' = upd_ip k (\<lambda>ip. ip\<lparr>i_ref := i_ref ip - 1\<rparr>) s3" "refs_by 0 s s3"
  proof (cases "i_valid (icache s ! k) \<and> i_nlink (icache s ! k) = 0 \<and> i_ref (icache s ! k) = 1")
    case True
    then obtain s1 s2 where r: "itrunc k s = Inr s1" "iupdate k (upd_ip k (\<lambda>ip. ip\<lparr>i_type := 0\<rparr>) s1) = Inr s2"
      "s' = upd_ip k (\<lambda>ip. ip\<lparr>i_ref := i_ref ip - 1\<rparr>) (upd_ip k (\<lambda>ip. ip\<lparr>i_valid := False\<rparr>) s2)"
      using assms(1) by (auto simp: iput_def guardR_eq_Inr bindR_eq_Inr)
    have "refs_by 0 s s2" using refs_by_trans [OF refs_itrunc [OF r(1)] refs_upd_iupdate [OF r(2)]] by simp
    then have "refs_by 0 s (upd_ip k (\<lambda>ip. ip\<lparr>i_valid := False\<rparr>) s2)"
      using refs_by_trans [OF _ refs_by_upd0 [of "\<lambda>ip. ip\<lparr>i_valid := False\<rparr>" s2 k]] by fastforce
    then show ?thesis using that r(3) by blast
  next
    case False
    then have "s' = upd_ip k (\<lambda>ip. ip\<lparr>i_ref := i_ref ip - 1\<rparr>) s"
      using assms(1) by (auto simp: iput_def guardR_eq_Inr)
    then show ?thesis using that refs_by_refl by blast
  qed
  have "k < length (icache s3)" using refs_by_length [OF s3(2)] assms(2) by simp
  then have "refs_by (-1) s3 s'" unfolding s3(1) by (rule refs_by_upd) simp
  then show ?thesis using refs_by_trans [OF s3(2)] by fastforce
qed

lemma refs_iget: "iget dev inum s = Inr (k, s') \<Longrightarrow> refs_by 1 s s' \<and> k < length (icache s)"
  by (auto simp: iget_def split: option.splits dest!: find_idx_SomeD intro!: refs_by_upd)

lemma dir_scan_same: "dir_scan msg P k off s = Inr (o', r, s') \<Longrightarrow> same_but k s s'"
proof (induction msg P k off s rule: dir_scan.induct)
  case (1 msg P k off s)
  show ?case
  proof (cases "off < i_size (icache s ! k)")
    case True
    then obtain v de s1 where r: "readi_data k off DESIZE s = Inr (v, de, s1)" "v = int DESIZE"
      "(if P de then Inr (off, Some de, s1) else dir_scan msg P k (off + DESIZE) s1) = Inr (o', r, s')"
      using 1(2) by (subst (asm) dir_scan.simps) (auto simp: bindR_eq_Inr guardR_eq_Inr)
    note R = readi_data_same [OF r(1)]
    show ?thesis
    proof (cases "P de")
      case True
      then show ?thesis using r(3) R by simp
    next
      case False
      then have "same_but k s1 s'" using 1(1) [OF True r(1) refl refl False] r(3) by simp
      then show ?thesis using same_but_trans [OF R] by blast
    qed
  next
    case False
    then show ?thesis using 1(2) by (subst (asm) dir_scan.simps) simp
  qed
qed

lemma refs_dir_scan: "dir_scan msg P k off s = Inr (o', r, s') \<Longrightarrow> refs_by 0 s s'"
  by (rule refs_by_same [OF dir_scan_same])

lemma refs_dirlookup:
  assumes "dirlookup k name s = Inr (r, s')"
  shows "case r of None \<Rightarrow> refs_by 0 s s' | Some (j, _) \<Rightarrow> refs_by 1 s s' \<and> j < length (icache s)"
proof -
  obtain off x s1 where d: "dir_scan ''dirlookup read'' (\<lambda>de. de_inum de \<noteq> 0 \<and> namecmp name (de_name de) = 0) k 0 s = Inr (off, x, s1)"
    "(case x of None \<Rightarrow> Inr (None, s1)
       | Some de \<Rightarrow> bindR (iget (i_dev (icache s1 ! k)) (de_inum de) s1) (\<lambda>(j, s2). Inr (Some (j, off), s2))) = Inr (r, s')"
    using assms by (auto simp: dirlookup_def guardR_eq_Inr bindR_eq_Inr)
  note R = refs_dir_scan [OF d(1)]
  show ?thesis
  proof (cases x)
    case None
    then show ?thesis using d(2) R by auto
  next
    case (Some de)
    then obtain j where g: "iget (i_dev (icache s1 ! k)) (de_inum de) s1 = Inr (j, s')" "r = Some (j, off)"
      using d(2) by (auto simp: bindR_eq_Inr)
    then show ?thesis using refs_by_trans [OF R] refs_iget [OF g(1)] refs_by_length [OF R] by fastforce
  qed
qed

lemma refs_iunlockput:
  assumes "iunlockput k s = Inr s'" "k < length (icache s)"
  shows "refs_by (-1) s s'"
proof -
  obtain s1 where r: "iunlock k s = Inr s1" "iput k s1 = Inr s'" using assms(1) by (auto simp: iunlockput_def bindR_eq_Inr)
  note R = refs_iunlock [OF r(1)]
  show ?thesis using refs_by_trans [OF R refs_iput [OF r(2)]] refs_by_length [OF R] assms(2) by simp
qed

lemma refs_walk:
  "walk_elems par name es k s = Inr (r, s') \<Longrightarrow> k < length (icache s) \<Longrightarrow>
   (case r of None \<Rightarrow> refs_by (-1) s s' | Some (j, _) \<Rightarrow> refs_by 0 s s' \<and> j < length (icache s))"
proof (induction es arbitrary: name k s)
  case Nil
  then show ?case by (auto simp: bindR_eq_Inr refs_by_refl split: if_splits dest: refs_iput)
next
  case (Cons e es)
  obtain s1 where l: "ilock k s = Inr s1" using Cons.prems(1) by (auto simp: bindR_eq_Inr)
  note R1 = refs_ilock [OF l]
  have k1: "k < length (icache s1)" using refs_by_length [OF R1] Cons.prems(2) by simp
  consider (nodir) s2 where "iunlockput k s1 = Inr s2" "r = None" "s' = s2"
    | (parent) s2 where "iunlock k s1 = Inr s2" "r = Some (k, e)" "s' = s2"
    | (step) x s2 s3 where "dirlookup k e s1 = Inr (x, s2)" "iunlockput k s2 = Inr s3"
        "(case x of None \<Rightarrow> Inr (None, s3) | Some (next, _) \<Rightarrow> walk_elems par e es next s3) = Inr (r, s')"
    using Cons.prems(1) l by (auto simp: bindR_eq_Inr split: if_splits)
  then show ?case
  proof cases
    case nodir
    then show ?thesis using refs_by_trans [OF R1 refs_iunlockput [OF _ k1]] by fastforce
  next
    case parent
    then show ?thesis using refs_by_trans [OF R1 refs_iunlock] Cons.prems(2) by fastforce
  next
    case step
    note D = refs_dirlookup [OF step(1)]
    have k2: "k < length (icache s2)" using D k1 by (auto split: option.splits simp: refs_by_def)
    note U = refs_iunlockput [OF step(2) k2]
    show ?thesis
    proof (cases x)
      case None
      then show ?thesis using step(3) D refs_by_trans [OF refs_by_trans [OF R1] U] by fastforce
    next
      case (Some y)
      obtain j o' where y: "y = (j, o')" by force
      have D': "refs_by 1 s1 s2" "j < length (icache s1)" using D Some y by auto
      have R: "refs_by 0 s s3" using refs_by_trans [OF refs_by_trans [OF R1 D'(1)] U] by simp
      have "j < length (icache s3)" using D'(2) refs_by_length [OF R] refs_by_length [OF R1] by simp
      then have "case r of None \<Rightarrow> refs_by (-1) s3 s' | Some (j, _) \<Rightarrow> refs_by 0 s3 s' \<and> j < length (icache s3)"
        using Cons.IH [of e j s3] step(3) Some y by simp
      then show ?thesis using refs_by_trans [OF R] refs_by_length [OF R] by (fastforce split: option.splits)
    qed
  qed
qed

lemma refs_namei:
  assumes "namei path s = Inr (r, s')" "cwd s < length (icache s)"
  shows "case r of None \<Rightarrow> refs_by 0 s s' | Some k \<Rightarrow> refs_by 1 s s' \<and> k < length (icache s)"
proof -
  obtain x where x: "namex path False s = Inr (x, s')" "r = map_option fst x"
    using assms(1) by (auto simp: namei_def bindR_eq_Inr)
  obtain k s1 where k: "(if char_at path = slash then iget ROOTDEV ROOTINO s else Inr (idup (cwd s) s)) = Inr (k, s1)"
    "walk_elems False [] (elems path) k s1 = Inr (x, s')"
    using x(1) by (auto simp: namex_def bindR_eq_Inr namex_loop_elems)
  have s1: "refs_by 1 s s1 \<and> k < length (icache s)"
    using k(1) assms(2) by (auto simp: idup_def split: if_splits dest: refs_iget intro!: refs_by_upd)
  then have "k < length (icache s1)" by (simp add: refs_by_def)
  from refs_walk [OF k(2) this] show ?thesis
    using refs_by_trans [of 1 s s1] s1 refs_by_length [of 1 s s1] unfolding x(2) by (fastforce split: option.splits)
qed

text \<open>A path walk takes exactly one reference to a cached inode when it succeeds and none when it
  fails, whatever the path, the directories and the links on disk: \<open>namei\<close> drops the reference to each
  directory it passes through.\<close>

theorem namei_one_reference:
  assumes "namei path s = Inr (r, s')" "cwd s < length (icache s)"
  shows "sum_list (map i_ref (icache s')) = sum_list (map i_ref (icache s)) + (if r = None then 0 else 1)"
  using refs_namei [OF assms] by (auto simp: refs_by_def total_refs_def split: option.splits)

text \<open>A root directory and a link to \<open>/\<close>.\<close>

definition demo_link :: fs where
  "demo_link = demo_fs\<lparr>icache := [demo_ip\<lparr>i_inum := 1, i_type := T_DIR, i_locked := False\<rparr>,
      demo_ip\<lparr>i_inum := 3, i_type := T_SYMLINK, i_size := 1, i_addrs := 47 # replicate 12 0\<rparr>]\<rparr>"

lemma demo_link_sel [simp]: "icache demo_link = [demo_ip\<lparr>i_inum := 1, i_type := T_DIR, i_locked := False\<rparr>,
      demo_ip\<lparr>i_inum := 3, i_type := T_SYMLINK, i_size := 1, i_addrs := 47 # replicate 12 0\<rparr>]"
  "cwd demo_link = 0" "devsw demo_link n = None"
  by (simp_all add: demo_link_def demo_fs_def)

lemma demo_namei: "namei [47] s = bindR (iget ROOTDEV ROOTINO s) (\<lambda>(k, s1). Inr (Some k, s1))"
  by (simp add: namei_def namex_def namex_loop.simps [of False] skipelem_def bindR_assoc case_prod_unfold)

theorem namei_one_reference_witness:
  "\<exists>s'. namei [47] demo_link = Inr (Some 0, s') \<and> sum_list (map i_ref (icache s')) = 3"
proof -
  obtain s' where "namei [47] demo_link = Inr (Some 0, s')" by (auto simp: demo_namei iget_def)
  from namei_one_reference [OF this] this show ?thesis by auto
qed

section \<open>Symbolic links\<close>

lemma refs_relock:
  assumes "relock oip k s = Inr s'"
  shows "refs_by 0 s s'"
proof (cases "oip = k")
  case True
  then show ?thesis using assms refs_by_refl by (simp add: relock_def)
next
  case False
  then obtain s1 where "iunlock k s = Inr s1" "ilock oip s1 = Inr s'" using assms by (auto simp: relock_def bindR_eq_Inr)
  then show ?thesis using refs_by_trans [OF refs_iunlock refs_ilock] by fastforce
qed

lemma refs_follow:
  "follow n oip k s = Inr (t, s') \<Longrightarrow> cwd s < length (icache s) \<Longrightarrow>
   \<exists>d\<ge>0. refs_by d s s' \<and> (i_type (icache s ! k) = T_SYMLINK \<and> t \<noteq> None \<longrightarrow> d > 0) \<and>
     (i_type (icache s ! k) \<noteq> T_SYMLINK \<longrightarrow> d = 0 \<and> t = Some k \<and> s' = s)"
proof (induction n oip k s rule: follow.induct)
  case (1 oip k s)
  show ?case
  proof (cases "i_type (icache s ! k) = T_SYMLINK")
    case True
    then have "relock oip k s = Inr s'" "t = None" using 1(1) by (auto simp: bindR_eq_Inr)
    then show ?thesis using refs_relock True by fastforce
  qed (use 1 refs_by_refl in auto)
next
  case (2 n oip k s)
  show ?case
  proof (cases "i_type (icache s ! k) = T_SYMLINK")
    case False
    then show ?thesis using "2.prems" refs_by_refl by auto
  next
    case True
    then obtain path s1 r s2 where f: "link_path (icache s ! k) = Inr path" "iunlock k s = Inr s1" "namei path s1 = Inr (r, s2)"
      "(case r of None \<Rightarrow> bindR (ilock oip s2) (\<lambda>s3. Inr (None, s3))
        | Some k' \<Rightarrow> bindR (ilock k' s2) (\<lambda>s3. follow n oip k' s3)) = Inr (t, s')"
      using "2.prems"(1) by (auto simp: bindR_eq_Inr)
    note U = refs_iunlock [OF f(2)]
    have c1: "cwd s1 < length (icache s1)" using U "2.prems"(2) by (simp add: refs_by_def)
    note N = refs_namei [OF f(3) c1]
    show ?thesis
    proof (cases r)
      case None
      then obtain s3 where "ilock oip s2 = Inr s3" "t = None" "s' = s3" using f(4) by (auto simp: bindR_eq_Inr)
      then have "refs_by 0 s s'" using refs_by_trans [OF refs_by_trans [OF U] refs_ilock] N None by fastforce
      then show ?thesis using \<open>t = None\<close> True by auto
    next
      case (Some k')
      then obtain s3 where g: "ilock k' s2 = Inr s3" "follow n oip k' s3 = Inr (t, s')" using f(4) by (auto simp: bindR_eq_Inr)
      have R: "refs_by 1 s s3" using refs_by_trans [OF refs_by_trans [OF U] refs_ilock [OF g(1)]] N Some by fastforce
      have c3: "cwd s3 < length (icache s3)" using R "2.prems"(2) by (simp add: refs_by_def)
      have ne: "\<not> i_type (icache s ! k) \<noteq> T_SYMLINK" using True by simp
      obtain d where "d \<ge> 0" "refs_by d s3 s'"
        using "2.IH" [OF ne f(1-3) refl Some g(1) g(2) c3] by blast
      then have "refs_by (1 + d) s s'" using refs_by_trans [OF R] by blast
      then show ?thesis using \<open>d \<ge> 0\<close> True by (intro exI [of _ "1 + d"]) auto
    qed
  qed
qed

lemma refs_consoleread:
  assumes "consoleread d k n s = Inr (r, bs, s')"
  shows "refs_by 0 s s'"
proof -
  obtain s1 where "iunlock k s = Inr s1" "ilock k s1 = Inr s'" using assms by (auto simp: consoleread_def bindR_eq_Inr)
  then show ?thesis using refs_by_trans [OF refs_iunlock refs_ilock] by fastforce
qed

text \<open>A successful \<open>readi\<close> through a symbolic link keeps the reference that \<open>namei\<close> took for
  each link it followed: the references held on the inode cache have grown, so the target's cache slot is never
  recycled and, once unlinked, its blocks are never freed. A read of an inode that is no link leaves the count as it was.\<close>

theorem readi_link_leaks:
  assumes "readi k off n s = Inr (r, bs, s')" "cwd s < length (icache s)"
  shows "(i_type (icache s ! k) = T_SYMLINK \<and> r \<ge> 0 \<longrightarrow>
      sum_list (map i_ref (icache s')) > sum_list (map i_ref (icache s))) \<and>
    (i_type (icache s ! k) \<noteq> T_SYMLINK \<longrightarrow> sum_list (map i_ref (icache s')) = sum_list (map i_ref (icache s)))"
proof -
  obtain t s1 where f: "follow 10 k k s = Inr (t, s1)"
    and rest: "(case t of None \<Rightarrow> Inr (-1, [], s1)
     | Some j \<Rightarrow>
         if i_type (icache s1 ! j) = T_DEV
         then (case dev_of j s1 of
                 None \<Rightarrow> bindR (relock k j s1) (\<lambda>s2. Inr (-1, [], s2))
               | Some d \<Rightarrow> bindR (relock k j s1) (consoleread d j n))
         else bindR (readi_data j off n s1) (\<lambda>(r, bs, s2).
              bindR (relock k j s2) (\<lambda>s3. Inr (r, bs, s3)))) = Inr (r, bs, s')"
    using assms(1) by (auto simp: readi_def bindR_eq_Inr)
  obtain d where d: "d \<ge> 0" "refs_by d s s1" "i_type (icache s ! k) = T_SYMLINK \<and> t \<noteq> None \<longrightarrow> d > 0"
    "i_type (icache s ! k) \<noteq> T_SYMLINK \<longrightarrow> d = 0"
    using refs_follow [OF f assms(2)] by blast
  have "refs_by 0 s1 s'"
  proof (cases t)
    case None
    then show ?thesis using rest refs_by_refl by simp
  next
    case (Some j)
    consider (bad) s2 where "relock k j s1 = Inr s2" "s' = s2"
      | (dev) dv s2 where "relock k j s1 = Inr s2" "consoleread dv j n s2 = Inr (r, bs, s')"
      | (data) s2 where "readi_data j off n s1 = Inr (r, bs, s2)" "relock k j s2 = Inr s'"
      using rest Some by (auto simp: bindR_eq_Inr split: if_splits option.splits)
    then show ?thesis
    proof cases
      case bad
      then show ?thesis using refs_relock by blast
    next
      case dev
      then show ?thesis using refs_by_trans [OF refs_relock refs_consoleread] by fastforce
    next
      case data
      then show ?thesis using refs_by_trans [OF refs_by_same [OF readi_data_same] refs_relock] by fastforce
    qed
  qed
  then have "refs_by d s s'" using refs_by_trans [OF d(2)] by fastforce
  moreover have "t = None \<longrightarrow> r = -1" using rest by auto
  ultimately show ?thesis using d by (auto simp: refs_by_def total_refs_def)
qed

lemma follow_end: "i_type (icache s ! k) \<noteq> T_SYMLINK \<Longrightarrow> follow n oip k s = Inr (Some k, s)"
  by (cases n) auto

lemma demo_readi: "\<exists>s'. readi 1 0 5 demo_link = Inr (0, [], s')"
proof -
  have p: "link_path (icache demo_link ! 1) = Inr [47]"
    by (simp add: link_path_def addr_bytes_def le_bytes_def safestrcpy_def Let_def)
  have e: "follow 10 = follow (Suc 9)" by simp
  show ?thesis
    unfolding readi_def e follow.simps p
    by (simp add: iunlock_def demo_namei iget_def ilock_def Let_def follow_end readi_data_def read_loop.simps relock_def)
qed

theorem readi_link_leaks_witness:
  "\<exists>s'. readi 1 0 5 demo_link = Inr (0, [], s') \<and> sum_list (map i_ref (icache s')) > 2"
proof -
  obtain s' where "readi 1 0 5 demo_link = Inr (0, [], s')" using demo_readi by blast
  from readi_link_leaks [OF this] this show ?thesis by auto
qed
text \<open>\<open>readi\<close> and \<open>writei\<close> through a link to the console stop the machine: they release the
  device's inode and lock the link again before they call the driver, whose first step is to release the
  device's inode.\<close>

theorem link_to_console_panics:
  assumes "follow 10 k k s = Inr (Some j, s1)" "j \<noteq> k" "i_type (icache s1 ! j) = T_DEV" "dev_of j s1 = Some d"
    and "relock k j s1 = Inr s2" "j < length (icache s1)"
  shows "readi k off n s = Inl (Panic ''iunlock'') \<and> writei k src off s = Inl (Panic ''iunlock'')"
proof -
  obtain s' where "iunlock j s1 = Inr s'" "ilock k s' = Inr s2"
    using assms(2,5) by (auto simp: relock_def bindR_eq_Inr)
  then have "\<not> i_locked (icache s2 ! j)"
    using assms(2,6) by (auto simp: iunlock_def ilock_def guardR_eq_Inr Let_def split: if_splits)
  then have "iunlock j s2 = Inl (Panic ''iunlock'')" by (simp add: iunlock_def guardR_def)
  then show ?thesis
    using assms(1,3-5) by (simp add: readi_def writei_def consoleread_def consolewrite_def)
qed

definition demo_console :: fs where
  "demo_console = demo_link\<lparr>icache := (icache demo_link)[0 := demo_ip\<lparr>i_inum := 1, i_type := T_DEV, i_major := 1, i_locked := False\<rparr>],
     devsw := (\<lambda>m. if m = 1 then Some \<lparr>d_read = (\<lambda>n. (0, [])), d_write = (\<lambda>b. 0)\<rparr> else None)\<rparr>"

theorem link_to_console_panics_witness: "readi 1 0 5 demo_console = Inl (Panic ''iunlock'')"
proof -
  have p: "link_path (icache demo_console ! 1) = Inr [47]"
    by (simp add: demo_console_def link_path_def addr_bytes_def le_bytes_def safestrcpy_def Let_def)
  have e: "follow 10 = follow (Suc 9)" by simp
  have "\<exists>s1 s2 d. follow 10 1 1 demo_console = Inr (Some 0, s1) \<and> i_type (icache s1 ! 0) = T_DEV \<and> dev_of 0 s1 = Some d \<and>
      relock 1 0 s1 = Inr s2 \<and> 0 < length (icache s1)"
    unfolding e follow.simps p
    by (simp add: demo_console_def iunlock_def demo_namei iget_def ilock_def Let_def follow_end dev_of_def relock_def)
  then show ?thesis using link_to_console_panics by (metis zero_neq_one)
qed

end
