(* ===== verification/Fs_Sys_Props.thy ===== *)
theory Fs_Sys_Props
  imports Fs_Sys Fs_Path_Props
begin

text \<open>
  What the file system calls of Project03-FileSystem/sysfile.c do to the references on the inode
  cache, on every return path, and how \<open>create\<close> locks itself out.
\<close>

section \<open>References of the building blocks\<close>

lemma refs_0_trans [trans]: "refs_by d s s' \<Longrightarrow> refs_by 0 s' s'' \<Longrightarrow> refs_by d s s''"
  using refs_by_trans by fastforce

lemma write_loop_same: "write_loop k src off s = Inr (o', s') \<Longrightarrow> same_but k s s'"
proof (induction k src off s arbitrary: o' s' rule: write_loop.induct)
  case (1 k src off s)
  show ?case
  proof (cases "src = []")
    case True
    then show ?thesis using 1(2) by (subst (asm) write_loop.simps) simp
  next
    case False
    let ?m = "min (length src) (BSIZE - off mod BSIZE)"
    obtain a s1 s2 where r: "bmap_ip k (off div BSIZE) s = Inr (a, s1)"
      "log_write a (put_bytes (blocks s1 a) (off mod BSIZE) (take ?m src)) s1 = Inr s2"
      "write_loop k (drop ?m src) (off + ?m) s2 = Inr (o', s')"
      using 1(2) False by (subst (asm) write_loop.simps) (auto simp: bindR_eq_Inr Let_def)
    have "same_but k s1 s2" using frameD(1-6) [OF log_write_frame [OF r(2)]]
      unfolding same_but_def by (intro conjI exI [of _ "i_addrs (icache s1 ! k)"]) simp_all
    then show ?thesis
      using 1(1) [OF False r(1) refl refl r(2,3)] bmap_ip_same [OF r(1)] same_but_trans by blast
  qed
qed

lemma refs_writei_data:
  assumes "writei_data k src off s = Inr (r, s')"
  shows "refs_by 0 s s'"
proof -
  consider "s' = s" | o' where "write_loop k src off s = Inr (o', s')"
    | o' s1 where "write_loop k src off s = Inr (o', s1)" "iupdate k (upd_ip k (\<lambda>ip. ip\<lparr>i_size := o'\<rparr>) s1) = Inr s'"
    using assms by (auto simp: writei_data_def Let_def bindR_eq_Inr split: if_splits)
  then show ?thesis
  proof cases
    case 1
    then show ?thesis using refs_by_refl by simp
  next
    case 2
    then show ?thesis using refs_by_same [OF write_loop_same] by blast
  next
    case 3
    then show ?thesis using refs_0_trans [OF refs_by_same [OF write_loop_same] refs_upd_iupdate] by simp
  qed
qed

lemma refs_dirlink:
  assumes "dirlink k name inum s = Inr (r, s')"
  shows "refs_by 0 s s'"
proof -
  obtain q s1 where q: "dirlookup k name s = Inr (q, s1)"
    "(case q of
       Some (j, _) \<Rightarrow> bindR (iput j s1) (\<lambda>s2. Inr (-1, s2))
     | None \<Rightarrow>
         bindR (dir_scan ''dirlink read'' (\<lambda>de. de_inum de = 0) k 0 s1) (\<lambda>(off, _, s2).
         bindR (writei_data k (mk_dirent inum name) off s2) (\<lambda>(w, s3).
           guardR (w = int DESIZE) (Panic ''dirlink'') (Inr (0, s3))))) = Inr (r, s')"
    using assms by (auto simp: dirlink_def bindR_eq_Inr)
  note D = refs_dirlookup [OF q(1)]
  show ?thesis
  proof (cases q)
    case None
    then obtain off x s2 w where w: "dir_scan ''dirlink read'' (\<lambda>de. de_inum de = 0) k 0 s1 = Inr (off, x, s2)"
      "writei_data k (mk_dirent inum name) off s2 = Inr (w, s')"
      using q(2) by (auto simp: bindR_eq_Inr guardR_eq_Inr)
    have "refs_by 0 s s1" using D None by simp
    from refs_0_trans [OF refs_0_trans [OF this refs_dir_scan [OF w(1)]] refs_writei_data [OF w(2)]] show ?thesis .
  next
    case (Some y)
    obtain j o' where y: "y = (j, o')" by force
    have D': "refs_by 1 s s1" "j < length (icache s1)" using D Some y by (auto simp: refs_by_def)
    have "iput j s1 = Inr s'" using q(2) Some y by (auto simp: bindR_eq_Inr)
    then show ?thesis using refs_by_trans [OF D'(1) refs_iput [OF _ D'(2)]] by simp
  qed
qed

lemma refs_add_nlink: "add_nlink d k s = Inr s' \<Longrightarrow> refs_by 0 s s'"
  unfolding add_nlink_def by (erule refs_upd_iupdate) simp

lemma refs_ialloc:
  assumes "ialloc dev ty s = Inr (k, s')"
  shows "refs_by 1 s s' \<and> k < length (icache s)"
proof -
  obtain b d i s1 where l: "log_write b d s = Inr s1" "iget dev i s1 = Inr (k, s')"
    using assms by (auto simp: ialloc_def Let_def bindR_eq_Inr split: option.splits)
  note F = refs_by_frame [OF log_write_frame [OF l(1)]]
  show ?thesis using refs_by_trans [OF F] refs_iget [OF l(2)] refs_by_length [OF F] by fastforce
qed

lemma refs_nameiparent:
  assumes "nameiparent path s = Inr (q, s')" "cwd s < length (icache s)"
  shows "case q of None \<Rightarrow> refs_by 0 s s' | Some (k, _) \<Rightarrow> refs_by 1 s s' \<and> k < length (icache s)"
proof -
  obtain k s1 where k: "(if char_at path = slash then iget ROOTDEV ROOTINO s else Inr (idup (cwd s) s)) = Inr (k, s1)"
    "walk_elems True [] (elems path) k s1 = Inr (q, s')"
    using assms(1) by (auto simp: nameiparent_def namex_def bindR_eq_Inr namex_loop_elems)
  have s1: "refs_by 1 s s1 \<and> k < length (icache s)"
    using k(1) assms(2) by (auto simp: idup_def split: if_splits dest: refs_iget intro!: refs_by_upd)
  then have "k < length (icache s1)" by (simp add: refs_by_def)
  from refs_walk [OF k(2) this] show ?thesis
    using refs_by_trans [of 1 s s1] s1 refs_by_length [of 1 s s1] by (fastforce split: option.splits)
qed

lemma refs_put_out:
  assumes "iunlockput k s1 = Inr s'" "refs_by d s s1" "k < length (icache s)"
  shows "refs_by (d - 1) s s'"
  using refs_by_trans [OF assms(2) refs_iunlockput [OF assms(1)]] refs_by_length [OF assms(2)] assms(3) by simp

lemma refs_create_new:
  assumes "create_new dp name ty maj mi s = Inr (r, s')" "dp < length (icache s)"
  shows "\<exists>k. r = Some k \<and> k < length (icache s) \<and> refs_by 0 s s'"
proof -
  obtain k s1 s2 s3 s7 t s8 where c: "ialloc (i_dev (icache s ! dp)) ty s = Inr (k, s1)" "ilock k s1 = Inr s2"
    "iupdate k (upd_ip k (\<lambda>ip. ip\<lparr>i_major := maj, i_minor := mi, i_nlink := 1,
              i_type := if ty = T_SYMLINK then T_SYMLINK else i_type ip\<rparr>) s2) = Inr s3"
    "(if ty = T_DIR
            then bindR (add_nlink 1 dp s3) (\<lambda>s4.
                 bindR (dirlink k [46] (i_inum (icache s4 ! k)) s4) (\<lambda>(a, s5).
                 guardR (a \<ge> 0) (Panic ''create dots'')
                  (bindR (dirlink k [46, 46] (i_inum (icache s5 ! dp)) s5) (\<lambda>(b, s6).
                   guardR (b \<ge> 0) (Panic ''create dots'') (Inr s6)))))
            else Inr s3) = Inr s7"
    "dirlink dp name (i_inum (icache s7 ! k)) s7 = Inr (t, s8)" "iunlockput dp s8 = Inr s'" "r = Some k"
    using assms(1) by (auto simp: create_new_def bindR_eq_Inr guardR_eq_Inr)
  note A = refs_ialloc [OF c(1)]
  have "refs_by 0 s3 s7"
  proof (cases "ty = T_DIR")
    case True
    then obtain s4 a s5 b where d: "add_nlink 1 dp s3 = Inr s4" "dirlink k [46] (i_inum (icache s4 ! k)) s4 = Inr (a, s5)"
      "dirlink k [46, 46] (i_inum (icache s5 ! dp)) s5 = Inr (b, s7)"
      using c(4) by (auto simp: bindR_eq_Inr guardR_eq_Inr)
    show ?thesis
      by (rule refs_0_trans [OF refs_0_trans [OF refs_add_nlink [OF d(1)] refs_dirlink [OF d(2)]] refs_dirlink [OF d(3)]])
  next
    case False
    then show ?thesis using c(4) refs_by_refl by simp
  qed
  moreover have "refs_by 0 s2 s3" by (rule refs_upd_iupdate [OF c(3)]) simp
  ultimately have "refs_by 1 s s8"
    using A refs_0_trans [OF refs_0_trans [OF refs_0_trans [OF refs_0_trans [OF conjunct1 [OF A]
      refs_ilock [OF c(2)]]] ] refs_dirlink [OF c(5)]] by blast
  then have "refs_by 0 s s'" using refs_put_out [OF c(6) _ assms(2)] by fastforce
  then show ?thesis using A c(7) by blast
qed

lemma refs_create:
  assumes "create path ty maj mi s = Inr (r, s')" "cwd s < length (icache s)"
  shows "case r of None \<Rightarrow> refs_by 0 s s' | Some k \<Rightarrow> refs_by 1 s s' \<and> k < length (icache s)"
proof -
  obtain q s1 where q: "nameiparent path s = Inr (q, s1)" using assms(1) by (auto simp: create_def bindR_eq_Inr)
  note Q = refs_nameiparent [OF q assms(2)]
  show ?thesis
  proof (cases q)
    case None
    then show ?thesis using assms(1) q Q by (auto simp: create_def)
  next
    case (Some x)
    obtain dp name where x: "x = (dp, name)" by force
    have Q': "refs_by 1 s s1" "dp < length (icache s)" using Q Some x by auto
    obtain s2 y s3 where l: "ilock dp s1 = Inr s2" "dirlookup dp name s2 = Inr (y, s3)"
      "(case y of Some (k, _) \<Rightarrow>
             bindR (ilock k s3) (\<lambda>s4.
             bindR (iunlockput dp s4) (\<lambda>s5.
             if ty = T_FILE \<and> i_type (icache s5 ! k) = T_FILE then Inr (Some k, s5)
             else if ty = T_SYMLINK then Inr (Some k, upd_ip k (\<lambda>ip. ip\<lparr>i_type := T_SYMLINK\<rparr>) s5)
             else bindR (iunlockput k s5) (\<lambda>s6. Inr (None, s6))))
         | None \<Rightarrow> create_new dp name ty maj mi s3) = Inr (r, s')"
      using assms(1) q Some x by (auto simp: create_def bindR_eq_Inr)
    have L: "refs_by 1 s s2" by (rule refs_0_trans [OF Q'(1) refs_ilock [OF l(1)]])
    note D = refs_dirlookup [OF l(2)]
    show ?thesis
    proof (cases y)
      case None
      have R: "refs_by 1 s s3" using refs_0_trans [OF L] D None by simp
      have "dp < length (icache s3)" using refs_by_length [OF R] Q'(2) by simp
      moreover have "create_new dp name ty maj mi s3 = Inr (r, s')" using l(3) None by simp
      ultimately obtain k where "r = Some k" "k < length (icache s3)" "refs_by 0 s3 s'"
        using refs_create_new by blast
      then show ?thesis using refs_0_trans [OF R] refs_by_length [OF R] by auto
    next
      case (Some z)
      obtain k o' where z: "z = (k, o')" by force
      have R: "refs_by 2 s s3" using refs_by_trans [OF L] D Some z by fastforce
      have k: "k < length (icache s)" using D Some z refs_by_length [OF L] by auto
      obtain s4 s5 where m: "ilock k s3 = Inr s4" "iunlockput dp s4 = Inr s5"
        "(if ty = T_FILE \<and> i_type (icache s5 ! k) = T_FILE then Inr (Some k, s5)
             else if ty = T_SYMLINK then Inr (Some k, upd_ip k (\<lambda>ip. ip\<lparr>i_type := T_SYMLINK\<rparr>) s5)
             else bindR (iunlockput k s5) (\<lambda>s6. Inr (None, s6))) = Inr (r, s')"
        using l(3) Some z by (auto simp: bindR_eq_Inr)
      have R5: "refs_by 1 s s5" using refs_put_out [OF m(2) refs_0_trans [OF R refs_ilock [OF m(1)]] Q'(2)] by simp
      consider "r = Some k" "s' = s5" | "r = Some k" "s' = upd_ip k (\<lambda>ip. ip\<lparr>i_type := T_SYMLINK\<rparr>) s5"
        | "iunlockput k s5 = Inr s'" "r = None"
        using m(3) by (auto simp: bindR_eq_Inr split: if_splits)
      then show ?thesis
      proof cases
        case 1
        then show ?thesis using R5 k by simp
      next
        case 2
        have "refs_by 0 s5 (upd_ip k (\<lambda>ip. ip\<lparr>i_type := T_SYMLINK\<rparr>) s5)" by (rule refs_by_upd0) simp
        then show ?thesis using refs_0_trans [OF R5] 2 k by simp
      next
        case 3
        then show ?thesis using refs_put_out [OF 3(1) R5 k] by simp
      qed
    qed
  qed
qed

section \<open>The calls\<close>

text \<open>Only the counter of running calls differs between a call and its body.\<close>

lemma refs_begin: "refs_by 0 s (begin_op s)"
  by (simp add: refs_by_def begin_op_def total_refs_def)

lemma refs_end: "refs_by 0 s (end_op s)"
  by (simp add: refs_by_def end_op_def total_refs_def)

lemma refs_transact:
  assumes "transact body s = Inr (r, s')"
    and "\<And>v. body (begin_op s) = Inr (r, v) \<Longrightarrow> refs_by d (begin_op s) v"
  shows "refs_by d s s'"
proof -
  obtain v where v: "body (begin_op s) = Inr (r, v)" "s' = end_op v"
    using assms(1) by (auto simp: transact_def bindR_eq_Inr)
  have "refs_by (0 + d) s v" by (rule refs_by_trans [OF refs_begin assms(2) [OF v(1)]])
  then show ?thesis unfolding v(2) using refs_0_trans [OF _ refs_end] by simp
qed

lemma cwd_begin: "cwd s < length (icache s) \<Longrightarrow> cwd (begin_op s) < length (icache (begin_op s))"
  by (simp add: begin_op_def)

lemma refs_mkdir_body:
  assumes "mkdir_body path ty maj mi s = Inr (r, s')" "cwd s < length (icache s)"
  shows "refs_by 0 s s'"
proof -
  obtain q s1 where q: "(case path of None \<Rightarrow> Inr (None, s) | Some p \<Rightarrow> create p ty maj mi s) = Inr (q, s1)"
    "(case q of None \<Rightarrow> Inr (-1, s1) | Some k \<Rightarrow> bindR (iunlockput k s1) (\<lambda>s2. Inr (0, s2))) = Inr (r, s')"
    using assms(1) by (auto simp: mkdir_body_def bindR_eq_Inr)
  have C: "case q of None \<Rightarrow> refs_by 0 s s1 | Some k \<Rightarrow> refs_by 1 s s1 \<and> k < length (icache s)"
    using q(1) refs_create [OF _ assms(2)] refs_by_refl by (cases path) auto
  show ?thesis
  proof (cases q)
    case None
    then show ?thesis using q(2) C by simp
  next
    case (Some k)
    then have "iunlockput k s1 = Inr s'" using q(2) by (auto simp: bindR_eq_Inr)
    from refs_put_out [OF this] C Some show ?thesis by fastforce
  qed
qed

lemma refs_link_bad:
  assumes "link_bad k s = Inr (r, s')" "k < length (icache s)"
  shows "refs_by (-1) s s' \<and> r = -1"
proof -
  obtain s1 s2 where l: "ilock k s = Inr s1" "add_nlink (-1) k s1 = Inr s2" "iunlockput k s2 = Inr s'" "r = -1"
    using assms(1) by (auto simp: link_bad_def bindR_eq_Inr)
  have "refs_by 0 s s2" by (rule refs_0_trans [OF refs_ilock [OF l(1)] refs_add_nlink [OF l(2)]])
  from refs_put_out [OF l(3) this assms(2)] l(4) show ?thesis by simp
qed

lemma refs_link_body:
  assumes "link_body old new s = Inr (r, s')" "cwd s < length (icache s)"
  shows "refs_by 0 s s'"
proof -
  obtain q s1 where q: "namei old s = Inr (q, s1)" using assms(1) by (auto simp: link_body_def bindR_eq_Inr)
  note N = refs_namei [OF q assms(2)]
  show ?thesis
  proof (cases q)
    case None
    then show ?thesis using assms(1) q N by (auto simp: link_body_def)
  next
    case (Some k)
    have N': "refs_by 1 s s1" "k < length (icache s)" using N Some by auto
    obtain s2 where l: "ilock k s1 = Inr s2" using assms(1) q Some by (auto simp: link_body_def bindR_eq_Inr)
    have L: "refs_by 1 s s2" by (rule refs_0_trans [OF N'(1) refs_ilock [OF l]])
    show ?thesis
    proof (cases "i_type (icache s2 ! k) = T_DIR")
      case True
      then have "iunlockput k s2 = Inr s'" using assms(1) q Some l by (auto simp: link_body_def bindR_eq_Inr)
      from refs_put_out [OF this L N'(2)] show ?thesis by simp
    next
      case False
      then obtain s3 s4 p s5 where m: "add_nlink 1 k s2 = Inr s3" "iunlock k s3 = Inr s4" "nameiparent new s4 = Inr (p, s5)"
        "(case p of
                None \<Rightarrow> link_bad k s5
              | Some (dp, name) \<Rightarrow>
                  bindR (ilock dp s5) (\<lambda>s6.
                  bindR (if i_dev (icache s6 ! dp) \<noteq> i_dev (icache s6 ! k) then Inr (-1, s6)
                         else dirlink dp name (i_inum (icache s6 ! k)) s6) (\<lambda>(l, s7).
                  if l < 0 then bindR (iunlockput dp s7) (link_bad k)
                  else bindR (iunlockput dp s7) (\<lambda>s8. bindR (iput k s8) (\<lambda>s9. Inr (0, s9)))))) = Inr (r, s')"
        using assms(1) q Some l by (auto simp: link_body_def bindR_eq_Inr)
      have M: "refs_by 1 s s4" by (rule refs_0_trans [OF refs_0_trans [OF L refs_add_nlink [OF m(1)]] refs_iunlock [OF m(2)]])
      have "cwd s4 < length (icache s4)" using M assms(2) by (simp add: refs_by_def)
      note P = refs_nameiparent [OF m(3) this]
      show ?thesis
      proof (cases p)
        case None
        then have b: "link_bad k s5 = Inr (r, s')" "refs_by 1 s s5" using m(4) P refs_0_trans [OF M] by auto
        have "k < length (icache s5)" using refs_by_length [OF b(2)] N'(2) by simp
        then show ?thesis using refs_by_trans [OF b(2)] refs_link_bad [OF b(1)] by fastforce
      next
        case (Some x)
        obtain dp name where x: "x = (dp, name)" by force
        have P': "refs_by 2 s s5" "dp < length (icache s)"
          using refs_by_trans [OF M] P Some x refs_by_length [OF M] by fastforce+
        obtain s6 l s7 where n: "ilock dp s5 = Inr s6"
          "(if i_dev (icache s6 ! dp) \<noteq> i_dev (icache s6 ! k) then Inr (-1, s6)
                         else dirlink dp name (i_inum (icache s6 ! k)) s6) = Inr (l, s7)"
          "(if l < 0 then bindR (iunlockput dp s7) (link_bad k)
                  else bindR (iunlockput dp s7) (\<lambda>s8. bindR (iput k s8) (\<lambda>s9. Inr (0, s9)))) = Inr (r, s')"
          using m(4) Some x by (auto simp: bindR_eq_Inr)
        have R6: "refs_by 2 s s6" by (rule refs_0_trans [OF P'(1) refs_ilock [OF n(1)]])
        have "refs_by 0 s6 s7" using n(2) refs_dirlink refs_by_refl by (auto split: if_splits)
        then have R7: "refs_by 2 s s7" by (rule refs_0_trans [OF R6])
        obtain s8 where u: "iunlockput dp s7 = Inr s8" using n(3) by (auto simp: bindR_eq_Inr split: if_splits)
        have R8: "refs_by 1 s s8" using refs_put_out [OF u R7 P'(2)] by simp
        have k8: "k < length (icache s8)" using refs_by_length [OF R8] N'(2) by simp
        show ?thesis
        proof (cases "l < 0")
          case True
          then have "link_bad k s8 = Inr (r, s')" using n(3) u by simp
          then show ?thesis using refs_by_trans [OF R8] refs_link_bad [OF _ k8] by fastforce
        next
          case False
          then have "iput k s8 = Inr s'" using n(3) u by (auto simp: bindR_eq_Inr)
          then show ?thesis using refs_by_trans [OF R8 refs_iput [OF _ k8]] by simp
        qed
      qed
    qed
  qed
qed

lemma refs_unlink_body:
  assumes "unlink_body path s = Inr (r, s')" "cwd s < length (icache s)"
  shows "refs_by 0 s s'"
proof -
  obtain q s1 where q: "nameiparent path s = Inr (q, s1)" using assms(1) by (auto simp: unlink_body_def bindR_eq_Inr)
  note N = refs_nameiparent [OF q assms(2)]
  show ?thesis
  proof (cases q)
    case None
    then show ?thesis using assms(1) q N by (auto simp: unlink_body_def)
  next
    case (Some x)
    obtain dp name where x: "x = (dp, name)" by force
    have N': "refs_by 1 s s1" "dp < length (icache s)" using N Some x by auto
    obtain s2 where l: "ilock dp s1 = Inr s2" using assms(1) q Some x by (auto simp: unlink_body_def bindR_eq_Inr)
    have L: "refs_by 1 s s2" by (rule refs_0_trans [OF N'(1) refs_ilock [OF l]])
    have out: "refs_by 0 s v'" if "iunlockput dp v = Inr v'" "refs_by 1 s v" for v v'
      using refs_put_out [OF that N'(2)] by simp
    show ?thesis
    proof (cases "namecmp name [46] = 0 \<or> namecmp name [46, 46] = 0")
      case True
      then have "iunlockput dp s2 = Inr s'" using assms(1) q Some x l by (auto simp: unlink_body_def bindR_eq_Inr)
      then show ?thesis using out L by blast
    next
      case False
      then obtain y s3 where d: "dirlookup dp name s2 = Inr (y, s3)"
        using assms(1) q Some x l by (auto simp: unlink_body_def bindR_eq_Inr)
      note D = refs_dirlookup [OF d]
      show ?thesis
      proof (cases y)
        case None
        then have "iunlockput dp s3 = Inr s'" using assms(1) q Some x l d False by (auto simp: unlink_body_def bindR_eq_Inr)
        moreover have "refs_by 1 s s3" using D None refs_0_trans [OF L] by simp
        ultimately show ?thesis using out by blast
      next
        case (Some z)
        obtain k off where z: "z = (k, off)" by force
        have R3: "refs_by 2 s s3" using refs_by_trans [OF L] D Some z by fastforce
        have k: "k < length (icache s)" using D Some z refs_by_length [OF L] by auto
        obtain s4 e s5 where m: "ilock k s3 = Inr s4" "(if i_type (icache s4 ! k) = T_DIR then isdirempty k s4 else Inr (True, s4)) = Inr (e, s5)"
          "(if \<not> e then bindR (iunlockput k s5) (\<lambda>s6. bindR (iunlockput dp s6) (\<lambda>s7. Inr (-1, s7)))
               else bindR (writei_data dp (replicate DESIZE 0) off s5) (\<lambda>(w, s6).
                 guardR (w = int DESIZE) (Panic ''unlink: writei'')
                  (bindR (if i_type (icache s6 ! k) = T_DIR then add_nlink (-1) dp s6 else Inr s6) (\<lambda>s7.
                   bindR (iunlockput dp s7) (\<lambda>s8.
                   bindR (add_nlink (-1) k s8) (\<lambda>s9.
                   bindR (iunlockput k s9) (\<lambda>s10. Inr (0, s10)))))))) = Inr (r, s')"
          using assms(1) q \<open>q = Some x\<close> x l d False Some z by (auto simp: unlink_body_def bindR_eq_Inr guardR_eq_Inr)
        have R4: "refs_by 2 s s4" by (rule refs_0_trans [OF R3 refs_ilock [OF m(1)]])
        have "refs_by 0 s4 s5"
          using m(2) refs_by_refl by (auto simp: isdirempty_def bindR_eq_Inr split: if_splits dest: refs_dir_scan)
        then have R5: "refs_by 2 s s5" by (rule refs_0_trans [OF R4])
        show ?thesis
        proof (cases e)
          case False
          then obtain s6 where u: "iunlockput k s5 = Inr s6" "iunlockput dp s6 = Inr s'" using m(3) by (auto simp: bindR_eq_Inr)
          show ?thesis using out [OF u(2)] refs_put_out [OF u(1) R5 k] by simp
        next
          case True
          then obtain w s6 s7 s8 s9 where u: "writei_data dp (replicate DESIZE 0) off s5 = Inr (w, s6)"
            "(if i_type (icache s6 ! k) = T_DIR then add_nlink (-1) dp s6 else Inr s6) = Inr s7"
            "iunlockput dp s7 = Inr s8" "add_nlink (-1) k s8 = Inr s9" "iunlockput k s9 = Inr s'"
            using m(3) by (auto simp: bindR_eq_Inr guardR_eq_Inr)
          have "refs_by 0 s6 s7" using u(2) refs_by_refl by (auto split: if_splits dest: refs_add_nlink)
          then have "refs_by 2 s s7" using refs_0_trans [OF refs_0_trans [OF R5 refs_writei_data [OF u(1)]]] by blast
          from refs_put_out [OF u(3) this N'(2)] have R8: "refs_by 1 s s8" by simp
          from refs_put_out [OF u(5) refs_0_trans [OF R8 refs_add_nlink [OF u(4)]] k] show ?thesis by simp
        qed
      qed
    qed
  qed
qed

lemma refs_chdir_body:
  assumes "chdir_body path s = Inr (r, s')" "cwd s < length (icache s)"
  shows "refs_by 0 s s'"
proof -
  obtain q s1 where q: "(case path of None \<Rightarrow> Inr (None, s) | Some p \<Rightarrow> namei p s) = Inr (q, s1)"
    "(case q of None \<Rightarrow> Inr (None, s1)
     | Some k \<Rightarrow>
         bindR (ilock k s1) (\<lambda>s2.
         if i_type (icache s2 ! k) \<noteq> T_DIR then bindR (iunlockput k s2) (\<lambda>s3. Inr (None, s3))
         else bindR (iunlock k s2) (\<lambda>s3. bindR (iput (cwd s3) s3) (\<lambda>s4. Inr (Some k, s4))))) = Inr (r, s')"
    using assms(1) by (auto simp: chdir_body_def bindR_eq_Inr)
  have C: "case q of None \<Rightarrow> refs_by 0 s s1 | Some k \<Rightarrow> refs_by 1 s s1 \<and> k < length (icache s)"
    using q(1) refs_namei [OF _ assms(2)] refs_by_refl by (cases path) auto
  show ?thesis
  proof (cases q)
    case None
    then show ?thesis using q(2) C by simp
  next
    case (Some k)
    then have C': "refs_by 1 s s1" "k < length (icache s)" using C by auto
    obtain s2 where l: "ilock k s1 = Inr s2" using q(2) Some by (auto simp: bindR_eq_Inr)
    have L: "refs_by 1 s s2" by (rule refs_0_trans [OF C'(1) refs_ilock [OF l]])
    show ?thesis
    proof (cases "i_type (icache s2 ! k) = T_DIR")
      case False
      then have "iunlockput k s2 = Inr s'" using q(2) Some l by (auto simp: bindR_eq_Inr)
      from refs_put_out [OF this L C'(2)] show ?thesis by simp
    next
      case True
      then obtain s3 where u: "iunlock k s2 = Inr s3" "iput (cwd s3) s3 = Inr s'" using q(2) Some l by (auto simp: bindR_eq_Inr)
      have R: "refs_by 1 s s3" by (rule refs_0_trans [OF L refs_iunlock [OF u(1)]])
      then have "cwd s3 < length (icache s3)" using assms(2) by (simp add: refs_by_def)
      then show ?thesis using refs_by_trans [OF R refs_iput [OF u(2)]] by simp
    qed
  qed
qed

lemma refs_symlink_body:
  assumes "symlink_body old new s = Inr (r, s')" "cwd s < length (icache s)"
  shows "\<exists>d\<in>{0, 1, 2}. refs_by d s s' \<and> (r = 0 \<longrightarrow> d = 2)"
proof -
  obtain a s1 where a: "namei old s = Inr (a, s1)"
    "(if a = None then Inr (-1, s1)
     else bindR (namei new s1) (\<lambda>(q, s2).
     if q \<noteq> None then Inr (-1, s2)
     else bindR (create new T_SYMLINK 0 0 s2) (\<lambda>(c, s3). case c of
       None \<Rightarrow> Inr (-1, s3)
     | Some k \<Rightarrow>
         guardR (length old + 1 \<le> length (addr_bytes (i_addrs (icache s3 ! k)))) (Overrun ''addrs'')
          (bindR (iupdate k (upd_ip k (set_link old) s3)) (\<lambda>s4.
           bindR (iunlock k s4) (\<lambda>s5. Inr (0, s5))))))) = Inr (r, s')"
    using assms(1) by (auto simp: symlink_body_def bindR_eq_Inr)
  note A = refs_namei [OF a(1) assms(2)]
  show ?thesis
  proof (cases "a = None")
    case True
    then show ?thesis using a(2) A by (intro bexI [of _ 0]) auto
  next
    case False
    then obtain q s2 where q: "namei new s1 = Inr (q, s2)" using a(2) by (auto simp: bindR_eq_Inr)
    have R1: "refs_by 1 s s1" using A False by auto
    have c1: "cwd s1 < length (icache s1)" using R1 assms(2) by (simp add: refs_by_def)
    note Q = refs_namei [OF q c1]
    show ?thesis
    proof (cases "q = None")
      case False
      have "refs_by 2 s s2" using refs_by_trans [OF R1] Q False by fastforce
      then show ?thesis using a(2) \<open>a \<noteq> None\<close> q False by (intro bexI [of _ 2]) auto
    next
      case True
      have R2: "refs_by 1 s s2" using refs_0_trans [OF R1] Q True by simp
      have c2: "cwd s2 < length (icache s2)" using R2 assms(2) by (simp add: refs_by_def)
      obtain c s3 where c: "create new T_SYMLINK 0 0 s2 = Inr (c, s3)" using a(2) \<open>a \<noteq> None\<close> q True by (auto simp: bindR_eq_Inr)
      note C = refs_create [OF c c2]
      show ?thesis
      proof (cases c)
        case None
        then have "refs_by 1 s s'" "r = -1" using a(2) \<open>a \<noteq> None\<close> q True c C refs_0_trans [OF R2] by auto
        then show ?thesis by (intro bexI [of _ 1]) auto
      next
        case (Some k)
        then obtain s4 where u: "iupdate k (upd_ip k (set_link old) s3) = Inr s4" "iunlock k s4 = Inr s'" "r = 0"
          using a(2) \<open>a \<noteq> None\<close> q True c by (auto simp: bindR_eq_Inr guardR_eq_Inr)
        have R3: "refs_by 2 s s3" using refs_by_trans [OF R2] C Some by fastforce
        have "refs_by 0 s3 s4" by (rule refs_upd_iupdate [OF u(1)]) (simp add: set_link_def)
        then have "refs_by 2 s s'" using refs_0_trans [OF refs_0_trans [OF R3] refs_iunlock [OF u(2)]] by blast
        then show ?thesis by (intro bexI [of _ 2]) auto
      qed
    qed
  qed
qed

lemma refs_0_total: "refs_by 0 s s' \<Longrightarrow> total_refs s' = total_refs s"
  by (simp add: refs_by_def)

text \<open>Each call in turn: a transaction around a body, or a return before it.\<close>

lemma balanced_mkdir: "cwd s < length (icache s) \<Longrightarrow> sys_mkdir p s = Inr (r, s') \<Longrightarrow> total_refs s' = total_refs s"
  using refs_transact refs_mkdir_body [OF _ cwd_begin] by (metis refs_0_total sys_mkdir_def)

lemma balanced_mknod:
  assumes "cwd s < length (icache s)" "sys_mknod p mj mi s = Inr (r, s')"
  shows "total_refs s' = total_refs s"
proof -
  consider "s' = end_op (begin_op s)" | a b where "transact (mkdir_body p T_DEV a b) s = Inr (r, s')"
    using assms(2) by (auto simp: sys_mknod_def transact_def split: option.splits)
  then show ?thesis
  proof cases
    case 1
    then show ?thesis using refs_0_total [OF refs_0_trans [OF refs_begin refs_end]] by simp
  next
    case 2
    show ?thesis using refs_transact [OF 2] refs_mkdir_body [OF _ cwd_begin [OF assms(1)]] refs_0_total by blast
  qed
qed

lemma balanced_link:
  assumes "cwd s < length (icache s)" "sys_link p p' s = Inr (r, s')"
  shows "total_refs s' = total_refs s"
proof -
  consider "s' = s" | a b where "transact (link_body a b) s = Inr (r, s')"
    using assms(2) by (auto simp: sys_link_def split: option.splits)
  then show ?thesis
  proof cases
    case 2
    show ?thesis using refs_transact [OF 2] refs_link_body [OF _ cwd_begin [OF assms(1)]] refs_0_total by blast
  qed simp
qed

lemma balanced_unlink:
  assumes "cwd s < length (icache s)" "sys_unlink p s = Inr (r, s')"
  shows "total_refs s' = total_refs s"
proof -
  consider "s' = s" | a where "transact (unlink_body a) s = Inr (r, s')"
    using assms(2) by (auto simp: sys_unlink_def split: option.splits)
  then show ?thesis
  proof cases
    case 2
    show ?thesis using refs_transact [OF 2] refs_unlink_body [OF _ cwd_begin [OF assms(1)]] refs_0_total by blast
  qed simp
qed

lemma balanced_chdir:
  assumes "cwd s < length (icache s)" "sys_chdir p s = Inr (r, s')"
  shows "total_refs s' = total_refs s"
proof -
  obtain q s1 where q: "transact (chdir_body p) s = Inr (q, s1)" "icache s' = icache s1"
    using assms(2) by (auto simp: sys_chdir_def bindR_eq_Inr split: option.splits)
  have "refs_by 0 s s1" using refs_transact [OF q(1)] refs_chdir_body [OF _ cwd_begin [OF assms(1)]] by blast
  then show ?thesis using q(2) by (simp add: refs_by_def total_refs_def)
qed





text \<open>\<open>create\<close> waits for itself when the last element of the path names the directory that holds
  it, as in \<open>mkdir(".")\<close>: it locks the inode found while it still holds the lock of the directory.\<close>

theorem create_on_dot_hangs:
  assumes "nameiparent path s = Inr (Some (dp, name), s1)" "ilock dp s1 = Inr s2"
    and "dirlookup dp name s2 = Inr (Some (dp, off), s3)" "dp < length (icache s1)"
  shows "create path ty maj mi s = Inl (Hang ''acquiresleep'')"
proof -
  have l2: "i_locked (icache s2 ! dp)" "i_ref (icache s2 ! dp) \<ge> 1"
    using assms(2,4) by (auto simp: ilock_def guardR_eq_Inr Let_def load_ip_def split: if_splits)
  obtain o' de sx where d: "dir_scan ''dirlookup read'' (\<lambda>de. de_inum de \<noteq> 0 \<and> namecmp name (de_name de) = 0) dp 0 s2 = Inr (o', de, sx)"
    "(case de of None \<Rightarrow> Inr (None, sx)
       | Some de \<Rightarrow> bindR (iget (i_dev (icache sx ! dp)) (de_inum de) sx) (\<lambda>(j, s2). Inr (Some (j, o'), s2))) = Inr (Some (dp, off), s3)"
    using assms(3) by (auto simp: dirlookup_def guardR_eq_Inr bindR_eq_Inr)
  have sx: "i_locked (icache sx ! dp) \<and> i_ref (icache sx ! dp) \<ge> 1"
    using dir_scan_same [OF d(1)] l2 by (cases "dp < length (icache s2)") (auto simp: same_but_def list_update_beyond)
  obtain de' where g: "iget (i_dev (icache sx ! dp)) (de_inum de') sx = Inr (dp, s3)"
    using d(2) by (auto simp: bindR_eq_Inr split: option.splits)
  then have "i_locked (icache s3 ! dp)" "i_ref (icache s3 ! dp) \<ge> 1"
    using sx by (auto simp: iget_def split: option.splits dest!: find_idx_SomeD)
  then have "ilock dp s3 = Inl (Hang ''acquiresleep'')" by (simp add: ilock_def guardR_def)
  then show ?thesis using assms(1-3) by (simp add: create_def)
qed

text \<open>A directory whose only entry is \<open>.\<close>.\<close>

definition demo_dot :: fs where
  "demo_dot = demo_fs\<lparr>blocks := (\<lambda>b. if b = 5 then zero_blk(0 := 2, 2 := 46) else zero_blk),
     icache := [demo_ip\<lparr>i_type := T_DIR, i_size := 16, i_addrs := 5 # replicate 12 0, i_locked := False\<rparr>]\<rparr>"

theorem create_on_dot_hangs_witness: "create [46] T_DIR 0 0 demo_dot = Inl (Hang ''acquiresleep'')"
proof -
  define ic where "ic = (\<lambda>r l. demo_ip\<lparr>i_type := T_DIR, i_size := 16, i_addrs := 5 # replicate 12 0, i_locked := l, i_ref := r\<rparr>)"
  define st where "st = (\<lambda>r l. demo_dot\<lparr>icache := [ic r l]\<rparr>)"
  have sel [simp]: "icache (st r l) = [ic r l]" "i_type (ic r l) = 1" "i_size (ic r l) = 16" "i_addrs (ic r l) = 5 # replicate 12 0"
    "i_locked (ic r l) = l" "i_ref (ic r l) = r" "i_valid (ic r l)" "i_dev (ic r l) = 1" "i_inum (ic r l) = 2" for r l
    by (simp_all add: st_def ic_def)
  have upd [simp]: "upd_ip 0 (\<lambda>ip. ip\<lparr>i_ref := r'\<rparr>) (st r l) = st r' l" "upd_ip 0 (\<lambda>ip. ip\<lparr>i_locked := l'\<rparr>) (st r l) = st r l'"
    "upd_ip 0 (\<lambda>ip. ip\<lparr>i_ref := i_ref ip + 1\<rparr>) (st r l) = st (r + 1) l" for r r' l l'
    by (simp_all add: upd_ip_def st_def ic_def)
  have st: "demo_dot = st 1 False" by (simp add: st_def ic_def demo_dot_def demo_ip_def)
  have cw: "cwd (st r l) = 0" for r l by (simp add: st_def demo_dot_def demo_fs_def)
  have blk: "block_of (st r l) (5 # replicate 12 0) 0 = 5" for r l
    by (simp add: block_of_def path_of_def addr_at_def)
  have d: "dir_ok (st r l) 0" for r l
    by (simp add: dir_ok_def blk)
  have fb: "file_byte (st r l) (5 # replicate 12 0) j = (zero_blk(0 := 2, 2 := 46)) j" if "j < 16" for r l j
    using that by (simp add: file_byte_def blk) (simp add: st_def demo_dot_def)
  have e: "entries (st r l) (ic r l) = [[2, 0, 46, 0, 0, 0, 0, 0, 0, 0, 0, 0, 0, 0, 0, 0]]" for r l
  proof -
    have "map (file_byte (st r l) (5 # replicate 12 0)) [0..<16] = map (zero_blk(0 := 2, 2 := 46)) [0..<16]"
      using fb by simp
    also have "\<dots> = [2, 0, 46, 0, 0, 0, 0, 0, 0, 0, 0, 0, 0, 0, 0, 0]" by (simp add: upt_rec zero_blk_def)
    finally show ?thesis by (simp add: entries_def dirent_at_def)
  qed
  have n: "named [46] [2, 0, 46, 0, 0, 0, 0, 0, 0, 0, 0, 0, 0, 0, 0, 0]"
    by (simp add: named_def de_inum_def de_name_def c_str_def)
  have "dirlookup 0 [46] (st 2 True) = Inr (Some (0, 0), st 3 True)"
    unfolding dirlookup_ref [OF d] lookup_ref_def by (simp add: e n iget_def de_inum_def)
  moreover have "nameiparent [46] demo_dot = Inr (Some (0, [46]), st 2 False)"
    unfolding st by (simp add: nameiparent_def namex_def idup_def cw namex_loop.simps [of True] skipelem_def ilock_def iunlock_def)
  moreover have "ilock 0 (st 2 False) = Inr (st 2 True)" by (simp add: ilock_def)
  ultimately show ?thesis using create_on_dot_hangs by simp
qed

end
