(* ===== verification/Bio.thy ===== *)
theory Bio
  imports Fs_Bytes Kernel_Types
begin

text \<open>
  The buffer cache of Project03-FileSystem/bio.c and the disk below it: \<open>bget\<close>, \<open>bread\<close>, \<open>bwrite\<close>,
  \<open>brelse\<close> and \<open>iderw\<close> of ide.c, whose transfer is one step here. A buffer is the index of its
  slot; \<open>lru\<close> lists the slots from \<open>head.next\<close> on, the most recently used first. \<open>dtrace\<close> is
  no state of the program: it records the blocks written to the disk, in order.

  One process runs, so to acquire a sleep lock that is held is \<open>Hang\<close>. The state holds the log's
  fields as well, since \<open>bget\<close> and the log call each other.
\<close>

section \<open>State\<close>

record buf =
  b_dev :: nat
  b_no :: nat
  b_valid :: bool
  b_dirty :: bool
  b_locked :: bool
  b_refcnt :: nat
  b_data :: blk

record bio =
  bufs :: "buf list"
  lru :: "nat list"
  disk :: "nat \<Rightarrow> blk"
  dtrace :: "(nat \<times> blk) list"
  is_flush :: bool
  lh :: "nat list"              \<comment> \<open>\<open>log.lh.block[0..n)\<close>\<close>
  committing :: bool
  outst :: int
  lstart :: nat
  lsize :: nat

abbreviation NBUF :: nat where "NBUF \<equiv> 100"
abbreviation DEV :: nat where "DEV \<equiv> 1"

definition zero_buf :: buf where
  "zero_buf = \<lparr>b_dev = 0, b_no = 0, b_valid = False, b_dirty = False, b_locked = False, b_refcnt = 0, b_data = zero_blk\<rparr>"

text \<open>Each buffer is put at the head of the list in turn.\<close>

definition binit :: "bio \<Rightarrow> bio" where
  "binit s = s\<lparr>bufs := replicate NBUF zero_buf, lru := rev [0..<NBUF], is_flush := False\<rparr>"

definition upd_buf :: "nat \<Rightarrow> (buf \<Rightarrow> buf) \<Rightarrow> bio \<Rightarrow> bio" where
  "upd_buf i f s = s\<lparr>bufs := (bufs s)[i := f (bufs s ! i)]\<rparr>"

section \<open>Operations\<close>

definition acquire_buf :: "nat \<Rightarrow> bio \<Rightarrow> (nat \<times> bio) res" where
  "acquire_buf i s = guardR (\<not> b_locked (bufs s ! i)) (Hang ''acquiresleep'')
     (Inr (i, upd_buf i (\<lambda>b. b\<lparr>b_locked := True\<rparr>) s))"

definition unused_buf :: "bio \<Rightarrow> nat \<Rightarrow> bool" where
  "unused_buf s i \<longleftrightarrow> b_refcnt (bufs s ! i) = 0 \<and> \<not> b_dirty (bufs s ! i)"

text \<open>\<open>bget\<close> after its test whether to flush.\<close>

definition bget_raw :: "nat \<Rightarrow> bio \<Rightarrow> (nat \<times> bio) res" where
  "bget_raw bno s =
     (case List.find (\<lambda>i. b_dev (bufs s ! i) = DEV \<and> b_no (bufs s ! i) = bno) (lru s) of
        Some i \<Rightarrow> acquire_buf i (upd_buf i (\<lambda>b. b\<lparr>b_refcnt := b_refcnt b + 1\<rparr>) s)
      | None \<Rightarrow>
          (case List.find (unused_buf s) (rev (lru s)) of
             None \<Rightarrow> Inl (Panic ''bget: no buffers'')
           | Some i \<Rightarrow> acquire_buf i (upd_buf i
               (\<lambda>b. b\<lparr>b_dev := DEV, b_no := bno, b_valid := False, b_dirty := False, b_refcnt := 1\<rparr>) s)))"

definition iderw :: "nat \<Rightarrow> bio \<Rightarrow> bio res" where
  "iderw i s =
     (let b = bufs s ! i in
      guardR (b_locked b) (Panic ''iderw: buf not locked'')
       (guardR (b_dirty b \<or> \<not> b_valid b) (Panic ''iderw: nothing to do'')
         (if b_dirty b
          then Inr (upd_buf i (\<lambda>b. b\<lparr>b_valid := True, b_dirty := False\<rparr>)
                 (s\<lparr>disk := (disk s)(b_no b := b_data b), dtrace := dtrace s @ [(b_no b, b_data b)]\<rparr>))
          else Inr (upd_buf i (\<lambda>b. b\<lparr>b_data := disk s (b_no b), b_valid := True\<rparr>) s))))"

definition bread_raw :: "nat \<Rightarrow> bio \<Rightarrow> (nat \<times> bio) res" where
  "bread_raw bno s = bindR (bget_raw bno s) (\<lambda>(i, s1).
     if b_valid (bufs s1 ! i) then Inr (i, s1) else bindR (iderw i s1) (\<lambda>s2. Inr (i, s2)))"

definition bwrite :: "nat \<Rightarrow> bio \<Rightarrow> bio res" where
  "bwrite i s = guardR (b_locked (bufs s ! i)) (Panic ''bwrite'') (iderw i (upd_buf i (\<lambda>b. b\<lparr>b_dirty := True\<rparr>) s))"

definition brelse :: "nat \<Rightarrow> bio \<Rightarrow> bio res" where
  "brelse i s = guardR (b_locked (bufs s ! i)) (Panic ''brelse'')
     (let s1 = upd_buf i (\<lambda>b. b\<lparr>b_locked := False, b_refcnt := b_refcnt b - 1\<rparr>) s
      in Inr (if b_refcnt (bufs s1 ! i) = 0 then s1\<lparr>lru := i # remove1 i (lru s1)\<rparr> else s1))"

section \<open>Invariant\<close>

definition buf_ok :: "(nat \<Rightarrow> blk) \<Rightarrow> buf \<Rightarrow> bool" where
  "buf_ok d b \<longleftrightarrow> b_refcnt b = (if b_locked b then 1 else 0) \<and> (b_locked b \<or> b_dirty b \<or> b_valid b \<longrightarrow> b_dev b = DEV) \<and>
     (b_dirty b \<longrightarrow> b_valid b) \<and> (b_valid b \<and> \<not> b_dirty b \<and> \<not> b_locked b \<longrightarrow> b_data b = d (b_no b))"

definition bio_ok :: "bio \<Rightarrow> bool" where
  "bio_ok s \<longleftrightarrow> distinct (lru s) \<and> set (lru s) = {..<length (bufs s)} \<and>
     (\<forall>i<length (bufs s). buf_ok (disk s) (bufs s ! i)) \<and>
     (\<forall>i<length (bufs s). \<forall>j<length (bufs s). b_dev (bufs s ! i) = DEV \<and> b_dev (bufs s ! j) = DEV \<and>
        b_no (bufs s ! i) = b_no (bufs s ! j) \<longrightarrow> i = j)"

definition at_slot :: "bio \<Rightarrow> nat \<Rightarrow> nat \<Rightarrow> bool" where
  "at_slot s i b \<longleftrightarrow> i < length (bufs s) \<and> b_dev (bufs s ! i) = DEV \<and> b_no (bufs s ! i) = b"

text \<open>What a read of block \<open>b\<close> gives; the blocks locked and the blocks dirty.\<close>

definition content :: "bio \<Rightarrow> nat \<Rightarrow> blk" where
  "content s b = (case find_idx (\<lambda>x. b_dev x = DEV \<and> b_no x = b \<and> b_valid x) (bufs s) of
     Some i \<Rightarrow> b_data (bufs s ! i) | None \<Rightarrow> disk s b)"

definition busy :: "bio \<Rightarrow> nat set" where
  "busy s = {b. \<exists>i. at_slot s i b \<and> b_locked (bufs s ! i)}"

definition pinned :: "bio \<Rightarrow> nat set" where
  "pinned s = {b. \<exists>i. at_slot s i b \<and> b_dirty (bufs s ! i)}"

lemma bio_okD:
  assumes "bio_ok s" "i < length (bufs s)"
  shows "b_refcnt (bufs s ! i) = (if b_locked (bufs s ! i) then 1 else 0)"
    "b_locked (bufs s ! i) \<or> b_dirty (bufs s ! i) \<or> b_valid (bufs s ! i) \<Longrightarrow> b_dev (bufs s ! i) = DEV"
    "b_dirty (bufs s ! i) \<Longrightarrow> b_valid (bufs s ! i)"
    "b_valid (bufs s ! i) \<Longrightarrow> \<not> b_dirty (bufs s ! i) \<Longrightarrow> \<not> b_locked (bufs s ! i) \<Longrightarrow> b_data (bufs s ! i) = disk s (b_no (bufs s ! i))"
  using assms unfolding bio_ok_def buf_ok_def by blast+

lemma at_slot_unique: "bio_ok s \<Longrightarrow> at_slot s i b \<Longrightarrow> at_slot s j b \<Longrightarrow> i = j"
  unfolding bio_ok_def at_slot_def by blast

lemma content_cached:
  assumes "bio_ok s" "at_slot s i b" "b_valid (bufs s ! i)"
  shows "content s b = b_data (bufs s ! i)"
proof -
  obtain j where j: "find_idx (\<lambda>x. b_dev x = DEV \<and> b_no x = b \<and> b_valid x) (bufs s) = Some j"
    using assms(2,3) find_idx_None [of "\<lambda>x. b_dev x = DEV \<and> b_no x = b \<and> b_valid x" "bufs s"]
    by (cases "find_idx (\<lambda>x. b_dev x = DEV \<and> b_no x = b \<and> b_valid x) (bufs s)") (auto simp: at_slot_def)
  then have "at_slot s j b" using find_idx_SomeD [OF j] by (simp add: at_slot_def)
  then have "j = i" using at_slot_unique [OF assms(1)] assms(2) by blast
  then show ?thesis using j by (simp add: content_def)
qed

lemma content_uncached:
  assumes "\<And>i. at_slot s i b \<Longrightarrow> \<not> b_valid (bufs s ! i)"
  shows "content s b = disk s b"
proof -
  have "find_idx (\<lambda>x. b_dev x = DEV \<and> b_no x = b \<and> b_valid x) (bufs s) = None"
    unfolding find_idx_None using assms by (auto simp: at_slot_def in_set_conv_nth)
  then show ?thesis by (simp add: content_def)
qed

text \<open>A buffer that is neither locked nor dirty exists while fewer blocks are in use than there
  are buffers.\<close>

lemma unused_exists:
  assumes "bio_ok s" "card (busy s \<union> pinned s) < length (bufs s)"
  shows "\<exists>i<length (bufs s). unused_buf s i"
proof (rule ccontr)
  assume n: "\<not> ?thesis"
  let ?f = "\<lambda>i. b_no (bufs s ! i)" and ?n = "length (bufs s)"
  have u: "b_dev (bufs s ! i) = DEV" "?f i \<in> busy s \<union> pinned s" if "i < ?n" for i
  proof -
    have "b_locked (bufs s ! i) \<or> b_dirty (bufs s ! i)"
      using n bio_okD(1) [OF assms(1) that] that by (auto simp: unused_buf_def split: if_splits)
    moreover from this show "b_dev (bufs s ! i) = DEV" using bio_okD(2) [OF assms(1) that] by blast
    ultimately show "?f i \<in> busy s \<union> pinned s" using that by (auto simp: busy_def pinned_def at_slot_def)
  qed
  have "inj_on ?f {..<?n}" using u(1) assms(1) unfolding inj_on_def bio_ok_def by blast
  moreover have "?f ` {..<?n} \<subseteq> busy s \<union> pinned s" using u(2) by auto
  moreover have "finite (busy s \<union> pinned s)"
  proof -
    have "busy s \<union> pinned s \<subseteq> ?f ` {..<?n}" by (auto simp: busy_def pinned_def at_slot_def)
    then show ?thesis using finite_surj [of "{..<?n}"] by blast
  qed
  ultimately have "card {..<?n} \<le> card (busy s \<union> pinned s)" using card_inj_on_le by blast
  then show False using assms(2) by simp
qed

lemma find_lru_Some:
  assumes "bio_ok s" "List.find P (lru s) = Some i"
  shows "i < length (bufs s) \<and> P i"
  using assms unfolding bio_ok_def by (auto simp: find_Some_iff dest: nth_mem)

lemma find_lru_None:
  assumes "bio_ok s" "List.find P (lru s) = None" "i < length (bufs s)"
  shows "\<not> P i"
  using assms unfolding bio_ok_def by (auto simp: find_None_iff)

section \<open>What the operations do\<close>

text \<open>\<open>i\<close> is a locked buffer of block \<open>b\<close>; nothing else changed.\<close>

definition got :: "bio \<Rightarrow> nat \<Rightarrow> nat \<Rightarrow> bio \<Rightarrow> bool" where
  "got s b i s' \<longleftrightarrow> (\<exists>B. s' = s\<lparr>bufs := (bufs s)[i := B]\<rparr> \<and> i < length (bufs s) \<and> b_dev B = DEV \<and> b_no B = b \<and>
     b_valid B \<and> b_locked B \<and> b_refcnt B = 1 \<and> b_data B = content s b \<and> (b_dirty B \<longleftrightarrow> b \<in> pinned s)) \<and>
     \<not> b_locked (bufs s ! i) \<and> (at_slot s i b \<or> (\<forall>j. \<not> at_slot s j b) \<and> \<not> b_dirty (bufs s ! i))"

lemma bread_got:
  assumes ok: "bio_ok s" and nb: "b \<notin> busy s" and room: "card (busy s \<union> pinned s) < length (bufs s)"
  shows "\<exists>i s'. bread_raw b s = Inr (i, s') \<and> got s b i s'"
proof (cases "List.find (\<lambda>i. b_dev (bufs s ! i) = DEV \<and> b_no (bufs s ! i) = b) (lru s)")
  case (Some i)
  then have i: "i < length (bufs s)" "at_slot s i b"
    using find_lru_Some [OF ok Some] by (simp_all add: at_slot_def)
  have nl: "\<not> b_locked (bufs s ! i)" using nb i(2) by (auto simp: busy_def)
  have r0: "b_refcnt (bufs s ! i) = 0" using bio_okD(1) [OF ok i(1)] nl by simp
  have pin: "b_dirty (bufs s ! i) \<longleftrightarrow> b \<in> pinned s"
    unfolding pinned_def mem_Collect_eq using i(2) at_slot_unique [OF ok i(2)] by metis
  let ?B = "(bufs s ! i)\<lparr>b_refcnt := 1, b_locked := True\<rparr>"
  have g: "bget_raw b s = Inr (i, s\<lparr>bufs := (bufs s)[i := ?B]\<rparr>)"
    using Some nl i(1) r0 by (simp add: bget_raw_def acquire_buf_def upd_buf_def)
  show ?thesis
  proof (cases "b_valid (bufs s ! i)")
    case True
    then have "bread_raw b s = Inr (i, s\<lparr>bufs := (bufs s)[i := ?B]\<rparr>)" using g i(1) by (simp add: bread_raw_def)
    moreover have "content s b = b_data (bufs s ! i)" by (rule content_cached [OF ok i(2) True])
    ultimately show ?thesis using i nl pin True unfolding got_def
      by (intro exI [of _ i] exI [of _ "s\<lparr>bufs := (bufs s)[i := ?B]\<rparr>"] conjI exI [of _ ?B]) (auto simp: at_slot_def)
  next
    case False
    then have nd: "\<not> b_dirty (bufs s ! i)" using bio_okD(3) [OF ok i(1)] by blast
    let ?C = "?B\<lparr>b_data := disk s b, b_valid := True\<rparr>"
    have "bread_raw b s = Inr (i, s\<lparr>bufs := (bufs s)[i := ?C]\<rparr>)"
      using g i False nd by (simp add: bread_raw_def iderw_def upd_buf_def at_slot_def Let_def)
    moreover have "content s b = disk s b"
      by (rule content_uncached) (use at_slot_unique [OF ok i(2)] False in blast)
    ultimately show ?thesis using i nl pin nd unfolding got_def
      by (intro exI [of _ i] exI [of _ "s\<lparr>bufs := (bufs s)[i := ?C]\<rparr>"] conjI exI [of _ ?C]) (auto simp: at_slot_def)
  qed
next
  case None
  have no: "\<not> at_slot s j b" for j using find_lru_None [OF ok None] by (auto simp: at_slot_def)
  obtain i where i: "List.find (unused_buf s) (rev (lru s)) = Some i"
  proof (cases "List.find (unused_buf s) (rev (lru s))")
    case None
    then show ?thesis using unused_exists [OF ok room] ok by (auto simp: find_None_iff bio_ok_def)
  qed
  then obtain k where k: "k < length (rev (lru s))" "unused_buf s i" "i = rev (lru s) ! k"
    by (auto simp: find_Some_iff)
  then have "i \<in> set (rev (lru s))" using nth_mem by blast
  then have u: "i < length (bufs s)" "unused_buf s i" using ok k(2) by (auto simp: bio_ok_def)
  have nl: "\<not> b_locked (bufs s ! i)" "\<not> b_dirty (bufs s ! i)"
    using bio_okD(1) [OF ok u(1)] u(2) by (auto simp: unused_buf_def split: if_splits)
  let ?C = "(bufs s ! i)\<lparr>b_dev := DEV, b_no := b, b_dirty := False, b_refcnt := 1, b_locked := True, b_data := disk s b, b_valid := True\<rparr>"
  have "bread_raw b s = Inr (i, s\<lparr>bufs := (bufs s)[i := ?C]\<rparr>)"
    using None i nl u(1) by (simp add: bread_raw_def bget_raw_def acquire_buf_def iderw_def upd_buf_def Let_def)
  moreover have "content s b = disk s b" by (rule content_uncached) (use no in blast)
  moreover have "b \<notin> pinned s" using no by (auto simp: pinned_def)
  ultimately show ?thesis using u(1) nl no unfolding got_def
    by (intro exI [of _ i] exI [of _ "s\<lparr>bufs := (bufs s)[i := ?C]\<rparr>"] conjI exI [of _ ?C]) auto
qed

text \<open>One buffer replaced: when that keeps the invariant, and what it does to the views.\<close>

lemma bio_ok_upd:
  assumes "bio_ok s" "i < length (bufs s)" "buf_ok (disk s) B"
    and "b_dev B = DEV \<Longrightarrow> at_slot s i (b_no B) \<or> (\<forall>j. \<not> at_slot s j (b_no B))"
  shows "bio_ok (s\<lparr>bufs := (bufs s)[i := B]\<rparr>)"
proof -
  have "x = y" if xy: "x < length (bufs s)" "y < length (bufs s)" "b_dev ((bufs s)[i := B] ! x) = DEV"
    "b_dev ((bufs s)[i := B] ! y) = DEV" "b_no ((bufs s)[i := B] ! x) = b_no ((bufs s)[i := B] ! y)" for x y
  proof -
    have A: "z = i" if "z < length (bufs s)" "b_dev B = DEV" "b_dev (bufs s ! z) = DEV" "b_no (bufs s ! z) = b_no B" for z
      using assms(4) [OF that(2)] at_slot_unique [OF assms(1), of z "b_no B" i] that unfolding at_slot_def by blast
    consider "x = i" "y = i" | "x = i" "y \<noteq> i" | "x \<noteq> i" "y = i" | "x \<noteq> i" "y \<noteq> i" by blast
    then show ?thesis
    proof cases
      case 2
      then show ?thesis using A [of y] xy assms(2) by simp
    next
      case 3
      then show ?thesis using A [of x] xy assms(2) by simp
    next
      case 4
      then show ?thesis using xy assms(1) unfolding bio_ok_def by simp
    qed simp
  qed
  moreover have "buf_ok (disk s) ((bufs s)[i := B] ! x)" if "x < length (bufs s)" for x
    using that assms(1,3) by (cases "x = i") (auto simp: bio_ok_def)
  ultimately show ?thesis using assms(1) unfolding bio_ok_def by simp
qed

definition held :: "bio \<Rightarrow> nat \<Rightarrow> nat \<Rightarrow> bool" where
  "held s i b \<longleftrightarrow> at_slot s i b \<and> b_locked (bufs s ! i) \<and> b_valid (bufs s ! i)"

text \<open>The fields that the cache operations leave alone.\<close>

definition same_log :: "bio \<Rightarrow> bio \<Rightarrow> bool" where
  "same_log s s' \<longleftrightarrow> is_flush s' = is_flush s \<and> lh s' = lh s \<and> committing s' = committing s \<and> outst s' = outst s \<and>
     lstart s' = lstart s \<and> lsize s' = lsize s \<and> length (bufs s') = length (bufs s)"

lemma same_log_refl: "same_log s s"
  by (simp add: same_log_def)

lemma same_log_trans: "same_log s s' \<Longrightarrow> same_log s' s'' \<Longrightarrow> same_log s s''"
  by (simp add: same_log_def)

lemma at_slot_upd: "at_slot (s\<lparr>bufs := (bufs s)[i := B]\<rparr>) j b \<longleftrightarrow>
    (if j = i then i < length (bufs s) \<and> b_dev B = DEV \<and> b_no B = b else at_slot s j b)"
  by (auto simp: at_slot_def)

lemma got_ok:
  assumes ok: "bio_ok s" and g: "got s b i s'"
  shows "bio_ok s'" "held s' i b" "b_data (bufs s' ! i) = content s b" "content s' = content s"
    "busy s' = insert b (busy s)" "pinned s' = pinned s" "disk s' = disk s" "dtrace s' = dtrace s" "same_log s s'"
    "\<And>j c. held s j c \<Longrightarrow> held s' j c \<and> bufs s' ! j = bufs s ! j \<and> j \<noteq> i"
proof -
  obtain B where B: "s' = s\<lparr>bufs := (bufs s)[i := B]\<rparr>" "i < length (bufs s)" "b_dev B = DEV" "b_no B = b"
     "b_valid B" "b_locked B" "b_refcnt B = 1" "b_data B = content s b" "b_dirty B \<longleftrightarrow> b \<in> pinned s"
    and nl: "\<not> b_locked (bufs s ! i)" and sl: "at_slot s i b \<or> (\<forall>j. \<not> at_slot s j b) \<and> \<not> b_dirty (bufs s ! i)"
    using g unfolding got_def by blast
  have "buf_ok (disk s) B" using B by (simp add: buf_ok_def)
  then show ok': "bio_ok s'" unfolding B(1) by (rule bio_ok_upd [OF ok B(2)]) (use B(4) sl in blast)
  show h: "held s' i b" "b_data (bufs s' ! i) = content s b" using B by (simp_all add: held_def at_slot_def)
  have at: "at_slot s' j c \<longleftrightarrow> (if j = i then c = b else at_slot s j c)" for j c
    unfolding B(1) at_slot_upd using B by auto
  have buf: "bufs s' ! j = (if j = i then B else bufs s ! j)" for j using B by (simp add: nth_list_update)
  show "busy s' = insert b (busy s)"
  proof (rule set_eqI)
    fix c
    show "c \<in> busy s' \<longleftrightarrow> c \<in> insert b (busy s)"
    proof (cases "c = b")
      case True
      then show ?thesis using h(1) by (auto simp: busy_def held_def)
    next
      case False
      then show ?thesis using nl unfolding busy_def mem_Collect_eq at buf by auto
    qed
  qed
  show "pinned s' = pinned s"
  proof (rule set_eqI)
    fix c
    show "c \<in> pinned s' \<longleftrightarrow> c \<in> pinned s"
    proof (cases "c = b")
      case True
      have "c \<in> pinned s' \<longleftrightarrow> b_dirty (bufs s' ! i)"
        using at_slot_unique [OF ok'] h(1) True unfolding pinned_def mem_Collect_eq held_def by metis
      then show ?thesis using buf B(9) True by simp
    next
      case False
      have n: "\<not> (at_slot s i c \<and> b_dirty (bufs s ! i))" using sl False by (auto simp: at_slot_def)
      have "c \<in> pinned s' \<longleftrightarrow> (\<exists>j. j \<noteq> i \<and> at_slot s j c \<and> b_dirty (bufs s ! j))"
        using False unfolding pinned_def mem_Collect_eq at buf by auto
      also have "\<dots> \<longleftrightarrow> c \<in> pinned s" using n unfolding pinned_def mem_Collect_eq by metis
      finally show ?thesis .
    qed
  qed
  show "content s' = content s"
  proof (rule ext)
    fix c
    show "content s' c = content s c"
    proof (cases "c = b")
      case True
      then show ?thesis using content_cached [OF ok', of i b] h by (simp add: held_def)
    next
      case ne: False
      show ?thesis
      proof (cases "\<exists>j. at_slot s j c \<and> b_valid (bufs s ! j)")
        case True
        then obtain j where j: "at_slot s j c" "b_valid (bufs s ! j)" by blast
        note cj = content_cached [OF ok j]
        show ?thesis
        proof (cases "j = i")
          case False
          then have "content s' c = b_data (bufs s' ! j)"
            using content_cached [OF ok', of j c] j at buf by simp
          then show ?thesis using cj buf False by simp
        next
          case True
          then have nd: "\<not> b_dirty (bufs s ! i)" using sl j(1) ne by (auto simp: at_slot_def)
          have "b_data (bufs s ! i) = disk s c"
            using bio_okD(4) [OF ok B(2)] j True nd nl by (simp add: at_slot_def)
          moreover have "content s' c = disk s' c"
          proof (rule content_uncached)
            fix k assume "at_slot s' k c"
            then have "k \<noteq> i \<and> at_slot s k c" using at ne by (auto split: if_splits)
            then show "\<not> b_valid (bufs s' ! k)" using at_slot_unique [OF ok, of k c i] j(1) True by blast
          qed
          ultimately show ?thesis using cj True B(1) by simp
        qed
      next
        case False
        then have "content s c = disk s c" using content_uncached by blast
        moreover have "content s' c = disk s' c"
          by (rule content_uncached) (use False ne at buf in \<open>auto split: if_splits\<close>)
        ultimately show ?thesis using B(1) by simp
      qed
    qed
  qed
  show "disk s' = disk s" "dtrace s' = dtrace s" "same_log s s'" using B(1) by (simp_all add: same_log_def)
  show "held s' j c \<and> bufs s' ! j = bufs s ! j \<and> j \<noteq> i" if "held s j c" for j c
  proof -
    have "j \<noteq> i" using that nl by (auto simp: held_def)
    then show ?thesis using that at buf by (simp add: held_def)
  qed
qed

text \<open>A held buffer replaced by another state of the same buffer.\<close>

lemma held_upd:
  fixes tr :: "(nat \<times> blk) list" and l :: "nat list"
  assumes ok: "bio_ok s" and h: "held s i b" and B: "b_dev B = DEV" "b_no B = b" "b_valid B"
    and okB: "buf_ok d B" and d: "\<And>x. x \<noteq> b \<Longrightarrow> d x = disk s x"
  defines "s' \<equiv> s\<lparr>bufs := (bufs s)[i := B], disk := d, dtrace := tr, lru := l\<rparr>"
  assumes l: "distinct l" "set l = set (lru s)"
  shows "bio_ok s'" "content s' = (content s)(b := b_data B)"
    "busy s' = (if b_locked B then busy s else busy s - {b})" "pinned s' = (if b_dirty B then insert b (pinned s) else pinned s - {b})"
    "same_log s s'" "\<And>j c. j \<noteq> i \<Longrightarrow> held s j c \<Longrightarrow> held s' j c \<and> bufs s' ! j = bufs s ! j"
proof -
  have i: "i < length (bufs s)" "at_slot s i b" "b_locked (bufs s ! i)" using h by (auto simp: held_def at_slot_def)
  have at: "at_slot s' j c \<longleftrightarrow> at_slot s j c" for j c
    using B i by (auto simp: at_slot_def s'_def nth_list_update)
  have buf: "bufs s' ! j = (if j = i then B else bufs s ! j)" for j using i by (simp add: s'_def nth_list_update)
  have n: "j = i \<longleftrightarrow> c = b" if "at_slot s j c" for j c
    using that i(2) at_slot_unique [OF ok, of j b i] by (auto simp: at_slot_def)
  have each: "buf_ok d (bufs s' ! x)" if "x < length (bufs s)" for x
  proof (cases "x = i")
    case True
    then show ?thesis using okB buf by simp
  next
    case False
    have "buf_ok (disk s) (bufs s ! x)" using ok that by (simp add: bio_ok_def)
    moreover have "b_no (bufs s ! x) \<noteq> b" if "b_dev (bufs s ! x) = DEV"
      using n [of x b] False that \<open>x < length (bufs s)\<close> by (auto simp: at_slot_def)
    ultimately show ?thesis using buf False d by (auto simp: buf_ok_def)
  qed
  have uniq: "x = y" if "x < length (bufs s)" "y < length (bufs s)" "b_dev (bufs s' ! x) = DEV" "b_dev (bufs s' ! y) = DEV"
    "b_no (bufs s' ! x) = b_no (bufs s' ! y)" for x y
  proof -
    have "at_slot s' x (b_no (bufs s' ! y))" "at_slot s' y (b_no (bufs s' ! y))"
      using that by (simp_all add: at_slot_def) (simp_all add: s'_def)
    then show ?thesis using at at_slot_unique [OF ok] by blast
  qed
  have len: "length (bufs s') = length (bufs s)" "disk s' = d" "lru s' = l" by (simp_all add: s'_def)
  show ok': "bio_ok s'" using ok l each uniq unfolding bio_ok_def len by auto
  show "content s' = (content s)(b := b_data B)"
  proof (rule ext)
    fix c
    show "content s' c = ((content s)(b := b_data B)) c"
    proof (cases "c = b")
      case True
      then show ?thesis using content_cached [OF ok', of i b] at i(2) buf B(3) by simp
    next
      case ne: False
      show ?thesis
      proof (cases "\<exists>j. at_slot s j c \<and> b_valid (bufs s ! j)")
        case True
        then obtain j where j: "at_slot s j c" "b_valid (bufs s ! j)" by blast
        then have "j \<noteq> i" using n ne by blast
        then show ?thesis using content_cached [OF ok j] content_cached [OF ok', of j c] j at buf ne by simp
      next
        case False
        then have "content s c = disk s c" using content_uncached by blast
        moreover have "content s' c = disk s' c"
          by (rule content_uncached) (use False n ne at buf in auto)
        ultimately show ?thesis using ne d len by simp
      qed
    qed
  qed
  show "busy s' = (if b_locked B then busy s else busy s - {b})"
    unfolding busy_def at buf using n i by auto
  show "pinned s' = (if b_dirty B then insert b (pinned s) else pinned s - {b})"
    unfolding pinned_def at buf using n i by auto
  show "same_log s s'" by (simp add: same_log_def s'_def)
  show "held s' j c \<and> bufs s' ! j = bufs s ! j" if "j \<noteq> i" "held s j c" for j c
    using that at buf by (simp add: held_def)
qed

lemma held_buf_ok: "bio_ok s \<Longrightarrow> held s i b \<Longrightarrow> b_refcnt (bufs s ! i) = 1 \<and> i < length (bufs s) \<and> b_dev (bufs s ! i) = DEV \<and> b_no (bufs s ! i) = b"
  using bio_okD(1) by (auto simp: held_def at_slot_def)

lemma dirty_pinned: "bio_ok s \<Longrightarrow> at_slot s i b \<Longrightarrow> b_dirty (bufs s ! i) \<longleftrightarrow> b \<in> pinned s"
  unfolding pinned_def mem_Collect_eq using at_slot_unique by metis

lemma modify_ok:
  fixes D :: blk
  assumes "bio_ok s" "held s i b"
  defines "s' \<equiv> upd_buf i (\<lambda>x. x\<lparr>b_data := D\<rparr>) s"
  shows "bio_ok s'" "content s' = (content s)(b := D)" "busy s' = busy s" "pinned s' = pinned s" "same_log s s'"
    "disk s' = disk s" "dtrace s' = dtrace s" "held s' i b" "b_data (bufs s' ! i) = D"
    "\<And>j c. j \<noteq> i \<Longrightarrow> held s j c \<Longrightarrow> held s' j c \<and> bufs s' ! j = bufs s ! j"
proof -
  let ?B = "(bufs s ! i)\<lparr>b_data := D\<rparr>"
  note h = held_buf_ok [OF assms(1,2)]
  have e: "s' = s\<lparr>bufs := (bufs s)[i := ?B], disk := disk s, dtrace := dtrace s, lru := lru s\<rparr>"
    by (simp add: s'_def upd_buf_def)
  have okB: "buf_ok (disk s) ?B" using bio_okD [OF assms(1)] h assms(2) by (auto simp: buf_ok_def held_def)
  have l: "distinct (lru s)" using assms(1) by (simp add: bio_ok_def)
  have v: "b_valid ?B" "b_locked ?B" using assms(2) by (simp_all add: held_def)
  note U = held_upd [OF assms(1,2) _ _ _ okB _ l refl, where tr = "dtrace s", folded e]
  show "bio_ok s'" "content s' = (content s)(b := D)" "busy s' = busy s" "same_log s s'"
    "\<And>j c. j \<noteq> i \<Longrightarrow> held s j c \<Longrightarrow> held s' j c \<and> bufs s' ! j = bufs s ! j"
    using U h v by auto
  have "b_dirty (bufs s ! i) \<longleftrightarrow> b \<in> pinned s" using dirty_pinned [OF assms(1)] assms(2) by (simp add: held_def)
  then show "pinned s' = pinned s" using U(4) h v by auto
  show "disk s' = disk s" "dtrace s' = dtrace s" by (simp_all add: e)
  show "held s' i b" "b_data (bufs s' ! i) = D" using h assms(2) by (simp_all add: e held_def at_slot_def)
qed

lemma bwrite_ok:
  assumes "bio_ok s" "held s i b"
  shows "\<exists>s'. bwrite i s = Inr s' \<and> bio_ok s' \<and> content s' = (content s)(b := b_data (bufs s ! i)) \<and> busy s' = busy s \<and>
    pinned s' = pinned s - {b} \<and> same_log s s' \<and> disk s' = (disk s)(b := b_data (bufs s ! i)) \<and>
    dtrace s' = dtrace s @ [(b, b_data (bufs s ! i))] \<and> held s' i b \<and> \<not> b_dirty (bufs s' ! i) \<and>
    b_data (bufs s' ! i) = disk s' b \<and> (\<forall>j c. j \<noteq> i \<longrightarrow> held s j c \<longrightarrow> held s' j c \<and> bufs s' ! j = bufs s ! j)"
proof -
  let ?D = "b_data (bufs s ! i)"
  let ?B = "(bufs s ! i)\<lparr>b_valid := True, b_dirty := False\<rparr>"
  let ?d = "(disk s)(b := ?D)"
  note h = held_buf_ok [OF assms(1,2)]
  define s' where "s' = s\<lparr>bufs := (bufs s)[i := ?B], disk := ?d, dtrace := dtrace s @ [(b, ?D)], lru := lru s\<rparr>"
  have w: "bwrite i s = Inr s'"
    using h assms(2) by (simp add: bwrite_def iderw_def upd_buf_def held_def Let_def s'_def)
  have okB: "buf_ok ?d ?B" using bio_okD [OF assms(1)] h assms(2) by (auto simp: buf_ok_def held_def)
  have l: "distinct (lru s)" using assms(1) by (simp add: bio_ok_def)
  have v: "b_locked ?B" using assms(2) by (simp add: held_def)
  note U = held_upd [OF assms(1,2) _ _ _ okB _ l refl, where tr = "dtrace s @ [(b, ?D)]", folded s'_def]
  have "held s' i b" using h v by (simp add: s'_def held_def at_slot_def)
  moreover have "\<not> b_dirty (bufs s' ! i)" "b_data (bufs s' ! i) = disk s' b" using h by (simp_all add: s'_def)
  moreover have "disk s' = ?d" "dtrace s' = dtrace s @ [(b, ?D)]" by (simp_all add: s'_def)
  ultimately show ?thesis using w U h v by (intro exI [of _ s']) auto
qed

lemma brelse_ok:
  assumes "bio_ok s" "held s i b" "b_dirty (bufs s ! i) \<or> b_data (bufs s ! i) = disk s b"
  shows "\<exists>s'. brelse i s = Inr s' \<and> bio_ok s' \<and> content s' = content s \<and> busy s' = busy s - {b} \<and>
    pinned s' = pinned s \<and> same_log s s' \<and> disk s' = disk s \<and> dtrace s' = dtrace s \<and>
    (\<forall>j c. j \<noteq> i \<longrightarrow> held s j c \<longrightarrow> held s' j c \<and> bufs s' ! j = bufs s ! j)"
proof -
  let ?B = "(bufs s ! i)\<lparr>b_locked := False, b_refcnt := 0\<rparr>"
  note h = held_buf_ok [OF assms(1,2)]
  have l: "distinct (lru s)" "i \<in> set (lru s)" using assms(1) h by (auto simp: bio_ok_def)
  define s' where "s' = s\<lparr>bufs := (bufs s)[i := ?B], disk := disk s, dtrace := dtrace s, lru := i # remove1 i (lru s)\<rparr>"
  have w: "brelse i s = Inr s'" using h assms(2) by (simp add: brelse_def upd_buf_def held_def Let_def s'_def)
  have okB: "buf_ok (disk s) ?B" using bio_okD [OF assms(1)] h assms by (auto simp: buf_ok_def held_def)
  have l': "distinct (i # remove1 i (lru s))" "set (i # remove1 i (lru s)) = set (lru s)"
    using l by (auto simp: set_remove1_eq)
  have v: "b_valid ?B" using assms(2) by (simp add: held_def)
  note U = held_upd [OF assms(1,2) _ _ _ okB _ l', where tr = "dtrace s", folded s'_def]
  have "content s b = b_data (bufs s ! i)" using content_cached [OF assms(1)] assms(2) by (auto simp: held_def)
  moreover have "b_dirty (bufs s ! i) \<longleftrightarrow> b \<in> pinned s" using dirty_pinned [OF assms(1)] assms(2) by (simp add: held_def)
  moreover have "disk s' = disk s" "dtrace s' = dtrace s" by (simp_all add: s'_def)
  ultimately show ?thesis using w U h v by (intro exI [of _ s']) auto
qed

end
