(* ===== verification/Log.thy ===== *)
theory Log
  imports Bio
begin

text \<open>
  The redo log of Project03-FileSystem/log.c over the buffer cache: \<open>write_log\<close>,
  \<open>write_head\<close>, \<open>install_trans\<close>, \<open>commit\<close>, recovery, \<open>log_write\<close>, \<open>begin_op\<close>, \<open>end_op\<close>, \<open>sync\<close> and
  \<open>flush\<close>, and \<open>bget\<close> with its call of \<open>flush\<close>.

  Both copy loops of the log meet one contract, the locale \<open>block_copy\<close>: it is interpreted on
  the step of \<open>write_log\<close> and on that of \<open>install_trans\<close>, which read their two buffers in opposite order.
\<close>

section \<open>Model\<close>

abbreviation LOGSIZE :: nat where "LOGSIZE \<equiv> 100"

text \<open>Copying block \<open>a\<close> to block \<open>d\<close>: \<open>write_log\<close> takes the destination first, \<open>install_trans\<close>
  the source.\<close>

definition log_copy :: "nat \<Rightarrow> nat \<Rightarrow> bio \<Rightarrow> bio res" where
  "log_copy a d s =
     bindR (bread_raw d s) (\<lambda>(t, s1).
     bindR (bread_raw a s1) (\<lambda>(f, s2).
     bindR (bwrite t (upd_buf t (\<lambda>b. b\<lparr>b_data := b_data (bufs s2 ! f)\<rparr>) s2)) (\<lambda>s3.
     bindR (brelse f s3) (brelse t))))"

definition install_copy :: "nat \<Rightarrow> nat \<Rightarrow> bio \<Rightarrow> bio res" where
  "install_copy a d s =
     bindR (bread_raw a s) (\<lambda>(l, s1).
     bindR (bread_raw d s1) (\<lambda>(t, s2).
     bindR (bwrite t (upd_buf t (\<lambda>b. b\<lparr>b_data := b_data (bufs s2 ! l)\<rparr>) s2)) (\<lambda>s3.
     bindR (brelse l s3) (brelse t))))"

fun copies :: "(nat \<Rightarrow> nat \<Rightarrow> bio \<Rightarrow> bio res) \<Rightarrow> (nat \<times> nat) list \<Rightarrow> bio \<Rightarrow> bio res" where
  "copies step [] s = Inr s"
| "copies step ((a, d) # ps) s = bindR (step a d s) (copies step ps)"

text \<open>The blocks of the log that go with the entries of the header.\<close>

definition log_blocks :: "bio \<Rightarrow> nat list" where
  "log_blocks s = map (\<lambda>tail. lstart s + tail + 1) [0..<length (lh s)]"

definition write_log :: "bio \<Rightarrow> bio res" where
  "write_log s = copies log_copy (zip (lh s) (log_blocks s)) s"

definition install_trans :: "bio \<Rightarrow> bio res" where
  "install_trans s = copies install_copy (zip (log_blocks s) (lh s)) s"

text \<open>The header block: \<open>n\<close> and \<open>block[]\<close> as words.\<close>

fun put_list :: "blk \<Rightarrow> nat \<Rightarrow> nat list \<Rightarrow> blk" where
  "put_list d k [] = d"
| "put_list d k (x # xs) = put_list (wrw d k x) (Suc k) xs"

definition head_data :: "blk \<Rightarrow> nat list \<Rightarrow> blk" where
  "head_data d bs = put_list (wrw d 0 (length bs)) 1 bs"

definition head_list :: "blk \<Rightarrow> nat list" where
  "head_list d = (if rdw d 0 < 2147483648 then map (\<lambda>i. rdw d (i + 1)) [0..<rdw d 0] else [])"

definition write_head :: "bio \<Rightarrow> bio res" where
  "write_head s =
     bindR (bread_raw (lstart s) s) (\<lambda>(i, s1).
     bindR (bwrite i (upd_buf i (\<lambda>b. b\<lparr>b_data := head_data (b_data b) (lh s)\<rparr>) s1)) (brelse i))"

definition read_head :: "bio \<Rightarrow> bio res" where
  "read_head s =
     bindR (bread_raw (lstart s) s) (\<lambda>(i, s1).
     let bs = head_list (b_data (bufs s1 ! i)) in
     guardR (length bs \<le> LOGSIZE) (Overrun ''log.lh.block'') (brelse i (s1\<lparr>lh := bs\<rparr>)))"

definition recover_from_log :: "bio \<Rightarrow> bio res" where
  "recover_from_log s = bindR (read_head s) (\<lambda>s1. bindR (install_trans s1) (\<lambda>s2. write_head (s2\<lparr>lh := []\<rparr>)))"

definition initlog :: "nat \<Rightarrow> nat \<Rightarrow> bio \<Rightarrow> bio res" where
  "initlog start sz s = recover_from_log (s\<lparr>lstart := start, lsize := sz\<rparr>)"

definition commit :: "bio \<Rightarrow> bio res" where
  "commit s = (if lh s \<noteq> []
     then bindR (write_log s) (\<lambda>s1. bindR (write_head s1) (\<lambda>s2. bindR (install_trans s2) (\<lambda>s3.
          write_head (s3\<lparr>lh := []\<rparr>))))
     else Inr s)"

definition log_write_buf :: "nat \<Rightarrow> bio \<Rightarrow> bio res" where
  "log_write_buf i s =
     guardR (length (lh s) < LOGSIZE \<and> length (lh s) < lsize s - 1) (Panic ''too big a transaction'')
      (guardR (outst s \<ge> 1) (Panic ''log_write outside of trans'')
        (let b = b_no (bufs s ! i)
         in Inr (upd_buf i (\<lambda>x. x\<lparr>b_dirty := True\<rparr>) (s\<lparr>lh := (if b \<in> set (lh s) then lh s else lh s @ [b])\<rparr>))))"

definition begin_op :: "bio \<Rightarrow> bio res" where
  "begin_op s = guardR (\<not> committing s) (Hang ''begin_op'') (Inr (s\<lparr>outst := outst s + 1\<rparr>))"

definition end_op :: "bio \<Rightarrow> bio res" where
  "end_op s = guardR (\<not> committing s) (Hang ''end_op'') (Inr (s\<lparr>outst := outst s - 1\<rparr>))"

definition do_commit :: "bio \<Rightarrow> (int \<times> bio) res" where
  "do_commit s = bindR (commit (s\<lparr>committing := True, is_flush := True\<rparr>)) (\<lambda>s1.
     Inr (int (length (lh s)), s1\<lparr>committing := False, is_flush := False\<rparr>))"

text \<open>With a commit under way \<open>sync\<close> calls \<open>sleep\<close> without holding the lock that \<open>sleep\<close> releases.\<close>

definition sync :: "bio \<Rightarrow> (int \<times> bio) res" where
  "sync s = guardR (\<not> committing s) (Panic ''release'') (do_commit s)"

definition flush :: "bio \<Rightarrow> (int \<times> bio) res" where
  "flush s = (if committing s then Inr (0, s) else do_commit s)"

definition bget :: "nat \<Rightarrow> bio \<Rightarrow> (nat \<times> bio) res" where
  "bget bno s =
     bindR (if \<not> is_flush s \<and> length (filter (unused_buf s) (rev (lru s))) \<le> 2
            then bindR (flush s) (\<lambda>(_, s1). Inr s1) else Inr s) (bget_raw bno)"

definition bread :: "nat \<Rightarrow> bio \<Rightarrow> (nat \<times> bio) res" where
  "bread bno s = bindR (bget bno s) (\<lambda>(i, s1).
     if b_valid (bufs s1 ! i) then Inr (i, s1) else bindR (iderw i s1) (\<lambda>s2. Inr (i, s2)))"

text \<open>A commit sets \<open>is_flush\<close>, and recovery starts with \<open>NBUF\<close> unused buffers: there \<open>bread\<close> is
  \<open>bread_raw\<close>, which the copy loops and the header use.\<close>

lemma bread_is_raw:
  assumes "is_flush s \<or> 2 < length (filter (unused_buf s) (rev (lru s)))"
  shows "bread b s = bread_raw b s"
  using assms by (auto simp: bread_def bread_raw_def bget_def)

section \<open>Copying blocks\<close>

definition room :: "bio \<Rightarrow> bool" where
  "room s \<longleftrightarrow> card (busy s \<union> pinned s) + 2 \<le> length (bufs s)"

lemma finite_in_use: "finite (busy s \<union> pinned s)"
proof -
  have "busy s \<union> pinned s \<subseteq> (\<lambda>i. b_no (bufs s ! i)) ` {..<length (bufs s)}"
    by (auto simp: busy_def pinned_def at_slot_def)
  then show ?thesis using finite_surj [of "{..<length (bufs s)}"] by blast
qed

definition copied :: "nat \<Rightarrow> nat \<Rightarrow> bio \<Rightarrow> bio \<Rightarrow> bool" where
  "copied a d s s' \<longleftrightarrow> bio_ok s' \<and> content s' = (content s)(d := content s a) \<and> disk s' = (disk s)(d := content s a) \<and>
     dtrace s' = dtrace s @ [(d, content s a)] \<and> busy s' = busy s \<and> pinned s' = pinned s - {d} \<and> same_log s s'"

lemma two_breads:
  assumes ok: "bio_ok s" and r: "room s" and ab: "a \<noteq> b" "a \<notin> busy s" "b \<notin> busy s"
  shows "\<exists>i s1 j s2. bread_raw a s = Inr (i, s1) \<and> bread_raw b s1 = Inr (j, s2) \<and> i \<noteq> j \<and> bio_ok s2 \<and>
    held s2 i a \<and> held s2 j b \<and> b_data (bufs s2 ! i) = content s a \<and> b_data (bufs s2 ! j) = content s b \<and>
    content s2 = content s \<and> busy s2 = insert b (insert a (busy s)) \<and> pinned s2 = pinned s \<and> disk s2 = disk s \<and>
    dtrace s2 = dtrace s \<and> same_log s s2"
proof -
  have r1: "card (busy s \<union> pinned s) < length (bufs s)" using r by (simp add: room_def)
  obtain i s1 where 1: "bread_raw a s = Inr (i, s1)" "got s a i s1" using bread_got [OF ok ab(2) r1] by blast
  note G = got_ok [OF ok 1(2)]
  have "busy s1 \<union> pinned s1 = insert a (busy s \<union> pinned s)" using G(5,6) by auto
  then have "card (busy s1 \<union> pinned s1) \<le> Suc (card (busy s \<union> pinned s))"
    using card_insert_le_m1 [of "Suc (card (busy s \<union> pinned s))" "busy s \<union> pinned s" a] by simp
  then have r2: "card (busy s1 \<union> pinned s1) < length (bufs s1)" using r G(9) by (simp add: room_def same_log_def)
  have "b \<notin> busy s1" using ab G(5) by auto
  then obtain j s2 where 2: "bread_raw b s1 = Inr (j, s2)" "got s1 b j s2" using bread_got [OF G(1) _ r2] by blast
  note H = got_ok [OF G(1) 2(2)]
  have "held s2 i a \<and> bufs s2 ! i = bufs s1 ! i \<and> i \<noteq> j" by (rule H(10) [OF G(2)])
  then show ?thesis
    using 1(1) 2(1) G H same_log_trans [OF G(9) H(9)] by (intro exI [of _ i] exI [of _ s1] exI [of _ j] exI [of _ s2]) auto
qed

text \<open>The destination \<open>t\<close> and the source \<open>f\<close> are held: the rest of a copy.\<close>

lemma copy_tail:
  assumes ok: "bio_ok s2" and h: "held s2 t d" "held s2 f a" "t \<noteq> f" "d \<noteq> a"
    and v: "b_data (bufs s2 ! f) = content s a" "content s2 = content s" "busy s2 = insert d (insert a (busy s))"
      "pinned s2 = pinned s" "disk s2 = disk s" "dtrace s2 = dtrace s" "same_log s s2" "a \<notin> busy s" "d \<notin> busy s"
    and src: "a \<in> pinned s \<or> content s a = disk s a"
  shows "\<exists>s'. bindR (bwrite t (upd_buf t (\<lambda>b. b\<lparr>b_data := b_data (bufs s2 ! f)\<rparr>) s2)) (\<lambda>s3.
     bindR (brelse f s3) (brelse t)) = Inr s' \<and> copied a d s s'"
proof -
  define s3 where "s3 = upd_buf t (\<lambda>b. b\<lparr>b_data := b_data (bufs s2 ! f)\<rparr>) s2"
  note M = modify_ok [OF ok h(1), where D = "b_data (bufs s2 ! f)", folded s3_def]
  have hf3: "held s3 f a \<and> bufs s3 ! f = bufs s2 ! f" using M(10) h by auto
  obtain s4 where w: "bwrite t s3 = Inr s4" "bio_ok s4" "content s4 = (content s3)(d := content s a)" "busy s4 = busy s3"
    "pinned s4 = pinned s3 - {d}" "same_log s3 s4" "disk s4 = (disk s3)(d := content s a)"
    "dtrace s4 = dtrace s3 @ [(d, content s a)]" "held s4 t d" "b_data (bufs s4 ! t) = disk s4 d"
    "\<forall>j c. j \<noteq> t \<longrightarrow> held s3 j c \<longrightarrow> held s4 j c \<and> bufs s4 ! j = bufs s3 ! j"
    using bwrite_ok [OF M(1,8)] v(1) M(9) by auto
  have hf4: "held s4 f a" "bufs s4 ! f = bufs s2 ! f" using w(11) hf3 h(3) by auto
  have "b_dirty (bufs s4 ! f) \<longleftrightarrow> a \<in> pinned s4" 
    by (rule dirty_pinned [OF w(2)]) (use hf4 in \<open>simp add: held_def\<close>)
  then have "b_dirty (bufs s4 ! f) \<or> b_data (bufs s4 ! f) = disk s4 a"
    using src h(4) w(5,7) M(4,6) v hf4(2) by auto
  then obtain s5 where r: "brelse f s4 = Inr s5" "bio_ok s5" "content s5 = content s4" "busy s5 = busy s4 - {a}"
    "pinned s5 = pinned s4" "same_log s4 s5" "disk s5 = disk s4" "dtrace s5 = dtrace s4"
    "\<forall>j c. j \<noteq> f \<longrightarrow> held s4 j c \<longrightarrow> held s5 j c \<and> bufs s5 ! j = bufs s4 ! j"
    using brelse_ok [OF w(2) hf4(1)] by blast
  have ht: "held s5 t d" "b_data (bufs s5 ! t) = disk s5 d" using r(7,9) w(9,10) h(3) by auto
  obtain s6 where e: "brelse t s5 = Inr s6" "bio_ok s6" "content s6 = content s5" "busy s6 = busy s5 - {d}"
    "pinned s6 = pinned s5" "same_log s5 s6" "disk s6 = disk s5" "dtrace s6 = dtrace s5"
    using brelse_ok [OF r(2) ht(1)] ht(2) by blast
  have "same_log s s6"
    using same_log_trans [OF same_log_trans [OF same_log_trans [OF same_log_trans [OF v(7) M(5)] w(6)] r(6)] e(6)] .
  moreover have "busy s6 = busy s" using e(4) r(4) w(4) M(3) v(3,8,9) h(4) by auto
  ultimately have "copied a d s s6"
    unfolding copied_def using e r w M v by auto
  then show ?thesis using w(1) r(1) e(1) unfolding s3_def [symmetric] by auto
qed

lemma coherent:
  assumes "bio_ok s" "a \<notin> busy s"
  shows "a \<in> pinned s \<or> content s a = disk s a"
proof (cases "\<exists>i. at_slot s i a \<and> b_valid (bufs s ! i)")
  case True
  then obtain i where i: "at_slot s i a" "b_valid (bufs s ! i)" by blast
  have c: "content s a = b_data (bufs s ! i)" by (rule content_cached [OF assms(1) i])
  have "\<not> b_locked (bufs s ! i)" using assms(2) i(1) by (auto simp: busy_def)
  then show ?thesis using c i bio_okD(4) [OF assms(1), of i] dirty_pinned [OF assms(1) i(1)]
    by (auto simp: at_slot_def)
next
  case False
  then show ?thesis using content_uncached by blast
qed

lemma log_copy_ok:
  assumes "bio_ok s" "room s" "a \<noteq> d" "a \<notin> busy s" "d \<notin> busy s"
  shows "\<exists>s'. log_copy a d s = Inr s' \<and> copied a d s s'"
proof -
  obtain t s1 f s2 where r: "bread_raw d s = Inr (t, s1)" "bread_raw a s1 = Inr (f, s2)" "t \<noteq> f" "bio_ok s2"
    "held s2 t d" "held s2 f a" "b_data (bufs s2 ! f) = content s a" "content s2 = content s"
    "busy s2 = insert a (insert d (busy s))" "pinned s2 = pinned s" "disk s2 = disk s" "dtrace s2 = dtrace s" "same_log s s2"
    using two_breads [OF assms(1,2) assms(3) [symmetric] assms(5,4)] by blast
  have "busy s2 = insert d (insert a (busy s))" using r(9) by auto
  from copy_tail [OF r(4,5,6,3) assms(3) [symmetric] r(7,8) this r(10-13) assms(4,5) coherent [OF assms(1,4)]]
  show ?thesis using r(1,2) by (simp add: log_copy_def)
qed

lemma install_copy_ok:
  assumes "bio_ok s" "room s" "a \<noteq> d" "a \<notin> busy s" "d \<notin> busy s"
  shows "\<exists>s'. install_copy a d s = Inr s' \<and> copied a d s s'"
proof -
  obtain f s1 t s2 where r: "bread_raw a s = Inr (f, s1)" "bread_raw d s1 = Inr (t, s2)" "f \<noteq> t" "bio_ok s2"
    "held s2 f a" "held s2 t d" "b_data (bufs s2 ! f) = content s a" "content s2 = content s"
    "busy s2 = insert d (insert a (busy s))" "pinned s2 = pinned s" "disk s2 = disk s" "dtrace s2 = dtrace s" "same_log s s2"
    using two_breads [OF assms] by blast
  from copy_tail [OF r(4,6,5) r(3) [symmetric] assms(3) [symmetric] r(7-13) assms(4,5) coherent [OF assms(1,4)]]
  show ?thesis using r(1,2) by (simp add: install_copy_def)
qed

text \<open>The contract of one copy, and what a loop of copies does under it.\<close>

locale block_copy =
  fixes step :: "nat \<Rightarrow> nat \<Rightarrow> bio \<Rightarrow> bio res"
  assumes step_ok: "\<lbrakk>bio_ok s; room s; a \<noteq> d; a \<notin> busy s; d \<notin> busy s\<rbrakk> \<Longrightarrow> \<exists>s'. step a d s = Inr s' \<and> copied a d s s'"
begin

lemma copies_ok:
  assumes "bio_ok s" "room s" "set (map fst ps) \<inter> busy s = {}" "set (map snd ps) \<inter> busy s = {}"
    and "set (map fst ps) \<inter> set (map snd ps) = {}" "distinct (map snd ps)"
  shows "\<exists>s'. copies step ps s = Inr s' \<and> bio_ok s' \<and> room s' \<and> busy s' = busy s \<and>
    pinned s' = pinned s - set (map snd ps) \<and> same_log s s' \<and>
    dtrace s' = dtrace s @ map (\<lambda>(a, d). (d, content s a)) ps \<and>
    disk s' = fold (\<lambda>(a, d) x. x(d := content s a)) ps (disk s) \<and>
    content s' = fold (\<lambda>(a, d) x. x(d := content s a)) ps (content s)"
  using assms
proof (induction ps arbitrary: s)
  case Nil
  then show ?case by (simp add: same_log_refl)
next
  case (Cons p ps)
  obtain a d where p: "p = (a, d)" by force
  have ad: "a \<noteq> d" "a \<notin> busy s" "d \<notin> busy s" using Cons.prems p by auto
  obtain s1 where 1: "step a d s = Inr s1" "copied a d s s1" using step_ok [OF Cons.prems(1,2) ad] by blast
  have c: "bio_ok s1" "busy s1 = busy s" "pinned s1 = pinned s - {d}" "same_log s s1"
    "content s1 = (content s)(d := content s a)" "disk s1 = (disk s)(d := content s a)" "dtrace s1 = dtrace s @ [(d, content s a)]"
    using 1(2) by (auto simp: copied_def)
  have "card (busy s1 \<union> pinned s1) \<le> card (busy s \<union> pinned s)"
    by (rule card_mono [OF finite_in_use]) (use c in auto)
  then have r: "room s1" using Cons.prems(2) c(4) by (simp add: room_def same_log_def)
  have "\<exists>s'. copies step ps s1 = Inr s' \<and> bio_ok s' \<and> room s' \<and> busy s' = busy s1 \<and>
    pinned s' = pinned s1 - set (map snd ps) \<and> same_log s1 s' \<and>
    dtrace s' = dtrace s1 @ map (\<lambda>(a, d). (d, content s1 a)) ps \<and>
    disk s' = fold (\<lambda>(a, d) x. x(d := content s1 a)) ps (disk s1) \<and>
    content s' = fold (\<lambda>(a, d) x. x(d := content s1 a)) ps (content s1)"
    by (rule Cons.IH [OF c(1) r]) (use Cons.prems p c(2) in auto)
  then obtain s' where s': "copies step ps s1 = Inr s'" "bio_ok s'" "room s'" "busy s' = busy s1"
    "pinned s' = pinned s1 - set (map snd ps)" "same_log s1 s'"
    "dtrace s' = dtrace s1 @ map (\<lambda>(a, d). (d, content s1 a)) ps"
    "disk s' = fold (\<lambda>(a, d) x. x(d := content s1 a)) ps (disk s1)"
    "content s' = fold (\<lambda>(a, d) x. x(d := content s1 a)) ps (content s1)" by blast
  have src: "content s1 x = content s x" if "x \<in> fst ` set ps" for x
    using that Cons.prems(5) p c(5) by auto
  have m: "map (\<lambda>(a, d). (d, content s1 a)) ps = map (\<lambda>(a, d). (d, content s a)) ps"
    by (rule map_cong) (use src in force)+
  have f: "fold (\<lambda>(a, d) x. x(d := content s1 a)) ps y = fold (\<lambda>(a, d) x. x(d := content s a)) ps y" for y
  proof (rule fold_cong [OF refl refl])
    fix q assume "q \<in> set ps"
    then have "fst q \<in> fst ` set ps" by simp
    then show "(\<lambda>(a, d) x. x(d := content s1 a)) q = (\<lambda>(a, d) x. x(d := content s a)) q"
      using src by (simp add: case_prod_unfold)
  qed
  have "copies step (p # ps) s = Inr s'" using 1(1) s'(1) p by simp
  moreover have "pinned s' = pinned s - set (map snd (p # ps))" using s'(5) c(3) p by auto
  moreover have "same_log s s'" by (rule same_log_trans [OF c(4) s'(6)])
  moreover have "dtrace s' = dtrace s @ map (\<lambda>(a, d). (d, content s a)) (p # ps)"
    unfolding s'(7) m c(7) p by simp
  moreover have "disk s' = fold (\<lambda>(a, d) x. x(d := content s a)) (p # ps) (disk s)"
    unfolding s'(8) f by (simp add: c(6) p)
  moreover have "content s' = fold (\<lambda>(a, d) x. x(d := content s a)) (p # ps) (content s)"
    unfolding s'(9) f by (simp add: c(5) p)
  moreover have "busy s' = busy s" using s'(4) c(2) by simp
  ultimately show ?case using s'(2,3) by (intro exI [of _ s'] conjI)
qed

end

interpretation to_log: block_copy log_copy
  by unfold_locales (rule log_copy_ok)

interpretation install: block_copy install_copy
  by unfold_locales (rule install_copy_ok)

end
