(* ===== verification/Log_Props.thy ===== *)
theory Log_Props
  imports Log
begin

text \<open>
  What the buffer cache of Project03-FileSystem/bio.c and the log of log.c guarantee: reads see the
  last data written and the cache keeps its invariant; the writes of a commit, in order; and
  recovery after a crash between any two of them.
\<close>

section \<open>The buffer cache\<close>


lemma views_cong:
  assumes "bufs s' = bufs s" "disk s' = disk s" "lru s' = lru s"
  shows "content s' = content s" "busy s' = busy s" "pinned s' = pinned s" "bio_ok s' = bio_ok s" "room s' = room s"
    "held s' i b = held s i b"
proof -
  show "content s' = content s" unfolding content_def [abs_def] assms ..
  show b: "busy s' = busy s" "pinned s' = pinned s" by (simp_all add: busy_def pinned_def at_slot_def assms)
  show "bio_ok s' = bio_ok s" "held s' i b = held s i b" by (simp_all add: bio_ok_def held_def at_slot_def assms)
  show "room s' = room s" by (simp add: room_def b assms)
qed

definition boot :: "(nat \<Rightarrow> blk) \<Rightarrow> bio" where
  "boot d = binit \<lparr>bufs = [], lru = [], disk = d, dtrace = [], is_flush = False, lh = [], committing = False, outst = 0,
     lstart = 0, lsize = 0\<rparr>"

lemma boot_ok: "bio_ok (boot d)" "busy (boot d) = {}" "pinned (boot d) = {}" "content (boot d) = d" "disk (boot d) = d"
  "length (bufs (boot d)) = NBUF" "lh (boot d) = []" "dtrace (boot d) = []" "is_flush (boot d) = False"
proof -
  have z: "bufs (boot d) = replicate NBUF zero_buf" "lru (boot d) = rev [0..<NBUF]" "disk (boot d) = d"
    by (simp_all add: boot_def binit_def)
  have n: "\<not> at_slot (boot d) i b" for i b by (auto simp: at_slot_def z zero_buf_def)
  have b: "buf_ok d zero_buf" by (simp add: buf_ok_def zero_buf_def)
  have nth: "bufs (boot d) ! i = zero_buf" if "i < NBUF" for i using that by (simp add: z)
  show "length (bufs (boot d)) = NBUF" by (simp add: z)
  show "disk (boot d) = d" by (rule z(3))
  show "bio_ok (boot d)"
    unfolding bio_ok_def using nth b
    by (auto simp: z(2,3) \<open>length (bufs (boot d)) = NBUF\<close> zero_buf_def atLeast0LessThan simp del: upt_rec_numeral)
  show "busy (boot d) = {}" "pinned (boot d) = {}" using n by (auto simp: busy_def pinned_def)
  have "content (boot d) b = d b" for b using content_uncached [of "boot d" b] n z(3) by simp
  then show "content (boot d) = d" by blast
  show "lh (boot d) = []" "dtrace (boot d) = []" "is_flush (boot d) = False" by (simp_all add: boot_def binit_def)
qed


section \<open>The header block\<close>

lemma rdw_put_list:
  "rdw (put_list d k xs) j = (if k \<le> j \<and> j < k + length xs then xs ! (j - k) mod 4294967296 else rdw d j)"
proof (induction xs arbitrary: d k)
  case (Cons x xs)
  show ?case
  proof (cases "j = k")
    case True
    then show ?thesis using Cons.IH [of "wrw d k x" "Suc k"] by (simp add: rdw_wrw)
  next
    case False
    show ?thesis
    proof (cases "k \<le> j \<and> j < k + length (x # xs)")
      case True
      then have j: "Suc k \<le> j" "j < Suc k + length xs" "j - k = Suc (j - Suc k)" using False by auto
      have "rdw (put_list d k (x # xs)) j = xs ! (j - Suc k) mod 4294967296" using j by (simp add: Cons.IH)
      then show ?thesis unfolding if_P [OF True] by (simp add: j(3))
    next
      case n: False
      then have m: "\<not> (Suc k \<le> j \<and> j < Suc k + length xs)" by auto
      show ?thesis unfolding if_not_P [OF n] put_list.simps Cons.IH if_not_P [OF m] using False by (simp add: rdw_wrw)
    qed
  qed
qed simp

lemma head_roundtrip:
  assumes "length bs \<le> LOGSIZE" "\<forall>b\<in>set bs. b < 4294967296"
  shows "head_list (head_data d bs) = bs"
proof -
  have n: "rdw (head_data d bs) 0 = length bs"
    using assms(1) by (simp add: head_data_def rdw_put_list rdw_wrw)
  have "rdw (head_data d bs) (i + 1) = bs ! i" if "i < length bs" for i
    using that assms(2) by (simp add: head_data_def rdw_put_list)
  then show ?thesis using assms(1) unfolding head_list_def n by (auto intro: nth_equalityI)
qed

section \<open>Replaying writes\<close>

definition replay :: "(nat \<times> blk) list \<Rightarrow> (nat \<Rightarrow> blk) \<Rightarrow> nat \<Rightarrow> blk" where
  "replay W d = fold (\<lambda>(b, x) d. d(b := x)) W d"

lemma replay_append [simp]: "replay (V @ W) d = replay W (replay V d)"
  by (simp add: replay_def)

lemma replay_one [simp]: "replay [(b, x)] d = d(b := x)" "replay [] d = d"
  by (simp_all add: replay_def)

lemma replay_Cons [simp]: "replay ((b, x) # W) d = replay W (d(b := x))"
  by (simp add: replay_def)

lemma replay_out: "b \<notin> fst ` set W \<Longrightarrow> replay W d b = d b"
  by (induction W arbitrary: d) (auto simp: replay_def)

lemma replay_in: "distinct (map fst W) \<Longrightarrow> (b, x) \<in> set W \<Longrightarrow> replay W d b = x"
proof (induction W arbitrary: d)
  case (Cons p W)
  obtain a y where p: "p = (a, y)" by force
  show ?case
  proof (cases "(b, x) \<in> set W")
    case True
    then show ?thesis using Cons p by (simp add: replay_def)
  next
    case False
    then have "a = b" "y = x" "b \<notin> fst ` set W" using Cons.prems p by auto
    then show ?thesis using replay_out [of b W] p by (simp add: replay_def)
  qed
qed simp

lemma fold_replay: "fold (\<lambda>(a, d) x. x(d := c a)) ps y = replay (map (\<lambda>(a, d). (d, c a)) ps) y"
  unfolding replay_def by (induction ps arbitrary: y) auto

section \<open>Steps of a commit\<close>

lemma write_head_ok:
  assumes "bio_ok s" "room s" "lstart s \<notin> busy s"
  defines "H \<equiv> head_data (content s (lstart s)) (lh s)"
  shows "\<exists>s'. write_head s = Inr s' \<and> bio_ok s' \<and> room s' \<and> busy s' = busy s \<and> pinned s' = pinned s - {lstart s} \<and> same_log s s' \<and>
    content s' = (content s)(lstart s := H) \<and> disk s' = (disk s)(lstart s := H) \<and> dtrace s' = dtrace s @ [(lstart s, H)]"
proof -
  have "card (busy s \<union> pinned s) < length (bufs s)" using assms(2) by (simp add: room_def)
  then obtain i s1 where 1: "bread_raw (lstart s) s = Inr (i, s1)" "got s (lstart s) i s1"
    using bread_got [OF assms(1,3)] by blast
  note G = got_ok [OF assms(1) 1(2)]
  define s2 where "s2 = upd_buf i (\<lambda>b. b\<lparr>b_data := head_data (b_data b) (lh s)\<rparr>) s1"
  have s2: "s2 = upd_buf i (\<lambda>b. b\<lparr>b_data := H\<rparr>) s1" using G(3) by (simp add: s2_def upd_buf_def H_def)
  note M = modify_ok [OF G(1,2), where D = H, folded s2]
  obtain s3 where w: "bwrite i s2 = Inr s3" "bio_ok s3" "content s3 = (content s2)(lstart s := H)" "busy s3 = busy s2"
    "pinned s3 = pinned s2 - {lstart s}" "same_log s2 s3" "disk s3 = (disk s2)(lstart s := H)"
    "dtrace s3 = dtrace s2 @ [(lstart s, H)]" "held s3 i (lstart s)" "b_data (bufs s3 ! i) = disk s3 (lstart s)"
    using bwrite_ok [OF M(1,8)] M(9) by auto
  obtain s4 where r: "brelse i s3 = Inr s4" "bio_ok s4" "content s4 = content s3" "busy s4 = busy s3 - {lstart s}"
    "pinned s4 = pinned s3" "same_log s3 s4" "disk s4 = disk s3" "dtrace s4 = dtrace s3"
    using brelse_ok [OF w(2,9)] w(10) by blast
  have b: "busy s4 = busy s" using r(4) w(4) M(3) G(5) assms(3) by auto
  have p: "pinned s4 = pinned s - {lstart s}" using r(5) w(5) M(4) G(6) by simp
  have l: "same_log s s4" by (rule same_log_trans [OF same_log_trans [OF same_log_trans [OF G(9) M(5)] w(6)] r(6)])
  have "card (busy s4 \<union> pinned s4) \<le> card (busy s \<union> pinned s)"
    by (rule card_mono [OF finite_in_use]) (use b p in auto)
  then have "room s4" using assms(2) l by (simp add: room_def same_log_def)
  moreover have "write_head s = Inr s4" using 1(1) w(1) r(1) by (simp add: write_head_def s2_def)
  ultimately show ?thesis
    using r w M G b p l by (intro exI [of _ s4]) auto
qed

definition log_area :: "bio \<Rightarrow> nat set" where
  "log_area s = {lstart s..lstart s + length (lh s)}"

definition commit_ready :: "bio \<Rightarrow> bool" where
  "commit_ready s \<longleftrightarrow> bio_ok s \<and> room s \<and> lh s \<noteq> [] \<and> distinct (lh s) \<and> set (lh s) \<inter> log_area s = {} \<and>
     set (lh s) \<inter> busy s = {} \<and> log_area s \<inter> busy s = {} \<and> length (lh s) \<le> LOGSIZE \<and> (\<forall>b\<in>set (lh s). b < 4294967296)"

definition commit_writes :: "bio \<Rightarrow> (nat \<times> blk) list" where
  "commit_writes s =
     (let H = head_data (content s (lstart s)) (lh s) in
      map (\<lambda>(b, l). (l, content s b)) (zip (lh s) (log_blocks s)) @ [(lstart s, H)] @
      map (\<lambda>b. (b, content s b)) (lh s) @ [(lstart s, head_data H [])])"

lemma log_blocks_facts:
  "length (log_blocks s) = length (lh s)" "distinct (log_blocks s)" "set (log_blocks s) = log_area s - {lstart s}"
  "lstart s \<in> log_area s" "set (log_blocks s) \<subseteq> log_area s" "lstart s \<notin> set (log_blocks s)"
proof -
  show "length (log_blocks s) = length (lh s)" by (simp add: log_blocks_def)
  show "distinct (log_blocks s)" by (auto simp: log_blocks_def distinct_map inj_on_def)
  have "(\<lambda>t. lstart s + t + 1) ` {0..<length (lh s)} = {lstart s + 1..<lstart s + 1 + length (lh s)}"
    using image_add_atLeastLessThan [of "lstart s + 1" 0 "length (lh s)"] by (simp add: add.commute add.left_commute)
  then show e: "set (log_blocks s) = log_area s - {lstart s}"
    unfolding log_blocks_def set_map set_upt log_area_def by auto
  show "lstart s \<in> log_area s" by (simp add: log_area_def)
  show "set (log_blocks s) \<subseteq> log_area s" "lstart s \<notin> set (log_blocks s)" using e by auto
qed

lemma commit_trace:
  assumes "commit_ready s"
  shows "\<exists>s'. commit s = Inr s' \<and> dtrace s' = dtrace s @ commit_writes s \<and> disk s' = replay (commit_writes s) (disk s) \<and>
    bio_ok s' \<and> busy s' = busy s \<and> lh s' = [] \<and> pinned s' = pinned s - set (lh s) - log_area s \<and>
    (\<forall>x. x \<notin> log_area s \<longrightarrow> content s' x = content s x)"
proof -
  have c: "bio_ok s" "room s" "lh s \<noteq> []" "distinct (lh s)" "set (lh s) \<inter> log_area s = {}" "set (lh s) \<inter> busy s = {}"
    "log_area s \<inter> busy s = {}"
    using assms by (auto simp: commit_ready_def)
  note lb = log_blocks_facts [of s]
  let ?ps = "zip (lh s) (log_blocks s)" and ?qs = "zip (log_blocks s) (lh s)"
  have fs: "map fst ?ps = lh s" "map snd ?ps = log_blocks s" "map fst ?qs = log_blocks s" "map snd ?qs = lh s"
    using lb(1) by simp_all
  obtain s1 where 1: "write_log s = Inr s1" "bio_ok s1" "room s1" "busy s1 = busy s" "pinned s1 = pinned s - set (log_blocks s)"
    "same_log s s1" "dtrace s1 = dtrace s @ map (\<lambda>(a, d). (d, content s a)) ?ps"
    "disk s1 = replay (map (\<lambda>(a, d). (d, content s a)) ?ps) (disk s)"
    "content s1 = replay (map (\<lambda>(a, d). (d, content s a)) ?ps) (content s)"
  proof -
    have "\<exists>s'. copies log_copy ?ps s = Inr s' \<and> bio_ok s' \<and> room s' \<and> busy s' = busy s \<and>
      pinned s' = pinned s - set (map snd ?ps) \<and> same_log s s' \<and>
      dtrace s' = dtrace s @ map (\<lambda>(a, d). (d, content s a)) ?ps \<and>
      disk s' = fold (\<lambda>(a, d) x. x(d := content s a)) ?ps (disk s) \<and>
      content s' = fold (\<lambda>(a, d) x. x(d := content s a)) ?ps (content s)"
      by (rule to_log.copies_ok) (unfold fs, use c lb in auto)
    then show ?thesis using that unfolding write_log_def fold_replay fs by blast
  qed
  have k1: "map fst (map (\<lambda>(a, d). (d, content s a)) ?ps) = log_blocks s"
    using fs(2) by (simp add: comp_def case_prod_unfold)
  then have k1': "fst ` set (map (\<lambda>(a, d). (d, content s a)) ?ps) = set (log_blocks s)" by (metis set_map)
  have con1: "content s1 x = content s x" if "x \<notin> set (log_blocks s)" for x
    unfolding 1(9) by (rule replay_out) (use that k1' in simp)
  have log1: "content s1 (log_blocks s ! i) = content s (lh s ! i)" if i: "i < length (lh s)" for i
  proof -
    have "(lh s ! i, log_blocks s ! i) \<in> set ?ps" using i lb(1) by (auto simp: in_set_zip)
    then have "(log_blocks s ! i, content s (lh s ! i)) \<in> set (map (\<lambda>(a, d). (d, content s a)) ?ps)" by force
    then show ?thesis unfolding 1(9) by (rule replay_in [rotated]) (use k1 lb(2) in simp)
  qed
  have st1: "lstart s1 = lstart s" "lh s1 = lh s" using 1(6) by (simp_all add: same_log_def)
  have b1: "lstart s1 \<notin> busy s1" using st1 1(4) c(7) lb(4) by auto
  let ?H = "head_data (content s (lstart s)) (lh s)"
  obtain s2 where 2: "write_head s1 = Inr s2" "bio_ok s2" "room s2" "busy s2 = busy s1" "pinned s2 = pinned s1 - {lstart s}"
    "same_log s1 s2" "content s2 = (content s1)(lstart s := ?H)" "disk s2 = (disk s1)(lstart s := ?H)"
    "dtrace s2 = dtrace s1 @ [(lstart s, ?H)]"
    using write_head_ok [OF 1(2,3) b1] con1 [OF lb(6)] unfolding st1 by auto
  have st2: "lstart s2 = lstart s" "lh s2 = lh s" using 2(6) st1 by (simp_all add: same_log_def)
  have lb2: "log_blocks s2 = log_blocks s" by (simp add: log_blocks_def st2)
  obtain s3 where 3: "install_trans s2 = Inr s3" "bio_ok s3" "room s3" "busy s3 = busy s2" "pinned s3 = pinned s2 - set (lh s)"
    "same_log s2 s3" "dtrace s3 = dtrace s2 @ map (\<lambda>(a, d). (d, content s2 a)) ?qs"
    "disk s3 = replay (map (\<lambda>(a, d). (d, content s2 a)) ?qs) (disk s2)"
    "content s3 = replay (map (\<lambda>(a, d). (d, content s2 a)) ?qs) (content s2)"
  proof -
    have "\<exists>s'. copies install_copy ?qs s2 = Inr s' \<and> bio_ok s' \<and> room s' \<and> busy s' = busy s2 \<and>
      pinned s' = pinned s2 - set (map snd ?qs) \<and> same_log s2 s' \<and>
      dtrace s' = dtrace s2 @ map (\<lambda>(a, d). (d, content s2 a)) ?qs \<and>
      disk s' = fold (\<lambda>(a, d) x. x(d := content s2 a)) ?qs (disk s2) \<and>
      content s' = fold (\<lambda>(a, d) x. x(d := content s2 a)) ?qs (content s2)"
      by (rule install.copies_ok) (unfold fs, use c lb 2(2,3,4) 1(4) in auto)
    then show ?thesis using that unfolding install_trans_def lb2 st2 fold_replay fs by blast
  qed
  have m: "map (\<lambda>(a, d). (d, content s2 a)) ?qs = map (\<lambda>b. (b, content s b)) (lh s)"
  proof (rule nth_equalityI)
    show "length (map (\<lambda>(a, d). (d, content s2 a)) ?qs) = length (map (\<lambda>b. (b, content s b)) (lh s))" using lb(1) by simp
    fix i assume "i < length (map (\<lambda>(a, d). (d, content s2 a)) ?qs)"
    then have i: "i < length (lh s)" using lb(1) by simp
    have "log_blocks s ! i \<in> set (log_blocks s)" by (rule nth_mem) (use i lb(1) in simp)
    then have "log_blocks s ! i \<noteq> lstart s" using lb(6) by metis
    then show "map (\<lambda>(a, d). (d, content s2 a)) ?qs ! i = map (\<lambda>b. (b, content s b)) (lh s) ! i"
      using i lb(1) log1 [OF i] 2(7) by simp
  qed
  have key: "fst ` set (map (\<lambda>b. (b, content s b)) (lh s)) = set (lh s)" by force
  have ns: "lstart s \<notin> set (lh s)" using c(5) lb(4) by auto
  have st3: "lstart s3 = lstart s" "content s3 (lstart s) = ?H"
    using 3(6) st2 replay_out [of "lstart s" "map (\<lambda>b. (b, content s b)) (lh s)"] ns key 2(7)
    unfolding 3(9) m by (simp_all add: same_log_def)
  let ?s = "s3\<lparr>lh := []\<rparr>"
  have v: "bio_ok ?s = bio_ok s3" "room ?s = room s3" "busy ?s = busy s3" "content ?s = content s3" "pinned ?s = pinned s3"
    using views_cong [of ?s s3] by simp_all
  have b3: "lstart ?s \<notin> busy ?s" using st3 v 3(4) 2(4) 1(4) c(7) lb(4) by auto
  obtain s4 where 4: "write_head ?s = Inr s4" "bio_ok s4" "busy s4 = busy s3" "pinned s4 = pinned s3 - {lstart s}" "same_log ?s s4"
    "content s4 = (content s3)(lstart s := head_data ?H [])" "disk s4 = (disk s3)(lstart s := head_data ?H [])"
    "dtrace s4 = dtrace s3 @ [(lstart s, head_data ?H [])]"
    using write_head_ok [of ?s, OF _ _ b3] 3(2,3) unfolding v by (auto simp: st3)
  have "commit s = Inr s4" using c(3) 1(1) 2(1) 3(1) 4(1) by (simp add: commit_def)
  moreover have "dtrace s4 = dtrace s @ commit_writes s"
    unfolding 4(8) 3(7) m 2(9) 1(7) by (simp add: commit_writes_def Let_def)
  moreover have "disk s4 = replay (commit_writes s) (disk s)"
    unfolding 4(7) 3(8) m 2(8) 1(8) by (simp add: commit_writes_def Let_def)
  moreover have "lh s4 = []" using 4(5) by (simp add: same_log_def)
  moreover have "busy s4 = busy s" using 4(3) 3(4) 2(4) 1(4) by simp
  moreover have "pinned s4 = pinned s - set (lh s) - log_area s"
    unfolding 4(4) 3(5) 2(5) 1(5) using lb(3,4) by auto
  moreover have "content s4 x = content s x" if "x \<notin> log_area s" for x
  proof -
    have x: "x \<noteq> lstart s" "x \<notin> set (log_blocks s)" using that lb by auto
    have "content s4 x = replay (map (\<lambda>b. (b, content s b)) (lh s)) (content s2) x" using x 4(6) 3(9) m by simp
    also have "\<dots> = content s x"
    proof (cases "x \<in> set (lh s)")
      case True
      have "map fst (map (\<lambda>b. (b, content s b)) (lh s)) = lh s" by (simp add: comp_def)
      then show ?thesis using True c(4) by (intro replay_in) auto
    next
      case False
      then show ?thesis using replay_out [of x "map (\<lambda>b. (b, content s b)) (lh s)"] key x con1 2(7) by simp
    qed
    finally show ?thesis .
  qed
  ultimately show ?thesis using 4(2) by (intro exI [of _ s4]) simp
qed

section \<open>Recovery\<close>

lemma recover_ok:
  fixes d :: "nat \<Rightarrow> blk" and start :: nat
  defines "bs \<equiv> head_list (d start)"
  assumes bs: "distinct bs" "length bs \<le> LOGSIZE" "set bs \<inter> {start..start + length bs} = {}"
  shows "\<exists>r. initlog start sz (boot d) = Inr r \<and>
    (\<forall>i<length bs. disk r (bs ! i) = d (start + i + 1)) \<and>
    (\<forall>x. x \<notin> set bs \<and> x \<noteq> start \<longrightarrow> disk r x = d x) \<and> head_list (disk r start) = []"
proof -
  define s0 where "s0 = (boot d)\<lparr>lstart := start, lsize := sz\<rparr>"
  have v: "bio_ok s0" "busy s0 = {}" "pinned s0 = {}" "content s0 = d" "disk s0 = d" "length (bufs s0) = NBUF" "lstart s0 = start"
    using boot_ok [of d] views_cong [of s0 "boot d"] by (simp_all add: s0_def)
  have "start \<notin> busy s0" "card (busy s0 \<union> pinned s0) < length (bufs s0)" by (simp_all add: v)
  from bread_got [OF v(1) this] obtain i s1 where 1: "bread_raw start s0 = Inr (i, s1)" "got s0 start i s1" by blast
  note G = got_ok [OF v(1) 1(2)]
  define s2 where "s2 = s1\<lparr>lh := bs\<rparr>"
  have u: "bio_ok s2 = bio_ok s1" "busy s2 = busy s1" "pinned s2 = pinned s1" "content s2 = content s1" "disk s2 = disk s1"
    "held s2 i start = held s1 i start" "bufs s2 = bufs s1"
    using views_cong [of s2 s1] by (simp_all add: s2_def)
  have "b_data (bufs s2 ! i) = disk s2 start" using G(3,7) u v by simp
  with brelse_ok [of s2 i start] obtain s3 where 3: "brelse i s2 = Inr s3" "bio_ok s3" "content s3 = content s2" "busy s3 = busy s2 - {start}"
    "pinned s3 = pinned s2" "same_log s2 s3" "disk s3 = disk s2"
    using G(1,2) u by blast
  have rh: "read_head s0 = Inr s3"
    using 1(1) 3(1) bs(2) G(3) v by (simp add: read_head_def Let_def s2_def bs_def)
  have w: "content s3 = d" "busy s3 = {}" "pinned s3 = {}" "disk s3 = d" "lstart s3 = start" "lh s3 = bs" "length (bufs s3) = NBUF"
    using 3 G u v by (auto simp: s2_def same_log_def)
  have room: "room s3" by (simp add: room_def w)
  note lb = log_blocks_facts [of s3]
  have la: "log_area s3 = {start..start + length bs}" by (simp add: log_area_def w)
  let ?qs = "zip (log_blocks s3) bs"
  have fs: "map fst ?qs = log_blocks s3" "map snd ?qs = bs" using lb(1) w by simp_all
  obtain s4 where 4: "install_trans s3 = Inr s4" "bio_ok s4" "room s4" "busy s4 = {}" "same_log s3 s4"
    "disk s4 = replay (map (\<lambda>(a, c). (c, d a)) ?qs) d" "content s4 = replay (map (\<lambda>(a, c). (c, d a)) ?qs) d"
  proof -
    have "\<exists>s'. copies install_copy ?qs s3 = Inr s' \<and> bio_ok s' \<and> room s' \<and> busy s' = busy s3 \<and>
      pinned s' = pinned s3 - set (map snd ?qs) \<and> same_log s3 s' \<and>
      dtrace s' = dtrace s3 @ map (\<lambda>(a, c). (c, content s3 a)) ?qs \<and>
      disk s' = fold (\<lambda>(a, c) x. x(c := content s3 a)) ?qs (disk s3) \<and>
      content s' = fold (\<lambda>(a, c) x. x(c := content s3 a)) ?qs (content s3)"
      by (rule install.copies_ok [OF 3(2) room]) (unfold fs, use bs lb(5) la w in auto)
    then show ?thesis using that unfolding install_trans_def w fold_replay by auto
  qed
  let ?s = "s4\<lparr>lh := []\<rparr>"
  have z: "bio_ok ?s = bio_ok s4" "room ?s = room s4" "busy ?s = busy s4" "content ?s = content s4" "lstart ?s = start"
    using views_cong [of ?s s4] 4(5) w by (simp_all add: same_log_def)
  obtain r where 5: "write_head ?s = Inr r" "disk r = (disk s4)(start := head_data (content s4 start) [])"
    using write_head_ok [of ?s] 4(2-4) unfolding z by auto
  have run: "initlog start sz (boot d) = Inr r"
    using rh 4(1) 5(1) by (simp add: initlog_def recover_from_log_def s0_def)
  have keys: "map fst (map (\<lambda>(a, c). (c, d a)) ?qs) = bs" using fs(2) by (simp add: comp_def case_prod_unfold)
  then have key: "fst ` set (map (\<lambda>(a, c). (c, d a)) ?qs) = set bs"
    by (metis list.set_map)
  have start: "start \<notin> set bs" using bs(3) by auto
  have ent: "disk r (bs ! j) = d (start + j + 1)" if j: "j < length bs" for j
  proof -
    have "bs ! j \<noteq> start" using start j nth_mem by metis
    moreover have "(start + j + 1, bs ! j) \<in> set ?qs"
      using j lb(1) w by (auto simp: in_set_zip log_blocks_def intro!: exI [of _ j])
    then have "(bs ! j, d (start + j + 1)) \<in> set (map (\<lambda>(a, c). (c, d a)) ?qs)" by force
    moreover have "distinct (map fst (map (\<lambda>(a, c). (c, d a)) ?qs))" unfolding keys by (rule bs(1))
    ultimately show ?thesis unfolding 5(2) 4(6) by (metis (no_types) fun_upd_other replay_in)
  qed
  have "disk r x = d x" if "x \<notin> set bs" "x \<noteq> start" for x
    using that replay_out [of x "map (\<lambda>(a, c). (c, d a)) ?qs"] key by (simp add: 5(2) 4(6))
  moreover have "head_list (disk r start) = []" using head_roundtrip [of "[]"] by (simp add: 5(2))
  ultimately show ?thesis using run ent by blast
qed

text \<open>The writes of a commit: the blocks into the log, the header, the blocks to their homes, the empty header.\<close>

definition log_part :: "bio \<Rightarrow> (nat \<times> blk) list" where
  "log_part s = map (\<lambda>(b, l). (l, content s b)) (zip (lh s) (log_blocks s))"

definition home_part :: "bio \<Rightarrow> (nat \<times> blk) list" where
  "home_part s = map (\<lambda>b. (b, content s b)) (lh s)"

definition full_head :: "bio \<Rightarrow> blk" where
  "full_head s = head_data (content s (lstart s)) (lh s)"

definition new_disk :: "bio \<Rightarrow> nat \<Rightarrow> blk" where
  "new_disk s x = (if x \<in> set (lh s) then content s x else disk s x)"

lemma commit_writes_parts:
  "commit_writes s = log_part s @ [(lstart s, full_head s)] @ home_part s @ [(lstart s, head_data (full_head s) [])]"
  "length (log_part s) = length (lh s)" "length (home_part s) = length (lh s)"
  using log_blocks_facts(1) [of s] by (simp_all add: commit_writes_def Let_def log_part_def home_part_def full_head_def)

lemma log_part_keys: "map fst (log_part s) = log_blocks s" "fst ` set (log_part s) = set (log_blocks s)"
proof -
  show "map fst (log_part s) = log_blocks s" using log_blocks_facts(1) [of s] by (simp add: log_part_def comp_def case_prod_unfold)
  then show "fst ` set (log_part s) = set (log_blocks s)" by (metis list.set_map)
qed

lemma home_part_keys: "map fst (home_part s) = lh s" "fst ` set (home_part s) = set (lh s)"
  by (auto simp: home_part_def comp_def image_image)

lemma log_part_at: "i < length (lh s) \<Longrightarrow> replay (log_part s) d (lstart s + i + 1) = content s (lh s ! i)"
proof -
  assume i: "i < length (lh s)"
  then have "(lstart s + i + 1, content s (lh s ! i)) \<in> set (log_part s)"
    unfolding log_part_def by (force simp: in_set_zip log_blocks_def intro!: image_eqI [of _ _ "(lh s ! i, lstart s + i + 1)"] exI [of _ i])
  then show ?thesis using replay_in [of "log_part s"] log_part_keys(1) log_blocks_facts(2) [of s] by simp
qed

lemma commit_readyD:
  assumes "commit_ready s"
  shows "distinct (lh s)" "set (lh s) \<inter> log_area s = {}" "length (lh s) \<le> LOGSIZE" "\<forall>b\<in>set (lh s). b < 4294967296" "lstart s \<notin> set (lh s)"
  using assms log_blocks_facts(4) [of s] by (auto simp: commit_ready_def)

text \<open>A disk with an empty log is left as it is.\<close>

lemma recover_empty:
  assumes "head_list (d (lstart s)) = []"
  shows "\<exists>r. initlog (lstart s) sz (boot d) = Inr r \<and> (\<forall>x. x \<notin> log_area s \<longrightarrow> disk r x = d x)"
proof -
  obtain r where "initlog (lstart s) sz (boot d) = Inr r" "\<forall>x. x \<noteq> lstart s \<longrightarrow> disk r x = d x"
    using recover_ok [of d "lstart s" sz] assms by auto
  then show ?thesis using log_blocks_facts(4) [of s] by metis
qed

text \<open>The three stretches of a commit: before the header is written, while the blocks go home, and at its end.\<close>

lemma crash_early:
  assumes "head_list (disk s (lstart s)) = []"
  shows "\<exists>r. initlog (lstart s) sz (boot (replay (take k (log_part s)) (disk s))) = Inr r \<and> (\<forall>x. x \<notin> log_area s \<longrightarrow> disk r x = disk s x)"
proof -
  let ?d = "replay (take k (log_part s)) (disk s)"
  note lb = log_blocks_facts [of s]
  have "fst ` set (take k (log_part s)) \<subseteq> set (log_blocks s)" using log_part_keys(2) set_take_subset [of k "log_part s"] by auto
  then have keep: "?d x = disk s x" if "x \<notin> set (log_blocks s)" for x using that by (intro replay_out) auto
  then have "head_list (?d (lstart s)) = []" using assms lb(6) by simp
  from recover_empty [of ?d, OF this] show ?thesis using keep [OF contra_subsetD [OF lb(5)]] by auto
qed

lemma crash_committed:
  assumes "commit_ready s"
  shows "\<exists>r. initlog (lstart s) sz (boot (replay (take j (home_part s)) ((replay (log_part s) (disk s))(lstart s := full_head s)))) = Inr r \<and>
    (\<forall>x. x \<notin> log_area s \<longrightarrow> disk r x = new_disk s x)"
proof -
  let ?d = "replay (take j (home_part s)) ((replay (log_part s) (disk s))(lstart s := full_head s))" and ?n = "length (lh s)"
  note c = commit_readyD [OF assms] and lb = log_blocks_facts [of s]
  have sub: "fst ` set (take j (home_part s)) \<subseteq> set (lh s)" using home_part_keys(2) set_take_subset [of j "home_part s"] by auto
  have keep: "?d x = (if x = lstart s then full_head s else replay (log_part s) (disk s) x)" if "x \<notin> set (lh s)" for x
    using that sub by (subst replay_out) auto
  have hl: "head_list (?d (lstart s)) = lh s" using keep [OF c(5)] head_roundtrip [OF c(3,4)] by (simp add: full_head_def)
  have "set (lh s) \<inter> {lstart s..lstart s + ?n} = {}" using c(2) by (simp add: log_area_def)
  from recover_ok [of ?d "lstart s" sz, unfolded hl, OF c(1,3) this] obtain r where r:
    "initlog (lstart s) sz (boot ?d) = Inr r" "\<forall>i<?n. disk r (lh s ! i) = ?d (lstart s + i + 1)"
    "\<forall>x. x \<notin> set (lh s) \<and> x \<noteq> lstart s \<longrightarrow> disk r x = ?d x" by blast
  have "disk r x = new_disk s x" if x: "x \<notin> log_area s" for x
  proof (cases "x \<in> set (lh s)")
    case True
    then obtain i where i: "i < ?n" "x = lh s ! i" by (metis in_set_conv_nth)
    have "lstart s + i + 1 \<in> log_area s" using i(1) by (simp add: log_area_def)
    then have "lstart s + i + 1 \<notin> set (lh s)" using c(2) by auto
    from keep [OF this] have "?d (lstart s + i + 1) = content s (lh s ! i)" using log_part_at [OF i(1)] by simp
    then show ?thesis using r(2) i True by (simp add: new_disk_def)
  next
    case False
    have "x \<noteq> lstart s" "x \<notin> set (log_blocks s)" using x lb by auto
    then show ?thesis using r(3) False keep [OF False] replay_out [of x "log_part s"] log_part_keys(2) by (simp add: new_disk_def)
  qed
  then show ?thesis using r(1) by blast
qed

lemma crash_late:
  assumes "commit_ready s"
  shows "\<exists>r. initlog (lstart s) sz (boot (replay (commit_writes s) (disk s))) = Inr r \<and> (\<forall>x. x \<notin> log_area s \<longrightarrow> disk r x = new_disk s x)"
proof -
  let ?d = "(replay (home_part s) ((replay (log_part s) (disk s))(lstart s := full_head s)))(lstart s := head_data (full_head s) [])"
  note c = commit_readyD [OF assms] and lb = log_blocks_facts [of s]
  have t: "replay (commit_writes s) (disk s) = ?d" by (simp add: commit_writes_parts(1))
  have "head_list (?d (lstart s)) = []" using head_roundtrip [of "[]"] by simp
  from recover_empty [of ?d, OF this] obtain r where r: "initlog (lstart s) sz (boot ?d) = Inr r" "\<forall>x. x \<notin> log_area s \<longrightarrow> disk r x = ?d x"
    by blast
  have "?d x = new_disk s x" if x: "x \<notin> log_area s" for x
  proof (cases "x \<in> set (lh s)")
    case True
    then have "(x, content s x) \<in> set (home_part s)" by (simp add: home_part_def)
    then show ?thesis using replay_in [of "home_part s"] home_part_keys(1) [of s] c(1) True x lb(4) by (auto simp: new_disk_def)
  next
    case False
    have "x \<noteq> lstart s" "x \<notin> set (log_blocks s)" using x lb by auto
    then show ?thesis using False replay_out [of x "log_part s"] replay_out [of x "home_part s"] log_part_keys(2) home_part_keys(2) [of s]
      by (simp add: new_disk_def)
  qed
  then show ?thesis using r t by auto
qed

text \<open>C2: a commit is atomic: let the machine stop after any number of the disk writes of \<open>commit\<close> and
  start again on the disk it left; then recovery terminates without a panic, and outside the log area the disk holds
  either all of the old data, when the header had not been written, or all of the new data of the transaction, from
  the write of the header on. The commit itself returns with every block of the transaction on the disk and the log empty.\<close>

theorem commit_crash_atomic:
  assumes "commit_ready s" "head_list (disk s (lstart s)) = []"
  shows "\<exists>s' W. commit s = Inr s' \<and> dtrace s' = dtrace s @ W \<and> lh s' = [] \<and>
    (\<forall>k\<le>length W. \<exists>r. initlog (lstart s) sz (boot (replay (take k W) (disk s))) = Inr r \<and>
      (\<forall>x. x \<notin> log_area s \<longrightarrow>
         disk r x = (if k \<le> length (lh s) then disk s x else if x \<in> set (lh s) then content s x else disk s x)))"
proof -
  let ?n = "length (lh s)"
  note W = commit_writes_parts [of s]
  obtain s' where s': "commit s = Inr s'" "dtrace s' = dtrace s @ commit_writes s" "lh s' = []"
    using commit_trace [OF assms(1)] by blast
  have "\<exists>r. initlog (lstart s) sz (boot (replay (take k (commit_writes s)) (disk s))) = Inr r \<and>
      (\<forall>x. x \<notin> log_area s \<longrightarrow> disk r x = (if k \<le> ?n then disk s x else new_disk s x))" if k: "k \<le> length (commit_writes s)" for k
  proof -
    consider "k \<le> ?n" | j where "k = ?n + 1 + j" "j \<le> ?n" | "?n < k" "k = length (commit_writes s)"
    proof -
      have "length (commit_writes s) = 2 * ?n + 2" using W by simp
      moreover have "k = ?n + 1 + (k - ?n - 1)" "k - ?n - 1 \<le> ?n" if "?n < k" "k \<noteq> 2 * ?n + 2"
        using k that calculation by linarith+
      ultimately show thesis using that by (metis not_less)
    qed
    then show ?thesis
    proof cases
      case 1
      then have "take k (commit_writes s) = take k (log_part s)" using W by simp
      then show ?thesis using crash_early [OF assms(2), of sz k] 1 by simp
    next
      case 2
      then have "take k (commit_writes s) = log_part s @ [(lstart s, full_head s)] @ take j (home_part s)" using W by simp
      then show ?thesis using crash_committed [OF assms(1), of sz j] 2 by simp
    next
      case 3
      then show ?thesis using crash_late [OF assms(1), of sz] by simp
    qed
  qed
  then show ?thesis using s' unfolding new_disk_def by blast
qed

text \<open>A transaction with one block: block 40, whose first word becomes 7.\<close>

definition one_write :: bio where
  "one_write = (boot (\<lambda>_. zero_blk))\<lparr>bufs := (bufs (boot (\<lambda>_. zero_blk)))[0 := \<lparr>b_dev = 1, b_no = 40, b_valid = True,
     b_dirty = True, b_locked = False, b_refcnt = 0, b_data = wrw zero_blk 0 7\<rparr>], lh := [40], lstart := 2, lsize := 30\<rparr>"

lemma one_write_ready: "commit_ready one_write" "content one_write 40 = wrw zero_blk 0 7" "disk one_write = (\<lambda>_. zero_blk)"
  "lh one_write = [40]" "lstart one_write = 2" "dtrace one_write = []"
proof -
  let ?b = "boot (\<lambda>_. zero_blk)"
  let ?B = "\<lparr>b_dev = 1, b_no = 40, b_valid = True, b_dirty = True, b_locked = False, b_refcnt = 0, b_data = wrw zero_blk 0 7\<rparr>"
  let ?s = "?b\<lparr>bufs := (bufs ?b)[0 := ?B]\<rparr>"
  have z: "b_dev (bufs ?b ! i) = 0" "\<not> b_locked (bufs ?b ! i)" "\<not> b_dirty (bufs ?b ! i)" if "i < NBUF" for i
    using that by (simp_all add: boot_def binit_def zero_buf_def)
  have no: "\<not> at_slot ?b i c" for i c using z(1) by (auto simp: at_slot_def boot_ok)
  have ok: "bio_ok ?s"
    by (rule bio_ok_upd [OF boot_ok(1)]) (simp_all add: boot_ok buf_ok_def no)
  have at: "at_slot ?s i c \<longleftrightarrow> i = 0 \<and> c = 40" for i c unfolding at_slot_upd using no by (auto simp: boot_ok)
  have buf: "bufs ?s ! 0 = ?B" by (simp add: boot_ok)
  have b: "busy ?s = {}" "pinned ?s = {40}" unfolding busy_def pinned_def at using buf by auto
  have c: "content ?s 40 = wrw zero_blk 0 7" using content_cached [OF ok, of 0 40] at buf by simp
  have e: "one_write = ?s\<lparr>lh := [40], lstart := 2, lsize := 30\<rparr>" by (simp add: one_write_def)
  note v = views_cong [of one_write ?s]
  have vv: "bio_ok one_write" "busy one_write = {}" "pinned one_write = {40}" "content one_write 40 = wrw zero_blk 0 7"
    "length (bufs one_write) = NBUF"
    using v ok b c by (simp_all add: e boot_ok)
  then show "content one_write 40 = wrw zero_blk 0 7" by simp
  show f: "lh one_write = [40]" "lstart one_write = 2" "disk one_write = (\<lambda>_. zero_blk)" "dtrace one_write = []"
    by (simp_all add: one_write_def boot_ok)
  show "commit_ready one_write"
    unfolding commit_ready_def room_def log_area_def f vv by (simp add: vv)
qed

theorem commit_crash_atomic_witness:
  "\<exists>s' W. commit one_write = Inr s' \<and> dtrace s' = W \<and>
     (\<forall>k\<le>length W. \<exists>r. initlog 2 30 (boot (replay (take k W) (\<lambda>_. zero_blk))) = Inr r \<and>
        disk r 40 = (if k \<le> 1 then zero_blk else wrw zero_blk 0 7))"
proof -
  note o = one_write_ready
  have "head_list (disk one_write (lstart one_write)) = []"
    by (simp add: o head_list_def rdw_def rd32_def rd16_def zero_blk_def)
  from commit_crash_atomic [OF o(1) this, of 30] obtain s' W where c: "commit one_write = Inr s'" "dtrace s' = W"
    and k: "\<forall>k\<le>length W. \<exists>r. initlog 2 30 (boot (replay (take k W) (\<lambda>_. zero_blk))) = Inr r \<and>
      (\<forall>x. x \<notin> log_area one_write \<longrightarrow> disk r x = (if k \<le> length [40::nat] then zero_blk
         else if x \<in> set [40] then content one_write x else zero_blk))"
    unfolding o(3-6) append_Nil by blast
  have "40 \<notin> log_area one_write" by (simp add: log_area_def o)
  then have "\<exists>r. initlog 2 30 (boot (replay (take k W) (\<lambda>_. zero_blk))) = Inr r \<and>
      disk r 40 = (if k \<le> 1 then zero_blk else wrw zero_blk 0 7)" if "k \<le> length W" for k
    using k [rule_format, OF that] o(2) by auto
  then show ?thesis using c by blast
qed

end
