(* ===== verification/Vm.thy ===== *)
theory Vm
  imports Fs_Bytes Kernel_Types
begin

text \<open>
  Physical pages and address spaces of Project02-Thread: kalloc.c and vm.c. A physical page is
  its frame number, a user page its number \<open>va / PGSIZE\<close>. A page directory is its own page, the
  pages of its page tables and the entries of those tables that are present; a page table
  belongs to one directory, so its entries are kept with the directory. The free list is the list of its
  pages: the link that a free page holds in its first word is not repeated in the contents.

  \<open>kend\<close> and \<open>kdata\<close> are the pages where the linker put the symbols \<open>end\<close> and \<open>data\<close>.
  What is allocated is tracked by \<open>own\<close>: the page behind the directory, behind each table and behind
  each user page.
\<close>

section \<open>The page allocator\<close>

record kmem =
  kfl :: "nat list"
  pmem :: "nat \<Rightarrow> blk"
  kend :: nat
  kdata :: nat

abbreviation PHYSPAGES :: nat where "PHYSPAGES \<equiv> 57344"    \<comment> \<open>\<open>PHYSTOP / PGSIZE\<close>\<close>
abbreviation KERNPAGE :: nat where "KERNPAGE \<equiv> 524288"     \<comment> \<open>\<open>KERNBASE / PGSIZE\<close>\<close>

definition kfree :: "nat \<Rightarrow> kmem \<Rightarrow> kmem res" where
  "kfree p m = guardR (kend m \<le> p \<and> p < PHYSPAGES) (Panic ''kfree'')
     (Inr (m\<lparr>kfl := p # kfl m, pmem := (pmem m)(p := (\<lambda>_. 1))\<rparr>))"

definition kalloc :: "kmem \<Rightarrow> nat option \<times> kmem" where
  "kalloc m = (case kfl m of [] \<Rightarrow> (None, m) | p # ps \<Rightarrow> (Some p, m\<lparr>kfl := ps\<rparr>))"

fun free_each :: "nat list \<Rightarrow> kmem \<Rightarrow> kmem res" where
  "free_each [] m = Inr m"
| "free_each (p # ps) m = bindR (kfree p m) (free_each ps)"

text \<open>The arguments are physical addresses.\<close>

definition freerange :: "nat \<Rightarrow> nat \<Rightarrow> kmem \<Rightarrow> kmem res" where
  "freerange vstart vend = free_each [(vstart + PGSIZE - 1) div PGSIZE..<vend div PGSIZE]"

definition zero_page :: "nat \<Rightarrow> kmem \<Rightarrow> kmem" where
  "zero_page p m = m\<lparr>pmem := (pmem m)(p := zero_blk)\<rparr>"

section \<open>Page directories\<close>

record pte =
  pte_page :: nat
  pte_w :: bool
  pte_u :: bool

record pgdir =
  pd_page :: nat
  pd_tab :: "nat \<Rightarrow> nat option"
  pd_pte :: "nat \<Rightarrow> pte option"

text \<open>\<open>walkpgdir\<close> without \<open>alloc\<close> succeeds when the table is there.\<close>

definition has_pte :: "pgdir \<Rightarrow> nat \<Rightarrow> bool" where
  "has_pte d v \<longleftrightarrow> pd_tab d (v div 1024) \<noteq> None"

definition walk_alloc :: "nat \<Rightarrow> pgdir \<Rightarrow> kmem \<Rightarrow> bool \<times> pgdir \<times> kmem" where
  "walk_alloc v d m =
     (if has_pte d v then (True, d, m)
      else case kalloc m of
             (None, m1) \<Rightarrow> (False, d, m1)
           | (Some p, m1) \<Rightarrow>
               (True, d\<lparr>pd_tab := (pd_tab d)(v div 1024 \<mapsto> p),
                        pd_pte := (\<lambda>w. if w div 1024 = v div 1024 then None else pd_pte d w)\<rparr>, zero_page p m1))"

fun mappages :: "nat list \<Rightarrow> nat \<Rightarrow> bool \<Rightarrow> bool \<Rightarrow> pgdir \<Rightarrow> kmem \<Rightarrow> (bool \<times> pgdir \<times> kmem) res" where
  "mappages [] pa w u d m = Inr (True, d, m)"
| "mappages (v # vs) pa w u d m =
     (case walk_alloc v d m of
        (False, d1, m1) \<Rightarrow> Inr (False, d1, m1)
      | (True, d1, m1) \<Rightarrow>
          if pd_pte d1 v \<noteq> None then Inl (Panic ''remap'')
          else mappages vs (pa + 1) w u (d1\<lparr>pd_pte := (pd_pte d1)(v \<mapsto> \<lparr>pte_page = pa, pte_w = w, pte_u = u\<rparr>)\<rparr>) m1)"

text \<open>The first page at or after a size, with the wrap-around of \<open>PGROUNDUP\<close>, and the number of
  pages below a size.\<close>

definition round_up :: "nat \<Rightarrow> nat" where
  "round_up sz = wrap32 (sz + (PGSIZE - 1)) div PGSIZE"

definition npages :: "nat \<Rightarrow> nat" where
  "npages sz = (sz + (PGSIZE - 1)) div PGSIZE"

text \<open>A table that is missing is skipped as a whole.\<close>

function dealloc_loop :: "nat \<Rightarrow> nat \<Rightarrow> pgdir \<Rightarrow> kmem \<Rightarrow> (pgdir \<times> kmem) res" where
  "dealloc_loop v n d m =
     (if n \<le> v then Inr (d, m)
      else if \<not> has_pte d v then dealloc_loop ((v div 1024 + 1) * 1024) n d m
      else case pd_pte d v of
             None \<Rightarrow> dealloc_loop (v + 1) n d m
           | Some e \<Rightarrow> guardR (pte_page e \<noteq> 0) (Panic ''kfree'')
               (bindR (kfree (pte_page e) m) (\<lambda>m1. dealloc_loop (v + 1) n (d\<lparr>pd_pte := (pd_pte d)(v := None)\<rparr>) m1)))"
  by pat_completeness auto
termination
proof (relation "measure (\<lambda>(v, n, d, m). n - v)")
  have "v < (v div 1024 + 1) * 1024" for v :: nat by simp
  then show "\<not> n \<le> v \<Longrightarrow> (((v div 1024 + 1) * 1024, n, d, m), v, n, d, m) \<in> measure (\<lambda>(v, n, d, m). n - v)"
    for v n and d :: pgdir and m :: kmem using diff_less_mono2 [of v "(v div 1024 + 1) * 1024" n] by simp
qed auto

declare dealloc_loop.simps [simp del]

definition deallocuvm :: "nat \<Rightarrow> nat \<Rightarrow> pgdir \<Rightarrow> kmem \<Rightarrow> (nat \<times> pgdir \<times> kmem) res" where
  "deallocuvm oldsz newsz d m =
     (if newsz \<ge> oldsz then Inr (oldsz, d, m)
      else bindR (dealloc_loop (round_up newsz) (npages oldsz) d m) (\<lambda>(d1, m1). Inr (newsz, d1, m1)))"

fun alloc_loop :: "nat \<Rightarrow> nat \<Rightarrow> nat list \<Rightarrow> pgdir \<Rightarrow> kmem \<Rightarrow> (nat \<times> pgdir \<times> kmem) res" where
  "alloc_loop oldsz newsz [] d m = Inr (newsz, d, m)"
| "alloc_loop oldsz newsz (v # vs) d m =
     (case kalloc m of
        (None, m1) \<Rightarrow> bindR (deallocuvm newsz oldsz d m1) (\<lambda>(_, d2, m2). Inr (0, d2, m2))
      | (Some p, m1) \<Rightarrow>
          bindR (mappages [v] p True True d (zero_page p m1)) (\<lambda>(ok, d2, m2).
            if ok then alloc_loop oldsz newsz vs d2 m2
            else bindR (deallocuvm newsz oldsz d2 m2) (\<lambda>(_, d3, m3). bindR (kfree p m3) (\<lambda>m4. Inr (0, d3, m4)))))"

definition allocuvm :: "nat \<Rightarrow> nat \<Rightarrow> pgdir \<Rightarrow> kmem \<Rightarrow> (nat \<times> pgdir \<times> kmem) res" where
  "allocuvm oldsz newsz d m =
     (if newsz \<ge> KERNPAGE * PGSIZE then Inr (0, d, m)
      else if newsz < oldsz then Inr (oldsz, d, m)
      else alloc_loop oldsz newsz [round_up oldsz..<npages newsz] d m)"

fun free_tabs :: "nat list \<Rightarrow> pgdir \<Rightarrow> kmem \<Rightarrow> kmem res" where
  "free_tabs [] d m = Inr m"
| "free_tabs (i # is) d m =
     (case pd_tab d i of None \<Rightarrow> free_tabs is d m | Some p \<Rightarrow> bindR (kfree p m) (free_tabs is d))"

definition freevm :: "pgdir option \<Rightarrow> kmem \<Rightarrow> kmem res" where
  "freevm pd m =
     (case pd of
        None \<Rightarrow> Inl (Panic ''freevm: no pgdir'')
      | Some d \<Rightarrow> bindR (deallocuvm (KERNPAGE * PGSIZE) 0 d m) (\<lambda>(_, d1, m1).
          bindR (free_tabs [0..<1024] d1 m1) (kfree (pd_page d1))))"

text \<open>The table \<open>kmap\<close>: virtual pages, first physical page, writable.\<close>

definition kmap :: "kmem \<Rightarrow> (nat list \<times> nat \<times> bool) list" where
  "kmap m = [([KERNPAGE..<KERNPAGE + 256], 0, True),
             ([KERNPAGE + 256..<KERNPAGE + kdata m], 256, False),
             ([KERNPAGE + kdata m..<KERNPAGE + PHYSPAGES], kdata m, True),
             ([1040384..<1048576], 1040384, True)]"

fun map_kernel :: "(nat list \<times> nat \<times> bool) list \<Rightarrow> pgdir \<Rightarrow> kmem \<Rightarrow> (pgdir option \<times> kmem) res" where
  "map_kernel [] d m = Inr (Some d, m)"
| "map_kernel ((vs, pa, w) # ks) d m =
     bindR (mappages vs pa w False d m) (\<lambda>(ok, d1, m1).
       if ok then map_kernel ks d1 m1 else bindR (freevm (Some d1) m1) (\<lambda>m2. Inr (None, m2)))"

definition setupkvm :: "kmem \<Rightarrow> (pgdir option \<times> kmem) res" where
  "setupkvm m =
     (case kalloc m of
        (None, m1) \<Rightarrow> Inr (None, m1)
      | (Some p, m1) \<Rightarrow>
          map_kernel (kmap m1) \<lparr>pd_page = p, pd_tab = (\<lambda>_. None), pd_pte = (\<lambda>_. None)\<rparr> (zero_page p m1))"

fun copy_loop :: "nat list \<Rightarrow> pgdir \<Rightarrow> pgdir \<Rightarrow> kmem \<Rightarrow> (pgdir option \<times> kmem) res" where
  "copy_loop [] par d m = Inr (Some d, m)"
| "copy_loop (v # vs) par d m =
     (if \<not> has_pte par v then Inl (Panic ''copyuvm: pte should exist'')
      else case pd_pte par v of
             None \<Rightarrow> Inl (Panic ''copyuvm: page not present'')
           | Some e \<Rightarrow>
               (case kalloc m of
                  (None, m1) \<Rightarrow> bindR (freevm (Some d) m1) (\<lambda>m2. Inr (None, m2))
                | (Some p, m1) \<Rightarrow>
                    bindR (mappages [v] p (pte_w e) (pte_u e) d (m1\<lparr>pmem := (pmem m1)(p := pmem m1 (pte_page e))\<rparr>)) (\<lambda>(ok, d2, m2).
                      if ok then copy_loop vs par d2 m2
                      else bindR (kfree p m2) (\<lambda>m3. bindR (freevm (Some d2) m3) (\<lambda>m4. Inr (None, m4))))))"

definition copyuvm :: "pgdir \<Rightarrow> nat \<Rightarrow> kmem \<Rightarrow> (pgdir option \<times> kmem) res" where
  "copyuvm par sz m =
     bindR (setupkvm m) (\<lambda>(r, m1).
       case r of None \<Rightarrow> Inr (None, m1) | Some d \<Rightarrow> copy_loop [0..<npages sz] par d m1)"

definition clearpteu :: "nat \<Rightarrow> pgdir \<Rightarrow> pgdir res" where
  "clearpteu uva d =
     (let v = uva div PGSIZE in
      guardR (has_pte d v) (Panic ''clearpteu'')
        (Inr (d\<lparr>pd_pte := (pd_pte d)(v := map_option (\<lambda>e. e\<lparr>pte_u := False\<rparr>) (pd_pte d v))\<rparr>)))"

text \<open>\<open>uva2ka\<close> reads through the pointer \<open>walkpgdir\<close> gives without a test for null.\<close>

definition uva2ka :: "pgdir \<Rightarrow> nat \<Rightarrow> nat option res" where
  "uva2ka d v = guardR (has_pte d v) (Overrun ''uva2ka: null pte'')
     (Inr (case pd_pte d v of None \<Rightarrow> None | Some e \<Rightarrow> if pte_u e then Some (pte_page e) else None))"

function copyout :: "pgdir \<Rightarrow> nat \<Rightarrow> byte list \<Rightarrow> kmem \<Rightarrow> (int \<times> kmem) res" where
  "copyout d va bs m =
     (if bs = [] then Inr (0, m)
      else let off = va mod PGSIZE; n = min (PGSIZE - off) (length bs) in
           bindR (uva2ka d (va div PGSIZE)) (\<lambda>r.
             case r of
               None \<Rightarrow> Inr (-1, m)
             | Some p \<Rightarrow> copyout d (wrap32 (va div PGSIZE * PGSIZE + PGSIZE)) (drop n bs)
                 (m\<lparr>pmem := (pmem m)(p := put_bytes (pmem m p) off (take n bs))\<rparr>)))"
  by pat_completeness auto
termination
  by (relation "measure (\<lambda>(d, va, bs, m). length bs)") auto

declare copyout.simps [simp del]

definition inituvm :: "byte list \<Rightarrow> pgdir \<Rightarrow> kmem \<Rightarrow> (pgdir \<times> kmem) res" where
  "inituvm init d m =
     guardR (length init < PGSIZE) (Panic ''inituvm: more than a page'')
       (case kalloc m of
          (None, m1) \<Rightarrow> Inl (Overrun ''inituvm: no memory'')
        | (Some p, m1) \<Rightarrow>
            bindR (mappages [0] p True True d (zero_page p m1)) (\<lambda>(_, d2, m2).
              Inr (d2, m2\<lparr>pmem := (pmem m2)(p := put_bytes (pmem m2 p) 0 init)\<rparr>)))"

text \<open>\<open>rd off n\<close> is what \<open>readi\<close> of the program's file delivers.\<close>

fun load_loop :: "(nat \<Rightarrow> nat \<Rightarrow> byte list) \<Rightarrow> nat \<Rightarrow> nat \<Rightarrow> nat list \<Rightarrow> nat \<Rightarrow> pgdir \<Rightarrow> kmem \<Rightarrow> (int \<times> kmem) res" where
  "load_loop rd offset sz [] v d m = Inr (0, m)"
| "load_loop rd offset sz (i # is) v d m =
     guardR (has_pte d (v + i)) (Panic ''loaduvm: address should exist'')
       (let pa = (case pd_pte d (v + i) of None \<Rightarrow> 0 | Some e \<Rightarrow> pte_page e);
            n = min (sz - i * PGSIZE) PGSIZE; bs = rd (wrap32 (offset + i * PGSIZE)) n;
            m1 = m\<lparr>pmem := (pmem m)(pa := put_bytes (pmem m pa) 0 bs)\<rparr>
        in if length bs \<noteq> n then Inr (-1, m1) else load_loop rd offset sz is v d m1)"

definition loaduvm :: "(nat \<Rightarrow> nat \<Rightarrow> byte list) \<Rightarrow> nat \<Rightarrow> nat \<Rightarrow> nat \<Rightarrow> pgdir \<Rightarrow> kmem \<Rightarrow> (int \<times> kmem) res" where
  "loaduvm rd addr offset sz d m =
     guardR (addr mod PGSIZE = 0) (Panic ''loaduvm: addr must be page aligned'')
       (load_loop rd offset sz [0..<npages sz] (addr div PGSIZE) d m)"

definition switchuvm :: "nat option \<Rightarrow> pgdir option \<Rightarrow> unit res" where
  "switchuvm kstack pd = guardR (kstack \<noteq> None) (Panic ''switchuvm: no kstack'')
     (guardR (pd \<noteq> None) (Panic ''switchuvm: no pgdir'') (Inr ()))"

end
