(* ===== verification/Th_State.thy ===== *)
theory Th_State
  imports Fifo Vm
begin

text \<open>
  Processes and threads of Project02-Thread/proc.h and the tables of proc.c. A process slot is
  worn by one thread at a time: the scheduler copies the thread's part of the state into the slot
  (\<open>mvThreadToProc\<close>), and back when the thread stops running (\<open>mvProcToThread\<close>).

  A pointer into a table is the index of its slot. A trap frame and a kernel context live in a
  kernel stack and are named by its page, so the slot and the table entry that point to the
  same stack share them: \<open>tframe\<close> and \<open>tctx\<close> hold the contents.
\<close>

section \<open>Data\<close>

abbreviation NTHRD :: nat where "NTHRD \<equiv> 256"
abbreviation MAINTH :: nat where "MAINTH \<equiv> 1"

datatype procstate = UNUSED | EMBRYO | SLEEPING | RUNNABLE | RUNNING | ZOMBIE | THZOMBIE

record tproc =
  t_pgdir :: "pgdir option"
  t_name :: string
  t_parent_proc :: "nat option"
  t_parent_th :: "nat option"
  t_cwd :: "nat option"
  t_ofile :: "nat option list"
  t_memlimit :: nat
  t_assign :: nat
  t_stacksz :: nat
  t_freed_sz :: "nat list"
  t_front :: nat
  t_back :: nat
  t_freed :: nat
  t_pid :: int
  t_sz :: nat
  t_main :: nat
  t_th_sz :: nat
  t_kstack :: "nat option"
  t_state :: procstate
  t_chan :: "chan option"
  t_tf :: "nat option"
  t_ctx :: "nat option"
  t_killed :: bool
  t_tid :: nat
  t_joiner :: "nat option"
  t_idx :: nat

record pthread =
  q_th_sz :: nat
  q_pid :: int
  q_kstack :: "nat option"
  q_state :: procstate
  q_chan :: "chan option"
  q_tf :: "nat option"
  q_ctx :: "nat option"
  q_ptable :: nat
  q_tid :: nat
  q_joiner :: "nat option"
  q_retval :: nat

text \<open>What \<open>cprintf\<close> is given: a string or a number.\<close>

datatype out = OStr string | ONum int

record tk =
  tprocs :: "tproc list"
  pths :: "pthread list"
  tinit :: nat
  tnextpid :: int
  tkm :: kmem
  tframe :: "nat \<Rightarrow> trapframe"
  tctx :: "nat \<Rightarrow> kaddr"
  tfile_ref :: "nat \<Rightarrow> int"
  tinode_ref :: "nat \<Rightarrow> int"
  tout :: "out list"

text \<open>Slots as the loader leaves them.\<close>

definition no_proc :: tproc where
  "no_proc = \<lparr>t_pgdir = None, t_name = [], t_parent_proc = None, t_parent_th = None, t_cwd = None, t_ofile = replicate 16 None,
     t_memlimit = 0, t_assign = 0, t_stacksz = 0, t_freed_sz = replicate NTHRD 0, t_front = 0, t_back = 0, t_freed = 0, t_pid = 0,
     t_sz = 0, t_main = 0, t_th_sz = 0, t_kstack = None, t_state = UNUSED, t_chan = None, t_tf = None, t_ctx = None,
     t_killed = False, t_tid = 0, t_joiner = None, t_idx = 0\<rparr>"

definition no_thread :: pthread where
  "no_thread = \<lparr>q_th_sz = 0, q_pid = 0, q_kstack = None, q_state = UNUSED, q_chan = None, q_tf = None, q_ctx = None,
     q_ptable = 0, q_tid = 0, q_joiner = None, q_retval = 0\<rparr>"

definition boot_tk :: "kmem \<Rightarrow> tk" where
  "boot_tk m = \<lparr>tprocs = replicate 64 no_proc, pths = replicate NTHRD no_thread, tinit = 0, tnextpid = 1, tkm = m,
     tframe = (\<lambda>_. tf_zero), tctx = (\<lambda>_. Forkret), tfile_ref = (\<lambda>_. 0), tinode_ref = (\<lambda>_. 0), tout = []\<rparr>"

definition upd_t :: "nat \<Rightarrow> (tproc \<Rightarrow> tproc) \<Rightarrow> tk \<Rightarrow> tk" where
  "upd_t i f s = s\<lparr>tprocs := (tprocs s)[i := f (tprocs s ! i)]\<rparr>"

definition upd_q :: "nat \<Rightarrow> (pthread \<Rightarrow> pthread) \<Rightarrow> tk \<Rightarrow> tk" where
  "upd_q j f s = s\<lparr>pths := (pths s)[j := f (pths s ! j)]\<rparr>"

definition tprint :: "out list \<Rightarrow> tk \<Rightarrow> tk" where
  "tprint o' s = s\<lparr>tout := tout s @ o'\<rparr>"

text \<open>A pointer that is followed without a test.\<close>

definition deref :: "string \<Rightarrow> 'a option \<Rightarrow> ('a \<Rightarrow> 'b res) \<Rightarrow> 'b res" where
  "deref msg p f = (case p of None \<Rightarrow> Inl (Overrun msg) | Some x \<Rightarrow> f x)"

lemma deref_Some [simp]: "deref msg (Some x) f = f x"
  by (simp add: deref_def)

lemma deref_None [simp]: "deref msg None f = Inl (Overrun msg)"
  by (simp add: deref_def)

lemma deref_eq_Inr [res_simps]: "deref msg p f = Inr y \<longleftrightarrow> (\<exists>x. p = Some x \<and> f x = Inr y)"
  by (cases p) auto

lemma upd_simps [simp]:
  "length (tprocs (upd_t i f s)) = length (tprocs s)" "pths (upd_t i f s) = pths s"
  "length (pths (upd_q j g s)) = length (pths s)" "tprocs (upd_q j g s) = tprocs s"
  "tkm (upd_t i f s) = tkm s" "tkm (upd_q j g s) = tkm s" "tframe (upd_t i f s) = tframe s" "tframe (upd_q j g s) = tframe s"
  "tctx (upd_t i f s) = tctx s" "tctx (upd_q j g s) = tctx s" "tinit (upd_t i f s) = tinit s" "tinit (upd_q j g s) = tinit s"
  "tnextpid (upd_t i f s) = tnextpid s" "tnextpid (upd_q j g s) = tnextpid s"
  "tfile_ref (upd_t i f s) = tfile_ref s" "tfile_ref (upd_q j g s) = tfile_ref s"
  "tinode_ref (upd_t i f s) = tinode_ref s" "tinode_ref (upd_q j g s) = tinode_ref s"
  by (simp_all add: upd_t_def upd_q_def)

lemma upd_t_nth: "tprocs (upd_t i f s) ! k = (if k = i \<and> i < length (tprocs s) then f (tprocs s ! i) else tprocs s ! k)"
  by (auto simp: upd_t_def nth_list_update list_update_beyond)

lemma upd_q_nth: "pths (upd_q j f s) ! k = (if k = j \<and> j < length (pths s) then f (pths s ! j) else pths s ! k)"
  by (auto simp: upd_q_def nth_list_update list_update_beyond)

section \<open>Wearing and undressing a process\<close>

definition mvProcToThread :: "nat \<Rightarrow> nat \<Rightarrow> tk \<Rightarrow> tk" where
  "mvProcToThread i j s =
     (let p = tprocs s ! i in
      upd_q j (\<lambda>q. q\<lparr>q_th_sz := t_th_sz p, q_pid := t_pid p, q_kstack := t_kstack p, q_state := t_state p, q_chan := t_chan p,
        q_tf := t_tf p, q_ctx := t_ctx p, q_ptable := i, q_tid := t_tid p, q_joiner := t_joiner p\<rparr>) s)"

definition mvThreadToProc :: "nat \<Rightarrow> nat \<Rightarrow> tk \<Rightarrow> tk" where
  "mvThreadToProc j i s =
     (let q = pths s ! j in
      upd_t i (\<lambda>p. p\<lparr>t_pid := q_pid q, t_th_sz := q_th_sz q, t_kstack := q_kstack q, t_state := q_state q, t_chan := q_chan q,
        t_tf := q_tf q, t_ctx := q_ctx q, t_tid := q_tid q, t_joiner := q_joiner q, t_idx := j\<rparr>) s)"

definition clearProc :: "nat \<Rightarrow> tk \<Rightarrow> tk" where
  "clearProc i = upd_t i (\<lambda>p. p\<lparr>t_state := (if t_state p \<noteq> ZOMBIE then RUNNABLE else t_state p), t_chan := None\<rparr>)"

section \<open>The queue of freed stacks\<close>

definition fr_push :: "nat \<Rightarrow> tproc \<Rightarrow> tproc" where
  "fr_push x p = p\<lparr>t_freed_sz := (t_freed_sz p)[t_back p := x], t_back := (t_back p + 1) mod NTHRD, t_freed := t_freed p + 1\<rparr>"

definition fr_pop :: "tproc \<Rightarrow> nat \<times> tproc" where
  "fr_pop p = (t_freed_sz p ! t_front p,
     p\<lparr>t_freed_sz := (t_freed_sz p)[t_front p := 0], t_freed := t_freed p - 1, t_front := (t_front p + 1) mod NTHRD\<rparr>)"

definition fr_elems :: "tproc \<Rightarrow> nat list" where
  "fr_elems p = map (\<lambda>i. t_freed_sz p ! ((t_front p + i) mod NTHRD)) [0..<t_freed p]"

definition fr_good :: "tproc \<Rightarrow> bool" where
  "fr_good p \<longleftrightarrow> length (t_freed_sz p) = NTHRD \<and> t_front p < NTHRD \<and> t_freed p \<le> NTHRD \<and>
     t_back p = (t_front p + t_freed p) mod NTHRD"

lemma fr_elems_length: "length (fr_elems p) = t_freed p"
  by (simp add: fr_elems_def)

lemma fr_push_elems:
  assumes "fr_good p" "length (fr_elems p) < NTHRD"
  shows "fr_elems (fr_push x p) = fr_elems p @ [x]"
proof -
  have room: "t_freed p < NTHRD" using assms(2) by (simp add: fr_elems_length)
  have "(t_freed_sz p)[t_back p := x] ! ((t_front p + i) mod NTHRD) = t_freed_sz p ! ((t_front p + i) mod NTHRD)" if "i < t_freed p" for i
    using ring_distinct [OF that room, of "t_front p"] assms(1) by (simp add: fr_good_def)
  moreover have "(t_freed_sz p)[t_back p := x] ! ((t_front p + t_freed p) mod NTHRD) = x" using assms(1) by (simp add: fr_good_def)
  ultimately show ?thesis by (simp add: fr_elems_def fr_push_def)
qed

lemma fr_pop_elems:
  assumes "fr_good p" "fr_elems p \<noteq> []"
  shows "fst (fr_pop p) = hd (fr_elems p)" "fr_elems (snd (fr_pop p)) = tl (fr_elems p)"
proof -
  obtain n where n: "t_freed p = Suc n" using assms(2) by (cases "t_freed p") (auto simp: fr_elems_def)
  have e: "fr_elems p = t_freed_sz p ! (t_front p mod NTHRD) # map (\<lambda>i. t_freed_sz p ! ((t_front p + Suc i) mod NTHRD)) [0..<n]"
    by (simp add: fr_elems_def n upt_conv_Cons map_Suc_upt [symmetric] o_def del: upt_Suc)
  show "fst (fr_pop p) = hd (fr_elems p)" using assms(1) by (simp add: e fr_pop_def fr_good_def)
  have m: "(Suc (t_front p) mod NTHRD + i) mod NTHRD = (t_front p + Suc i) mod NTHRD" for i by (simp add: mod_add_left_eq)
  have "(t_freed_sz p)[t_front p := 0] ! ((t_front p + Suc i) mod NTHRD) = t_freed_sz p ! ((t_front p + Suc i) mod NTHRD)" if "i < n" for i
  proof -
    have "Suc i < NTHRD" using that n assms(1) by (simp add: fr_good_def)
    from ring_distinct [OF zero_less_Suc this, of "t_front p"] assms(1) show ?thesis by (simp add: fr_good_def)
  qed
  then show "fr_elems (snd (fr_pop p)) = tl (fr_elems p)"
    unfolding e list.sel by (simp add: fr_elems_def fr_pop_def n m)
qed

lemma fr_pop_good: "fr_good p \<Longrightarrow> fr_elems p \<noteq> [] \<Longrightarrow> fr_good (snd (fr_pop p))"
proof -
  assume a: "fr_good p" "fr_elems p \<noteq> []"
  then obtain n where n: "t_freed p = Suc n" by (cases "t_freed p") (auto simp: fr_elems_def)
  have "(Suc (t_front p) mod NTHRD + n) mod NTHRD = (t_front p + Suc n) mod NTHRD" by (simp add: mod_add_left_eq)
  with a n show ?thesis by (simp add: fr_good_def fr_pop_def)
qed

lemma fr_push_good: "fr_good p \<Longrightarrow> length (fr_elems p) < NTHRD \<Longrightarrow> fr_good (fr_push x p)"
  by (simp add: fr_good_def fr_push_def fr_elems_length mod_Suc_eq)

interpretation freed: bounded_fifo fr_push fr_pop fr_elems fr_good NTHRD
proof unfold_locales
  show "length (fr_elems p) \<le> NTHRD" if "fr_good p" for p
    using that by (simp add: fr_good_def fr_elems_length)
qed (simp_all add: fr_push_good fr_push_elems fr_pop_good fr_pop_elems)

end
