(* ===== verification/Th_Proc.thy ===== *)
theory Th_Proc
  imports Th_State
begin

text \<open>
  Processes of Project02-Thread/proc.c: allocation, \<open>fork\<close>, \<open>exit\<close>, \<open>wait\<close>, sleeping, \<open>kill\<close>, the
  scheduler and the memory limit. \<open>cur\<close> is the slot of \<open>myproc()\<close>. Each definition runs
  under \<open>ptable.lock\<close> and is one atomic step; a call that sleeps returns \<open>TAsleep\<close> and is called again
  when it is woken. \<open>namei\<close> and the reference counts of the file system are arguments and counters.
\<close>

section \<open>Allocation\<close>

definition allocthread :: "tk \<Rightarrow> nat option \<times> tk" where
  "allocthread s =
     (case find_idx (\<lambda>q. q_state q = UNUSED) (pths s) of
        None \<Rightarrow> (None, s)
      | Some j \<Rightarrow>
          (case kalloc (tkm s) of
             (None, m) \<Rightarrow> (None, upd_q j (\<lambda>q. q\<lparr>q_kstack := None, q_state := UNUSED\<rparr>) (s\<lparr>tkm := m\<rparr>))
           | (Some k, m) \<Rightarrow>
               (Some j, upd_q j (\<lambda>q. q\<lparr>q_kstack := Some k, q_state := EMBRYO, q_tf := Some k, q_ctx := Some k, q_retval := 0\<rparr>)
                  (s\<lparr>tkm := m, tctx := (tctx s)(k := Forkret)\<rparr>))))"

text \<open>The slot of a new process, worn by thread \<open>j\<close> with kernel stack \<open>k\<close>.\<close>

definition new_proc :: "int \<Rightarrow> nat \<Rightarrow> nat option \<Rightarrow> tproc \<Rightarrow> tproc" where
  "new_proc pid j k p = p\<lparr>t_parent_proc := None, t_parent_th := None, t_memlimit := 0, t_assign := 1, t_stacksz := 1,
     t_freed_sz := replicate NTHRD 0, t_front := 0, t_back := 0, t_freed := 0, t_pid := pid, t_sz := 0,
     t_main := j, t_kstack := k, t_state := EMBRYO, t_tf := k, t_ctx := k, t_tid := MAINTH, t_joiner := Some j, t_idx := j\<rparr>"

definition allocproc :: "tk \<Rightarrow> nat option \<times> tk" where
  "allocproc s =
     (case find_idx (\<lambda>p. t_state p = UNUSED) (tprocs s) of
        None \<Rightarrow> (None, s)
      | Some i \<Rightarrow>
          (case allocthread s of
             (None, s1) \<Rightarrow> (None, s1)
           | (Some j, s1) \<Rightarrow>
               (Some i, upd_t i (new_proc (tnextpid s1) j (q_kstack (pths s1 ! j)))
                 (upd_q j (\<lambda>q. q\<lparr>q_pid := tnextpid s1\<rparr>) (s1\<lparr>tnextpid := tnextpid s1 + 1\<rparr>)))))"

definition set_frame :: "nat option \<Rightarrow> trapframe \<Rightarrow> tk \<Rightarrow> tk res" where
  "set_frame p f s = deref ''trap frame'' p (\<lambda>k. Inr (s\<lparr>tframe := (tframe s)(k := f)\<rparr>))"

definition set_mem :: "nat \<Rightarrow> pgdir \<times> kmem \<Rightarrow> tk \<Rightarrow> tk" where
  "set_mem i dm s = upd_t i (\<lambda>p. p\<lparr>t_pgdir := Some (fst dm)\<rparr>) (s\<lparr>tkm := snd dm\<rparr>)"

definition userinit :: "byte list \<Rightarrow> nat \<Rightarrow> tk \<Rightarrow> tk res" where
  "userinit initcode root s =
     (case allocproc s of
        (None, s1) \<Rightarrow> Inl (Overrun ''userinit: null proc'')
      | (Some i, s1) \<Rightarrow>
          bindR (setupkvm (tkm s1)) (\<lambda>(pd, m).
            case pd of
              None \<Rightarrow> Inl (Panic ''userinit: out of memory?'')
            | Some d \<Rightarrow>
                bindR (inituvm initcode d m) (\<lambda>dm.
                let s2 = upd_t i (\<lambda>p. p\<lparr>t_name := safestr ''initcode'' 55, t_parent_proc := Some i, t_parent_th := Some (t_idx p),
                            t_cwd := Some root, t_freed_sz := replicate NTHRD 0, t_sz := PGSIZE, t_th_sz := PGSIZE, t_state := RUNNABLE,
                            t_joiner := Some (t_idx p)\<rparr>) (set_mem i dm (s1\<lparr>tinit := i\<rparr>))
                in bindR (set_frame (t_tf (tprocs s2 ! i)) (tf_zero\<lparr>tf_cs := 27, tf_ds := 35, tf_es := 35, tf_ss := 35,
                            tf_eflags := 512, tf_esp := PGSIZE, tf_eip := 0\<rparr>) s2) (\<lambda>s3.
                     Inr (clearProc i (mvProcToThread i (t_idx (tprocs s3 ! i)) s3))))))"

definition growproc :: "int \<Rightarrow> nat \<Rightarrow> tk \<Rightarrow> (int \<times> tk) res" where
  "growproc n cur s =
     (let p = tprocs s ! cur; sz = t_sz p; want = wrap32 (sz + uint_of_int n) in
      if t_memlimit p \<noteq> 0 \<and> want > t_memlimit p then Inr (-1, s)
      else deref ''growproc: pgdir'' (t_pgdir p) (\<lambda>d.
        bindR (if n > 0 then allocuvm sz want d (tkm s)
               else if n < 0 then deallocuvm sz want d (tkm s) else Inr (sz, d, tkm s)) (\<lambda>(sz', dm).
          let s1 = set_mem cur dm s in
          if n \<noteq> 0 \<and> sz' = 0 then Inr (-1, s1)
          else let s2 = upd_t cur (\<lambda>p. p\<lparr>t_sz := sz'\<rparr>) s1
               in bindR (switchuvm (t_kstack (tprocs s2 ! cur)) (t_pgdir (tprocs s2 ! cur))) (\<lambda>_. Inr (int_of_uint sz, s2)))))"

section \<open>Fork\<close>

fun tdup_files :: "nat option list \<Rightarrow> tk \<Rightarrow> tk res" where
  "tdup_files [] s = Inr s"
| "tdup_files (None # fs) s = tdup_files fs s"
| "tdup_files (Some f # fs) s =
     guardR (tfile_ref s f \<ge> 1) (Panic ''filedup'') (tdup_files fs (s\<lparr>tfile_ref := (tfile_ref s)(f := tfile_ref s f + 1)\<rparr>))"

text \<open>The first \<open>n\<close> entries of the parent's queue, in place.\<close>

definition copy_freed :: "nat \<Rightarrow> nat list \<Rightarrow> nat \<Rightarrow> nat list" where
  "copy_freed front xs n = fold (\<lambda>i ys. ys[(front + i) mod NTHRD := xs ! ((front + i) mod NTHRD)]) [0..<n] (replicate NTHRD 0)"

text \<open>The copy of the parent's other threads; the copy of the kernel stack is cut short by
  \<open>sizeof\<close> of a pointer and has no effect on this state.\<close>

fun fork_threads :: "nat \<Rightarrow> nat \<Rightarrow> nat list \<Rightarrow> tk \<Rightarrow> (bool \<times> tk) res" where
  "fork_threads cur np [] s = Inr (True, s)"
| "fork_threads cur np (j # js) s =
     (let th = pths s ! j in
      if q_pid th = t_pid (tprocs s ! cur) \<and> q_tid th \<noteq> MAINTH
      then (case allocthread s of
              (None, s1) \<Rightarrow> Inr (False, upd_t np (\<lambda>p. p\<lparr>t_killed := True\<rparr>) s1)
            | (Some n, s1) \<Rightarrow>
                deref ''fork: context'' (q_ctx th) (\<lambda>c. deref ''fork: tf'' (q_tf th) (\<lambda>f.
                deref ''fork: new context'' (q_ctx (pths s1 ! n)) (\<lambda>nc.
                bindR (set_frame (q_tf (pths s1 ! n)) (tframe s1 f)
                  (upd_q n (\<lambda>q. q\<lparr>q_th_sz := q_th_sz th, q_pid := t_pid (tprocs s1 ! np), q_state := q_state th, q_chan := q_chan th,
                     q_ptable := np, q_tid := q_tid th, q_joiner := Some (t_main (tprocs s1 ! np)), q_retval := q_retval th\<rparr>)
                   (s1\<lparr>tctx := (tctx s1)(nc := tctx s1 c)\<rparr>))) (fork_threads cur np js)))))
      else fork_threads cur np js s)"

text \<open>The child after its slot is filled: a thread other than the main one forks itself alone.\<close>

definition fork_rest :: "nat \<Rightarrow> nat \<Rightarrow> tk \<Rightarrow> (int \<times> tk) res" where
  "fork_rest cur np s =
     (let par = tprocs s ! cur; pid = t_pid (tprocs s ! np); j = t_idx (tprocs s ! np) in
      if t_tid par \<noteq> MAINTH
      then Inr (t_pid par, clearProc np (mvProcToThread np j
             (upd_t np (\<lambda>p. p\<lparr>t_assign := 1, t_tid := MAINTH, t_joiner := Some (t_idx par)\<rparr>) s)))
      else bindR (fork_threads cur np [0..<length (pths s)] (mvProcToThread np j s)) (\<lambda>(ok, s1).
             Inr (if ok then pid else -1, s1)))"

definition fork :: "nat \<Rightarrow> tk \<Rightarrow> (int \<times> tk) res" where
  "fork cur s =
     (case allocproc s of
        (None, s1) \<Rightarrow> Inr (-1, s1)
      | (Some np, s1) \<Rightarrow>
          let par = tprocs s1 ! cur in
          deref ''fork: pgdir'' (t_pgdir par) (\<lambda>d.
          bindR (copyuvm d (t_sz par) (tkm s1)) (\<lambda>(pd, m).
            case pd of
              None \<Rightarrow> deref ''kfree'' (t_kstack (tprocs s1 ! np)) (\<lambda>k. bindR (kfree k m) (\<lambda>m1.
                Inr (-1, upd_t np (\<lambda>p. p\<lparr>t_pgdir := None, t_kstack := None, t_state := UNUSED\<rparr>) (s1\<lparr>tkm := m1\<rparr>))))
            | Some c \<Rightarrow>
                deref ''fork: tf'' (t_tf par) (\<lambda>f.
                bindR (set_frame (t_tf (tprocs s1 ! np)) ((tframe s1 f)\<lparr>tf_eax := 0\<rparr>) (s1\<lparr>tkm := m\<rparr>)) (\<lambda>s2.
                bindR (tdup_files (t_ofile par) s2) (\<lambda>s3.
                deref ''idup: null inode'' (t_cwd par) (\<lambda>ip.
                fork_rest cur np (upd_t np (\<lambda>p. p\<lparr>t_pgdir := Some c, t_parent_proc := Some cur, t_parent_th := Some (t_idx par), t_sz := t_sz par,
                  t_ofile := map2 (\<lambda>f g. if f = None then g else f) (t_ofile par) (t_ofile p), t_cwd := Some ip,
                  t_name := safestr (t_name par) 55, t_memlimit := t_memlimit par, t_assign := t_assign par, t_stacksz := t_stacksz par,
                  t_th_sz := t_th_sz par, t_state := RUNNABLE, t_chan := t_chan par, t_killed := t_killed par, t_tid := t_tid par,
                  t_front := t_front par, t_back := t_back par, t_freed := t_freed par,
                  t_freed_sz := copy_freed (t_front par) (t_freed_sz par) (t_freed par)\<rparr>)
                  (s3\<lparr>tinode_ref := (tinode_ref s3)(ip := tinode_ref s3 ip + 1)\<rparr>)))))))))"

section \<open>Sleep, wakeup and the scheduler\<close>

definition wakeup1 :: "chan option \<Rightarrow> tk \<Rightarrow> tk" where
  "wakeup1 ch s = s\<lparr>pths := map (\<lambda>q. if q_state q = SLEEPING \<and> q_chan q = ch then q\<lparr>q_state := RUNNABLE\<rparr> else q) (pths s)\<rparr>"

definition wakeup :: "chan \<Rightarrow> tk \<Rightarrow> tk" where
  "wakeup ch = wakeup1 (Some ch)"

definition sched :: "nat \<Rightarrow> tk \<Rightarrow> tk res" where
  "sched cur s = guardR (t_state (tprocs s ! cur) \<noteq> RUNNING) (Panic ''sched running'') (Inr s)"

definition yield :: "nat \<Rightarrow> tk \<Rightarrow> tk res" where
  "yield cur s = sched cur (upd_t cur (\<lambda>p. p\<lparr>t_state := RUNNABLE\<rparr>) s)"

definition sleep_begin :: "chan option \<Rightarrow> nat \<Rightarrow> tk \<Rightarrow> tk res" where
  "sleep_begin ch cur s = sched cur (upd_t cur (\<lambda>p. p\<lparr>t_chan := ch, t_state := SLEEPING\<rparr>) s)"

definition sleep_end :: "nat \<Rightarrow> tk \<Rightarrow> tk" where
  "sleep_end cur = upd_t cur (\<lambda>p. p\<lparr>t_chan := None\<rparr>)"

definition dispatch :: "nat \<Rightarrow> nat \<Rightarrow> tk \<Rightarrow> tk res" where
  "dispatch i j s =
     (let s1 = mvThreadToProc j i s in
      bindR (switchuvm (t_kstack (tprocs s1 ! i)) (t_pgdir (tprocs s1 ! i))) (\<lambda>_.
        Inr (upd_t i (\<lambda>p. p\<lparr>t_state := RUNNING\<rparr>) s1)))"

text \<open>\<open>run i\<close> is what the dispatched thread does until it switches back.\<close>

fun sched_threads :: "(nat \<Rightarrow> tk \<Rightarrow> tk res) \<Rightarrow> nat \<Rightarrow> nat list \<Rightarrow> tk \<Rightarrow> tk res" where
  "sched_threads run i [] s = Inr s"
| "sched_threads run i (j # js) s =
     (if q_pid (pths s ! j) = t_pid (tprocs s ! i) \<and> q_state (pths s ! j) = RUNNABLE
      then bindR (dispatch i j s) (\<lambda>s1. bindR (run i s1) (\<lambda>s2.
             let s3 = mvProcToThread i j s2 in
             if t_state (tprocs s3 ! i) = ZOMBIE then Inr s3 else sched_threads run i js s3))
      else sched_threads run i js s)"

fun sched_procs :: "(nat \<Rightarrow> tk \<Rightarrow> tk res) \<Rightarrow> nat list \<Rightarrow> tk \<Rightarrow> tk res" where
  "sched_procs run [] s = Inr s"
| "sched_procs run (i # is) s =
     (if t_state (tprocs s ! i) \<noteq> RUNNABLE then sched_procs run is s
      else bindR (sched_threads run i [0..<length (pths s)] s) (\<lambda>s1. sched_procs run is (clearProc i s1)))"

definition scheduler_pass :: "(nat \<Rightarrow> tk \<Rightarrow> tk res) \<Rightarrow> tk \<Rightarrow> tk res" where
  "scheduler_pass run s = sched_procs run [0..<length (tprocs s)] s"

section \<open>Exit, wait and kill\<close>

fun tclose_files :: "nat option list \<Rightarrow> tk \<Rightarrow> tk res" where
  "tclose_files [] s = Inr s"
| "tclose_files (None # fs) s = tclose_files fs s"
| "tclose_files (Some f # fs) s =
     guardR (tfile_ref s f \<ge> 1) (Panic ''fileclose'') (tclose_files fs (s\<lparr>tfile_ref := (tfile_ref s)(f := tfile_ref s f - 1)\<rparr>))"

fun reparent :: "nat \<Rightarrow> nat list \<Rightarrow> tk \<Rightarrow> tk" where
  "reparent cur [] s = s"
| "reparent cur (i # is) s =
     (if t_parent_proc (tprocs s ! i) = Some cur
      then let to = t_parent_th (tprocs s ! tinit s);
               s1 = upd_t i (\<lambda>p. p\<lparr>t_parent_proc := Some (tinit s), t_parent_th := to\<rparr>) s
           in reparent cur is (if t_state (tprocs s1 ! i) = ZOMBIE then wakeup1 (map_option ChSlot to) s1 else s1)
      else reparent cur is s)"

definition exit :: "nat \<Rightarrow> tk \<Rightarrow> tk res" where
  "exit cur s =
     guardR (cur \<noteq> tinit s) (Panic ''init exiting'')
       (bindR (tclose_files (t_ofile (tprocs s ! cur)) s) (\<lambda>s1.
        deref ''iput: null inode'' (t_cwd (tprocs s1 ! cur)) (\<lambda>ip.
          let s2 = upd_t cur (\<lambda>p. p\<lparr>t_cwd := None, t_ofile := map (\<lambda>_. None) (t_ofile p)\<rparr>)
                     (s1\<lparr>tinode_ref := (tinode_ref s1)(ip := tinode_ref s1 ip - 1)\<rparr>);
              s3 = wakeup1 (map_option ChSlot (t_parent_th (tprocs s2 ! cur))) s2;
              s4 = upd_t cur (\<lambda>p. p\<lparr>t_state := ZOMBIE\<rparr>) (reparent cur [0..<length (tprocs s3)] s3);
              pid = t_pid (tprocs s4 ! cur)
          in sched cur (s4\<lparr>pths := map (\<lambda>q. if q_pid q = pid then q\<lparr>q_state := THZOMBIE\<rparr> else q) (pths s4)\<rparr>))))"

datatype twait = Reaped int | NoChild | TAsleep

text \<open>The threads of a process are cleared and their stacks freed.\<close>

definition deleteThread :: "nat \<Rightarrow> tk \<Rightarrow> tk res" where
  "deleteThread j s = deref ''kfree'' (q_kstack (pths s ! j)) (\<lambda>k. bindR (kfree k (tkm s)) (\<lambda>m.
     Inr (upd_q j (\<lambda>q. q\<lparr>q_th_sz := 0, q_pid := 0, q_kstack := None, q_state := UNUSED, q_chan := None, q_ptable := 0,
       q_tid := 0, q_joiner := None, q_retval := 0\<rparr>) (s\<lparr>tkm := m\<rparr>))))"

fun reap_threads :: "int \<Rightarrow> nat list \<Rightarrow> tk \<Rightarrow> tk res" where
  "reap_threads pid [] s = Inr s"
| "reap_threads pid (j # js) s =
     (if q_pid (pths s ! j) \<noteq> pid then reap_threads pid js s else bindR (deleteThread j s) (reap_threads pid js))"

definition wait :: "nat \<Rightarrow> tk \<Rightarrow> (twait \<times> tk) res" where
  "wait cur s =
     (let me = t_idx (tprocs s ! cur) in
      case find_idx (\<lambda>p. t_parent_th p = Some me \<and> t_state p = ZOMBIE) (tprocs s) of
        Some i \<Rightarrow>
          let pid = t_pid (tprocs s ! i) in
          bindR (reap_threads pid [0..<length (pths s)] s) (\<lambda>s1.
          bindR (freevm (t_pgdir (tprocs s1 ! i)) (tkm s1)) (\<lambda>m.
          Inr (Reaped pid, upd_t i (\<lambda>p. p\<lparr>t_name := [], t_parent_proc := None, t_parent_th := None, t_memlimit := 0, t_assign := 0, t_stacksz := 0,
            t_freed_sz := replicate NTHRD 0, t_front := 0, t_back := 0, t_freed := 0, t_pid := 0, t_sz := 0, t_state := UNUSED, t_chan := None,
            t_killed := False, t_tid := 0, t_joiner := None, t_idx := 0\<rparr>) (s1\<lparr>tkm := m\<rparr>))))
      | None \<Rightarrow>
          if find_idx (\<lambda>p. t_parent_th p = Some me) (tprocs s) = None \<or> t_killed (tprocs s ! cur) then Inr (NoChild, s)
          else bindR (sleep_begin (Some (ChSlot me)) cur s) (\<lambda>s1. Inr (TAsleep, s1)))"

definition kill :: "int \<Rightarrow> tk \<Rightarrow> int \<times> tk" where
  "kill pid s =
     (case find_idx (\<lambda>p. t_pid p = pid) (tprocs s) of
        None \<Rightarrow> (-1, s)
      | Some i \<Rightarrow>
          let s1 = upd_t i (\<lambda>p. p\<lparr>t_killed := True, t_state := (if t_state p = SLEEPING then RUNNABLE else t_state p)\<rparr>) s
          in (0, s1\<lparr>pths := map (\<lambda>q. if q_pid q = pid then q\<lparr>q_state := (if q_tid q = MAINTH then RUNNABLE else THZOMBIE)\<rparr> else q) (pths s1)\<rparr>))"

definition setmemorylimit :: "int \<Rightarrow> int \<Rightarrow> tk \<Rightarrow> int \<times> tk" where
  "setmemorylimit pid limit s =
     (if limit < 0 then (-1, tprint [OStr ''Can not be memory limit negative : '', ONum limit, OStr [CHR 10]] s)
      else case find_idx (\<lambda>p. t_pid p = pid) (tprocs s) of
             None \<Rightarrow> (-1, tprint [OStr ''There is no process with '', ONum pid, OStr [CHR 10]] s)
           | Some i \<Rightarrow>
               if t_sz (tprocs s ! i) > nat limit
               then (-1, tprint [OStr ''memory limit '', ONum limit, OStr '' is less than allocated memory size : '', ONum (int_of_uint (t_sz (tprocs s ! i))), OStr [CHR 10]] s)
               else (0, upd_t i (\<lambda>p. p\<lparr>t_memlimit := nat limit\<rparr>) s))"

end
