(* ===== verification/Th_Thread.thy ===== *)
theory Th_Thread
  imports Th_Proc
begin

text \<open>
  Threads of Project02-Thread/proc.c (\<open>thread_create\<close>, \<open>thread_exit\<close>, \<open>thread_join\<close>, their removal at
  \<open>exec\<close>), \<open>exec\<close> and \<open>exec2\<close> of exec.c. A program file is what \<open>readi\<close> delivers of it, a
  function of offset and length; the calls of exec.c that only lock and release the inode are left out.
\<close>

section \<open>Creation\<close>

definition le32 :: "nat \<Rightarrow> byte list" where
  "le32 v = [word_of_nat v, word_of_nat (v div 256), word_of_nat (v div 65536), word_of_nat (v div 16777216)]"

definition pthread_fork :: "nat \<Rightarrow> tk \<Rightarrow> (nat option \<times> tk) res" where
  "pthread_fork cur s =
     (case allocthread s of
        (None, s1) \<Rightarrow> Inr (None, s1)
      | (Some n, s1) \<Rightarrow>
          deref ''pthread_fork: tf'' (t_tf (tprocs s1 ! cur)) (\<lambda>f.
          let s2 = upd_t cur (\<lambda>p. p\<lparr>t_assign := wrap32 (t_assign p + 1)\<rparr>) s1; p = tprocs s2 ! cur in
          bindR (set_frame (q_tf (pths s2 ! n)) ((tframe s2 f)\<lparr>tf_eax := 0\<rparr>)
            (upd_q n (\<lambda>q. q\<lparr>q_pid := t_pid p, q_tid := t_assign p, q_ptable := cur\<rparr>) s2)) (\<lambda>s3. Inr (Some n, s3))))"

definition pthread_exec :: "nat \<Rightarrow> nat \<Rightarrow> nat \<Rightarrow> nat \<Rightarrow> tk \<Rightarrow> (int \<times> tk) res" where
  "pthread_exec th start arg cur s =
     (let p = tprocs s ! cur; len = (t_stacksz p + 1) * PGSIZE;
          sz = round_up (if t_freed p \<noteq> 0 then t_freed_sz p ! t_front p else t_sz p) * PGSIZE; top = wrap32 (sz + len) in
      if t_memlimit p \<noteq> 0 \<and> top > t_memlimit p
      then Inr (-1, tprint [OStr ''exceed memlim : '', ONum (int_of_uint (t_memlimit p)), OStr [CHR 10]] s)
      else deref ''pthread_exec: pgdir'' (t_pgdir p) (\<lambda>d.
        bindR (allocuvm sz top d (tkm s)) (\<lambda>(r, d1, m1).
          if r = 0 then Inr (-1, set_mem cur (d1, m1) s)
          else bindR (clearpteu (sub32 r len) d1) (\<lambda>d2.
            bindR (copyout d2 (sub32 r 8) (le32 4294967295 @ le32 arg) m1) (\<lambda>(c, m2).
              let s1 = set_mem cur (d2, m2) s in
              if c < 0 then Inr (-1, s1)
              else let s2 = upd_q th (\<lambda>q. q\<lparr>q_th_sz := r\<rparr>)
                     (upd_t cur (\<lambda>p. if t_freed p \<noteq> 0 then snd (fr_pop p) else p\<lparr>t_sz := r\<rparr>) s1)
                   in deref ''pthread_exec: tf'' (q_tf (pths s2 ! th)) (\<lambda>k.
                        Inr (0, s2\<lparr>tframe := (tframe s2)(k := (tframe s2 k)\<lparr>tf_eip := start, tf_esp := sub32 r 8\<rparr>)\<rparr>)))))))"

text \<open>The second component is what is stored through \<open>thread\<close>.\<close>

definition thread_create :: "nat \<Rightarrow> nat \<Rightarrow> nat \<Rightarrow> tk \<Rightarrow> (int \<times> nat option \<times> tk) res" where
  "thread_create start arg cur s =
     bindR (pthread_fork cur s) (\<lambda>(n, s1).
       case n of
         None \<Rightarrow> Inr (-1, None, s1)
       | Some th \<Rightarrow>
           bindR (pthread_exec th start arg cur s1) (\<lambda>(r, s2).
             if r = -1 then Inr (-1, None, upd_q th (\<lambda>q. q\<lparr>q_state := UNUSED\<rparr>) s2)
             else let p = tprocs s2 ! cur;
                      s3 = upd_q th (\<lambda>q. q\<lparr>q_pid := t_pid p, q_state := RUNNABLE, q_ptable := cur, q_joiner := Some (t_idx p)\<rparr>) s2
                  in deref ''thread_create: tf'' (q_tf (pths s3 ! th)) (\<lambda>k.
                       Inr (0, Some (q_tid (pths s3 ! th)),
                            s3\<lparr>tframe := (tframe s3)(k := (tframe s3 k)\<lparr>tf_eax := 0, tf_eip := start\<rparr>)\<rparr>))))"

section \<open>Exit and join\<close>

definition thread_exit :: "nat \<Rightarrow> nat \<Rightarrow> tk \<Rightarrow> tk res" where
  "thread_exit retval cur s =
     (let p = tprocs s ! cur;
          s1 = (if t_tid p = MAINTH then snd (kill (t_pid p) s)
                else upd_t cur (\<lambda>p. p\<lparr>t_state := THZOMBIE\<rparr>) (upd_q (t_idx p) (\<lambda>q. q\<lparr>q_retval := retval\<rparr>) s))
      in sched cur (wakeup1 (map_option ChSlot (t_joiner (tprocs s1 ! cur))) s1))"

fun join_scan :: "nat \<Rightarrow> nat \<Rightarrow> nat list \<Rightarrow> bool \<Rightarrow> tk \<Rightarrow> (nat option \<times> bool) res" where
  "join_scan thread cur [] have s = Inr (None, have)"
| "join_scan thread cur (j # js) have s =
     (let q = pths s ! j in
      if q_pid q \<noteq> t_pid (tprocs s ! cur) \<or> q_tid q \<noteq> thread then join_scan thread cur js have s
      else deref ''thread_join: joiner'' (q_joiner q) (\<lambda>o'.
        if q_tid (pths s ! o') \<noteq> t_tid (tprocs s ! cur) then join_scan thread cur js have s
        else if q_state q = THZOMBIE then Inr (Some j, True)
        else join_scan thread cur js True s))"

datatype tjoin = Joined nat | JoinFail | JoinAsleep

definition join_reap :: "nat \<Rightarrow> nat \<Rightarrow> tk \<Rightarrow> (tjoin \<times> tk) res" where
  "join_reap j cur s =
     (let q = pths s ! j in
      deref ''kfree'' (q_kstack q) (\<lambda>k. bindR (kfree k (tkm s)) (\<lambda>m.
      let lo = sub32 (q_th_sz q) ((t_stacksz (tprocs s ! cur) + 1) * PGSIZE);
          s1 = upd_t cur (fr_push lo) (upd_q j (\<lambda>q. q\<lparr>q_pid := 0, q_kstack := None, q_state := UNUSED, q_chan := None, q_ptable := 0,
                 q_tid := 0, q_joiner := None\<rparr>) (s\<lparr>tkm := m\<rparr>))
      in deref ''deallocuvm: pgdir'' (t_pgdir (tprocs s1 ! cur)) (\<lambda>d.
         bindR (deallocuvm (q_th_sz q) lo d m) (\<lambda>(_, dm).
         Inr (Joined (q_retval q), upd_q j (\<lambda>q. q\<lparr>q_th_sz := 0\<rparr>) (set_mem cur dm s1)))))))"

definition thread_join :: "nat \<Rightarrow> nat \<Rightarrow> tk \<Rightarrow> (tjoin \<times> tk) res" where
  "thread_join thread cur s =
     (if thread = MAINTH then Inr (JoinFail, s)
      else bindR (join_scan thread cur [0..<length (pths s)] False s) (\<lambda>(r, have).
        case r of
          Some j \<Rightarrow> join_reap j cur s
        | None \<Rightarrow>
            if \<not> have \<or> t_killed (tprocs s ! cur) then Inr (JoinFail, s)
            else bindR (sleep_begin (map_option ChSlot (t_joiner (tprocs s ! cur))) cur s) (\<lambda>s1. Inr (JoinAsleep, s1))))"

section \<open>Exec\<close>

fun delete_others :: "nat \<Rightarrow> nat list \<Rightarrow> tk \<Rightarrow> tk res" where
  "delete_others i [] s = Inr s"
| "delete_others i (j # js) s =
     (let p = tprocs s ! i in
      if q_pid (pths s ! j) \<noteq> t_pid p \<or> q_tid (pths s ! j) = t_tid p then delete_others i js s
      else bindR (deleteThread j (s\<lparr>tprocs := map (\<lambda>c. if t_parent_th c = Some j then c\<lparr>t_parent_th := Some (t_idx p)\<rparr> else c) (tprocs s)\<rparr>))
             (delete_others i js))"

definition deleteThreads :: "nat \<Rightarrow> tk \<Rightarrow> tk res" where
  "deleteThreads i s = bindR (delete_others i [0..<length (pths s)] s) (\<lambda>s1.
     Inr (upd_t i (\<lambda>p. p\<lparr>t_joiner := Some (t_idx p)\<rparr>) s1))"

definition field :: "byte list \<Rightarrow> nat \<Rightarrow> nat \<Rightarrow> nat" where
  "field bs off len = foldr (\<lambda>b acc. unat b + 256 * acc) (take len (drop off bs)) 0"

fun load_segs :: "(nat \<Rightarrow> nat \<Rightarrow> byte list) \<Rightarrow> nat \<Rightarrow> nat \<Rightarrow> nat \<Rightarrow> pgdir \<Rightarrow> kmem \<Rightarrow> (nat option \<times> pgdir \<times> kmem) res" where
  "load_segs rd 0 off sz d m = Inr (Some sz, d, m)"
| "load_segs rd (Suc n) off sz d m =
     (let ph = rd off 32; vaddr = field ph 8 4; filesz = field ph 16 4; memsz = field ph 20 4; want = wrap32 (vaddr + memsz) in
      if length ph \<noteq> 32 then Inr (None, d, m)
      else if field ph 0 4 \<noteq> 1 then load_segs rd n (off + 32) sz d m
      else if memsz < filesz \<or> want < vaddr then Inr (None, d, m)
      else bindR (allocuvm sz want d m) (\<lambda>(r, d1, m1).
        if r = 0 \<or> vaddr mod PGSIZE \<noteq> 0 then Inr (None, d1, m1)
        else bindR (loaduvm rd vaddr (field ph 4 4) filesz d1 m1) (\<lambda>(c, m2).
          if c < 0 then Inr (None, d1, m2) else load_segs rd n (off + 32) r d1 m2)))"

fun push_args :: "byte list list \<Rightarrow> nat \<Rightarrow> nat \<Rightarrow> pgdir \<Rightarrow> kmem \<Rightarrow> ((nat \<times> nat list) option \<times> kmem) res" where
  "push_args [] argc sp d m = Inr (Some (sp, []), m)"
| "push_args (a # as) argc sp d m =
     (if argc \<ge> 32 then Inr (None, m)
      else let sp1 = sub32 sp (length a + 1) div 4 * 4 in
        bindR (copyout d sp1 (a @ [0]) m) (\<lambda>(c, m1).
          if c < 0 then Inr (None, m1)
          else bindR (push_args as (argc + 1) sp1 d m1) (\<lambda>(r, m2).
            Inr (map_option (\<lambda>(sp2, ps). (sp2, sp1 # ps)) r, m2))))"

definition last_name :: "string \<Rightarrow> string" where
  "last_name path = rev (takeWhile (\<lambda>c. c \<noteq> CHR ''/'') (rev path))"

definition exec_bad :: "pgdir \<Rightarrow> kmem \<Rightarrow> tk \<Rightarrow> (int \<times> tk) res" where
  "exec_bad d m s = bindR (freevm (Some d) m) (\<lambda>m1. Inr (-1, s\<lparr>tkm := m1\<rparr>))"

text \<open>From the point where the new image is complete.\<close>

definition exec_commit :: "nat \<Rightarrow> string \<Rightarrow> nat \<Rightarrow> nat \<Rightarrow> nat \<Rightarrow> pgdir \<Rightarrow> nat \<Rightarrow> tk \<Rightarrow> (int \<times> tk) res" where
  "exec_commit stk path entry sp sz d cur s =
     bindR (deleteThreads cur (upd_t cur (\<lambda>p. p\<lparr>t_name := safestr (last_name path) 55\<rparr>) s)) (\<lambda>s1.
     let old = t_pgdir (tprocs s1 ! cur);
         s2 = upd_t cur (\<lambda>p. p\<lparr>t_pgdir := Some d, t_memlimit := 0, t_assign := 1, t_stacksz := stk, t_freed_sz := replicate NTHRD 0,
                t_front := 0, t_back := 0, t_freed := 0, t_sz := sz, t_main := t_idx p, t_th_sz := sz, t_tid := MAINTH\<rparr>) s1
     in deref ''exec: tf'' (t_tf (tprocs s2 ! cur)) (\<lambda>k.
        bindR (switchuvm (t_kstack (tprocs s2 ! cur)) (Some d)) (\<lambda>_.
        bindR (freevm old (tkm s2)) (\<lambda>m.
        Inr (0, s2\<lparr>tkm := m, tframe := (tframe s2)(k := (tframe s2 k)\<lparr>tf_eip := entry, tf_esp := sp\<rparr>)\<rparr>)))))"

definition exec_stack :: "nat \<Rightarrow> string \<Rightarrow> byte list list \<Rightarrow> nat \<Rightarrow> nat \<Rightarrow> pgdir \<Rightarrow> kmem \<Rightarrow> nat \<Rightarrow> tk \<Rightarrow> (int \<times> tk) res" where
  "exec_stack stk path argv entry sz0 d m cur s =
     (let len = (stk + 1) * PGSIZE; sz1 = round_up sz0 * PGSIZE in
      bindR (allocuvm sz1 (wrap32 (sz1 + len)) d m) (\<lambda>(sz, d1, m1).
      if sz = 0 then exec_bad d1 m1 s
      else bindR (clearpteu (sub32 sz len) d1) (\<lambda>d2.
        bindR (push_args argv 0 sz d2 m1) (\<lambda>(r, m2).
          case r of
            None \<Rightarrow> exec_bad d2 m2 s
          | Some (sp, ps) \<Rightarrow>
              let argc = length argv; sp1 = sub32 sp ((3 + argc + 1) * 4);
                  us = [4294967295, argc, sub32 sp ((argc + 1) * 4)] @ ps @ [0]
              in bindR (copyout d2 sp1 (concat (map le32 us)) m2) (\<lambda>(c, m3).
                   if c < 0 then exec_bad d2 m3 s else exec_commit stk path entry sp1 sz d2 cur (s\<lparr>tkm := m3\<rparr>))))))"

definition exec_image :: "nat \<Rightarrow> string \<Rightarrow> byte list list \<Rightarrow> (nat \<Rightarrow> nat \<Rightarrow> byte list) option \<Rightarrow> nat \<Rightarrow> tk \<Rightarrow> (int \<times> tk) res" where
  "exec_image stk path argv file' cur s =
     (case file' of
        None \<Rightarrow> Inr (-1, s)
      | Some rd \<Rightarrow>
          let s1 = upd_t cur (\<lambda>p. p\<lparr>t_state := RUNNING\<rparr>) s; eh = rd 0 52 in
          if length eh \<noteq> 52 \<or> field eh 0 4 \<noteq> 1179403647 then Inr (-1, s1)
          else bindR (setupkvm (tkm s1)) (\<lambda>(pd, m).
            case pd of
              None \<Rightarrow> Inr (-1, s1\<lparr>tkm := m\<rparr>)
            | Some d \<Rightarrow>
                bindR (load_segs rd (field eh 44 2) (field eh 28 4) 0 d m) (\<lambda>(r, d1, m1).
                  case r of
                    None \<Rightarrow> exec_bad d1 m1 s1
                  | Some sz \<Rightarrow> exec_stack stk path argv (field eh 24 4) sz d1 m1 cur s1)))"

definition exec :: "string \<Rightarrow> byte list list \<Rightarrow> (nat \<Rightarrow> nat \<Rightarrow> byte list) option \<Rightarrow> nat \<Rightarrow> tk \<Rightarrow> (int \<times> tk) res" where
  "exec = exec_image 1"

definition exec2 :: "string \<Rightarrow> byte list list \<Rightarrow> int \<Rightarrow> (nat \<Rightarrow> nat \<Rightarrow> byte list) option \<Rightarrow> nat \<Rightarrow> tk \<Rightarrow> (int \<times> tk) res" where
  "exec2 path argv stacksize file' cur s =
     (if stacksize < 1 \<or> stacksize > 100
      then Inr (-1, tprint [OStr (''Execute Fail : stacksize should be in range of [1,100]'' @ [CHR 10])] s)
      else exec_image (nat stacksize) path argv file' cur s)"

end
