(* ===== verification/Th_Areas.thy ===== *)
theory Th_Areas
  imports Th_Thread
begin

text \<open>
  Stack areas of a process, apart from the tables: threads \<open>A\<close> with first page \<open>B j\<close> each, the
  first pages \<open>fr\<close> of the freed areas, \<open>N\<close> pages per area, \<open>n\<close> pages in all and the predicate \<open>P\<close>
  of the pages that are mapped. Creating a thread and joining it move an area between \<open>A\<close> and
  \<open>fr\<close>, or add one at the end.
\<close>

definition areas :: "(nat \<Rightarrow> nat) \<Rightarrow> nat set \<Rightarrow> nat list \<Rightarrow> nat multiset" where
  "areas B A fr = image_mset B (mset_set A) + mset fr"

definition apart :: "nat \<Rightarrow> nat multiset \<Rightarrow> bool" where
  "apart N M \<longleftrightarrow> (\<forall>a\<in>#M. count M a = 1) \<and> (\<forall>a\<in>#M. \<forall>b\<in>#M. a \<noteq> b \<longrightarrow> a + N \<le> b \<or> b + N \<le> a)"

definition area_ok :: "(nat \<Rightarrow> nat) \<Rightarrow> nat set \<Rightarrow> nat list \<Rightarrow> nat \<Rightarrow> nat \<Rightarrow> (nat \<Rightarrow> bool) \<Rightarrow> bool" where
  "area_ok B A fr N n P \<longleftrightarrow> finite A \<and> n \<le> KERNPAGE \<and> size (areas B A fr) \<le> NTHRD \<and> apart N (areas B A fr) \<and> (\<forall>a\<in>#areas B A fr. a + N \<le> n) \<and>
     (\<forall>j\<in>A. \<forall>v. B j \<le> v \<and> v < B j + N \<longrightarrow> P v) \<and> (\<forall>x\<in>set fr. \<forall>v. x \<le> v \<and> v < x + N \<longrightarrow> \<not> P v) \<and>
     (\<forall>v. n \<le> v \<and> v < KERNPAGE \<longrightarrow> \<not> P v)"

lemma areas_insert: "finite A \<Longrightarrow> j \<notin> A \<Longrightarrow> areas (B(j := x)) (insert j A) fr = add_mset x (areas B A fr)"
proof -
  assume a: "finite A" "j \<notin> A"
  have "image_mset (B(j := x)) (mset_set A) = image_mset B (mset_set A)"
    by (rule image_mset_cong) (use a in auto)
  then show ?thesis using a by (simp add: areas_def)
qed

lemma areas_remove: "finite A \<Longrightarrow> j \<in> A \<Longrightarrow> areas B (A - {j}) (fr @ [B j]) = areas B A fr"
  by (simp add: areas_def mset_set.remove [of A j])

lemma areas_in: "finite A \<Longrightarrow> j \<in> A \<Longrightarrow> B j \<in># areas B A fr" "x \<in> set fr \<Longrightarrow> x \<in># areas B A fr"
  by (simp_all add: areas_def)

lemma areas_cong: "(\<And>j. j \<in> A \<Longrightarrow> B j = B' j) \<Longrightarrow> finite A \<Longrightarrow> areas B A fr = areas B' A fr"
  unfolding areas_def by (metis (no_types, lifting) elem_mset_set image_mset_cong)

lemma area_ok_cong:
  assumes "\<And>j. j \<in> A \<Longrightarrow> B j = B' j" "\<And>v. v < KERNPAGE \<Longrightarrow> P v = P' v" "area_ok B A fr N n P"
  shows "area_ok B' A fr N n P'"
proof -
  have f: "finite A" "n \<le> KERNPAGE" using assms(3) by (simp_all add: area_ok_def)
  have e: "areas B' A fr = areas B A fr" using areas_cong [OF assms(1) f(1)] by simp
  have lt: "v < KERNPAGE" if "a \<in># areas B A fr" "v < a + N" for a v
    using that assms(3) f(2) unfolding area_ok_def by (meson le_less_trans less_le_trans not_less)
  have 1: "\<forall>j\<in>A. \<forall>v. B' j \<le> v \<and> v < B' j + N \<longrightarrow> P' v"
  proof (intro ballI allI impI)
    fix j v assume j: "j \<in> A" "B' j \<le> v \<and> v < B' j + N"
    then have "P v" using assms(1,3) by (simp add: area_ok_def)
    moreover have "v < KERNPAGE" using lt [OF areas_in(1) [OF f(1) j(1)]] j assms(1) by simp
    ultimately show "P' v" using assms(2) by simp
  qed
  have 2: "\<forall>x\<in>set fr. \<forall>v. x \<le> v \<and> v < x + N \<longrightarrow> \<not> P' v"
  proof (intro ballI allI impI)
    fix x v assume x: "x \<in> set fr" "x \<le> v \<and> v < x + N"
    then have "\<not> P v" using assms(3) by (simp add: area_ok_def)
    moreover have "v < KERNPAGE" using lt [OF areas_in(2) [OF x(1)]] x by blast
    ultimately show "\<not> P' v" using assms(2) by simp
  qed
  show ?thesis using assms(2,3) 1 2 unfolding area_ok_def e by blast
qed

lemma area_reuse:
  assumes "area_ok B A (x # fr) N n P" "j \<notin> A" "\<And>v. v < KERNPAGE \<Longrightarrow> P' v \<longleftrightarrow> P v \<or> x \<le> v \<and> v < x + N"
  shows "area_ok (B(j := x)) (insert j A) fr N n P'"
proof -
  have f: "finite A" "n \<le> KERNPAGE" using assms(1) by (simp_all add: area_ok_def)
  have e: "areas (B(j := x)) (insert j A) fr = areas B A (x # fr)"
    using areas_insert [OF f(1) assms(2)] by (simp add: areas_def)
  have ap: "apart N (areas B A (x # fr))" and up: "\<forall>a\<in>#areas B A (x # fr). a + N \<le> n" using assms(1) by (simp_all add: area_ok_def)
  have x: "x \<in># areas B A (x # fr)" by (simp add: areas_def)
  have lt: "v < KERNPAGE" if "a \<in># areas B A (x # fr)" "v < a + N" for a v
    using that up f(2) by (meson le_less_trans less_le_trans not_less)
  have 1: "\<forall>k\<in>insert j A. \<forall>v. (B(j := x)) k \<le> v \<and> v < (B(j := x)) k + N \<longrightarrow> P' v"
  proof (intro ballI allI impI)
    fix k v assume k: "k \<in> insert j A" "(B(j := x)) k \<le> v \<and> v < (B(j := x)) k + N"
    show "P' v"
    proof (cases "k = j")
      case True
      then show ?thesis using k assms(3) [OF lt [OF x]] by simp
    next
      case False
      then have "P v" "v < KERNPAGE" using k assms(1) lt [OF areas_in(1) [OF f(1), of k]] by (auto simp: area_ok_def)
      then show ?thesis using assms(3) by simp
    qed
  qed
  have 2: "\<forall>y\<in>set fr. \<forall>v. y \<le> v \<and> v < y + N \<longrightarrow> \<not> P' v"
  proof (intro ballI allI impI)
    fix y v assume y: "y \<in> set fr" "y \<le> v \<and> v < y + N"
    have "count (areas B A (x # fr)) x = 1" using ap x by (simp add: apart_def)
    then have ne: "y \<noteq> x" using y(1) by (auto simp: areas_def)
    have yin: "y \<in># areas B A (x # fr)" using y(1) by (simp add: areas_def)
    have "\<not> (x \<le> v \<and> v < x + N)" using ap x yin ne y(2) unfolding apart_def by fastforce
    moreover have "\<not> P v" using assms(1) y by (simp add: area_ok_def)
    ultimately show "\<not> P' v" using assms(3) [OF lt [OF yin]] y(2) by blast
  qed
  have 3: "\<forall>v. n \<le> v \<and> v < KERNPAGE \<longrightarrow> \<not> P' v"
  proof (intro allI impI)
    fix v assume v: "n \<le> v \<and> v < KERNPAGE"
    have "x + N \<le> n" using up x by blast
    then show "\<not> P' v" using v assms(1) assms(3) [of v] by (simp add: area_ok_def)
  qed
  show ?thesis using assms(1) f(1) 1 2 3 unfolding area_ok_def e by simp
qed

lemma area_fresh:
  assumes "area_ok B A [] N n P" "j \<notin> A" "card A < NTHRD" "n + N \<le> KERNPAGE" "\<And>v. v < KERNPAGE \<Longrightarrow> P' v \<longleftrightarrow> P v \<or> n \<le> v \<and> v < n + N" "0 < N"
  shows "area_ok (B(j := n)) (insert j A) [] N (n + N) P'"
proof -
  have f: "finite A" "n \<le> KERNPAGE" using assms(1) by (simp_all add: area_ok_def)
  have e: "areas (B(j := n)) (insert j A) [] = add_mset n (areas B A [])" by (rule areas_insert [OF f(1) assms(2)])
  have ap: "apart N (areas B A [])" and up: "\<forall>a\<in>#areas B A []. a + N \<le> n" using assms(1) by (simp_all add: area_ok_def)
  have nn: "n \<notin># areas B A []" using up assms(6) by fastforce
  have "apart N (add_mset n (areas B A []))"
    unfolding apart_def
  proof (intro conjI ballI impI)
    show "count (add_mset n (areas B A [])) a = 1" if "a \<in># add_mset n (areas B A [])" for a
      using that ap nn by (cases "a = n") (auto simp: apart_def not_in_iff)
    show "a + N \<le> b \<or> b + N \<le> a" if "a \<in># add_mset n (areas B A [])" "b \<in># add_mset n (areas B A [])" "a \<noteq> b" for a b
      using that ap up by (auto simp: apart_def)
  qed
  moreover have "\<forall>a\<in>#add_mset n (areas B A []). a + N \<le> n + N" using up by fastforce
  moreover have "size (add_mset n (areas B A [])) \<le> NTHRD" using assms(3) f(1) by (simp add: areas_def)
  moreover have "\<forall>k\<in>insert j A. \<forall>v. (B(j := n)) k \<le> v \<and> v < (B(j := n)) k + N \<longrightarrow> P' v"
  proof (intro ballI allI impI)
    fix k v assume k: "k \<in> insert j A" "(B(j := n)) k \<le> v \<and> v < (B(j := n)) k + N"
    show "P' v"
    proof (cases "k = j")
      case True
      then show ?thesis using k assms(4,5) by simp
    next
      case False
      then have "P v" using k assms(1) by (simp add: area_ok_def)
      moreover have "B k + N \<le> n" using up areas_in(1) [OF f(1)] k(1) False by blast
      then have "v < KERNPAGE" using k(2) False f(2) by simp
      ultimately show ?thesis using assms(5) by simp
    qed
  qed
  moreover have "\<forall>v. n + N \<le> v \<and> v < KERNPAGE \<longrightarrow> \<not> P' v" using assms(1,5) by (simp add: area_ok_def)
  ultimately show ?thesis using f(1) assms(4) unfolding area_ok_def e by simp
qed

lemma area_retire:
  assumes "area_ok B A fr N n P" "j \<in> A" "\<And>v. v < KERNPAGE \<Longrightarrow> P' v \<longleftrightarrow> P v \<and> \<not> (B j \<le> v \<and> v < B j + N)"
  shows "area_ok B (A - {j}) (fr @ [B j]) N n P'"
proof -
  have f: "finite A" "n \<le> KERNPAGE" using assms(1) by (simp_all add: area_ok_def)
  have e: "areas B (A - {j}) (fr @ [B j]) = areas B A fr" by (rule areas_remove [OF f(1) assms(2)])
  have ap: "apart N (areas B A fr)" and up: "\<forall>a\<in>#areas B A fr. a + N \<le> n" using assms(1) by (simp_all add: area_ok_def)
  have jin: "B j \<in># areas B A fr" by (rule areas_in(1) [OF f(1) assms(2)])
  have lt: "v < KERNPAGE" if "a \<in># areas B A fr" "v < a + N" for a v
    using that up f(2) by (meson le_less_trans less_le_trans not_less)
  have 1: "\<forall>k\<in>A - {j}. \<forall>v. B k \<le> v \<and> v < B k + N \<longrightarrow> P' v"
  proof (intro ballI allI impI)
    fix k v assume k: "k \<in> A - {j}" "B k \<le> v \<and> v < B k + N"
    have kin: "B k \<in># areas B (A - {j}) fr" using areas_in(1) [of "A - {j}" k] f(1) k(1) by simp
    have "areas B A fr = add_mset (B j) (areas B (A - {j}) fr)" using e by (simp add: areas_def)
    moreover have "count (areas B A fr) (B j) = 1" using ap jin by (simp add: apart_def)
    ultimately have ne: "B k \<noteq> B j" using kin by (auto simp: not_in_iff [symmetric])
    have kin': "B k \<in># areas B A fr" using areas_in(1) [OF f(1)] k(1) by simp
    have "\<not> (B j \<le> v \<and> v < B j + N)" using ap jin kin' ne k(2) unfolding apart_def by fastforce
    moreover have "P v" using assms(1) k unfolding area_ok_def by blast
    ultimately show "P' v" using assms(3) [OF lt [OF kin']] k(2) by blast
  qed
  have 2: "\<forall>x\<in>set (fr @ [B j]). \<forall>v. x \<le> v \<and> v < x + N \<longrightarrow> \<not> P' v"
  proof (intro ballI allI impI)
    fix x v assume x: "x \<in> set (fr @ [B j])" "x \<le> v \<and> v < x + N"
    then have xin: "x \<in># areas B A fr" using jin areas_in(2) by auto
    from lt [OF xin] x(2) have "v < KERNPAGE" by blast
    then show "\<not> P' v" using x assms(1) assms(3) [of v] by (auto simp: area_ok_def)
  qed
  have 3: "\<forall>v. n \<le> v \<and> v < KERNPAGE \<longrightarrow> \<not> P' v" using assms(1,3) by (simp add: area_ok_def)
  show ?thesis using assms(1) f(1) 1 2 3 unfolding area_ok_def e by simp
qed

end
