(* ===== verification/Vm_Inv.thy ===== *)
theory Vm_Inv
  imports Vm
begin

text \<open>
  Ownership of physical pages for Vm: every page belongs to one slot of one directory or is on the
  free list, and \<open>avail\<close> is all of them. Four steps move a page (off the free list, into a slot, out of a slot,
  onto the free list); the operations are chains of these.
\<close>

section \<open>Ownership\<close>

datatype slot = Dir | Tab nat | Pg nat

fun own :: "pgdir \<Rightarrow> slot \<Rightarrow> nat option" where
  "own d Dir = Some (pd_page d)"
| "own d (Tab i) = pd_tab d i"
| "own d (Pg v) = (if v < KERNPAGE then map_option pte_page (pd_pte d v) else None)"

definition pd_wf :: "pgdir \<Rightarrow> bool" where
  "pd_wf d \<longleftrightarrow> (\<forall>v. pd_pte d v \<noteq> None \<longrightarrow> has_pte d v) \<and> (\<forall>i. pd_tab d i \<noteq> None \<longrightarrow> i < 1024)"

definition vm_ok :: "pgdir \<Rightarrow> kmem \<Rightarrow> bool" where
  "vm_ok d m \<longleftrightarrow> pd_wf d \<and> 0 < kend m \<and> distinct (kfl m) \<and> set (kfl m) \<subseteq> {kend m..<PHYSPAGES} \<and>
     ran (own d) \<subseteq> {kend m..<PHYSPAGES} \<and> inj_on (own d) (dom (own d)) \<and> ran (own d) \<inter> set (kfl m) = {}"

definition avail :: "pgdir \<Rightarrow> kmem \<Rightarrow> nat set" where
  "avail d m = ran (own d) \<union> set (kfl m)"

definition same_k :: "kmem \<Rightarrow> kmem \<Rightarrow> bool" where
  "same_k m m' \<longleftrightarrow> kend m' = kend m \<and> kdata m' = kdata m"

lemma same_k_refl [simp]: "same_k m m"
  by (simp add: same_k_def)

lemma same_k_trans: "same_k m m1 \<Longrightarrow> same_k m1 m2 \<Longrightarrow> same_k m m2"
  by (simp add: same_k_def)

lemma vm_ok_cong: "kfl m' = kfl m \<Longrightarrow> kend m' = kend m \<Longrightarrow> vm_ok d m' = vm_ok d m"
  by (simp add: vm_ok_def)

lemma avail_cong: "kfl m' = kfl m \<Longrightarrow> avail d m' = avail d m"
  by (simp add: avail_def)

definition page_ok :: "kmem \<Rightarrow> nat \<Rightarrow> bool" where
  "page_ok m p \<longleftrightarrow> kend m \<le> p \<and> p < PHYSPAGES"

lemma avail_page_ok: "vm_ok d m \<Longrightarrow> p \<in> avail d m \<Longrightarrow> page_ok m p"
  unfolding vm_ok_def avail_def page_ok_def by auto

lemma own_avail: "own d s = Some p \<Longrightarrow> p \<in> avail d m"
  by (auto simp: avail_def ran_def)

section \<open>Moving one page\<close>

lemma take_page:
  assumes "vm_ok d m" "kalloc m = (Some p, m1)"
  shows "vm_ok d m1" "p \<notin> avail d m1" "avail d m = insert p (avail d m1)" "page_ok m p" "same_k m m1" "pmem m1 = pmem m"
    "set (kfl m) = insert p (set (kfl m1))" "p \<in> set (kfl m)"
proof -
  have k: "kfl m = p # kfl m1" "m1 = m\<lparr>kfl := kfl m1\<rparr>"
    using assms(2) by (auto simp: kalloc_def split: list.splits)
  then have e: "kend m1 = kend m" "kdata m1 = kdata m" "pmem m1 = pmem m" by (metis kmem.select_convs kmem.simps kmem.surjective kmem.update_convs(1))+
  show "vm_ok d m1" using assms(1) k(1) e(1) by (auto simp: vm_ok_def)
  show "p \<notin> avail d m1" "avail d m = insert p (avail d m1)" "page_ok m p"
    using assms(1) k(1) by (auto simp: vm_ok_def avail_def page_ok_def)
  show "same_k m m1" "pmem m1 = pmem m" using e by (simp_all add: same_k_def)
  show "set (kfl m) = insert p (set (kfl m1))" "p \<in> set (kfl m)" using k(1) by simp_all
qed

lemma no_page: "kalloc m = (None, m1) \<Longrightarrow> m1 = m \<and> kfl m = []"
  by (auto simp: kalloc_def split: list.splits)

lemma put_page:
  assumes "vm_ok d m" "p \<notin> avail d m" "page_ok m p" "own d s = None" "own d' = (own d)(s \<mapsto> p)" "pd_wf d'"
  shows "vm_ok d' m" "avail d' m = insert p (avail d m)" "own d \<subseteq>\<^sub>m own d'"
proof -
  have r: "ran (own d') = insert p (ran (own d))" unfolding assms(5) using ran_map_upd [of "own d" s p] assms(4) by simp
  have p: "p \<notin> ran (own d)" "p \<notin> set (kfl m)" using assms(2) by (auto simp: avail_def)
  then have ne: "own d t \<noteq> Some p" for t by (auto simp: ran_def)
  have "inj_on (own d) (dom (own d))" using assms(1) by (simp add: vm_ok_def)
  then have "inj_on (own d') (dom (own d'))"
    unfolding assms(5) using ne by (auto simp: inj_on_def)
  then show "vm_ok d' m" using assms(1,3,6) p r by (auto simp: vm_ok_def page_ok_def)
  show "avail d' m = insert p (avail d m)" by (simp add: avail_def r)
  show "own d \<subseteq>\<^sub>m own d'" unfolding assms(5) using assms(4) by (auto simp: map_le_def dom_def)
qed

lemma drop_page:
  assumes "vm_ok d m" "own d s = Some p" "own d' = (own d)(s := None)" "pd_wf d'"
  shows "vm_ok d' m" "p \<notin> avail d' m" "avail d m = insert p (avail d' m)" "page_ok m p" "own d' \<subseteq>\<^sub>m own d"
proof -
  have inj: "inj_on (own d) (dom (own d))" using assms(1) by (simp add: vm_ok_def)
  then have u: "own d t = Some p \<Longrightarrow> t = s" for t using assms(2) by (auto simp: inj_on_def dom_def)
  have "(own d')(s \<mapsto> p) = own d" unfolding assms(3) using assms(2) by (auto intro: ext)
  then have r1: "ran (own d) = insert p (ran (own d'))" using ran_map_upd [of "own d'" s p] assms(3) by simp
  have "own d' t \<noteq> Some p" for t using u [of t] unfolding assms(3) by auto
  then have r: "ran (own d) = insert p (ran (own d'))" "p \<notin> ran (own d')" using r1 by (simp_all add: ran_def)
  have "inj_on (own d') (dom (own d'))" using inj unfolding assms(3) by (auto simp: inj_on_def dom_def)
  then show "vm_ok d' m" using assms(1,4) r by (auto simp: vm_ok_def)
  show "p \<notin> avail d' m" "avail d m = insert p (avail d' m)" "page_ok m p"
    using assms(1) r by (auto simp: avail_def vm_ok_def page_ok_def)
  show "own d' \<subseteq>\<^sub>m own d" unfolding assms(3) by (auto simp: map_le_def)
qed

lemma give_page:
  assumes "vm_ok d m" "p \<notin> avail d m" "page_ok m p"
  shows "\<exists>m'. kfree p m = Inr m' \<and> vm_ok d m' \<and> avail d m' = insert p (avail d m) \<and> same_k m m' \<and>
    set (kfl m') = insert p (set (kfl m)) \<and> (\<forall>q. q \<noteq> p \<longrightarrow> pmem m' q = pmem m q)"
  using assms by (auto simp: kfree_def page_ok_def vm_ok_def avail_def same_k_def guardR_def)

section \<open>Growing and shrinking\<close>

definition grows :: "pgdir \<Rightarrow> kmem \<Rightarrow> pgdir \<Rightarrow> kmem \<Rightarrow> bool" where
  "grows d m d' m' \<longleftrightarrow> vm_ok d' m' \<and> own d \<subseteq>\<^sub>m own d' \<and> same_k m m' \<and> set (kfl m') \<subseteq> set (kfl m) \<and>
     (\<forall>p. p \<notin> set (kfl m) \<longrightarrow> pmem m' p = pmem m p)"

definition shrinks :: "pgdir \<Rightarrow> kmem \<Rightarrow> pgdir \<Rightarrow> kmem \<Rightarrow> bool" where
  "shrinks d m d' m' \<longleftrightarrow> vm_ok d' m' \<and> own d' \<subseteq>\<^sub>m own d \<and> same_k m m' \<and> set (kfl m) \<subseteq> set (kfl m') \<and>
     avail d' m' = avail d m \<and> (\<forall>p. p \<notin> set (kfl m') \<longrightarrow> pmem m' p = pmem m p)"

lemma grows_refl: "vm_ok d m \<Longrightarrow> grows d m d m"
  by (simp add: grows_def)

lemma grows_trans: "grows d m d1 m1 \<Longrightarrow> grows d1 m1 d2 m2 \<Longrightarrow> grows d m d2 m2"
  unfolding grows_def by (auto intro: map_le_trans same_k_trans)

lemma shrinks_refl: "vm_ok d m \<Longrightarrow> shrinks d m d m"
  by (simp add: shrinks_def)

lemma shrinks_trans: "shrinks d m d1 m1 \<Longrightarrow> shrinks d1 m1 d2 m2 \<Longrightarrow> shrinks d m d2 m2"
  unfolding shrinks_def by (auto intro: map_le_trans same_k_trans)

lemma own_tab_upd:
  assumes "pd_wf d" "\<not> has_pte d v"
  shows "own (d\<lparr>pd_tab := (pd_tab d)(v div 1024 \<mapsto> p), pd_pte := (\<lambda>w. if w div 1024 = v div 1024 then None else pd_pte d w)\<rparr>) =
    (own d)(Tab (v div 1024) \<mapsto> p)" "(\<lambda>w. if w div 1024 = v div 1024 then None else pd_pte d w) = pd_pte d"
proof -
  show e: "(\<lambda>w. if w div 1024 = v div 1024 then None else pd_pte d w) = pd_pte d"
  proof (rule ext)
    show "(if w div 1024 = v div 1024 then None else pd_pte d w) = pd_pte d w" for w
      using assms by (cases "pd_pte d w") (auto simp: pd_wf_def has_pte_def)
  qed
  show "own (d\<lparr>pd_tab := (pd_tab d)(v div 1024 \<mapsto> p), pd_pte := (\<lambda>w. if w div 1024 = v div 1024 then None else pd_pte d w)\<rparr>) =
    (own d)(Tab (v div 1024) \<mapsto> p)"
  proof (rule ext)
    fix s
    show "own (d\<lparr>pd_tab := (pd_tab d)(v div 1024 \<mapsto> p), pd_pte := (\<lambda>w. if w div 1024 = v div 1024 then None else pd_pte d w)\<rparr>) s =
      ((own d)(Tab (v div 1024) \<mapsto> p)) s" unfolding e by (cases s) auto
  qed
qed

text \<open>\<open>q\<close> is a page outside: in flight, or of another directory.\<close>

lemma walk_ok:
  assumes ok: "vm_ok d m" and v: "v < 1048576" and w: "walk_alloc v d m = (b, d', m')"
  shows "grows d m d' m'" "avail d' m' = avail d m" "pd_pte d' = pd_pte d" "b = has_pte d' v" "pd_page d' = pd_page d"
proof -
  have "grows d m d' m' \<and> avail d' m' = avail d m \<and> pd_pte d' = pd_pte d \<and> b = has_pte d' v \<and> pd_page d' = pd_page d"
  proof (cases "has_pte d v")
    case True
    then show ?thesis using w grows_refl [OF ok] by (auto simp: walk_alloc_def)
  next
    case False
    note wf = ok [unfolded vm_ok_def, THEN conjunct1]
    show ?thesis
    proof (cases "kalloc m")
      case (Pair r m1)
      show ?thesis
      proof (cases r)
        case None
        then have "m1 = m" using no_page Pair by simp
        then show ?thesis using w None Pair False grows_refl [OF ok] by (auto simp: walk_alloc_def)
      next
        case (Some p)
        note T = take_page [OF ok Pair [unfolded Some]]
        let ?d = "d\<lparr>pd_tab := (pd_tab d)(v div 1024 \<mapsto> p), pd_pte := (\<lambda>w. if w div 1024 = v div 1024 then None else pd_pte d w)\<rparr>"
        have r: "b = True" "d' = ?d" "m' = zero_page p m1" using w Some Pair False by (simp_all add: walk_alloc_def)
        note O = own_tab_upd [OF wf False]
        have y: "pd_wf ?d" using wf v unfolding O(2) pd_wf_def has_pte_def by auto
        have x: "own d (Tab (v div 1024)) = None" using False by (simp add: has_pte_def)
        have z: "kfl (zero_page p m1) = kfl m1" "kend (zero_page p m1) = kend m1" "kdata (zero_page p m1) = kdata m1"
          by (simp_all add: zero_page_def)
        have "vm_ok d (zero_page p m1)" "avail d (zero_page p m1) = avail d m1" "page_ok (zero_page p m1) p"
          using T(1,4,5) vm_ok_cong [OF z(1,2)] avail_cong [OF z(1)] z(2) by (simp_all add: page_ok_def same_k_def)
        with x y have P: "vm_ok ?d (zero_page p m1)" "avail ?d (zero_page p m1) = insert p (avail d m1)" "own d \<subseteq>\<^sub>m own ?d"
          using put_page [of d "zero_page p m1" p "Tab (v div 1024)" ?d] T(2) O(1) by simp_all
        have "q \<noteq> p" if "q \<notin> set (kfl m)" for q using that T(8) by blast
        then have f: "\<forall>q. q \<notin> set (kfl m) \<longrightarrow> pmem (zero_page p m1) q = pmem m q"
          using T(6) by (simp add: zero_page_def)
        have k: "same_k m (zero_page p m1)" using T(5) z by (simp add: same_k_def)
        have sub: "set (kfl (zero_page p m1)) \<subseteq> set (kfl m)" unfolding z(1) T(7) by (rule subset_insertI)
        have "grows d m ?d (zero_page p m1)" unfolding grows_def by (intro conjI P(1) P(3) k sub f)
        then have "grows d m d' m'" unfolding r(2,3) .
        then show ?thesis using P T r O(2) by (simp add: has_pte_def)
      qed
    qed
  qed
  then show "grows d m d' m'" "avail d' m' = avail d m" "pd_pte d' = pd_pte d" "b = has_pte d' v" "pd_page d' = pd_page d" by auto
qed

text \<open>Mapping a page in flight at a user address, and mapping the kernel's ranges.\<close>

abbreviation new_pte :: "nat \<Rightarrow> bool \<Rightarrow> bool \<Rightarrow> pte" where
  "new_pte p w u \<equiv> \<lparr>pte_page = p, pte_w = w, pte_u = u\<rparr>"

lemma own_pte_upd: "v < KERNPAGE \<Longrightarrow> own (d\<lparr>pd_pte := (pd_pte d)(v \<mapsto> e)\<rparr>) = (own d)(Pg v \<mapsto> pte_page e)"
proof (rule ext)
  fix s assume "v < KERNPAGE"
  then show "own (d\<lparr>pd_pte := (pd_pte d)(v \<mapsto> e)\<rparr>) s = ((own d)(Pg v \<mapsto> pte_page e)) s" by (cases s) auto
qed

lemma own_kernel_pte: "KERNPAGE \<le> v \<Longrightarrow> own (d\<lparr>pd_pte := (pd_pte d)(v \<mapsto> e)\<rparr>) = own d"
proof (rule ext)
  fix s assume "KERNPAGE \<le> v"
  then show "own (d\<lparr>pd_pte := (pd_pte d)(v \<mapsto> e)\<rparr>) s = own d s" by (cases s) auto
qed

lemma pd_wf_pte: "pd_wf d \<Longrightarrow> has_pte d v \<Longrightarrow> pd_wf (d\<lparr>pd_pte := (pd_pte d)(v := e)\<rparr>)"
  by (simp add: pd_wf_def has_pte_def)

lemma map_user_ok:
  assumes ok: "vm_ok d m" and v: "v < KERNPAGE" "pd_pte d v = None" and p: "p \<notin> avail d m" "page_ok m p"
  shows "\<exists>b d' m'. mappages [v] p w u d m = Inr (b, d', m') \<and> grows d m d' m' \<and> pd_page d' = pd_page d \<and>
    (if b then pd_pte d' = (pd_pte d)(v \<mapsto> new_pte p w u) \<and> avail d' m' = insert p (avail d m)
     else pd_pte d' = pd_pte d \<and> avail d' m' = avail d m)"
proof -
  obtain b d1 m1 where w: "walk_alloc v d m = (b, d1, m1)" by (cases "walk_alloc v d m") auto
  have "v < 1048576" using v(1) by simp
  note W = walk_ok [OF ok this w]
  show ?thesis
  proof (cases b)
    case False
    then show ?thesis using w W by (intro exI [of _ False] exI [of _ d1] exI [of _ m1]) simp
  next
    case True
    let ?d = "d1\<lparr>pd_pte := (pd_pte d1)(v \<mapsto> new_pte p w u)\<rparr>"
    have ok1: "vm_ok d1 m1" and k: "same_k m m1" using W(1) by (simp_all add: grows_def)
    have "pd_wf ?d" by (rule pd_wf_pte) (use ok1 W(4) True in \<open>simp_all add: vm_ok_def\<close>)
    moreover have "own d1 (Pg v) = None" using W(3) v(2) by simp
    moreover have "own ?d = (own d1)(Pg v \<mapsto> p)" using own_pte_upd [OF v(1), of d1 "new_pte p w u"] by simp
    moreover have "p \<notin> avail d1 m1" "page_ok m1 p" using p W(2) k by (simp_all add: page_ok_def same_k_def)
    ultimately have P: "vm_ok ?d m1" "avail ?d m1 = insert p (avail d1 m1)" "own d1 \<subseteq>\<^sub>m own ?d"
      using put_page [OF ok1] by blast+
    have "grows d1 m1 ?d m1" using P by (simp add: grows_def)
    then have "grows d m ?d m1" by (rule grows_trans [OF W(1)])
    then show ?thesis using w W(2,3,5) v(2) True P(2) by (intro exI [of _ True] exI [of _ ?d] exI [of _ m1]) simp
  qed
qed

lemma map_kernel_ok:
  assumes "vm_ok d m" "\<forall>v\<in>set vs. KERNPAGE \<le> v \<and> v < 1048576 \<and> pd_pte d v = None" "distinct vs"
  shows "\<exists>b d' m'. mappages vs pa w u d m = Inr (b, d', m') \<and> grows d m d' m' \<and> avail d' m' = avail d m \<and>
    pd_page d' = pd_page d \<and> (\<forall>v. v \<notin> set vs \<longrightarrow> pd_pte d' v = pd_pte d v)"
  using assms
proof (induction vs arbitrary: pa d m)
  case Nil
  then show ?case using grows_refl by (intro exI [of _ True] exI [of _ d] exI [of _ m]) simp
next
  case (Cons v vs)
  obtain b d1 m1 where w: "walk_alloc v d m = (b, d1, m1)" by (cases "walk_alloc v d m") auto
  have v: "KERNPAGE \<le> v" "v < 1048576" "pd_pte d v = None" using Cons.prems(2) by auto
  note W = walk_ok [OF Cons.prems(1) v(2) w]
  show ?case
  proof (cases b)
    case False
    then show ?thesis using w W by (intro exI [of _ False] exI [of _ d1] exI [of _ m1]) simp
  next
    case True
    let ?d = "d1\<lparr>pd_pte := (pd_pte d1)(v \<mapsto> new_pte pa w u)\<rparr>"
    have o: "own ?d = own d1" by (rule own_kernel_pte [OF v(1)])
    have ok1: "vm_ok d1 m1" using W(1) by (simp add: grows_def)
    have "pd_wf ?d" by (rule pd_wf_pte) (use ok1 W(4) True in \<open>simp_all add: vm_ok_def\<close>)
    then have okd: "vm_ok ?d m1" using ok1 by (simp add: vm_ok_def o)
    have g: "grows d1 m1 ?d m1" using okd o by (simp add: grows_def)
    have av: "avail ?d m1 = avail d m" using W(2) by (simp add: avail_def o)
    have "\<forall>x\<in>set vs. KERNPAGE \<le> x \<and> x < 1048576 \<and> pd_pte ?d x = None"
      using Cons.prems(2,3) W(3) by auto
    from Cons.IH [OF okd this, of "pa + 1"] Cons.prems(3) obtain b' d' m' where
      r: "mappages vs (pa + 1) w u ?d m1 = Inr (b', d', m')" "grows ?d m1 d' m'" "avail d' m' = avail ?d m1"
        "pd_page d' = pd_page ?d" "\<forall>v. v \<notin> set vs \<longrightarrow> pd_pte d' v = pd_pte ?d v" by auto
    have "mappages (v # vs) pa w u d m = Inr (b', d', m')" using w W(3) v(3) True r(1) by simp
    moreover have "grows d m d' m'" using W(1) g r(2) grows_trans by blast
    moreover have "\<forall>x. x \<notin> set (v # vs) \<longrightarrow> pd_pte d' x = pd_pte d x" using r(5) W(3) by simp
    ultimately show ?thesis using r(3,4) av W(5) by simp
  qed
qed

section \<open>Freeing\<close>

lemma dealloc_loop_ok:
  assumes "vm_ok d m" "n \<le> KERNPAGE"
  shows "\<exists>d' m'. dealloc_loop v n d m = Inr (d', m') \<and> shrinks d m d' m' \<and> pd_page d' = pd_page d \<and> pd_tab d' = pd_tab d \<and>
    pd_pte d' = (\<lambda>x. if v \<le> x \<and> x < n then None else pd_pte d x)"
  using assms
proof (induction v n d m rule: dealloc_loop.induct)
  case (1 v n d m)
  have wf: "pd_wf d" using 1(4) by (simp add: vm_ok_def)
  consider "n \<le> v" | "v < n" "\<not> has_pte d v" | "v < n" "has_pte d v" "pd_pte d v = None"
    | e where "v < n" "has_pte d v" "pd_pte d v = Some e" by (cases "pd_pte d v") fastforce+
  then show ?case
  proof cases
    case 1
    moreover from this have "pd_pte d = (\<lambda>x. if v \<le> x \<and> x < n then None else pd_pte d x)" by (intro ext) auto
    ultimately show ?thesis using \<open>vm_ok d m\<close> by (simp add: dealloc_loop.simps [of v] shrinks_refl)
  next
    case 2
    have none: "pd_pte d x = None" if "v \<le> x" "x < (v div 1024 + 1) * 1024" for x
    proof -
      have "x div 1024 = v div 1024" using that by (simp add: div_nat_eqI)
      then show ?thesis using wf 2(2) by (cases "pd_pte d x") (auto simp: pd_wf_def has_pte_def)
    qed
    have big: "v < (v div 1024 + 1) * 1024" by simp
    have e: "(\<lambda>x. if (v div 1024 + 1) * 1024 \<le> x \<and> x < n then None else pd_pte d x) =
        (\<lambda>x. if v \<le> x \<and> x < n then None else pd_pte d x)"
    proof (rule ext)
      show "(if (v div 1024 + 1) * 1024 \<le> x \<and> x < n then None else pd_pte d x) =
          (if v \<le> x \<and> x < n then None else pd_pte d x)" for x
        using none [of x] big by (cases "x < (v div 1024 + 1) * 1024") auto
    qed
    have "dealloc_loop v n d m = dealloc_loop ((v div 1024 + 1) * 1024) n d m"
      using 2 by (subst dealloc_loop.simps) simp
    then show ?thesis using 1(1) [OF _ 2(2) 1(4,5)] 2(1) unfolding e by simp
  next
    case 3
    have e: "(\<lambda>x. if v + 1 \<le> x \<and> x < n then None else pd_pte d x) = (\<lambda>x. if v \<le> x \<and> x < n then None else pd_pte d x)"
    proof (rule ext)
      show "(if v + 1 \<le> x \<and> x < n then None else pd_pte d x) = (if v \<le> x \<and> x < n then None else pd_pte d x)" for x
        using 3(3) by (cases "x = v") auto
    qed
    have "dealloc_loop v n d m = dealloc_loop (v + 1) n d m" using 3 by (subst dealloc_loop.simps) simp
    then show ?thesis using 1(2) [OF _ _ 3(3) 1(4,5)] 3(1,2) unfolding e by simp
  next
    case 4
    have vk: "v < KERNPAGE" using 4(1) 1(5) by simp
    let ?d = "d\<lparr>pd_pte := (pd_pte d)(v := None)\<rparr>"
    have o: "own ?d = (own d)(Pg v := None)"
    proof (rule ext)
      show "own ?d s = ((own d)(Pg v := None)) s" for s using vk by (cases s) auto
    qed
    have "own d (Pg v) = Some (pte_page e)" using vk 4(3) by simp
    from drop_page [OF 1(4) this o pd_wf_pte [OF wf 4(2)]]
    have D: "vm_ok ?d m" "pte_page e \<notin> avail ?d m" "avail d m = insert (pte_page e) (avail ?d m)" "page_ok m (pte_page e)"
      "own ?d \<subseteq>\<^sub>m own d" by auto
    obtain m1 where m1: "kfree (pte_page e) m = Inr m1" "vm_ok ?d m1" "avail ?d m1 = insert (pte_page e) (avail ?d m)"
      "same_k m m1" "set (kfl m1) = insert (pte_page e) (set (kfl m))" "\<forall>q. q \<noteq> pte_page e \<longrightarrow> pmem m1 q = pmem m q"
      using give_page [OF D(1,2,4)] by blast
    have nz: "pte_page e \<noteq> 0" using D(4) 1(4) by (auto simp: page_ok_def vm_ok_def)
    have s1: "shrinks d m ?d m1" using m1 D unfolding shrinks_def by auto
    have st: "dealloc_loop v n d m = dealloc_loop (v + 1) n ?d m1"
      using 4 nz m1(1) by (subst dealloc_loop.simps) simp
    obtain d' m' where r: "dealloc_loop (v + 1) n ?d m1 = Inr (d', m')" "shrinks ?d m1 d' m'" "pd_page d' = pd_page ?d" "pd_tab d' = pd_tab ?d"
      "pd_pte d' = (\<lambda>x. if v + 1 \<le> x \<and> x < n then None else pd_pte ?d x)"
      using 1(3) [OF _ _ 4(3) m1(1,2) 1(5)] 4(1,2) by auto
    have "pd_pte d' = (\<lambda>x. if v \<le> x \<and> x < n then None else pd_pte d x)"
      unfolding r(5) using 4(1) by (intro ext) auto
    then show ?thesis using r s1 st shrinks_trans by fastforce
  qed
qed

end
