(* ===== verification/Vm_Props.thy ===== *)
theory Vm_Props
  imports Vm_Inv
begin

text \<open>
  What the operations of Vm do to whole address spaces: \<open>freevm\<close> gives back every page,
  \<open>allocuvm\<close> maps fresh zero pages or leaves the mapping as it was, \<open>setupkvm\<close> starts with no user page, and
  \<open>copyuvm\<close> gives the child copies of its own.
\<close>

section \<open>The free list\<close>

definition kfl_ok :: "kmem \<Rightarrow> bool" where
  "kfl_ok m \<longleftrightarrow> 0 < kend m \<and> distinct (kfl m) \<and> set (kfl m) \<subseteq> {kend m..<PHYSPAGES}"

lemma owned_not_free: "vm_ok d m \<Longrightarrow> own d s = Some p \<Longrightarrow> p \<notin> set (kfl m)"
  unfolding vm_ok_def by (auto simp: ran_def)

lemma free_each_ok:
  assumes "kfl_ok m" "distinct ps" "set ps \<inter> set (kfl m) = {}" "\<forall>p\<in>set ps. page_ok m p"
  shows "\<exists>m'. free_each ps m = Inr m' \<and> kfl_ok m' \<and> set (kfl m') = set ps \<union> set (kfl m) \<and> same_k m m' \<and>
    (\<forall>q. q \<notin> set ps \<longrightarrow> pmem m' q = pmem m q)"
  using assms
proof (induction ps arbitrary: m)
  case (Cons p ps)
  let ?m = "m\<lparr>kfl := p # kfl m, pmem := (pmem m)(p := (\<lambda>_. 1))\<rparr>"
  have f: "kfree p m = Inr ?m" using Cons.prems(4) by (simp add: kfree_def page_ok_def)
  have "kfl_ok ?m" using Cons.prems by (auto simp: kfl_ok_def page_ok_def)
  moreover have "set ps \<inter> set (kfl ?m) = {}" "\<forall>p\<in>set ps. page_ok ?m p"
    using Cons.prems by (auto simp: page_ok_def)
  ultimately obtain m' where "free_each ps ?m = Inr m'" "kfl_ok m'" "set (kfl m') = set ps \<union> set (kfl ?m)" "same_k ?m m'"
    "\<forall>q. q \<notin> set ps \<longrightarrow> pmem m' q = pmem ?m q" using Cons.IH [of ?m] Cons.prems(2) by auto
  then show ?case using f by (intro exI [of _ m']) (auto simp: same_k_def)
qed simp

lemma free_tabs_each: "free_tabs is d = free_each (List.map_filter (pd_tab d) is)"
proof
  show "free_tabs is d m = free_each (List.map_filter (pd_tab d) is) m" for m
    by (induction "is" arbitrary: m) (auto simp: List.map_filter_simps intro!: bindR_cong split: option.splits)
qed

lemma vm_ok_kfl: "vm_ok d m \<Longrightarrow> kfl_ok m"
  by (simp add: vm_ok_def kfl_ok_def)

lemma tab_pages:
  assumes "vm_ok d m"
  shows "distinct (List.map_filter (pd_tab d) [0..<1024])" "set (List.map_filter (pd_tab d) [0..<1024]) = ran (pd_tab d)"
proof -
  have lt: "i < 1024" if "pd_tab d i = Some p" for i p using assms that by (auto simp: vm_ok_def pd_wf_def)
  show "set (List.map_filter (pd_tab d) [0..<1024]) = ran (pd_tab d)"
  proof (rule set_eqI)
    show "p \<in> set (List.map_filter (pd_tab d) [0..<1024]) \<longleftrightarrow> p \<in> ran (pd_tab d)" for p
      using lt [of _ p] by (force simp: List.map_filter_def ran_def)
  qed
  have inj: "i = j" if "pd_tab d i = Some p" "pd_tab d j = Some p" for i j p
  proof -
    have "own d (Tab i) = Some p" "own d (Tab j) = Some p" using that by simp_all
    then have "Tab i = Tab j" using assms unfolding vm_ok_def by (metis (no_types, lifting) domI inj_on_def)
    then show ?thesis by simp
  qed
  have "distinct (List.map_filter (pd_tab d) xs)" if "distinct xs" for xs
    using that by (induction xs) (auto simp: List.map_filter_def dest: inj split: option.splits)
  then show "distinct (List.map_filter (pd_tab d) [0..<1024])" by simp
qed

lemma freevm_ok:
  assumes "vm_ok d m"
  shows "\<exists>m'. freevm (Some d) m = Inr m' \<and> kfl_ok m' \<and> set (kfl m') = avail d m \<and> same_k m m' \<and>
    (\<forall>p. p \<notin> avail d m \<longrightarrow> pmem m' p = pmem m p)"
proof -
  have "npages (KERNPAGE * PGSIZE) = KERNPAGE" "round_up 0 = 0" by (simp_all add: npages_def round_up_def)
  with dealloc_loop_ok [OF assms, of KERNPAGE 0] obtain d1 m1 where
    1: "deallocuvm (KERNPAGE * PGSIZE) 0 d m = Inr (0, d1, m1)" "shrinks d m d1 m1" "pd_page d1 = pd_page d"
      "pd_pte d1 = (\<lambda>x. if x < KERNPAGE then None else pd_pte d x)"
    by (auto simp: deallocuvm_def)
  have ok: "vm_ok d1 m1" and av: "avail d1 m1 = avail d m" and k: "same_k m m1"
    and fr: "\<forall>p. p \<notin> set (kfl m1) \<longrightarrow> pmem m1 p = pmem m p" using 1(2) by (auto simp: shrinks_def)
  let ?ps = "List.map_filter (pd_tab d1) [0..<1024]"
  note tp = tab_pages [OF ok]
  have r: "ran (own d1) = insert (pd_page d1) (set ?ps)"
  proof -
    have "own d1 (Pg v) = None" for v using 1(4) by simp
    moreover have "own d1 Dir = Some (pd_page d1)" "own d1 (Tab i) = pd_tab d1 i" for i by simp_all
    ultimately have "own d1 s = Some p \<Longrightarrow> p = pd_page d1 \<or> p \<in> ran (pd_tab d1)" for s p
      by (cases s) (auto simp: ran_def simp del: own.simps)
    moreover have "\<exists>s. own d1 s = Some p" if i: "p \<in> ran (pd_tab d1)" for p
    proof -
      obtain i where "pd_tab d1 i = Some p" using i unfolding ran_def by blast
      then have "own d1 (Tab i) = Some p" by simp
      then show ?thesis by blast
    qed
    moreover have "\<exists>s. own d1 s = Some (pd_page d1)" by (rule exI [of _ Dir]) simp
    ultimately show ?thesis unfolding tp(2) ran_def [of "own d1"] by blast
  qed
  have pn: "pd_page d1 \<notin> set ?ps"
  proof
    assume "pd_page d1 \<in> set ?ps"
    then obtain i where "own d1 (Tab i) = own d1 Dir" unfolding tp(2) by (auto simp: ran_def)
    then have "Tab i = Dir" using ok unfolding vm_ok_def inj_on_def by (metis domI own.simps(1))
    then show False by simp
  qed
  have dj: "ran (own d1) \<inter> set (kfl m1) = {}" using ok by (simp add: vm_ok_def)
  have pg: "\<forall>p\<in>ran (own d1). page_ok m1 p" using ok by (auto simp: vm_ok_def page_ok_def)
  have "kfl_ok m1" by (rule vm_ok_kfl [OF ok])
  moreover have "distinct (?ps @ [pd_page d1])" using tp(1) pn by simp
  moreover have "set (?ps @ [pd_page d1]) = ran (own d1)" using r by simp
  ultimately obtain m2 where 2: "free_each (?ps @ [pd_page d1]) m1 = Inr m2" "kfl_ok m2" "set (kfl m2) = avail d m" "same_k m1 m2"
    "\<forall>q. q \<notin> ran (own d1) \<longrightarrow> pmem m2 q = pmem m1 q"
    using free_each_ok [of m1 "?ps @ [pd_page d1]"] dj pg av unfolding avail_def by auto
  have "free_each (xs @ [p]) x = bindR (free_each xs x) (kfree p)" for xs p x
    by (induction xs arbitrary: x) (auto simp: bindR_def split: sum.splits)
  then have "freevm (Some d) m = Inr m2" using 1(1) 2(1) by (simp add: freevm_def free_tabs_each)
  moreover have "\<forall>p. p \<notin> avail d m \<longrightarrow> pmem m2 p = pmem m p"
    using 2(5) fr av unfolding avail_def by auto
  ultimately show ?thesis using 2(2-4) k same_k_trans by blast
qed

section \<open>Growing the user part\<close>

lemma map_le_ran: "f \<subseteq>\<^sub>m g \<Longrightarrow> ran f \<subseteq> ran g"
  by (fastforce simp: map_le_def ran_def dom_def)

lemma grow_shrink:
  assumes "grows d m d1 m1" "avail d1 m1 \<subseteq> avail d m" "vm_ok d m" "shrinks d1 m1 d2 m2" "own d \<subseteq>\<^sub>m own d2"
  shows "grows d m d2 m2"
proof -
  have av: "avail d2 m2 \<subseteq> avail d m" using assms(2,4) by (simp add: shrinks_def)
  have dj: "ran (own d2) \<inter> set (kfl m2) = {}" "ran (own d) \<inter> set (kfl m) = {}"
    using assms(3,4) by (simp_all add: shrinks_def vm_ok_def)
  have s: "set (kfl m2) \<subseteq> set (kfl m)" using av dj map_le_ran [OF assms(5)] unfolding avail_def by blast
  have fr: "pmem m2 p = pmem m p" if "p \<notin> set (kfl m)" for p
  proof -
    have "p \<notin> set (kfl m2)" using that s by blast
    then show ?thesis using that assms(1,4) by (simp add: grows_def shrinks_def)
  qed
  show ?thesis
    unfolding grows_def
  proof (intro conjI allI impI)
    show "vm_ok d2 m2" using assms(4) by (simp add: shrinks_def)
    show "same_k m m2" using assms(1,4) by (simp add: grows_def shrinks_def same_k_def)
  qed (use assms(5) s fr in auto)
qed

text \<open>One page off the free list, filled with \<open>X\<close>, and mapped.\<close>

lemma map_fresh:
  assumes ok: "vm_ok d m" and v: "v < KERNPAGE" "pd_pte d v = None" and a: "kalloc m = (Some p, m1)"
  shows "\<exists>b d2 m2. mappages [v] p w u d (m1\<lparr>pmem := (pmem m1)(p := X)\<rparr>) = Inr (b, d2, m2) \<and> grows d m d2 m2 \<and>
    pd_page d2 = pd_page d \<and> page_ok m2 p \<and> avail d m = insert p (avail d2 m2) \<and>
    (if b then pd_pte d2 = (pd_pte d)(v \<mapsto> new_pte p w u) \<and> avail d2 m2 = avail d m \<and> pmem m2 p = X
     else pd_pte d2 = pd_pte d \<and> p \<notin> avail d2 m2)"
proof -
  let ?m = "m1\<lparr>pmem := (pmem m1)(p := X)\<rparr>"
  note T = take_page [OF ok a]
  have c: "vm_ok d ?m" "avail d ?m = avail d m1" "same_k m ?m" "set (kfl m) = insert p (set (kfl ?m))"
    using T(1,5,7) vm_ok_cong [of ?m m1 d] avail_cong [of ?m m1 d] by (simp_all add: same_k_def)
  have "p \<notin> avail d ?m" "page_ok ?m p" using T(2,4) c(2,3) by (simp_all add: page_ok_def same_k_def)
  from map_user_ok [OF c(1) v this, of w u] obtain b d2 m2 where r: "mappages [v] p w u d ?m = Inr (b, d2, m2)"
    "grows d ?m d2 m2" "pd_page d2 = pd_page d" "if b then pd_pte d2 = (pd_pte d)(v \<mapsto> new_pte p w u) \<and> avail d2 m2 = insert p (avail d ?m)
     else pd_pte d2 = pd_pte d \<and> avail d2 m2 = avail d ?m" by blast
  have np: "p \<notin> set (kfl ?m)" using \<open>p \<notin> avail d ?m\<close> by (simp add: avail_def)
  have g: "grows d m d2 m2"
    unfolding grows_def
  proof (intro conjI allI impI)
    show "vm_ok d2 m2" "own d \<subseteq>\<^sub>m own d2" "same_k m m2" using r(2) c(3) same_k_trans by (auto simp: grows_def)
    show "set (kfl m2) \<subseteq> set (kfl m)" using r(2) c(4) by (auto simp: grows_def)
    show "pmem m2 q = pmem m q" if "q \<notin> set (kfl m)" for q
      using that r(2) c(4) T(6) by (auto simp: grows_def)
  qed
  have "pmem m2 p = X" using r(2) np by (simp add: grows_def)
  moreover have "page_ok m2 p" using T(4) g by (simp add: page_ok_def grows_def same_k_def)
  ultimately show ?thesis using r(1,3,4) g T(2,3) c(2) by (intro exI [of _ b] exI [of _ d2] exI [of _ m2]) auto
qed

lemma own_le_pte: "own d \<subseteq>\<^sub>m own d1 \<Longrightarrow> pd_tab d2 = pd_tab d1 \<Longrightarrow> pd_page d2 = pd_page d1 \<Longrightarrow> pd_pte d2 = pd_pte d \<Longrightarrow>
    own d \<subseteq>\<^sub>m own d2"
proof (unfold map_le_def, intro ballI)
  fix s assume h: "\<forall>s\<in>dom (own d). own d s = own d1 s" "pd_tab d2 = pd_tab d1" "pd_page d2 = pd_page d1" "pd_pte d2 = pd_pte d" "s \<in> dom (own d)"
  then have "own d s = own d1 s" by blast
  then show "own d s = own d2 s" using h(2-4) by (cases s) auto
qed

lemma size_pages: "sz \<le> 2147483648 \<Longrightarrow> round_up sz = npages sz" "new < 2147483648 \<Longrightarrow> npages new \<le> KERNPAGE"
  by (simp_all add: round_up_def npages_def)

definition zero_mapped :: "pgdir \<Rightarrow> nat set \<Rightarrow> pgdir \<Rightarrow> kmem \<Rightarrow> bool" where
  "zero_mapped d A d' m' \<longleftrightarrow> (\<forall>v. v \<notin> A \<longrightarrow> pd_pte d' v = pd_pte d v) \<and>
     (\<forall>v\<in>A. \<exists>p. pd_pte d' v = Some (new_pte p True True) \<and> pmem m' p = zero_blk)"

lemma alloc_loop_ok:
  assumes "vm_ok d m" "grows d m d1 m1" "avail d1 m1 = avail d m" "zero_mapped d {a..<k} d1 m1" "pd_page d1 = pd_page d"
    and "a \<le> k" "k \<le> n" "n \<le> KERNPAGE" "a = round_up old" "n = npages new" "a < n \<longrightarrow> old < new" "\<forall>v. a \<le> v \<and> v < n \<longrightarrow> pd_pte d v = None"
  shows "\<exists>r d' m'. alloc_loop old new [k..<n] d1 m1 = Inr (r, d', m') \<and> grows d m d' m' \<and> avail d' m' = avail d m \<and>
    pd_page d' = pd_page d \<and> (r = new \<and> zero_mapped d {a..<n} d' m' \<or> r = 0 \<and> pd_pte d' = pd_pte d)"
  using assms(2-7)
proof (induction "n - k" arbitrary: k d1 m1)
  case 0
  then show ?case by simp
next
  case (Suc x)
  have kn: "k < n" using Suc.hyps(2) by simp
  then have u: "[k..<n] = k # [Suc k..<n]" by (simp add: upt_rec)
  have ok1: "vm_ok d1 m1" using Suc.prems(1) by (simp add: grows_def)
  have nk: "k < KERNPAGE" "old < new" using kn assms(8,11) Suc.prems(5) by auto
  have k0: "pd_pte d1 k = None" using Suc.prems(3,5) assms(12) kn by (simp add: zero_mapped_def)
  have undo: "\<exists>d2 m2. deallocuvm new old e y = Inr (old, d2, m2) \<and> grows d m d2 m2 \<and> avail d2 m2 = avail e y \<and>
      pd_page d2 = pd_page d \<and> pd_pte d2 = pd_pte d"
    if "grows d m e y" "avail e y \<subseteq> avail d m" "pd_page e = pd_page d" "\<forall>v. v \<notin> {a..<k} \<longrightarrow> pd_pte e v = pd_pte d v" for e y
  proof -
    have "vm_ok e y" using that(1) by (simp add: grows_def)
    from dealloc_loop_ok [OF this assms(8), of a] obtain d2 m2 where
      2: "dealloc_loop a n e y = Inr (d2, m2)" "shrinks e y d2 m2" "pd_page d2 = pd_page e" "pd_tab d2 = pd_tab e"
        "pd_pte d2 = (\<lambda>x. if a \<le> x \<and> x < n then None else pd_pte e x)" by blast
    have p: "pd_pte d2 = pd_pte d"
    proof (rule ext)
      show "pd_pte d2 x = pd_pte d x" for x
        unfolding 2(5) using that(4) assms(12) kn by (cases "a \<le> x \<and> x < n") auto
    qed
    have "own d \<subseteq>\<^sub>m own d2" by (rule own_le_pte [OF _ 2(4,3) p]) (use that(1) in \<open>simp add: grows_def\<close>)
    then have "grows d m d2 m2" by (rule grow_shrink [OF that(1,2) assms(1) 2(2)])
    moreover have "deallocuvm new old e y = Inr (old, d2, m2)"
      using 2(1) nk(2) assms(9,10) by (simp add: deallocuvm_def)
    ultimately show ?thesis using 2(2,3) p that(3) by (simp add: shrinks_def)
  qed
  have same: "\<forall>v. v \<notin> {a..<k} \<longrightarrow> pd_pte d1 v = pd_pte d v" using Suc.prems(3) by (simp add: zero_mapped_def)
  show ?case
  proof (cases "kalloc m1")
    case (Pair r m2)
    show ?thesis
    proof (cases r)
      case None
      then have "m2 = m1" using Pair no_page by blast
      then show ?thesis using undo [OF Suc.prems(1) _ Suc.prems(4) same] Suc.prems(2) None Pair u by fastforce
    next
      case (Some p)
      from map_fresh [OF ok1 nk(1) k0 Pair [unfolded Some], of True True zero_blk] obtain b d3 m3 where
        f: "mappages [k] p True True d1 (zero_page p m2) = Inr (b, d3, m3)" "grows d1 m1 d3 m3" "pd_page d3 = pd_page d1" "page_ok m3 p"
          "avail d1 m1 = insert p (avail d3 m3)"
          "if b then pd_pte d3 = (pd_pte d1)(k \<mapsto> new_pte p True True) \<and> avail d3 m3 = avail d1 m1 \<and> pmem m3 p = zero_blk
           else pd_pte d3 = pd_pte d1 \<and> p \<notin> avail d3 m3" unfolding zero_page_def by blast
      have g: "grows d m d3 m3" by (rule grows_trans [OF Suc.prems(1) f(2)])
      show ?thesis
      proof (cases b)
        case True
        have old: "\<exists>q. pd_pte d3 v = Some (new_pte q True True) \<and> pmem m3 q = zero_blk" if v: "v \<in> {a..<k}" for v
        proof -
          obtain q where q: "pd_pte d1 v = Some (new_pte q True True)" "pmem m1 q = zero_blk"
            using Suc.prems(3) v unfolding zero_mapped_def by blast
          have "own d1 (Pg v) = Some q" using q(1) v nk(1) by simp
          then have "q \<notin> set (kfl m1)" by (rule owned_not_free [OF ok1])
          then have "pmem m3 q = zero_blk" using q(2) f(2) by (simp add: grows_def)
          then show ?thesis using q(1) f(6) True v by simp
        qed
        have "zero_mapped d {a..<Suc k} d3 m3"
          unfolding zero_mapped_def
        proof (intro conjI allI ballI impI)
          show "pd_pte d3 v = pd_pte d v" if "v \<notin> {a..<Suc k}" for v
          proof -
            have "v \<noteq> k" "v \<notin> {a..<k}" using that Suc.prems(5) by auto
            then show ?thesis using same f(6) True by simp
          qed
          show "\<exists>q. pd_pte d3 v = Some (new_pte q True True) \<and> pmem m3 q = zero_blk" if "v \<in> {a..<Suc k}" for v
          proof (cases "v = k")
            case False
            then show ?thesis using old that by simp
          qed (use f(6) True in simp)
        qed
        moreover have "x = n - Suc k" using Suc.hyps(2) by simp
        ultimately have "\<exists>r d' m'. alloc_loop old new [Suc k..<n] d3 m3 = Inr (r, d', m') \<and> grows d m d' m' \<and> avail d' m' = avail d m \<and>
          pd_page d' = pd_page d \<and> (r = new \<and> zero_mapped d {a..<n} d' m' \<or> r = 0 \<and> pd_pte d' = pd_pte d)"
          using Suc.hyps(1) g f(3,6) True Suc.prems(2,4,5) kn by (metis Suc_leI le_SucI)
        then show ?thesis using f(1) True Some Pair u by simp
      next
        case False
        have s: "\<forall>v. v \<notin> {a..<k} \<longrightarrow> pd_pte d3 v = pd_pte d v" using same f(6) False by simp
        have "avail d3 m3 \<subseteq> avail d m" "pd_page d3 = pd_page d" using f(3,5) Suc.prems(2,4) by auto
        from undo [OF g this s] obtain d4 m4 where
          4: "deallocuvm new old d3 m3 = Inr (old, d4, m4)" "grows d m d4 m4" "avail d4 m4 = avail d3 m3"
            "pd_page d4 = pd_page d" "pd_pte d4 = pd_pte d" by blast
        have ok4: "vm_ok d4 m4" and k4: "same_k m m4" using 4(2) by (simp_all add: grows_def)
        have k3: "same_k m m3" using g by (simp add: grows_def)
        have "p \<notin> avail d4 m4" using f(6) False 4(3) by simp
        moreover have "page_ok m4 p" using f(4) k3 k4 by (simp add: page_ok_def same_k_def)
        ultimately obtain m5 where 5: "kfree p m4 = Inr m5" "vm_ok d4 m5" "avail d4 m5 = insert p (avail d4 m4)" "same_k m4 m5"
          "set (kfl m5) = insert p (set (kfl m4))" "\<forall>q. q \<noteq> p \<longrightarrow> pmem m5 q = pmem m4 q" using give_page [OF ok4] by blast
        have "p \<in> set (kfl m1)" by (rule take_page(8) [OF ok1 Pair [unfolded Some]])
        then have pin: "p \<in> set (kfl m)" using Suc.prems(1) by (auto simp: grows_def)
        have "grows d m d4 m5"
          unfolding grows_def
        proof (intro conjI allI impI)
          show "vm_ok d4 m5" by (rule 5(2))
          show "own d \<subseteq>\<^sub>m own d4" using 4(2) by (simp add: grows_def)
          show "same_k m m5" by (rule same_k_trans [OF k4 5(4)])
          show "set (kfl m5) \<subseteq> set (kfl m)" using 5(5) pin 4(2) by (simp add: grows_def)
          show "pmem m5 q = pmem m q" if "q \<notin> set (kfl m)" for q
          proof -
            have "q \<noteq> p" using that pin by blast
            then show ?thesis using that 5(6) 4(2) by (simp add: grows_def)
          qed
        qed
        moreover have "avail d4 m5 = avail d m" using 5(3) 4(3) f(5) Suc.prems(2) by simp
        moreover have "alloc_loop old new [k..<n] d1 m1 = Inr (0, d4, m5)" using f(1) False Some Pair u 4(1) 5(1) by simp
        ultimately show ?thesis using 4(4,5) by blast
      qed
    qed
  qed
qed

theorem allocuvm_grows:
  assumes "vm_ok d m" "old \<le> new" "new < 2147483648" "\<forall>v. npages old \<le> v \<and> v < npages new \<longrightarrow> pd_pte d v = None"
  shows "\<exists>r d' m'. allocuvm old new d m = Inr (r, d', m') \<and> grows d m d' m' \<and> avail d' m' = avail d m \<and> pd_page d' = pd_page d \<and>
    (r = new \<and> zero_mapped d {npages old..<npages new} d' m' \<or> r = 0 \<and> pd_pte d' = pd_pte d)"
proof -
  have r: "round_up old = npages old" "npages new \<le> KERNPAGE" using size_pages assms(2,3) by auto
  have le: "npages old \<le> npages new" unfolding npages_def by (rule div_le_mono) (use assms(2) in simp)
  have lt: "npages old < npages new \<longrightarrow> old < new" using assms(2) by (cases "old = new") auto
  have z: "zero_mapped d {npages old..<npages old} d m" by (simp add: zero_mapped_def)
  have "\<exists>r d' m'. alloc_loop old new [npages old..<npages new] d m = Inr (r, d', m') \<and> grows d m d' m' \<and> avail d' m' = avail d m \<and>
    pd_page d' = pd_page d \<and> (r = new \<and> zero_mapped d {npages old..<npages new} d' m' \<or> r = 0 \<and> pd_pte d' = pd_pte d)"
    by (rule alloc_loop_ok [OF assms(1) grows_refl [OF assms(1)] refl z refl order_refl le r(2) r(1) [symmetric] refl lt assms(4)])
  then show ?thesis using assms(2,3) r(1) by (simp add: allocuvm_def)
qed

section \<open>The kernel part\<close>

lemma map_ranges_ok:
  assumes "vm_ok d m" "\<forall>(vs, pa, w)\<in>set ks. distinct vs \<and> (\<forall>v\<in>set vs. KERNPAGE \<le> v \<and> v < 1048576 \<and> pd_pte d v = None)"
    "distinct (concat (map fst ks))"
  shows "\<exists>r m'. map_kernel ks d m = Inr (r, m') \<and> same_k m m' \<and>
    (case r of None \<Rightarrow> kfl_ok m' \<and> set (kfl m') = avail d m \<and> (\<forall>p. p \<notin> avail d m \<longrightarrow> pmem m' p = pmem m p)
     | Some d' \<Rightarrow> grows d m d' m' \<and> avail d' m' = avail d m \<and> (\<forall>v. v < KERNPAGE \<longrightarrow> pd_pte d' v = pd_pte d v))"
  using assms
proof (induction ks arbitrary: d m)
  case Nil
  then show ?case by (simp add: grows_refl)
next
  case (Cons k ks)
  obtain vs pa w where k: "k = (vs, pa, w)" by (cases k)
  have vs: "\<forall>v\<in>set vs. KERNPAGE \<le> v \<and> v < 1048576 \<and> pd_pte d v = None" "distinct vs" using Cons.prems(2) k by auto
  from map_kernel_ok [OF Cons.prems(1) this, of pa w False] obtain b d1 m1 where
    1: "mappages vs pa w False d m = Inr (b, d1, m1)" "grows d m d1 m1" "avail d1 m1 = avail d m" "pd_page d1 = pd_page d"
      "\<forall>v. v \<notin> set vs \<longrightarrow> pd_pte d1 v = pd_pte d v" by blast
  have ok1: "vm_ok d1 m1" and k1: "same_k m m1" using 1(2) by (simp_all add: grows_def)
  show ?case
  proof (cases b)
    case True
    have dj: "set vs \<inter> \<Union> (set ` fst ` set ks) = {}" "distinct (concat (map fst ks))" using Cons.prems(3) k by auto
    have "\<forall>(vs, pa, w)\<in>set ks. distinct vs \<and> (\<forall>v\<in>set vs. KERNPAGE \<le> v \<and> v < 1048576 \<and> pd_pte d1 v = None)"
    proof clarify
      fix us pb u assume u: "(us, pb, u) \<in> set ks"
      have "pd_pte d1 v = pd_pte d v" if "v \<in> set us" for v
        using that u dj(1) 1(5) by force
      then show "distinct us \<and> (\<forall>v\<in>set us. KERNPAGE \<le> v \<and> v < 1048576 \<and> pd_pte d1 v = None)"
        using Cons.prems(2) u by fastforce
    qed
    from Cons.IH [OF ok1 this dj(2)] obtain r m' where r: "map_kernel ks d1 m1 = Inr (r, m')" "same_k m1 m'"
      "case r of None \<Rightarrow> kfl_ok m' \<and> set (kfl m') = avail d1 m1 \<and> (\<forall>p. p \<notin> avail d1 m1 \<longrightarrow> pmem m' p = pmem m1 p)
       | Some d' \<Rightarrow> grows d1 m1 d' m' \<and> avail d' m' = avail d1 m1 \<and> (\<forall>v. v < KERNPAGE \<longrightarrow> pd_pte d' v = pd_pte d1 v)" by blast
    have lo: "pd_pte d1 v = pd_pte d v" if "v < KERNPAGE" for v using that vs(1) 1(5) by (meson leD)
    have fr: "pmem m1 p = pmem m p" if "p \<notin> avail d m" for p using that 1(2) by (simp add: grows_def avail_def)
    have "case r of None \<Rightarrow> kfl_ok m' \<and> set (kfl m') = avail d m \<and> (\<forall>p. p \<notin> avail d m \<longrightarrow> pmem m' p = pmem m p)
       | Some d' \<Rightarrow> grows d m d' m' \<and> avail d' m' = avail d m \<and> (\<forall>v. v < KERNPAGE \<longrightarrow> pd_pte d' v = pd_pte d v)"
      using r(3) 1(3) lo fr grows_trans [OF 1(2)] by (cases r) auto
    then show ?thesis using 1(1) k True r(1) same_k_trans [OF k1 r(2)] by simp
  next
    case False
    from freevm_ok [OF ok1] obtain m2 where 2: "freevm (Some d1) m1 = Inr m2" "kfl_ok m2" "set (kfl m2) = avail d1 m1" "same_k m1 m2"
      "\<forall>p. p \<notin> avail d1 m1 \<longrightarrow> pmem m2 p = pmem m1 p" by blast
    have fr: "pmem m1 p = pmem m p" if "p \<notin> avail d m" for p using that 1(2) by (simp add: grows_def avail_def)
    show ?thesis using 1(1,3) k False 2 fr same_k_trans [OF k1 2(4)] by (intro exI [of _ None] exI [of _ m2]) simp
  qed
qed

lemma setupkvm_ok:
  assumes "kfl_ok m" "256 \<le> kdata m" "kdata m \<le> PHYSPAGES"
  shows "\<exists>r m'. setupkvm m = Inr (r, m') \<and> same_k m m' \<and> (\<forall>p. p \<notin> set (kfl m) \<longrightarrow> pmem m' p = pmem m p) \<and>
    (case r of None \<Rightarrow> kfl_ok m' \<and> set (kfl m') = set (kfl m)
     | Some d \<Rightarrow> vm_ok d m' \<and> avail d m' = set (kfl m) \<and> (\<forall>v. v < KERNPAGE \<longrightarrow> pd_pte d v = None))"
proof (cases "kfl m")
  case Nil
  then show ?thesis using assms(1) by (simp add: setupkvm_def kalloc_def)
next
  case (Cons p ps)
  let ?d = "\<lparr>pd_page = p, pd_tab = (\<lambda>_. None), pd_pte = (\<lambda>_. None)\<rparr>" and ?m = "zero_page p (m\<lparr>kfl := ps\<rparr>)"
  have o: "own ?d = [Dir \<mapsto> p]"
  proof (rule ext)
    show "own ?d s = [Dir \<mapsto> p] s" for s by (cases s) auto
  qed
  have z: "kfl ?m = ps" "kend ?m = kend m" "kdata ?m = kdata m" "\<forall>q. q \<noteq> p \<longrightarrow> pmem ?m q = pmem m q" by (simp_all add: zero_page_def)
  have ok: "vm_ok ?d ?m" using assms(1) Cons by (auto simp: vm_ok_def kfl_ok_def z o pd_wf_def)
  have av: "avail ?d ?m = set (kfl m)" using Cons by (simp add: avail_def o z)
  let ?k = "kmap ?m"
  have km: "\<forall>(vs, pa, w)\<in>set ?k. distinct vs \<and> (\<forall>v\<in>set vs. KERNPAGE \<le> v \<and> v < 1048576 \<and> pd_pte ?d v = None)"
    using assms(2,3) by (auto simp: kmap_def z simp del: upt_rec_numeral)
  have dk: "distinct (concat (map fst ?k))"
    using assms(2,3) by (auto simp: kmap_def z simp del: upt_rec_numeral)
  have "kdata ?m = kdata (m\<lparr>kfl := ps\<rparr>)" by (simp add: zero_page_def)
  then have kk: "kmap ?m = kmap (m\<lparr>kfl := ps\<rparr>)" by (simp only: kmap_def)
  have st: "setupkvm m = map_kernel ?k ?d ?m" unfolding kk by (simp add: setupkvm_def kalloc_def Cons)
  from map_ranges_ok [OF ok km dk] obtain r m' where r: "map_kernel ?k ?d ?m = Inr (r, m')" "same_k ?m m'"
    "case r of None \<Rightarrow> kfl_ok m' \<and> set (kfl m') = avail ?d ?m \<and> (\<forall>p. p \<notin> avail ?d ?m \<longrightarrow> pmem m' p = pmem ?m p)
     | Some d' \<Rightarrow> grows ?d ?m d' m' \<and> avail d' m' = avail ?d ?m \<and> (\<forall>v. v < KERNPAGE \<longrightarrow> pd_pte d' v = pd_pte ?d v)" by blast
  have fr: "pmem m' q = pmem m q" if "q \<notin> set (kfl m)" for q
  proof -
    have "q \<noteq> p" "q \<notin> set ps" using that Cons by auto
    then show ?thesis using r(3) that z(1,4) av by (cases r) (simp_all add: grows_def)
  qed
  have "same_k m m'" using r(2) z by (simp add: same_k_def)
  moreover have "case r of None \<Rightarrow> kfl_ok m' \<and> set (kfl m') = set (kfl m)
     | Some d \<Rightarrow> vm_ok d m' \<and> avail d m' = set (kfl m) \<and> (\<forall>v. v < KERNPAGE \<longrightarrow> pd_pte d v = None)"
    using r(3) unfolding av by (cases r) (simp_all add: grows_def)
  ultimately show ?thesis using st r(1) fr by (intro exI [of _ r] exI [of _ m'] conjI) simp_all
qed

section \<open>Copying an address space\<close>

definition copied_page :: "pgdir \<Rightarrow> kmem \<Rightarrow> pgdir \<Rightarrow> kmem \<Rightarrow> nat \<Rightarrow> bool" where
  "copied_page par m0 d m v \<longleftrightarrow> (\<exists>e p. pd_pte par v = Some e \<and> pd_pte d v = Some (new_pte p (pte_w e) (pte_u e)) \<and>
     pmem m p = pmem m0 (pte_page e))"

definition user_copy :: "pgdir \<Rightarrow> kmem \<Rightarrow> nat \<Rightarrow> pgdir \<Rightarrow> kmem \<Rightarrow> bool" where
  "user_copy par m0 k d m \<longleftrightarrow> vm_ok d m \<and> avail d m = set (kfl m0) \<and> same_k m0 m \<and>
     (\<forall>p. p \<notin> set (kfl m0) \<longrightarrow> pmem m p = pmem m0 p) \<and> (\<forall>v<k. copied_page par m0 d m v) \<and>
     (\<forall>v. k \<le> v \<and> v < KERNPAGE \<longrightarrow> pd_pte d v = None)"

definition all_free :: "kmem \<Rightarrow> kmem \<Rightarrow> bool" where
  "all_free m0 m \<longleftrightarrow> kfl_ok m \<and> set (kfl m) = set (kfl m0) \<and> same_k m0 m \<and> (\<forall>p. p \<notin> set (kfl m0) \<longrightarrow> pmem m p = pmem m0 p)"

lemma user_copy_step:
  assumes c: "user_copy par m0 k d m" and e: "pd_pte par k = Some e" "pte_page e \<notin> set (kfl m0)" and k: "k < KERNPAGE"
    and a: "kalloc m = (Some p, m1)"
  shows "\<exists>b d2 m2. mappages [k] p (pte_w e) (pte_u e) d (m1\<lparr>pmem := (pmem m1)(p := pmem m1 (pte_page e))\<rparr>) = Inr (b, d2, m2) \<and>
    (if b then user_copy par m0 (Suc k) d2 m2
     else \<exists>m3 m4. kfree p m2 = Inr m3 \<and> freevm (Some d2) m3 = Inr m4 \<and> all_free m0 m4)"
proof -
  have ok: "vm_ok d m" and av: "avail d m = set (kfl m0)" and k0: "same_k m0 m"
    and fr: "\<forall>p. p \<notin> set (kfl m0) \<longrightarrow> pmem m p = pmem m0 p" and dn: "\<forall>v<k. copied_page par m0 d m v"
    and no: "\<forall>v. k \<le> v \<and> v < KERNPAGE \<longrightarrow> pd_pte d v = None"
    using c unfolding user_copy_def by blast+
  have kn: "pd_pte d k = None" using no k by simp
  have "pmem m1 = pmem m" by (rule take_page(6) [OF ok a])
  then have X: "pmem m1 (pte_page e) = pmem m0 (pte_page e)" using fr e(2) by simp
  from map_fresh [OF ok k kn a, of "pte_w e" "pte_u e" "pmem m1 (pte_page e)"] obtain b d2 m2 where
    r: "mappages [k] p (pte_w e) (pte_u e) d (m1\<lparr>pmem := (pmem m1)(p := pmem m1 (pte_page e))\<rparr>) = Inr (b, d2, m2)"
      "grows d m d2 m2" "page_ok m2 p" "avail d m = insert p (avail d2 m2)"
      "if b then pd_pte d2 = (pd_pte d)(k \<mapsto> new_pte p (pte_w e) (pte_u e)) \<and> avail d2 m2 = avail d m \<and> pmem m2 p = pmem m1 (pte_page e)
       else pd_pte d2 = pd_pte d \<and> p \<notin> avail d2 m2" by blast
  have ok2: "vm_ok d2 m2" and k2: "same_k m m2" and f2: "\<forall>q. q \<notin> set (kfl m) \<longrightarrow> pmem m2 q = pmem m q"
    using r(2) by (simp_all add: grows_def)
  have f02: "\<forall>q. q \<notin> set (kfl m0) \<longrightarrow> pmem m2 q = pmem m0 q" using fr f2 av by (auto simp: avail_def)
  show ?thesis
  proof (cases b)
    case True
    have "copied_page par m0 d2 m2 v" if v: "v < Suc k" for v
    proof (cases "v = k")
      case True
      then show ?thesis using r(5) \<open>b\<close> e(1) X unfolding copied_page_def by (intro exI [of _ e] exI [of _ p]) simp
    next
      case False
      then obtain g q where g: "pd_pte par v = Some g" "pd_pte d v = Some (new_pte q (pte_w g) (pte_u g))" "pmem m q = pmem m0 (pte_page g)"
        using dn v unfolding copied_page_def by (metis less_SucE)
      have "own d (Pg v) = Some q" using g(2) v k by simp
      then have "pmem m2 q = pmem m q" using f2 owned_not_free [OF ok] by blast
      then show ?thesis using g r(5) \<open>b\<close> False unfolding copied_page_def by (intro exI [of _ g] exI [of _ q]) simp
    qed
    then have "user_copy par m0 (Suc k) d2 m2"
      using ok2 f02 r(5) True av no same_k_trans [OF k0 k2] by (simp add: user_copy_def)
    then show ?thesis using r(1) True by (intro exI [of _ True] exI [of _ d2] exI [of _ m2]) simp
  next
    case False
    obtain m3 where 3: "kfree p m2 = Inr m3" "vm_ok d2 m3" "avail d2 m3 = insert p (avail d2 m2)" "same_k m2 m3"
      "\<forall>q. q \<noteq> p \<longrightarrow> pmem m3 q = pmem m2 q" using give_page [OF ok2 _ r(3)] r(5) False by auto
    from freevm_ok [OF 3(2)] obtain m4 where 4: "freevm (Some d2) m3 = Inr m4" "kfl_ok m4" "set (kfl m4) = avail d2 m3" "same_k m3 m4"
      "\<forall>q. q \<notin> avail d2 m3 \<longrightarrow> pmem m4 q = pmem m3 q" by blast
    have s: "avail d2 m3 = set (kfl m0)" "p \<in> set (kfl m0)" using 3(3) r(4) av by auto
    have "pmem m4 q = pmem m0 q" if q: "q \<notin> set (kfl m0)" for q
    proof -
      have "q \<noteq> p" using q s(2) by blast
      then show ?thesis using q 4(5) 3(5) f02 s(1) by simp
    qed
    moreover have "same_k m0 m4" using k0 k2 3(4) 4(4) by (simp add: same_k_def)
    ultimately have "all_free m0 m4" using 4(2,3) s(1) by (simp add: all_free_def)
    then show ?thesis using r(1) False 3(1) 4(1)
      by (intro exI [of _ False] exI [of _ d2] exI [of _ m2]) auto
  qed
qed

lemma copy_loop_ok:
  assumes "user_copy par m0 k d m" "k \<le> n" "n \<le> KERNPAGE"
    and par: "\<forall>v<n. has_pte par v \<and> (\<exists>e. pd_pte par v = Some e \<and> pte_page e \<notin> set (kfl m0))"
  shows "\<exists>r m'. copy_loop [k..<n] par d m = Inr (r, m') \<and>
    (case r of None \<Rightarrow> all_free m0 m' | Some c \<Rightarrow> user_copy par m0 n c m')"
  using assms(1,2)
proof (induction "n - k" arbitrary: k d m)
  case 0
  then show ?case by simp
next
  case (Suc x)
  have kn: "k < n" using Suc.hyps(2) by simp
  then have u: "[k..<n] = k # [Suc k..<n]" by (simp add: upt_rec)
  obtain e where e: "has_pte par k" "pd_pte par k = Some e" "pte_page e \<notin> set (kfl m0)" using par kn by blast
  have kk: "k < KERNPAGE" using kn assms(3) by simp
  have ok: "vm_ok d m" and av: "avail d m = set (kfl m0)" and k0: "same_k m0 m"
    and fr: "\<forall>p. p \<notin> set (kfl m0) \<longrightarrow> pmem m p = pmem m0 p"
    using Suc.prems(1) by (auto simp: user_copy_def)
  obtain q m1 where a: "kalloc m = (q, m1)" by (cases "kalloc m")
  show ?case
  proof (cases q)
    case None
    then have "m1 = m" using a no_page by blast
    moreover obtain m2 where "freevm (Some d) m = Inr m2" "kfl_ok m2" "set (kfl m2) = avail d m" "same_k m m2"
      "\<forall>p. p \<notin> avail d m \<longrightarrow> pmem m2 p = pmem m p" using freevm_ok [OF ok] by blast
    ultimately show ?thesis using a None e(1,2) u av fr same_k_trans [OF k0]
      by (intro exI [of _ None] exI [of _ m2]) (simp add: all_free_def)
  next
    case (Some p)
    from user_copy_step [OF Suc.prems(1) e(2,3) kk a [unfolded Some]] obtain b d2 m2 where
      r: "mappages [k] p (pte_w e) (pte_u e) d (m1\<lparr>pmem := (pmem m1)(p := pmem m1 (pte_page e))\<rparr>) = Inr (b, d2, m2)"
        "if b then user_copy par m0 (Suc k) d2 m2
         else \<exists>m3 m4. kfree p m2 = Inr m3 \<and> freevm (Some d2) m3 = Inr m4 \<and> all_free m0 m4" by blast
    show ?thesis
    proof (cases b)
      case True
      then show ?thesis using Suc.hyps(1) [of "Suc k" d2 m2] Suc.hyps(2) r a Some e(1,2) u kn by simp
    next
      case False
      then obtain m3 m4 where "kfree p m2 = Inr m3" "freevm (Some d2) m3 = Inr m4" "all_free m0 m4" using r(2) by auto
      then show ?thesis using r(1) False a Some e(1,2) u by (intro exI [of _ None] exI [of _ m4]) simp
    qed
  qed
qed

lemma copy_loop_append:
  "copy_loop (xs @ ys) par d m = bindR (copy_loop xs par d m) (\<lambda>(r, m'). case r of None \<Rightarrow> Inr (None, m') | Some c \<Rightarrow> copy_loop ys par c m')"
proof (induction xs arbitrary: d m)
  case (Cons v vs)
  have if_bind: "bindR (if b then x else y) f = (if b then bindR x f else bindR y f)" for b x y and f :: "pgdir option \<times> kmem \<Rightarrow> (pgdir option \<times> kmem) res"
    by simp
  show ?case
    by (simp add: Cons if_bind bindR_assoc case_prod_unfold del: mappages.simps cong: if_cong split: option.splits)
qed simp

text \<open>\<open>copyuvm\<close> up to a page below which every page of the parent is present.\<close>

lemma copyuvm_prefix:
  assumes "vm_ok par m" "256 \<le> kdata m" "kdata m \<le> PHYSPAGES" "sz < 2147483648" "h \<le> npages sz" "\<forall>v<h. pd_pte par v \<noteq> None"
  shows "(\<exists>m'. copyuvm par sz m = Inr (None, m') \<and> all_free m m') \<or>
    (\<exists>c m'. copyuvm par sz m = copy_loop [h..<npages sz] par c m' \<and> user_copy par m h c m')"
proof -
  have n: "h \<le> KERNPAGE" using size_pages(2) assms(4,5) by fastforce
  have par: "\<forall>v<h. has_pte par v \<and> (\<exists>e. pd_pte par v = Some e \<and> pte_page e \<notin> set (kfl m))"
  proof (intro allI impI)
    fix v assume v: "v < h"
    then obtain e where e: "pd_pte par v = Some e" using assms(6) by blast
    have "own par (Pg v) = Some (pte_page e)" using e v n by simp
    then show "has_pte par v \<and> (\<exists>e. pd_pte par v = Some e \<and> pte_page e \<notin> set (kfl m))"
      using e owned_not_free [OF assms(1) \<open>own par (Pg v) = Some (pte_page e)\<close>] assms(1) by (simp add: vm_ok_def pd_wf_def)
  qed
  have split: "[0..<npages sz] = [0..<h] @ [h..<npages sz]" using upt_add_eq_append [of 0 h "npages sz - h"] assms(5) by simp
  from setupkvm_ok [OF vm_ok_kfl [OF assms(1)] assms(2,3)] obtain r1 m1 where 1: "setupkvm m = Inr (r1, m1)" "same_k m m1"
    "\<forall>p. p \<notin> set (kfl m) \<longrightarrow> pmem m1 p = pmem m p"
    "case r1 of None \<Rightarrow> kfl_ok m1 \<and> set (kfl m1) = set (kfl m)
     | Some d \<Rightarrow> vm_ok d m1 \<and> avail d m1 = set (kfl m) \<and> (\<forall>v. v < KERNPAGE \<longrightarrow> pd_pte d v = None)" by blast
  show ?thesis
  proof (cases r1)
    case None
    then show ?thesis using 1 by (intro disjI1 exI [of _ m1]) (simp add: copyuvm_def all_free_def)
  next
    case (Some d)
    then have "user_copy par m 0 d m1" using 1 by (simp add: user_copy_def)
    from copy_loop_ok [OF this _ n par] obtain r m' where r: "copy_loop [0..<h] par d m1 = Inr (r, m')"
      "case r of None \<Rightarrow> all_free m m' | Some c \<Rightarrow> user_copy par m h c m'" by blast
    have "copyuvm par sz m = bindR (Inr (r, m')) (\<lambda>(r, m'). case r of None \<Rightarrow> Inr (None, m') | Some c \<Rightarrow> copy_loop [h..<npages sz] par c m')"
      using 1(1) Some r(1) unfolding copyuvm_def split by (simp add: copy_loop_append)
    then show ?thesis using r(2) by (cases r) auto
  qed
qed

text \<open>A copy leaves the parent alone.\<close>

lemma parent_kept:
  assumes "vm_ok par m" "kfl_ok m'" "set (kfl m') \<subseteq> set (kfl m)" "same_k m m'" "\<forall>p. p \<notin> set (kfl m) \<longrightarrow> pmem m' p = pmem m p"
  shows "vm_ok par m' \<and> (\<forall>p\<in>ran (own par). pmem m' p = pmem m p)"
proof -
  have "ran (own par) \<inter> set (kfl m) = {}" using assms(1) by (simp add: vm_ok_def)
  moreover have "vm_ok par m'" using assms(1-4) unfolding vm_ok_def kfl_ok_def same_k_def by auto
  ultimately show ?thesis using assms(5) by blast
qed

text \<open>C5: \<open>copyuvm\<close> gives the child an address space of its own: either it runs out of memory and every
  page it took is free again, or each user page of the parent has in the child a fresh physical page with the same contents and permissions, the
  child owns no page of the parent, no page is lost, and the parent's memory is unchanged.\<close>

theorem copyuvm_isolates:
  assumes "vm_ok par m" "256 \<le> kdata m" "kdata m \<le> PHYSPAGES" "sz < 2147483648" "\<forall>v<npages sz. pd_pte par v \<noteq> None"
  shows "\<exists>r m'. copyuvm par sz m = Inr (r, m') \<and> vm_ok par m' \<and> (\<forall>p\<in>ran (own par). pmem m' p = pmem m p) \<and>
    (case r of
       None \<Rightarrow> set (kfl m') = set (kfl m)
     | Some c \<Rightarrow> vm_ok c m' \<and> ran (own c) \<inter> ran (own par) = {} \<and> ran (own c) \<union> set (kfl m') = set (kfl m) \<and>
         (\<forall>v<npages sz. copied_page par m c m' v) \<and> (\<forall>v. npages sz \<le> v \<and> v < KERNPAGE \<longrightarrow> pd_pte c v = None))"
proof -
  from copyuvm_prefix [OF assms(1-4) order_refl assms(5)] consider
      m' where "copyuvm par sz m = Inr (None, m')" "all_free m m'"
    | c m' where "copyuvm par sz m = Inr (Some c, m')" "user_copy par m (npages sz) c m'" by auto
  then show ?thesis
  proof cases
    case 1
    then show ?thesis using parent_kept [OF assms(1), of m'] by (intro exI [of _ None] exI [of _ m']) (simp add: all_free_def)
  next
    case 2
    then have c: "vm_ok c m'" "avail c m' = set (kfl m)" "same_k m m'" "\<forall>p. p \<notin> set (kfl m) \<longrightarrow> pmem m' p = pmem m p"
      "\<forall>v<npages sz. copied_page par m c m' v" "\<forall>v. npages sz \<le> v \<and> v < KERNPAGE \<longrightarrow> pd_pte c v = None"
      by (auto simp: user_copy_def)
    have sub: "set (kfl m') \<subseteq> set (kfl m)" "ran (own c) \<subseteq> set (kfl m)" using c(2) by (auto simp: avail_def)
    have "ran (own par) \<inter> set (kfl m) = {}" using assms(1) by (simp add: vm_ok_def)
    then show ?thesis using 2(1) c sub parent_kept [OF assms(1) vm_ok_kfl [OF c(1)] sub(1) c(3,4)] unfolding avail_def
      by (intro exI [of _ "Some c"] exI [of _ m']) auto
  qed
qed

text \<open>A parent with one user page.\<close>

definition one_page :: pgdir where
  "one_page = \<lparr>pd_page = 300, pd_tab = [0 \<mapsto> 301], pd_pte = [0 \<mapsto> \<lparr>pte_page = 302, pte_w = True, pte_u = True\<rparr>]\<rparr>"

definition small_machine :: kmem where
  "small_machine = \<lparr>kfl = [400..<1000], pmem = (\<lambda>p _. of_nat p), kend = 280, kdata = 260\<rparr>"

lemma one_page_ok: "vm_ok one_page small_machine"
proof -
  have o: "own one_page = [Dir \<mapsto> 300, Tab 0 \<mapsto> 301, Pg 0 \<mapsto> 302]"
  proof (rule ext)
    show "own one_page s = [Dir \<mapsto> 300, Tab 0 \<mapsto> 301, Pg 0 \<mapsto> 302] s" for s
      by (cases s) (auto simp: one_page_def)
  qed
  have "pd_wf one_page" by (auto simp: pd_wf_def one_page_def has_pte_def split: if_splits)
  moreover have "ran (own one_page) = {300, 301, 302}" unfolding o by auto
  moreover have "inj_on (own one_page) (dom (own one_page))" unfolding o by (auto simp: inj_on_def)
  moreover have "kend small_machine = 280" "kfl small_machine = [400..<1000]" unfolding small_machine_def by (simp_all only: kmem.simps)
  ultimately show ?thesis unfolding vm_ok_def by (simp del: upt_rec_numeral)
qed

theorem copyuvm_isolates_witness:
  "\<exists>r m'. copyuvm one_page 4096 small_machine = Inr (r, m') \<and> pmem m' 302 = pmem small_machine 302 \<and>
    (case r of None \<Rightarrow> set (kfl m') = {400..<1000}
     | Some c \<Rightarrow> \<exists>p. pd_pte c 0 = Some \<lparr>pte_page = p, pte_w = True, pte_u = True\<rparr> \<and> p \<noteq> 302 \<and> pmem m' p = pmem small_machine 302)"
proof -
  have n: "npages 4096 = 1" by (simp add: npages_def)
  have z: "kdata small_machine = 260" "set (kfl small_machine) = {400..<1000}"
    unfolding small_machine_def by (simp_all only: kmem.simps set_upt)
  have p: "pd_pte one_page 0 = Some \<lparr>pte_page = 302, pte_w = True, pte_u = True\<rparr>" by (simp add: one_page_def)
  have own: "own one_page (Pg 0) = Some 302" using p by simp
  from copyuvm_isolates [OF one_page_ok, of 4096] obtain r m' where
    r: "copyuvm one_page 4096 small_machine = Inr (r, m')" "\<forall>p\<in>ran (own one_page). pmem m' p = pmem small_machine p"
      "case r of None \<Rightarrow> set (kfl m') = set (kfl small_machine)
       | Some c \<Rightarrow> ran (own c) \<inter> ran (own one_page) = {} \<and> (\<forall>v<npages 4096. copied_page one_page small_machine c m' v)"
    using z p n by (auto split: option.splits)
  have "302 \<in> ran (own one_page)" using own by (rule ranI)
  moreover have "\<exists>p. pd_pte c 0 = Some \<lparr>pte_page = p, pte_w = True, pte_u = True\<rparr> \<and> p \<noteq> 302 \<and> pmem m' p = pmem small_machine 302"
    if "r = Some c" for c
  proof -
    have "copied_page one_page small_machine c m' 0" and d: "ran (own c) \<inter> ran (own one_page) = {}" using r(3) that n by auto
    then obtain q where q: "pd_pte c 0 = Some \<lparr>pte_page = q, pte_w = True, pte_u = True\<rparr>" "pmem m' q = pmem small_machine 302"
      using p by (auto simp: copied_page_def)
    have "own c (Pg 0) = Some q" using q(1) by simp
    then have "q \<in> ran (own c)" by (rule ranI)
    then show ?thesis using q d \<open>302 \<in> ran (own one_page)\<close> by auto
  qed
  ultimately show ?thesis using r z(2) by (intro exI [of _ r] exI [of _ m']) (simp split: option.splits)
qed

text \<open>C12: \<open>allocuvm\<close> either reports failure with 0 and leaves the mapping as it was, or maps every page between
  the two sizes to a fresh zeroed page and leaves the others; in both cases no page is lost and nothing in use is written.
  \<open>deallocuvm\<close> back to the old size then restores the mapping.\<close>

theorem allocuvm_deallocuvm:
  assumes "vm_ok d m" "old < new" "new < 2147483648" "\<forall>v. npages old \<le> v \<and> v < npages new \<longrightarrow> pd_pte d v = None"
  shows "\<exists>r d1 m1. allocuvm old new d m = Inr (r, d1, m1) \<and> grows d m d1 m1 \<and> avail d1 m1 = avail d m \<and>
    (r = 0 \<and> pd_pte d1 = pd_pte d \<or>
     r = new \<and> zero_mapped d {npages old..<npages new} d1 m1 \<and>
       (\<exists>d2 m2. deallocuvm new old d1 m1 = Inr (old, d2, m2) \<and> grows d m d2 m2 \<and> pd_pte d2 = pd_pte d \<and> avail d2 m2 = avail d m))"
proof -
  from allocuvm_grows [OF assms(1) less_imp_le [OF assms(2)] assms(3,4)] obtain r d1 m1 where
    1: "allocuvm old new d m = Inr (r, d1, m1)" "grows d m d1 m1" "avail d1 m1 = avail d m" "pd_page d1 = pd_page d"
      "r = new \<and> zero_mapped d {npages old..<npages new} d1 m1 \<or> r = 0 \<and> pd_pte d1 = pd_pte d" by blast
  have "\<exists>d2 m2. deallocuvm new old d1 m1 = Inr (old, d2, m2) \<and> grows d m d2 m2 \<and> pd_pte d2 = pd_pte d \<and> avail d2 m2 = avail d m"
    if z: "zero_mapped d {npages old..<npages new} d1 m1"
  proof -
    have s: "round_up old = npages old" "npages new \<le> KERNPAGE" using size_pages assms(2,3) by auto
    have "vm_ok d1 m1" using 1(2) by (simp add: grows_def)
    from dealloc_loop_ok [OF this s(2), of "npages old"] obtain d2 m2 where
      2: "dealloc_loop (npages old) (npages new) d1 m1 = Inr (d2, m2)" "shrinks d1 m1 d2 m2" "pd_page d2 = pd_page d1" "pd_tab d2 = pd_tab d1"
        "pd_pte d2 = (\<lambda>x. if npages old \<le> x \<and> x < npages new then None else pd_pte d1 x)" by blast
    have p: "pd_pte d2 = pd_pte d"
    proof (rule ext)
      show "pd_pte d2 x = pd_pte d x" for x
        unfolding 2(5) using z assms(4) by (cases "npages old \<le> x \<and> x < npages new") (auto simp: zero_mapped_def)
    qed
    have "own d \<subseteq>\<^sub>m own d2" by (rule own_le_pte [OF _ 2(4,3) p]) (use 1(2) in \<open>simp add: grows_def\<close>)
    then have "grows d m d2 m2" using grow_shrink [OF 1(2) _ assms(1) 2(2)] 1(3) by simp
    then show ?thesis using 2(1,2) p 1(3) assms(2) s(1) by (simp add: deallocuvm_def shrinks_def)
  qed
  then show ?thesis using 1 by (intro exI [of _ r] exI [of _ d1] exI [of _ m1]) blast
qed

theorem allocuvm_deallocuvm_witness:
  "\<exists>r d1 m1. allocuvm 4096 9000 one_page small_machine = Inr (r, d1, m1) \<and>
    (r = 0 \<or> r = 9000 \<and> (\<exists>p. pd_pte d1 2 = Some \<lparr>pte_page = p, pte_w = True, pte_u = True\<rparr> \<and> pmem m1 p = zero_blk) \<and>
      (\<exists>d2 m2. deallocuvm 9000 4096 d1 m1 = Inr (4096, d2, m2) \<and> pd_pte d2 = pd_pte one_page))"
proof -
  have n: "npages 4096 = 1" "npages 9000 = 3" by (simp_all add: npages_def)
  have "\<forall>v. npages 4096 \<le> v \<and> v < npages 9000 \<longrightarrow> pd_pte one_page v = None" unfolding n by (simp add: one_page_def)
  from allocuvm_deallocuvm [OF one_page_ok _ _ this] obtain r d1 m1 where
    "allocuvm 4096 9000 one_page small_machine = Inr (r, d1, m1)"
    "r = 0 \<or> r = 9000 \<and> zero_mapped one_page {npages 4096..<npages 9000} d1 m1 \<and>
       (\<exists>d2 m2. deallocuvm 9000 4096 d1 m1 = Inr (4096, d2, m2) \<and> pd_pte d2 = pd_pte one_page)" by auto
  moreover have "2 \<in> {npages 4096..<npages 9000}" by (simp add: n)
  ultimately show ?thesis unfolding zero_mapped_def by blast
qed

end
