(* ===== verification/Th_Stacks.thy ===== *)
theory Th_Stacks
  imports Th_Areas Vm_Props
begin

text \<open>
  User stacks of the threads of one process: what \<open>thread_create\<close> and \<open>thread_join\<close> do to the
  tables and the address space, and the invariant \<open>stacks_ok\<close>: the stacks of the live threads are mapped, the freed
  ones are not, no two overlap, all lie below the size of the process, and each thread has a kernel stack of its own.
\<close>

section \<open>The invariant\<close>

definition live :: "nat \<Rightarrow> tk \<Rightarrow> nat set" where
  "live i s = {j. j < length (pths s) \<and> q_pid (pths s ! j) = t_pid (tprocs s ! i) \<and> q_state (pths s ! j) \<noteq> UNUSED \<and> q_tid (pths s ! j) \<noteq> MAINTH}"

definition stk_len :: "tproc \<Rightarrow> nat" where
  "stk_len p = t_stacksz p + 1"

definition stk_base :: "tproc \<Rightarrow> pthread \<Rightarrow> nat" where
  "stk_base p q = q_th_sz q div PGSIZE - stk_len p"

definition mapped :: "pgdir \<Rightarrow> nat \<Rightarrow> bool" where
  "mapped d v \<longleftrightarrow> pd_pte d v \<noteq> None"

definition stk_inv :: "tproc \<Rightarrow> nat set \<Rightarrow> (nat \<Rightarrow> pthread) \<Rightarrow> kmem \<Rightarrow> pgdir \<Rightarrow> bool" where
  "stk_inv p A Q m d \<longleftrightarrow> t_pgdir p = Some d \<and> vm_ok d m \<and> 1 \<le> t_stacksz p \<and> t_stacksz p \<le> 100 \<and> t_sz p < 2147483648 \<and> fr_good p \<and> t_tf p \<noteq> None \<and>
     (\<forall>j\<in>A. q_th_sz (Q j) = (stk_base p (Q j) + stk_len p) * PGSIZE) \<and> (\<forall>x\<in>set (fr_elems p). x mod PGSIZE = 0) \<and>
     (\<forall>j\<in>A. \<exists>k. q_kstack (Q j) = Some k \<and> page_ok m k \<and> k \<notin> avail d m) \<and> inj_on (\<lambda>j. q_kstack (Q j)) A \<and>
     area_ok (\<lambda>j. stk_base p (Q j)) A (map (\<lambda>x. x div PGSIZE) (fr_elems p)) (stk_len p) (npages (t_sz p)) (mapped d)"

definition stacks_ok :: "nat \<Rightarrow> tk \<Rightarrow> bool" where
  "stacks_ok i s \<longleftrightarrow> i < length (tprocs s) \<and> length (pths s) = NTHRD \<and>
     (\<exists>d. stk_inv (tprocs s ! i) (live i s) (\<lambda>j. pths s ! j) (tkm s) d)"

lemma stk_inv_cong:
  assumes "stk_inv p A Q m d" "\<And>j. j \<in> A \<Longrightarrow> Q' j = Q j" "t_pgdir p' = Some d'" "vm_ok d' m'" "avail d' m' \<subseteq> avail d m" "same_k m m'"
    "t_stacksz p' = t_stacksz p" "t_sz p' = t_sz p" "fr_good p'" "fr_elems p' = fr_elems p" "t_tf p' \<noteq> None" "\<And>v. v < KERNPAGE \<Longrightarrow> mapped d' v \<longleftrightarrow> mapped d v"
  shows "stk_inv p' A Q' m' d'"
proof -
  have l: "stk_len p' = stk_len p" and b: "stk_base p' q = stk_base p q" for q using assms(7) by (simp_all add: stk_len_def stk_base_def)
  have "area_ok (\<lambda>j. stk_base p (Q' j)) A (map (\<lambda>x. x div PGSIZE) (fr_elems p)) (stk_len p) (npages (t_sz p)) (mapped d')"
    by (rule area_ok_cong [of A "\<lambda>j. stk_base p (Q j)" _ "mapped d"]) (use assms(1,2,12) in \<open>auto simp: stk_inv_def\<close>)
  moreover have "\<forall>j\<in>A. \<exists>k. q_kstack (Q' j) = Some k \<and> page_ok m' k \<and> k \<notin> avail d' m'"
  proof
    fix j assume j: "j \<in> A"
    then obtain k where "q_kstack (Q j) = Some k" "page_ok m k" "k \<notin> avail d m" using assms(1) by (auto simp: stk_inv_def)
    then show "\<exists>k. q_kstack (Q' j) = Some k \<and> page_ok m' k \<and> k \<notin> avail d' m'"
      using assms(2) [OF j] assms(5,6) by (auto simp: page_ok_def same_k_def)
  qed
  moreover have "inj_on (\<lambda>j. q_kstack (Q' j)) A" using assms(1,2) by (simp add: stk_inv_def inj_on_def)
  ultimately show ?thesis using assms l b by (simp add: stk_inv_def)
qed

section \<open>A new stack\<close>

lemma npages_mult [simp]: "npages (a * PGSIZE) = a"
  by (simp add: npages_def)

lemma round_up_npages: "sz < 4294963200 \<Longrightarrow> round_up sz = npages sz"
  by (simp add: round_up_def npages_def)

lemma npages_bound: "sz < 2147483648 \<Longrightarrow> npages sz \<le> KERNPAGE"
  by (simp add: npages_def)

lemma clearpteu_ok:
  assumes "has_pte d (a div PGSIZE)"
  shows "\<exists>d'. clearpteu a d = Inr d' \<and> pd_page d' = pd_page d \<and> pd_tab d' = pd_tab d \<and> own d' = own d \<and>
    (\<forall>v. mapped d' v \<longleftrightarrow> mapped d v) \<and> (\<forall>v. v \<noteq> a div PGSIZE \<longrightarrow> pd_pte d' v = pd_pte d v) \<and>
    (\<forall>e. pd_pte d' (a div PGSIZE) = Some e \<longrightarrow> \<not> pte_u e)"
proof -
  let ?v = "a div PGSIZE"
  let ?d = "d\<lparr>pd_pte := (pd_pte d)(?v := map_option (\<lambda>e. e\<lparr>pte_u := False\<rparr>) (pd_pte d ?v))\<rparr>"
  have "own ?d = own d"
  proof (rule ext)
    show "own ?d s = own d s" for s by (cases s) (auto simp: option.map_comp comp_def)
  qed
  then show ?thesis using assms
    by (intro exI [of _ ?d]) (auto simp: clearpteu_def mapped_def Let_def)
qed

lemma copyout_one:
  assumes "has_pte d v" "pd_pte d v = Some e" "pte_u e" "off + length bs \<le> PGSIZE" "bs \<noteq> []"
  shows "copyout d (v * PGSIZE + off) bs m = Inr (0, m\<lparr>pmem := (pmem m)(pte_page e := put_bytes (pmem m (pte_page e)) off bs)\<rparr>)"
proof -
  have o: "off < PGSIZE" using assms(4,5) by (cases bs) auto
  have n: "min (PGSIZE - off) (length bs) = length bs" using assms(4) by simp
  have u: "uva2ka d v = Inr (Some (pte_page e))" using assms(1-3) by (simp add: uva2ka_def)
  show ?thesis
    using assms(5) u o n by (subst copyout.simps) (simp add: Let_def copyout.simps [of _ _ "[]"])
qed

definition stack_source :: "tproc \<Rightarrow> nat" where
  "stack_source p = npages (if t_freed p \<noteq> 0 then t_freed_sz p ! t_front p else t_sz p)"

text \<open>What a successful \<open>pthread_exec\<close> leaves.\<close>

definition new_stack :: "nat \<Rightarrow> nat \<Rightarrow> nat \<Rightarrow> pgdir \<Rightarrow> tproc \<Rightarrow> tproc" where
  "new_stack a N sz d p = (let p = p\<lparr>t_pgdir := Some d\<rparr> in if t_freed p \<noteq> 0 then snd (fr_pop p) else p\<lparr>t_sz := sz\<rparr>)"

lemma pthread_exec_ok:
  fixes i th :: nat and s :: tk
  defines "p \<equiv> tprocs s ! i"
  defines "N \<equiv> stk_len p" and "a \<equiv> stack_source p"
  assumes i: "i < length (tprocs s)" "th < length (pths s)" and d: "t_pgdir p = Some d" "vm_ok d (tkm s)" and k: "q_tf (pths s ! th) = Some k"
    and N: "1 \<le> t_stacksz p" "t_stacksz p \<le> 100" and a: "(if t_freed p \<noteq> 0 then t_freed_sz p ! t_front p else t_sz p) < 2147483648"
    and free: "\<And>v. a \<le> v \<Longrightarrow> v < a + N \<Longrightarrow> v < KERNPAGE \<Longrightarrow> \<not> mapped d v"
  shows "\<exists>r s' d'. pthread_exec th start arg i s = Inr (r, s') \<and> vm_ok d' (tkm s') \<and> avail d' (tkm s') = avail d (tkm s) \<and> same_k (tkm s) (tkm s') \<and>
    (r = -1 \<and> tprocs s' = (tprocs s)[i := p\<lparr>t_pgdir := Some d'\<rparr>] \<and> pths s' = pths s \<and> (\<forall>v. mapped d' v = mapped d v) \<or>
     r = 0 \<and> tprocs s' = (tprocs s)[i := new_stack a N ((a + N) * PGSIZE) d' p] \<and>
       pths s' = (pths s)[th := (pths s ! th)\<lparr>q_th_sz := (a + N) * PGSIZE\<rparr>] \<and> (a + N) * PGSIZE < 2147483648 \<and>
       (\<forall>v. mapped d' v \<longleftrightarrow> mapped d v \<or> a \<le> v \<and> v < a + N) \<and>
       (\<exists>e. pd_pte d' a = Some e \<and> \<not> pte_u e) \<and> (\<forall>v. a < v \<and> v < a + N \<longrightarrow> (\<exists>e. pd_pte d' v = Some e \<and> pte_u e \<and> pte_w e)))"
proof -
  let ?sz = "if t_freed p \<noteq> 0 then t_freed_sz p ! t_front p else t_sz p"
  let ?top = "(a + N) * PGSIZE"
  have ak: "a \<le> KERNPAGE" unfolding a_def stack_source_def by (rule npages_bound [OF a])
  have ru: "round_up ?sz = a" unfolding a_def stack_source_def by (rule round_up_npages) (use a in simp)
  have N2: "2 \<le> N" "N \<le> 101" using N by (simp_all add: N_def stk_len_def)
  have top: "wrap32 (a * PGSIZE + N * PGSIZE) = ?top"
    using ak N2 by (simp add: wrap32_def add_mult_distrib)
  have len: "(t_stacksz p + 1) * PGSIZE = N * PGSIZE" by (simp add: N_def stk_len_def)
  have same: "(tprocs s)[i := p\<lparr>t_pgdir := Some d\<rparr>] = tprocs s"
  proof -
    have "p\<lparr>t_pgdir := Some d\<rparr> = p" using d(1) by (cases p) simp
    then show ?thesis by (simp add: p_def)
  qed
  show ?thesis
  proof (cases "t_memlimit p \<noteq> 0 \<and> ?top > t_memlimit p")
    case True
    then have "pthread_exec th start arg i s = Inr (-1, tprint [OStr ''exceed memlim : '', ONum (int_of_uint (t_memlimit p)), OStr [CHR 10]] s)"
      unfolding pthread_exec_def p_def [symmetric] Let_def len ru top by simp
    then show ?thesis using d(2) same
      by (intro exI [of _ "-1"] exI [of _ "tprint [OStr ''exceed memlim : '', ONum (int_of_uint (t_memlimit p)), OStr [CHR 10]] s"] exI [of _ d]) (simp add: tprint_def)
  next
    case nolim: False
    have ex: "pthread_exec th start arg i s = bindR (allocuvm (a * PGSIZE) ?top d (tkm s)) (\<lambda>(r, d1, m1).
          if r = 0 then Inr (-1, set_mem i (d1, m1) s)
          else bindR (clearpteu (sub32 r (N * PGSIZE)) d1) (\<lambda>d2.
            bindR (copyout d2 (sub32 r 8) (le32 4294967295 @ le32 arg) m1) (\<lambda>(c, m2).
              let s1 = set_mem i (d2, m2) s in
              if c < 0 then Inr (-1, s1)
              else let s2 = upd_q th (\<lambda>q. q\<lparr>q_th_sz := r\<rparr>)
                     (upd_t i (\<lambda>p. if t_freed p \<noteq> 0 then snd (fr_pop p) else p\<lparr>t_sz := r\<rparr>) s1)
                   in deref ''pthread_exec: tf'' (q_tf (pths s2 ! th)) (\<lambda>k.
                        Inr (0, s2\<lparr>tframe := (tframe s2)(k := (tframe s2 k)\<lparr>tf_eip := start, tf_esp := sub32 r 8\<rparr>)\<rparr>)))))"
      unfolding pthread_exec_def p_def [symmetric] Let_def len ru top if_not_P [OF nolim] d(1) deref_Some by (rule refl)
    show ?thesis
    proof (cases "?top \<ge> KERNPAGE * PGSIZE")
      case True
      then have "allocuvm (a * PGSIZE) ?top d (tkm s) = Inr (0, d, tkm s)" by (simp add: allocuvm_def)
      then have "pthread_exec th start arg i s = Inr (-1, set_mem i (d, tkm s) s)" unfolding ex by simp
      then show ?thesis using d(2)
        by (intro exI [of _ "-1"] exI [of _ "set_mem i (d, tkm s) s"] exI [of _ d]) (simp add: set_mem_def upd_t_def p_def)
    next
      case False
      then have tl: "?top < 2147483648" "a + N \<le> KERNPAGE" by simp_all
      have "\<forall>v. npages (a * PGSIZE) \<le> v \<and> v < npages ?top \<longrightarrow> pd_pte d v = None"
        unfolding npages_mult using free tl(2) by (auto simp: mapped_def)
      from allocuvm_grows [OF d(2) _ tl(1) this] N2 obtain r d1 m1 where
        r: "allocuvm (a * PGSIZE) ?top d (tkm s) = Inr (r, d1, m1)" "grows d (tkm s) d1 m1" "avail d1 m1 = avail d (tkm s)"
          "r = ?top \<and> zero_mapped d {a..<a + N} d1 m1 \<or> r = 0 \<and> pd_pte d1 = pd_pte d" unfolding npages_mult by auto
      have g: "vm_ok d1 m1" "same_k (tkm s) m1" using r(2) by (simp_all add: grows_def)
      show ?thesis
      proof (cases "r = 0")
        case True
        then have "pd_pte d1 = pd_pte d" using r(4) N2 by auto
        moreover have "pthread_exec th start arg i s = Inr (-1, set_mem i (d1, m1) s)" unfolding ex using r(1) True by simp
        ultimately show ?thesis using g r(3)
          by (intro exI [of _ "-1"] exI [of _ "set_mem i (d1, m1) s"] exI [of _ d1]) (simp add: set_mem_def upd_t_def p_def mapped_def)
      next
        case False
        then have rt: "r = ?top" and z: "zero_mapped d {a..<a + N} d1 m1" using r(4) by auto
        have sb: "sub32 ?top (N * PGSIZE) = a * PGSIZE" "sub32 ?top 8 = (a + N - 1) * PGSIZE + 4088"
        proof -
          show "sub32 ?top (N * PGSIZE) = a * PGSIZE" using tl(1) by (subst sub32_small) (simp_all add: add_mult_distrib)
          show "sub32 ?top 8 = (a + N - 1) * PGSIZE + 4088"
            using tl(1) N2 by (subst sub32_small) (simp_all add: diff_mult_distrib add_mult_distrib)
        qed
        have new: "\<exists>q. pd_pte d1 v = Some (new_pte q True True)" if "a \<le> v" "v < a + N" for v
          using z that unfolding zero_mapped_def by (metis atLeastLessThan_iff)
        have wf: "has_pte d1 v" if "a \<le> v" "v < a + N" for v
          using new [OF that] g(1) unfolding vm_ok_def pd_wf_def by blast
        have "has_pte d1 (a * PGSIZE div PGSIZE)" using wf [of a] N2 by simp
        from clearpteu_ok [OF this] obtain d2 where
          c: "clearpteu (a * PGSIZE) d1 = Inr d2" "pd_tab d2 = pd_tab d1" "own d2 = own d1" "\<forall>v. mapped d2 v \<longleftrightarrow> mapped d1 v"
            "\<forall>v. v \<noteq> a \<longrightarrow> pd_pte d2 v = pd_pte d1 v" "\<forall>e. pd_pte d2 a = Some e \<longrightarrow> \<not> pte_u e" by auto
        have hp: "has_pte d2 v = has_pte d1 v" for v using c(2) by (simp add: has_pte_def)
        have wf2: "pd_wf d2" using g(1) c(2,4) unfolding vm_ok_def pd_wf_def hp mapped_def by simp
        let ?v = "a + N - 1"
        have v: "a \<le> ?v" "?v < a + N" "?v \<noteq> a" using N2 by auto
        obtain q where q: "pd_pte d2 ?v = Some (new_pte q True True)" using new [OF v(1,2)] c(5) v(3) by auto
        let ?bs = "le32 4294967295 @ le32 arg"
        have "4088 + length ?bs \<le> PGSIZE" "?bs \<noteq> []" by (simp_all add: le32_def)
        from copyout_one [OF _ q _ this, of m1] wf [OF v(1,2)] hp obtain m2 where
          m2: "copyout d2 (?v * PGSIZE + 4088) ?bs m1 = Inr (0, m2)" "kfl m2 = kfl m1" "kend m2 = kend m1" "kdata m2 = kdata m1" by auto
        have ok2: "vm_ok d2 m2" using g(1) wf2 m2(2,3) c(3) by (simp add: vm_ok_def)
        have av2: "avail d2 m2 = avail d (tkm s)" using r(3) m2(2) c(3) by (simp add: avail_def)
        have k2: "same_k (tkm s) m2" using g(2) m2(3,4) by (simp add: same_k_def)
        define s2 where "s2 = upd_q th (\<lambda>q. q\<lparr>q_th_sz := ?top\<rparr>)
           (upd_t i (\<lambda>p. if t_freed p \<noteq> 0 then snd (fr_pop p) else p\<lparr>t_sz := ?top\<rparr>) (set_mem i (d2, m2) s))"
        define s3 where "s3 = s2\<lparr>tframe := (tframe s2)(k := (tframe s2 k)\<lparr>tf_eip := start, tf_esp := sub32 ?top 8\<rparr>)\<rparr>"
        have tfk: "q_tf (pths s2 ! th) = Some k" using k i(2) by (simp add: s2_def upd_q_nth set_mem_def upd_t_def)
        have run: "pthread_exec th start arg i s = Inr (0, s3)"
          unfolding ex r(1) rt bindR_Inr prod.case if_not_P [OF False [unfolded rt]] sb c(1) m2(1) Let_def
            tfk [unfolded s2_def] deref_Some s3_def s2_def by (simp only: less_irrefl if_False)
        have mp: "mapped d2 v \<longleftrightarrow> mapped d v \<or> a \<le> v \<and> v < a + N" for v
          using c(4) new [of v] z unfolding zero_mapped_def mapped_def by (cases "a \<le> v \<and> v < a + N") auto
        have pt: "tkm s3 = m2" "tprocs s3 = (tprocs s)[i := new_stack a N ?top d2 p]" "pths s3 = (pths s)[th := (pths s ! th)\<lparr>q_th_sz := ?top\<rparr>]"
          using i by (simp_all add: s3_def s2_def upd_q_def upd_t_def set_mem_def new_stack_def p_def fr_pop_def)
        have gd: "\<exists>e. pd_pte d2 a = Some e \<and> \<not> pte_u e" using mp [of a] c(6) N2 by (auto simp: mapped_def)
        have us: "\<exists>e. pd_pte d2 v = Some e \<and> pte_u e \<and> pte_w e" if "a < v \<and> v < a + N" for v
          using new [of v] c(5) that by auto
        show ?thesis using run ok2 av2 k2 pt mp gd us tl(1)
          by (intro exI [of _ 0] exI [of _ s3] exI [of _ d2]) simp
      qed
    qed
  qed
qed

end
