(* ===== verification/Th_Create.thy ===== *)
theory Th_Create
  imports Th_Stacks
begin

text \<open>\<open>thread_create\<close> keeps \<open>stacks_ok\<close>.\<close>

lemma allocthread_Some:
  assumes "allocthread s = (Some n, s1)"
  shows "\<exists>k m. n < length (pths s) \<and> q_state (pths s ! n) = UNUSED \<and> kalloc (tkm s) = (Some k, m) \<and> tprocs s1 = tprocs s \<and> tkm s1 = m \<and>
    tframe s1 = tframe s \<and> pths s1 = (pths s)[n := (pths s ! n)\<lparr>q_kstack := Some k, q_state := EMBRYO, q_tf := Some k, q_ctx := Some k, q_retval := 0\<rparr>]"
  using assms unfolding allocthread_def
  by (auto simp: upd_q_def split: option.splits prod.splits dest: find_idx_SomeD)

lemma allocthread_None:
  assumes "allocthread s = (None, s1)"
  shows "tprocs s1 = tprocs s" "tkm s1 = tkm s" "length (pths s1) = length (pths s)"
    "\<And>j. q_state (pths s ! j) \<noteq> UNUSED \<Longrightarrow> pths s1 ! j = pths s ! j" "\<And>j. q_state (pths s1 ! j) = q_state (pths s ! j)"
  using assms unfolding allocthread_def
  by (auto simp: upd_q_def nth_list_update list_update_beyond split: option.splits prod.splits dest!: find_idx_SomeD no_page)

lemma live_UNUSED: "q_state (pths s ! j) = UNUSED \<Longrightarrow> j \<notin> live i s"
  by (simp add: live_def)

lemma stacks_okE:
  assumes "stacks_ok i s"
  obtains d where "i < length (tprocs s)" "length (pths s) = NTHRD" "stk_inv (tprocs s ! i) (live i s) (\<lambda>j. pths s ! j) (tkm s) d"
  using assms unfolding stacks_ok_def by blast

text \<open>Where the next stack goes: all its pages are free.\<close>

lemma stack_source_ok:
  assumes "stk_inv p A Q m d"
  defines "x \<equiv> if t_freed p \<noteq> 0 then t_freed_sz p ! t_front p else t_sz p"
  shows "x < 2147483648" "\<And>v. stack_source p \<le> v \<Longrightarrow> v < stack_source p + stk_len p \<Longrightarrow> v < KERNPAGE \<Longrightarrow> \<not> mapped d v"
    "t_freed p \<noteq> 0 \<Longrightarrow> map (\<lambda>x. x div PGSIZE) (fr_elems p) = stack_source p # map (\<lambda>x. x div PGSIZE) (fr_elems (snd (fr_pop p)))"
    "t_freed p = 0 \<Longrightarrow> stack_source p = npages (t_sz p) \<and> fr_elems p = []"
proof -
  have g: "fr_good p" and sz: "t_sz p < 2147483648" and al: "\<forall>x\<in>set (fr_elems p). x mod PGSIZE = 0"
    and ar: "area_ok (\<lambda>j. stk_base p (Q j)) A (map (\<lambda>x. x div PGSIZE) (fr_elems p)) (stk_len p) (npages (t_sz p)) (mapped d)"
    using assms(1) by (simp_all add: stk_inv_def)
  have src: "x = hd (fr_elems p)" "x \<in> set (fr_elems p)" "x mod PGSIZE = 0" "stack_source p = x div PGSIZE"
    "fr_elems p = x # fr_elems (snd (fr_pop p))" if "t_freed p \<noteq> 0"
  proof -
    have ne: "fr_elems p \<noteq> []" using that fr_elems_length [of p] by auto
    show h: "x = hd (fr_elems p)" using freed.deq_fst [OF g ne] that by (simp add: fr_pop_def x_def)
    show "x \<in> set (fr_elems p)" using ne h by simp
    then show m: "x mod PGSIZE = 0" using al by blast
    have "x = x div PGSIZE * PGSIZE" using m by (metis add_0_right div_mult_mod_eq)
    then have "npages x = x div PGSIZE" using npages_mult [of "x div PGSIZE"] by metis
    then show "stack_source p = x div PGSIZE" using that by (simp add: stack_source_def x_def)
    show "fr_elems p = x # fr_elems (snd (fr_pop p))" using freed.deq_elems [OF g ne] h ne by simp
  qed
  have n: "npages (t_sz p) \<le> KERNPAGE" by (rule npages_bound [OF sz])
  show "x < 2147483648"
  proof (cases "t_freed p \<noteq> 0")
    case True
    have "x div PGSIZE \<in># areas (\<lambda>j. stk_base p (Q j)) A (map (\<lambda>x. x div PGSIZE) (fr_elems p))"
      using src(2) [OF True] by (auto simp: areas_def)
    then have "x div PGSIZE + stk_len p \<le> npages (t_sz p)" using ar by (simp add: area_ok_def)
    then have "x div PGSIZE < KERNPAGE" using n by (simp add: stk_len_def)
    then show ?thesis using src(3) [OF True] by (simp add: mod_eq_0_iff_dvd)
  next
    case False
    then show ?thesis using sz by (simp add: x_def)
  qed
  show "\<not> mapped d v" if "stack_source p \<le> v" "v < stack_source p + stk_len p" "v < KERNPAGE" for v
  proof (cases "t_freed p \<noteq> 0")
    case True
    have "x div PGSIZE \<in> set (map (\<lambda>x. x div PGSIZE) (fr_elems p))" using src(2) [OF True] by simp
    then show ?thesis using ar that src(4) [OF True] unfolding area_ok_def by metis
  next
    case False
    then show ?thesis using ar that by (simp add: area_ok_def stack_source_def)
  qed
  show "map (\<lambda>x. x div PGSIZE) (fr_elems p) = stack_source p # map (\<lambda>x. x div PGSIZE) (fr_elems (snd (fr_pop p)))" if "t_freed p \<noteq> 0"
    using src(4,5) [OF that] by (metis list.simps(9))
  show "stack_source p = npages (t_sz p) \<and> fr_elems p = []" if "t_freed p = 0"
    using that by (simp add: stack_source_def fr_elems_def)
qed

text \<open>The invariant after a new thread \<open>n\<close> with the record \<open>q\<close>.\<close>

lemma stk_inv_create:
  assumes inv: "stk_inv p A Q m0 d" and A: "A \<subseteq> {..<NTHRD}" "n < NTHRD" "n \<notin> A"
    and k: "kalloc m0 = (Some k, m)" "q_kstack q = Some k"
    and d': "vm_ok d' m'" "avail d' m' = avail d m" "same_k m m'" "\<forall>v. mapped d' v \<longleftrightarrow> mapped d v \<or> stack_source p \<le> v \<and> v < stack_source p + stk_len p"
    and top: "q_th_sz q = (stack_source p + stk_len p) * PGSIZE" "(stack_source p + stk_len p) * PGSIZE < 2147483648"
    and p': "p' = new_stack (stack_source p) (stk_len p) ((stack_source p + stk_len p) * PGSIZE) d' (p\<lparr>t_assign := w\<rparr>)"
  shows "stk_inv p' (insert n A) (\<lambda>j. if j = n then q else Q j) m' d'"
proof -
  let ?Q = "\<lambda>j. if j = n then q else Q j" and ?a = "stack_source p" and ?f = "map (\<lambda>x. x div PGSIZE)"
  note src = stack_source_ok [OF inv]
  have ok: "vm_ok d m0" and g: "fr_good p" and al: "\<forall>x\<in>set (fr_elems p). x mod PGSIZE = 0"
    and ar: "area_ok (\<lambda>j. stk_base p (Q j)) A (?f (fr_elems p)) (stk_len p) (npages (t_sz p)) (mapped d)"
    and ks: "\<forall>j\<in>A. \<exists>k. q_kstack (Q j) = Some k \<and> page_ok m0 k \<and> k \<notin> avail d m0" and inj: "inj_on (\<lambda>j. q_kstack (Q j)) A"
    and th: "\<forall>j\<in>A. q_th_sz (Q j) = (stk_base p (Q j) + stk_len p) * PGSIZE"
    and rest: "1 \<le> t_stacksz p" "t_stacksz p \<le> 100" "t_sz p < 2147483648" "t_tf p \<noteq> None"
    using inv by (simp_all add: stk_inv_def)
  note T = take_page [OF ok k(1)]
  let ?p1 = "p\<lparr>t_assign := w, t_pgdir := Some d'\<rparr>"
  have f1: "fr_good ?p1 = fr_good p" "fr_elems ?p1 = fr_elems p" "fr_elems (snd (fr_pop ?p1)) = fr_elems (snd (fr_pop p))"
    "fr_good (snd (fr_pop ?p1)) = fr_good (snd (fr_pop p))"
    by (simp_all add: fr_good_def fr_elems_def fr_pop_def)
  have l: "stk_len p' = stk_len p" "stk_base p' q = stk_base p q" for q
    by (simp_all add: p' new_stack_def Let_def stk_len_def stk_base_def fr_pop_def)
  have bq: "stk_base p q = ?a" using top(1) by (simp add: stk_base_def)
  have Beq: "(\<lambda>j. stk_base p' (?Q j)) = (\<lambda>j. stk_base p (Q j))(n := ?a)" using l(2) bq by auto
  have fin: "finite A" using A(1) finite_subset by blast
  have area: "area_ok (\<lambda>j. stk_base p' (?Q j)) (insert n A) (?f (fr_elems p')) (stk_len p') (npages (t_sz p')) (mapped d') \<and>
     fr_good p' \<and> (\<forall>x\<in>set (fr_elems p'). x mod PGSIZE = 0) \<and> t_sz p' < 2147483648"
  proof (cases "t_freed p \<noteq> 0")
    case True
    have ne: "fr_elems p \<noteq> []" using True fr_elems_length [of p] by auto
    have e: "p' = snd (fr_pop ?p1)" using True by (simp add: p' new_stack_def)
    have fe: "fr_elems p' = tl (fr_elems p)" "fr_good p'"
      using freed.deq_elems [OF g ne] freed.deq_good [OF g ne] f1 by (simp_all add: e)
    have "t_sz p' = t_sz p" by (simp add: e fr_pop_def)
    moreover have "set (fr_elems p') \<subseteq> set (fr_elems p)" unfolding fe using ne by (meson list.set_sel(2) subsetI)
    moreover have "area_ok ((\<lambda>j. stk_base p (Q j))(n := ?a)) (insert n A) (?f (fr_elems p')) (stk_len p) (npages (t_sz p)) (mapped d')"
      by (rule area_reuse) (use ar src(3) [OF True] f1(3) A(3) d'(4) in \<open>simp_all add: e\<close>)
    ultimately show ?thesis using al rest(3) fe(2) unfolding Beq unfolding l by auto
  next
    case False
    then have s: "?a = npages (t_sz p)" "fr_elems p = []" using src(4) by auto
    have e: "p' = ?p1\<lparr>t_sz := (?a + stk_len p) * PGSIZE\<rparr>" using False by (simp add: p' new_stack_def)
    have f2: "fr_elems p' = []" "fr_good p'" using s(2) g by (simp_all add: e fr_elems_def fr_good_def)
    have "A \<subset> {..<NTHRD}" using A by blast
    then have "card A < card {..<NTHRD}" by (rule psubset_card_mono [OF finite_lessThan])
    then have c: "card A < NTHRD" by simp
    have sz: "t_sz p' = (?a + stk_len p) * PGSIZE" by (simp add: e)
    have "area_ok ((\<lambda>j. stk_base p (Q j))(n := ?a)) (insert n A) [] (stk_len p) (?a + stk_len p) (mapped d')"
      unfolding s(1)
      by (rule area_fresh) (use ar s A(3) c top(2) d'(4) in \<open>simp_all add: stk_len_def\<close>)
    then show ?thesis using f2 top(2) unfolding Beq unfolding l sz npages_mult by simp
  qed
  have other: "t_stacksz p' = t_stacksz p" "t_tf p' = t_tf p" "t_pgdir p' = Some d'"
    by (simp_all add: p' new_stack_def Let_def fr_pop_def)
  have av: "avail d m0 = insert k (avail d' m')" "k \<notin> avail d' m'" using T(2,3) d'(2) by auto
  have sk: "same_k m0 m'" using T(5) d'(3) by (rule same_k_trans)
  have K: "\<forall>j\<in>insert n A. \<exists>k. q_kstack (?Q j) = Some k \<and> page_ok m' k \<and> k \<notin> avail d' m'"
  proof
    fix j assume j: "j \<in> insert n A"
    show "\<exists>k. q_kstack (?Q j) = Some k \<and> page_ok m' k \<and> k \<notin> avail d' m'"
    proof (cases "j = n")
      case True
      then show ?thesis using k(2) T(4) av(2) sk by (simp add: page_ok_def same_k_def)
    next
      case False
      then obtain x where "q_kstack (Q j) = Some x" "page_ok m0 x" "x \<notin> avail d m0" using ks j by auto
      then show ?thesis using False av(1) sk by (simp add: page_ok_def same_k_def)
    qed
  qed
  have "q_kstack (Q j) \<noteq> Some k" if "j \<in> A" for j using ks that av(1) by force
  then have ne: "q_kstack (Q j) \<noteq> q_kstack q" if "j \<in> A" for j using that k(2) by simp
  have I: "inj_on (\<lambda>j. q_kstack (?Q j)) (insert n A)"
  proof (rule inj_onI)
    show "x = y" if "x \<in> insert n A" "y \<in> insert n A" "q_kstack (?Q x) = q_kstack (?Q y)" for x y
      using that inj ne [of x] ne [of y] by (cases "x = n"; cases "y = n") (auto simp: inj_on_def)
  qed
  have "\<forall>j\<in>insert n A. q_th_sz (?Q j) = (stk_base p' (?Q j) + stk_len p') * PGSIZE"
    using th top(1) bq unfolding l by simp
  then show ?thesis using area d'(1) other rest K I unfolding stk_inv_def by simp
qed

text \<open>What the caller of \<open>pthread_fork\<close> gets: the entry of the new thread, its kernel stack \<open>k\<close> and the process that counted it.\<close>

definition forked :: "nat \<Rightarrow> tproc \<Rightarrow> pthread \<Rightarrow> nat \<Rightarrow> pthread" where
  "forked i p q k = q\<lparr>q_kstack := Some k, q_state := EMBRYO, q_tf := Some k, q_ctx := Some k, q_retval := 0,
      q_pid := t_pid p, q_tid := t_assign p + 1, q_ptable := i\<rparr>"

definition counted :: "tproc \<Rightarrow> tproc" where
  "counted p = p\<lparr>t_assign := t_assign p + 1\<rparr>"

lemma forked_simps [simp]:
  "q_tf (forked i p q k) = Some k" "q_kstack (forked i p q k) = Some k" "q_tid (forked i p q k) = t_assign p + 1" "q_pid (forked i p q k) = t_pid p"
  by (simp_all add: forked_def)

lemma counted_simps [simp]:
  "t_pgdir (counted p) = t_pgdir p" "t_stacksz (counted p) = t_stacksz p" "t_sz (counted p) = t_sz p" "t_tf (counted p) = t_tf p"
  "t_freed (counted p) = t_freed p" "t_freed_sz (counted p) = t_freed_sz p" "t_front (counted p) = t_front p" "t_back (counted p) = t_back p"
  "t_pid (counted p) = t_pid p" "t_idx (counted p) = t_idx p" "stack_source (counted p) = stack_source p" "stk_len (counted p) = stk_len p"
  "fr_elems (counted p) = fr_elems p" "fr_good (counted p) = fr_good p"
  by (simp_all add: counted_def stack_source_def stk_len_def fr_elems_def fr_good_def)

lemma pthread_fork_ok:
  assumes "stacks_ok i s" "t_assign (tprocs s ! i) < 4294967295"
  shows "(\<exists>s0. pthread_fork i s = Inr (None, s0) \<and> stacks_ok i s0 \<and> live i s0 = live i s \<and> (\<forall>j\<in>live i s. pths s0 ! j = pths s ! j)) \<or>
    (\<exists>n k s3. pthread_fork i s = Inr (Some n, s3) \<and> n < length (pths s) \<and> q_state (pths s ! n) = UNUSED \<and> n \<notin> live i s \<and>
      kalloc (tkm s) = (Some k, tkm s3) \<and> tprocs s3 = (tprocs s)[i := counted (tprocs s ! i)] \<and>
      pths s3 = (pths s)[n := forked i (tprocs s ! i) (pths s ! n) k])"
proof -
  let ?p = "tprocs s ! i" and ?A = "live i s"
  obtain d where i: "i < length (tprocs s)" "length (pths s) = NTHRD" and inv: "stk_inv ?p ?A (\<lambda>j. pths s ! j) (tkm s) d"
    using stacks_okE [OF assms(1)] by blast
  obtain f where f: "t_tf ?p = Some f" using inv by (auto simp: stk_inv_def)
  obtain r0 s0 where al: "allocthread s = (r0, s0)" by (cases "allocthread s")
  show ?thesis
  proof (cases r0)
    case None
    note z = allocthread_None [OF al [unfolded None]]
    have lv: "live i s0 = ?A"
    proof (rule set_eqI)
      show "j \<in> live i s0 \<longleftrightarrow> j \<in> ?A" for j
        using z(1,3) z(4) [of j] z(5) [of j] by (cases "q_state (pths s ! j) = UNUSED") (auto simp: live_def)
    qed
    have keep: "\<forall>j\<in>?A. pths s0 ! j = pths s ! j" using z(4) by (simp add: live_def)
    then have "stk_inv ?p ?A (\<lambda>j. pths s0 ! j) (tkm s) d"
      by (intro stk_inv_cong [OF inv]) (use inv in \<open>auto simp: stk_inv_def\<close>)
    then have "stacks_ok i s0" using i z lv by (auto simp: stacks_ok_def)
    moreover have "pthread_fork i s = Inr (None, s0)" using al None by (simp add: pthread_fork_def)
    ultimately show ?thesis using keep lv by blast
  next
    case (Some n)
    from allocthread_Some [OF al [unfolded Some]] obtain k where n: "n < length (pths s)" "q_state (pths s ! n) = UNUSED"
      "kalloc (tkm s) = (Some k, tkm s0)" "tprocs s0 = tprocs s"
      "pths s0 = (pths s)[n := (pths s ! n)\<lparr>q_kstack := Some k, q_state := EMBRYO, q_tf := Some k, q_ctx := Some k, q_retval := 0\<rparr>]" by blast
    obtain s3 where "pthread_fork i s = Inr (Some n, s3)" "tprocs s3 = (tprocs s)[i := counted ?p]"
      "pths s3 = (pths s)[n := forked i ?p (pths s ! n) k]" "tkm s3 = tkm s0"
      using al Some n f i assms(2) unfolding pthread_fork_def set_frame_def
      by (simp add: upd_t_def upd_q_def Let_def counted_def forked_def)
    then show ?thesis using n live_UNUSED [OF n(2), of i] by metis
  qed
qed

lemma create_exec:
  fixes i :: nat and s :: tk
  defines "p \<equiv> tprocs s ! i"
  defines "N \<equiv> stk_len p" and "a \<equiv> stack_source p"
  assumes inv: "stk_inv p A (\<lambda>j. pths s ! j) (tkm s) d" and i: "i < length (tprocs s)" "length (pths s) = NTHRD"
    and n: "n < length (pths s)" "kalloc (tkm s) = (Some k, tkm s3)"
    and s3: "tprocs s3 = (tprocs s)[i := counted p]" "pths s3 = (pths s)[n := forked i p (pths s ! n) k]"
  shows "\<exists>r s4 d'. pthread_exec n start arg i s3 = Inr (r, s4) \<and> vm_ok d' (tkm s4) \<and> avail d' (tkm s4) = avail d (tkm s3) \<and> same_k (tkm s3) (tkm s4) \<and>
      (r = -1 \<and> tprocs s4 = (tprocs s)[i := (counted p)\<lparr>t_pgdir := Some d'\<rparr>] \<and> pths s4 = (pths s)[n := forked i p (pths s ! n) k] \<and> (\<forall>v. mapped d' v = mapped d v) \<or>
       r = 0 \<and> tprocs s4 = (tprocs s)[i := new_stack a N ((a + N) * PGSIZE) d' (counted p)] \<and>
         pths s4 = (pths s)[n := (forked i p (pths s ! n) k)\<lparr>q_th_sz := (a + N) * PGSIZE\<rparr>] \<and> (a + N) * PGSIZE < 2147483648 \<and>
         (\<forall>v. mapped d' v \<longleftrightarrow> mapped d v \<or> a \<le> v \<and> v < a + N) \<and> (\<exists>e. pd_pte d' a = Some e \<and> \<not> pte_u e) \<and>
         (\<forall>v. a < v \<and> v < a + N \<longrightarrow> (\<exists>e. pd_pte d' v = Some e \<and> pte_u e \<and> pte_w e)))"
proof -
  have ok: "vm_ok d (tkm s)" and pd: "t_pgdir p = Some d" and st: "1 \<le> t_stacksz p" "t_stacksz p \<le> 100" using inv by (simp_all add: stk_inv_def)
  note T = take_page [OF ok n(2)] and src = stack_source_ok [OF inv]
  have p3: "tprocs s3 ! i = counted p" "pths s3 ! n = forked i p (pths s ! n) k" "length (tprocs s3) = length (tprocs s)" "length (pths s3) = length (pths s)"
    using s3 i n(1) by simp_all
  show ?thesis
    using pthread_exec_ok [of i s3 n d k start arg] unfolding p3 counted_simps N_def a_def s3 list_update_overwrite
    using i n(1) pd T(1) src(1,2) st by (simp split: if_splits)
qed

text \<open>The two ends of \<open>thread_create\<close> after \<open>pthread_exec\<close>.\<close>

lemma create_fails:
  assumes "stacks_ok i s" "pthread_fork i s = Inr (Some n, s3)" "pthread_exec n start arg i s3 = Inr (-1, s4)"
    and n: "n < length (pths s)" "q_state (pths s ! n) = UNUSED" "n \<notin> live i s" "kalloc (tkm s) = (Some k, m)"
    and t: "tprocs s4 = (tprocs s)[i := (counted (tprocs s ! i))\<lparr>t_pgdir := Some d'\<rparr>]" "pths s4 = (pths s)[n := forked i (tprocs s ! i) (pths s ! n) k]"
    and inv: "stk_inv (tprocs s ! i) (live i s) (\<lambda>j. pths s ! j) (tkm s) d"
    and d': "vm_ok d' (tkm s4)" "avail d' (tkm s4) = avail d m" "same_k m (tkm s4)" "\<forall>v. mapped d' v = mapped d v"
  shows "\<exists>s'. thread_create start arg i s = Inr (-1, None, s') \<and> stacks_ok i s' \<and> live i s' = live i s \<and> (\<forall>j\<in>live i s. pths s' ! j = pths s ! j)"
proof -
  let ?s = "upd_q n (\<lambda>q. q\<lparr>q_state := UNUSED\<rparr>) s4" and ?p = "tprocs s ! i"
  have i: "i < length (tprocs s)" "length (pths s) = NTHRD" using assms(1) by (auto simp: stacks_ok_def)
  have ok: "vm_ok d (tkm s)" and tf: "t_tf ?p \<noteq> None" using inv by (simp_all add: stk_inv_def)
  note T = take_page [OF ok n(4)]
  have run: "thread_create start arg i s = Inr (-1, None, ?s)" using assms(2,3) by (simp add: thread_create_def)
  have pq: "pths ?s ! j = (if j = n then (forked i ?p (pths s ! n) k)\<lparr>q_state := UNUSED\<rparr> else pths s ! j)" for j
    using t(2) n(1) by (simp add: upd_q_nth)
  have lv: "live i ?s = live i s" unfolding live_def pq using t i n(2) by auto
  have keep: "\<forall>j\<in>live i s. pths ?s ! j = pths s ! j" using n(3) pq by auto
  have "stk_inv ((counted ?p)\<lparr>t_pgdir := Some d'\<rparr>) (live i s) (\<lambda>j. pths ?s ! j) (tkm s4) d'"
    by (rule stk_inv_cong [OF inv])
      (use keep d' T(3,5) inv tf same_k_trans in \<open>auto simp: counted_def stk_inv_def fr_good_def fr_elems_def\<close>)
  then have "stacks_ok i ?s" using i t lv by (auto simp: stacks_ok_def)
  then show ?thesis using run keep lv by blast
qed

lemma create_succeeds:
  fixes i :: nat and s :: tk
  defines "p \<equiv> tprocs s ! i"
  defines "N \<equiv> stk_len p" and "a \<equiv> stack_source p"
  assumes "stacks_ok i s" "1 \<le> t_assign p" "pthread_fork i s = Inr (Some n, s3)" "pthread_exec n start arg i s3 = Inr (0, s4)"
    and n: "n < length (pths s)" "n \<notin> live i s" "kalloc (tkm s) = (Some k, m)"
    and t: "tprocs s4 = (tprocs s)[i := new_stack a N ((a + N) * PGSIZE) d' (counted p)]"
      "pths s4 = (pths s)[n := (forked i p (pths s ! n) k)\<lparr>q_th_sz := (a + N) * PGSIZE\<rparr>]"
    and inv: "stk_inv p (live i s) (\<lambda>j. pths s ! j) (tkm s) d" and sz: "(a + N) * PGSIZE < 2147483648"
    and d': "vm_ok d' (tkm s4)" "avail d' (tkm s4) = avail d m" "same_k m (tkm s4)" "\<forall>v. mapped d' v \<longleftrightarrow> mapped d v \<or> a \<le> v \<and> v < a + N"
  shows "\<exists>s'. thread_create start arg i s = Inr (0, Some (t_assign p + 1), s') \<and> stacks_ok i s' \<and> live i s' = insert n (live i s) \<and>
    (\<forall>j\<in>live i s. pths s' ! j = pths s ! j) \<and> q_tid (pths s' ! n) = t_assign p + 1 \<and> q_state (pths s' ! n) = RUNNABLE \<and>
    q_joiner (pths s' ! n) = Some (t_idx p) \<and> (\<exists>k. q_tf (pths s' ! n) = Some k \<and> tf_eip (tframe s' k) = start \<and> tf_eax (tframe s' k) = 0) \<and>
    t_pgdir (tprocs s' ! i) = Some d' \<and> stk_base (tprocs s' ! i) (pths s' ! n) = a \<and> stk_len (tprocs s' ! i) = N"
proof -
  let ?np = "new_stack a N ((a + N) * PGSIZE) d' (counted p)"
  define q' where "q' = (forked i p (pths s ! n) k)\<lparr>q_th_sz := (a + N) * PGSIZE, q_pid := t_pid p, q_state := RUNNABLE, q_ptable := i, q_joiner := Some (t_idx p)\<rparr>"
  define s5 where "s5 = upd_q n (\<lambda>q. q\<lparr>q_pid := t_pid (tprocs s4 ! i), q_state := RUNNABLE, q_ptable := i, q_joiner := Some (t_idx (tprocs s4 ! i))\<rparr>) s4"
  define s6 where "s6 = s5\<lparr>tframe := (tframe s5)(k := (tframe s5 k)\<lparr>tf_eax := 0, tf_eip := start\<rparr>)\<rparr>"
  have i: "i < length (tprocs s)" "length (pths s) = NTHRD" using assms(4) by (auto simp: stacks_ok_def)
  have np: "tprocs s4 ! i = ?np" using t(1) i by simp
  have npf: "t_pid ?np = t_pid p" "t_idx ?np = t_idx p" "stk_len ?np = N" "t_pgdir ?np = Some d'"
    by (simp_all add: new_stack_def Let_def fr_pop_def stk_len_def N_def)
  have q5: "pths s5 = (pths s)[n := q']" unfolding s5_def upd_q_def np npf using t(2) n(1) by (simp add: q'_def forked_def)
  have q6: "pths s6 ! j = (if j = n then q' else pths s ! j)" "tprocs s6 = tprocs s4" "tkm s6 = tkm s4" "length (pths s6) = length (pths s)" for j
    using q5 n(1) by (simp_all add: s6_def s5_def nth_list_update)
  have qf: "q_tf q' = Some k" "q_tid q' = t_assign p + 1" "q_kstack q' = Some k" "q_pid q' = t_pid p" "q_state q' = RUNNABLE"
    "q_th_sz q' = (a + N) * PGSIZE" "q_joiner q' = Some (t_idx p)" by (simp_all add: q'_def)
  have tn: "pths s5 ! n = q'" "tframe s5 = tframe s4" using q5 n(1) by (simp_all add: s5_def)
  have run: "thread_create start arg i s = Inr (0, Some (t_assign p + 1), s6)"
    using assms(6,7) qf(1,2) tn unfolding s6_def by (simp add: thread_create_def Let_def s5_def [symmetric])
  have lv: "live i s6 = insert n (live i s)"
    unfolding live_def q6 np npf using assms(5) qf(2,4,5) n(1) by (auto simp: live_def p_def)
  have "stk_inv ?np (insert n (live i s)) (\<lambda>j. if j = n then q' else pths s ! j) (tkm s4) d'"
    by (rule stk_inv_create [OF inv _ _ n(2,3) qf(3) d'(1,2,3) d'(4)[unfolded a_def N_def] qf(6)[unfolded a_def N_def] sz[unfolded a_def N_def]])
      (use i n(1) in \<open>auto simp: live_def a_def N_def p_def counted_def\<close>)
  then have "stacks_ok i s6" using i t(1) lv np q6 by (auto simp: stacks_ok_def)
  moreover have "\<exists>k. q_tf q' = Some k \<and> tf_eip (tframe s6 k) = start \<and> tf_eax (tframe s6 k) = 0" using qf(1) by (simp add: s6_def)
  moreover have "stk_base ?np q' = a" using qf(6) npf(3) by (simp add: stk_base_def)
  ultimately show ?thesis using run lv n(2) q6(1,2) qf np npf(3,4) by (intro exI [of _ s6]) auto
qed


end
