(* ===== verification/Th_Join.thy ===== *)
theory Th_Join
  imports Th_Create
begin

text \<open>\<open>thread_join\<close> keeps \<open>stacks_ok\<close>; a freed stack is a hole that \<open>fork\<close> cannot copy.\<close>

lemma join_scan_found:
  assumes "j \<in> set js" "q_pid (pths s ! j) = t_pid (tprocs s ! i)" "q_tid (pths s ! j) = t" "q_joiner (pths s ! j) = Some o'"
    "q_tid (pths s ! o') = t_tid (tprocs s ! i)" "q_state (pths s ! j) = THZOMBIE"
    "\<forall>x\<in>set js. q_pid (pths s ! x) = t_pid (tprocs s ! i) \<and> q_tid (pths s ! x) = t \<longrightarrow> x = j"
  shows "join_scan t i js have' s = Inr (Some j, True)"
  using assms
proof (induction js)
  case (Cons x js)
  show ?case
  proof (cases "x = j")
    case False
    then have n: "q_pid (pths s ! x) \<noteq> t_pid (tprocs s ! i) \<or> q_tid (pths s ! x) \<noteq> t" using Cons.prems(7) by auto
    have "join_scan t i (x # js) have' s = join_scan t i js have' s" unfolding join_scan.simps Let_def if_P [OF n] ..
    also have "\<dots> = Inr (Some j, True)"
    proof (rule Cons.IH [OF _ Cons.prems(2-6)])
      show "j \<in> set js" using Cons.prems(1) False by simp
      show "\<forall>x\<in>set js. q_pid (pths s ! x) = t_pid (tprocs s ! i) \<and> q_tid (pths s ! x) = t \<longrightarrow> x = j"
        using Cons.prems(7) by (meson list.set_intros(2))
    qed
    finally show ?thesis .
  next
    case True
    have "\<not> (q_pid (pths s ! x) \<noteq> t_pid (tprocs s ! i) \<or> q_tid (pths s ! x) \<noteq> t)"
      "\<not> q_tid (pths s ! o') \<noteq> t_tid (tprocs s ! i)" using Cons.prems(2,3,5) True by auto
    moreover have "q_joiner (pths s ! x) = Some o'" "q_state (pths s ! x) = THZOMBIE" using Cons.prems(4,6) True by auto
    ultimately show ?thesis unfolding join_scan.simps Let_def True by (simp only: if_False if_True deref_Some simp_thms)
  qed
next
  case Nil
  from Nil(1) show ?case by simp
qed

text \<open>The invariant after thread \<open>j\<close> is gone.\<close>

lemma stk_inv_join:
  assumes inv: "stk_inv p A Q m d" and j: "j \<in> A" and k: "q_kstack (Q j) = Some k"
    and d': "vm_ok d' m'" "avail d' m' = insert k (avail d m)" "same_k m m'"
      "\<forall>v. mapped d' v \<longleftrightarrow> mapped d v \<and> \<not> (stk_base p (Q j) \<le> v \<and> v < stk_base p (Q j) + stk_len p)"
    and p': "p' = (fr_push (stk_base p (Q j) * PGSIZE) p)\<lparr>t_pgdir := Some d'\<rparr>" and Q': "\<forall>x\<in>A - {j}. Q' x = Q x"
  shows "stk_inv p' (A - {j}) Q' m' d'" "fr_elems p' = fr_elems p @ [stk_base p (Q j) * PGSIZE]"
proof -
  let ?f = "map (\<lambda>x. x div PGSIZE)" and ?b = "stk_base p (Q j)"
  have g: "fr_good p" and al: "\<forall>x\<in>set (fr_elems p). x mod PGSIZE = 0"
    and ar: "area_ok (\<lambda>j. stk_base p (Q j)) A (?f (fr_elems p)) (stk_len p) (npages (t_sz p)) (mapped d)"
    and ks: "\<forall>j\<in>A. \<exists>k. q_kstack (Q j) = Some k \<and> page_ok m k \<and> k \<notin> avail d m" and inj: "inj_on (\<lambda>j. q_kstack (Q j)) A"
    and th: "\<forall>j\<in>A. q_th_sz (Q j) = (stk_base p (Q j) + stk_len p) * PGSIZE"
    and rest: "1 \<le> t_stacksz p" "t_stacksz p \<le> 100" "t_sz p < 2147483648" "t_tf p \<noteq> None"
    using inv by (simp_all add: stk_inv_def)
  have fin: "finite A" using ar by (simp add: area_ok_def)
  have "card A + t_freed p \<le> NTHRD" using ar fin by (simp add: area_ok_def areas_def fr_elems_length)
  moreover have "0 < card A" using fin j by (auto simp: card_gt_0_iff)
  ultimately have room: "length (fr_elems p) < NTHRD" by (simp add: fr_elems_length)
  have e: "fr_elems p' = fr_elems (fr_push (?b * PGSIZE) p)" "fr_good p' = fr_good (fr_push (?b * PGSIZE) p)"
    by (simp_all add: p' fr_elems_def fr_good_def)
  show fe: "fr_elems p' = fr_elems p @ [?b * PGSIZE]" using freed.enq_elems [OF g room] e by simp
  have fg: "fr_good p'" using freed.enq_good [OF g room] e by simp
  have l: "stk_len p' = stk_len p" "stk_base p' q = stk_base p q" for q
    by (simp_all add: p' fr_push_def stk_len_def stk_base_def)
  have other: "t_stacksz p' = t_stacksz p" "t_tf p' = t_tf p" "t_pgdir p' = Some d'" "t_sz p' = t_sz p" by (simp_all add: p' fr_push_def)
  have old: "area_ok (\<lambda>j. stk_base p (Q j)) (A - {j}) (?f (fr_elems p) @ [?b]) (stk_len p) (npages (t_sz p)) (mapped d')"
    by (rule area_retire [OF ar j]) (use d'(4) in auto)
  have "stk_base p (Q x) = stk_base p' (Q' x)" if "x \<in> A - {j}" for x using Q' that l(2) by simp
  then have "area_ok (\<lambda>j. stk_base p' (Q' j)) (A - {j}) (?f (fr_elems p) @ [?b]) (stk_len p) (npages (t_sz p)) (mapped d')"
    by (rule area_ok_cong [OF _ refl old])
  then have "area_ok (\<lambda>j. stk_base p' (Q' j)) (A - {j}) (?f (fr_elems p')) (stk_len p') (npages (t_sz p')) (mapped d')"
    unfolding l(1) other(4) fe by simp
  moreover have "\<forall>x\<in>A - {j}. \<exists>k. q_kstack (Q' x) = Some k \<and> page_ok m' k \<and> k \<notin> avail d' m'"
  proof
    fix x assume x: "x \<in> A - {j}"
    then obtain y where y: "q_kstack (Q x) = Some y" "page_ok m y" "y \<notin> avail d m" using ks by blast
    have "q_kstack (Q x) \<noteq> q_kstack (Q j)" using inj x j unfolding inj_on_def by blast
    then have "y \<noteq> k" using y(1) k by simp
    then show "\<exists>k. q_kstack (Q' x) = Some k \<and> page_ok m' k \<and> k \<notin> avail d' m'"
      using y x Q' d'(2,3) by (simp add: page_ok_def same_k_def)
  qed
  moreover have "inj_on (\<lambda>j. q_kstack (Q' j)) (A - {j})" using inj Q' by (auto simp: inj_on_def)
  moreover have "\<forall>x\<in>A - {j}. q_th_sz (Q' x) = (stk_base p' (Q' x) + stk_len p') * PGSIZE" unfolding l using th Q' by simp
  moreover have "\<forall>x\<in>set (fr_elems p'). x mod PGSIZE = 0" using al by (simp add: fe)
  ultimately show "stk_inv p' (A - {j}) Q' m' d'" using d'(1) fg other rest unfolding stk_inv_def by simp
qed

lemma join_reap_ok:
  assumes ok: "stacks_ok i s" and j: "j \<in> live i s"
  shows "\<exists>s' k. join_reap j i s = Inr (Joined (q_retval (pths s ! j)), s') \<and> stacks_ok i s' \<and> live i s' = live i s - {j} \<and>
    fr_elems (tprocs s' ! i) = fr_elems (tprocs s ! i) @ [stk_base (tprocs s ! i) (pths s ! j) * PGSIZE] \<and>
    q_state (pths s' ! j) = UNUSED \<and> q_kstack (pths s ! j) = Some k \<and> k \<in> set (kfl (tkm s')) \<and>
    (\<forall>x. x \<noteq> j \<longrightarrow> pths s' ! x = pths s ! x)"
proof -
  let ?p = "tprocs s ! i" and ?A = "live i s" and ?q = "pths s ! j"
  let ?b = "stk_base ?p ?q" and ?N = "stk_len ?p"
  obtain d where i: "i < length (tprocs s)" "length (pths s) = NTHRD" and inv: "stk_inv ?p ?A (\<lambda>j. pths s ! j) (tkm s) d"
    using stacks_okE [OF ok] by blast
  have vd: "vm_ok d (tkm s)" and pd: "t_pgdir ?p = Some d" and th: "q_th_sz ?q = (?b + ?N) * PGSIZE" and sz: "t_sz ?p < 2147483648"
    and ar: "area_ok (\<lambda>j. stk_base ?p (pths s ! j)) ?A (map (\<lambda>x. x div PGSIZE) (fr_elems ?p)) ?N (npages (t_sz ?p)) (mapped d)"
    using inv j by (simp_all add: stk_inv_def)
  obtain k where k: "q_kstack ?q = Some k" "page_ok (tkm s) k" "k \<notin> avail d (tkm s)" using inv j by (auto simp: stk_inv_def)
  have jl: "j < length (pths s)" using j by (simp add: live_def)
  have "?b + ?N \<le> npages (t_sz ?p)"
    using ar areas_in(1) [of ?A j "\<lambda>j. stk_base ?p (pths s ! j)"] j by (auto simp: area_ok_def)
  then have bN: "?b + ?N \<le> KERNPAGE" using npages_bound [OF sz] by simp
  from give_page [OF vd k(3,2)] obtain m where m: "kfree k (tkm s) = Inr m" "vm_ok d m" "avail d m = insert k (avail d (tkm s))"
    "same_k (tkm s) m" "set (kfl m) = insert k (set (kfl (tkm s)))" by blast
  from dealloc_loop_ok [OF m(2) bN, of ?b] obtain d' m' where
    r: "dealloc_loop ?b (?b + ?N) d m = Inr (d', m')" "shrinks d m d' m'" "pd_page d' = pd_page d" "pd_tab d' = pd_tab d"
      "pd_pte d' = (\<lambda>x. if ?b \<le> x \<and> x < ?b + ?N then None else pd_pte d x)" by blast
  have sub: "sub32 (q_th_sz ?q) ((t_stacksz ?p + 1) * PGSIZE) = ?b * PGSIZE"
  proof -
    have e: "(t_stacksz ?p + 1) * PGSIZE = ?N * PGSIZE" by (simp add: stk_len_def)
    have "(?b + ?N) * PGSIZE < 4294967296" using bN by simp
    then have "sub32 ((?b + ?N) * PGSIZE) (?N * PGSIZE) = (?b + ?N) * PGSIZE - ?N * PGSIZE" by (intro sub32_small) simp_all
    then show ?thesis unfolding th e by (simp add: diff_mult_distrib [symmetric])
  qed
  have de: "deallocuvm (q_th_sz ?q) (?b * PGSIZE) d m = Inr (?b * PGSIZE, d', m')"
  proof -
    have "?b * PGSIZE < (?b + ?N) * PGSIZE" by (simp add: stk_len_def)
    moreover have "round_up (?b * PGSIZE) = ?b" using round_up_npages [of "?b * PGSIZE"] bN by simp
    ultimately show ?thesis unfolding th deallocuvm_def npages_mult using r(1) by simp
  qed
  define p' where "p' = (fr_push (?b * PGSIZE) ?p)\<lparr>t_pgdir := Some d'\<rparr>"
  obtain s' where s': "join_reap j i s = Inr (Joined (q_retval ?q), s')" "tprocs s' = (tprocs s)[i := p']" "tkm s' = m'"
    "length (pths s') = length (pths s)" "\<forall>x. x \<noteq> j \<longrightarrow> pths s' ! x = pths s ! x" "q_state (pths s' ! j) = UNUSED"
    using k(1) m(1) pd de i jl unfolding join_reap_def sub Let_def
    by (simp add: upd_t_def upd_q_def set_mem_def p'_def fr_push_def)
  have pp: "tprocs s' ! i = p'" using s'(2) i by simp
  have lv: "live i s' = ?A - {j}"
  proof (rule set_eqI)
    have "t_pid p' = t_pid ?p" by (simp add: p'_def fr_push_def)
    then show "x \<in> live i s' \<longleftrightarrow> x \<in> ?A - {j}" for x
      using s'(4,6) s'(5)[rule_format, of x] pp by (cases "x = j") (simp_all add: live_def)
  qed
  have D: "vm_ok d' m'" "avail d' m' = insert k (avail d (tkm s))" "same_k (tkm s) m'"
    "\<forall>v. mapped d' v \<longleftrightarrow> mapped d v \<and> \<not> (?b \<le> v \<and> v < ?b + ?N)"
    using r(2,5) m(3,4) same_k_trans by (auto simp: shrinks_def mapped_def)
  have Q: "\<forall>x\<in>?A - {j}. pths s' ! x = pths s ! x" using s'(5) by simp
  note J = stk_inv_join [OF inv j k(1) D p'_def Q]
  have "stacks_ok i s'" using J(1) i s'(2-4) pp lv by (auto simp: stacks_ok_def)
  moreover have "k \<in> set (kfl m')" using r(2) m(5) by (auto simp: shrinks_def)
  ultimately show ?thesis using s' lv J(2) pp k(1) by (intro exI [of _ s'] exI [of _ k]) simp
qed

lemma join_found:
  assumes "j \<in> live i s" "q_tid (pths s ! j) = t" "q_state (pths s ! j) = THZOMBIE"
    and "q_joiner (pths s ! j) = Some o'" "q_tid (pths s ! o') = t_tid (tprocs s ! i)"
    and "\<forall>x<length (pths s). q_pid (pths s ! x) = t_pid (tprocs s ! i) \<and> q_tid (pths s ! x) = t \<longrightarrow> x = j"
  shows "thread_join t i s = join_reap j i s"
proof -
  have "t \<noteq> MAINTH" using assms(1,2) by (auto simp: live_def)
  moreover have "join_scan t i [0..<length (pths s)] False s = Inr (Some j, True)"
    by (rule join_scan_found) (use assms in \<open>auto simp: live_def\<close>)
  ultimately show ?thesis by (simp add: thread_join_def)
qed

text \<open>C4: \<open>thread_join\<close> of a thread that has exited returns its value and gives everything back: its slot and its kernel
  stack are free, its user stack is unmapped and is the last in the queue of freed stacks, the other threads are unchanged, and
  the stacks that remain are still apart.\<close>

theorem thread_join_reaps:
  assumes "stacks_ok i s" "j \<in> live i s" "q_tid (pths s ! j) = t" "q_state (pths s ! j) = THZOMBIE"
    and "q_joiner (pths s ! j) = Some o'" "q_tid (pths s ! o') = t_tid (tprocs s ! i)"
    and "\<forall>x<length (pths s). q_pid (pths s ! x) = t_pid (tprocs s ! i) \<and> q_tid (pths s ! x) = t \<longrightarrow> x = j"
  shows "\<exists>s' k. thread_join t i s = Inr (Joined (q_retval (pths s ! j)), s') \<and> stacks_ok i s' \<and> live i s' = live i s - {j} \<and>
    fr_elems (tprocs s' ! i) = fr_elems (tprocs s ! i) @ [stk_base (tprocs s ! i) (pths s ! j) * PGSIZE] \<and>
    q_state (pths s' ! j) = UNUSED \<and> q_kstack (pths s ! j) = Some k \<and> k \<in> set (kfl (tkm s')) \<and>
    (\<forall>x. x \<noteq> j \<longrightarrow> pths s' ! x = pths s ! x)"
  using join_reap_ok [OF assms(1,2)] join_found [OF assms(2-7)] by simp

section \<open>Holes\<close>

text \<open>The first page that is missing ends the copy, unless memory runs out before it.\<close>

lemma copyuvm_hole:
  assumes "vm_ok par m" "256 \<le> kdata m" "kdata m \<le> PHYSPAGES" "sz < 2147483648" "v < npages sz" "pd_pte par v = None"
  shows "(\<exists>m'. copyuvm par sz m = Inr (None, m') \<and> all_free m m') \<or>
    copyuvm par sz m \<in> {Inl (Panic ''copyuvm: pte should exist''), Inl (Panic ''copyuvm: page not present'')}"
proof -
  define h where "h = (LEAST v. pd_pte par v = None)"
  have h: "pd_pte par h = None" "\<forall>v<h. pd_pte par v \<noteq> None" "h \<le> v"
    unfolding h_def using LeastI [of "\<lambda>v. pd_pte par v = None", OF assms(6)] not_less_Least Least_le [of "\<lambda>v. pd_pte par v = None", OF assms(6)] by auto
  then have "h < npages sz" using assms(5) by simp
  from copyuvm_prefix [OF assms(1-4) less_imp_le [OF this] h(2)] show ?thesis
    using h(1) by (auto simp: upt_conv_Cons [OF \<open>h < npages sz\<close>])
qed

lemma allocproc_Some:
  assumes "allocproc s = (Some np, s1)"
  shows "\<exists>k. np < length (tprocs s) \<and> t_state (tprocs s ! np) = UNUSED \<and> kalloc (tkm s) = (Some k, tkm s1) \<and>
    (\<forall>x. x \<noteq> np \<longrightarrow> tprocs s1 ! x = tprocs s ! x) \<and> t_kstack (tprocs s1 ! np) = Some k"
proof -
  obtain j s2 where 1: "find_idx (\<lambda>p. t_state p = UNUSED) (tprocs s) = Some np" "allocthread s = (Some j, s2)"
    and s1: "s1 = upd_t np (new_proc (tnextpid s2) j (q_kstack (pths s2 ! j))) (upd_q j (\<lambda>q. q\<lparr>q_pid := tnextpid s2\<rparr>) (s2\<lparr>tnextpid := tnextpid s2 + 1\<rparr>))"
    using assms by (auto simp: allocproc_def Let_def split: option.splits prod.splits)
  from allocthread_Some [OF 1(2)] obtain k where k: "j < length (pths s)" "kalloc (tkm s) = (Some k, tkm s2)" "tprocs s2 = tprocs s"
    "q_kstack (pths s2 ! j) = Some k" by auto
  then show ?thesis using find_idx_SomeD [OF 1(1)] unfolding s1 by (simp add: upd_t_nth new_proc_def)
qed

text \<open>A freed stack is a run of at least two pages, below the size of the process, that are not mapped.\<close>

lemma stack_hole:
  assumes "stacks_ok i s" "t_freed (tprocs s ! i) \<noteq> 0"
  shows "\<exists>d v. t_pgdir (tprocs s ! i) = Some d \<and> vm_ok d (tkm s) \<and> t_sz (tprocs s ! i) < 2147483648 \<and> v + 1 < npages (t_sz (tprocs s ! i)) \<and> \<not> mapped d v"
proof -
  let ?p = "tprocs s ! i"
  obtain d where inv: "stk_inv ?p (live i s) (\<lambda>j. pths s ! j) (tkm s) d" using stacks_okE [OF assms(1)] by blast
  have "fr_elems ?p \<noteq> []" using assms(2) fr_elems_length [of ?p] by auto
  then obtain x where x: "x \<in> set (map (\<lambda>x. x div PGSIZE) (fr_elems ?p))" by (cases "fr_elems ?p") auto
  have ar: "area_ok (\<lambda>j. stk_base ?p (pths s ! j)) (live i s) (map (\<lambda>x. x div PGSIZE) (fr_elems ?p)) (stk_len ?p) (npages (t_sz ?p)) (mapped d)"
    and st: "1 \<le> t_stacksz ?p" using inv by (simp_all add: stk_inv_def)
  then have "x + stk_len ?p \<le> npages (t_sz ?p)" using areas_in(2) [OF x] by (simp add: area_ok_def)
  moreover have "\<not> mapped d x" using ar x by (auto simp: area_ok_def stk_len_def)
  ultimately show ?thesis using inv st by (intro exI [of _ d] exI [of _ x]) (simp add: stk_inv_def stk_len_def)
qed

text \<open>C14: between a \<open>thread_join\<close> and the reuse of the stack it freed, \<open>fork\<close> cannot succeed: the stack is a hole below
  the size of the process, on which \<open>copyuvm\<close> panics the kernel unless the tables or the memory are exhausted before it.\<close>

theorem fork_hole_fails:
  assumes "stacks_ok i s" "t_freed (tprocs s ! i) \<noteq> 0" "t_state (tprocs s ! i) \<noteq> UNUSED" "256 \<le> kdata (tkm s)" "kdata (tkm s) \<le> PHYSPAGES"
  shows "(\<exists>s'. fork i s = Inr (-1, s') \<and> set (kfl (tkm s')) = set (kfl (tkm s))) \<or>
    fork i s \<in> {Inl (Panic ''copyuvm: pte should exist''), Inl (Panic ''copyuvm: page not present'')}"
proof -
  let ?p = "tprocs s ! i"
  from stack_hole [OF assms(1,2)] obtain d x where pd: "t_pgdir ?p = Some d" and ok: "vm_ok d (tkm s)" and sz: "t_sz ?p < 2147483648"
    and hole: "x < npages (t_sz ?p)" "pd_pte d x = None" by (auto simp: mapped_def dest: Suc_lessD)
  obtain a s1 where a: "allocproc s = (a, s1)" by (cases "allocproc s")
  show ?thesis
  proof (cases a)
    case None
    then have "tkm s1 = tkm s" using a unfolding allocproc_def
      by (auto split: option.splits prod.splits dest: allocthread_None simp: Let_def)
    then show ?thesis using a None by (simp add: fork_def)
  next
    case (Some np)
    obtain k where s1: "kalloc (tkm s) = (Some k, tkm s1)" "tprocs s1 ! i = ?p" "t_kstack (tprocs s1 ! np) = Some k"
      using allocproc_Some [OF a [unfolded Some]] assms(3) by metis
    note t = take_page [OF ok s1(1)]
    have kd: "256 \<le> kdata (tkm s1)" "kdata (tkm s1) \<le> PHYSPAGES" using t(5) assms(4,5) by (simp_all add: same_k_def)
    from copyuvm_hole [OF t(1) kd sz hole] show ?thesis
    proof (elim disjE exE conjE)
      fix m' assume c: "copyuvm d (t_sz ?p) (tkm s1) = Inr (None, m')" "all_free (tkm s1) m'"
      have "page_ok m' k" using t(4,5) c(2) by (simp add: all_free_def page_ok_def same_k_def)
      then obtain m where "kfree k m' = Inr m" "set (kfl m) = insert k (set (kfl m'))"
        by (auto simp: kfree_def guardR_def page_ok_def)
      then show ?thesis using a Some pd s1(2,3) c t(7) by (simp add: fork_def all_free_def)
    qed (use a Some pd s1(2) in \<open>auto simp: fork_def\<close>)
  qed
qed

end
