(* ===== verification/Th_Example.thy ===== *)
theory Th_Example
  imports Th_Join
begin

text \<open>
  Small machines on which the theorems about threads apply: one process in slot 0, its main
  thread in thread slot 0, the text of the program in page 0.
\<close>

section \<open>Machines\<close>

definition the_proc :: "pgdir \<Rightarrow> nat \<Rightarrow> tproc" where
  "the_proc d sz = no_proc\<lparr>t_pgdir := Some d, t_cwd := Some 0, t_assign := 2, t_stacksz := 1, t_pid := 1, t_sz := sz, t_th_sz := 4096,
     t_kstack := Some 350, t_state := RUNNING, t_tf := Some 350, t_ctx := Some 350, t_tid := MAINTH, t_joiner := Some 0\<rparr>"

definition main_thread :: pthread where
  "main_thread = no_thread\<lparr>q_th_sz := 4096, q_pid := 1, q_kstack := Some 350, q_state := RUNNABLE, q_tf := Some 350, q_ctx := Some 350,
     q_tid := MAINTH, q_joiner := Some 0\<rparr>"

text \<open>A second thread whose guard page is page 1 and whose stack is page 2.\<close>

definition other_thread :: "procstate \<Rightarrow> pthread" where
  "other_thread st = no_thread\<lparr>q_th_sz := 12288, q_pid := 1, q_kstack := Some 351, q_state := st, q_tf := Some 351, q_ctx := Some 351,
     q_tid := 2, q_joiner := Some 0, q_retval := 7\<rparr>"

definition machine :: "tproc \<Rightarrow> pthread list \<Rightarrow> tk" where
  "machine p qs = \<lparr>tprocs = p # replicate 63 no_proc, pths = qs, tinit = 0, tnextpid = 2, tkm = small_machine,
     tframe = (\<lambda>_. tf_zero), tctx = (\<lambda>_. Forkret), tfile_ref = (\<lambda>_. 0), tinode_ref = (\<lambda>_. 1), tout = []\<rparr>"

definition three_pages :: pgdir where
  "three_pages = \<lparr>pd_page = 300, pd_tab = [0 \<mapsto> 301], pd_pte = [0 \<mapsto> \<lparr>pte_page = 302, pte_w = True, pte_u = True\<rparr>,
     1 \<mapsto> \<lparr>pte_page = 303, pte_w = True, pte_u = False\<rparr>, 2 \<mapsto> \<lparr>pte_page = 304, pte_w = True, pte_u = True\<rparr>]\<rparr>"

lemma three_pages_ok: "vm_ok three_pages small_machine"
proof -
  have o: "own three_pages = [Dir \<mapsto> 300, Tab 0 \<mapsto> 301, Pg 0 \<mapsto> 302, Pg 1 \<mapsto> 303, Pg 2 \<mapsto> 304]"
  proof (rule ext)
    show "own three_pages s = [Dir \<mapsto> 300, Tab 0 \<mapsto> 301, Pg 0 \<mapsto> 302, Pg 1 \<mapsto> 303, Pg 2 \<mapsto> 304] s" for s
      by (cases s) (auto simp: three_pages_def)
  qed
  have "pd_wf three_pages" by (auto simp: pd_wf_def three_pages_def has_pte_def split: if_splits)
  moreover have "ran (own three_pages) = {300, 301, 302, 303, 304}" unfolding o by auto
  moreover have "inj_on (own three_pages) (dom (own three_pages))" unfolding o by (auto simp: inj_on_def)
  moreover have "kend small_machine = 280" "kfl small_machine = [400..<1000]" unfolding small_machine_def by (simp_all only: kmem.simps)
  ultimately show ?thesis unfolding vm_ok_def by (simp del: upt_rec_numeral)
qed

lemma small_kmem: "kend small_machine = 280" "set (kfl small_machine) = {400..<1000}"
  unfolding small_machine_def by (simp_all only: kmem.simps set_upt)

lemma machine_simps [simp]:
  "tprocs (machine p qs) ! 0 = p" "length (tprocs (machine p qs)) = 64" "pths (machine p qs) = qs" "tkm (machine p qs) = small_machine"
  by (simp_all add: machine_def)

text \<open>One thread, or two of which the second is in state \<open>st\<close>.\<close>

definition one_thread :: tk where
  "one_thread = machine (the_proc one_page 4096) (main_thread # replicate 255 no_thread)"

definition two_threads :: "procstate \<Rightarrow> tk" where
  "two_threads st = machine (the_proc three_pages 12288) (main_thread # other_thread st # replicate 254 no_thread)"

lemma thread_nth:
  "(main_thread # replicate 255 no_thread) ! j = (if j = 0 then main_thread else if j < 256 then no_thread else (main_thread # replicate 255 no_thread) ! j)"
  "(main_thread # other_thread st # replicate 254 no_thread) ! k =
    (if k = 0 then main_thread else if k = 1 then other_thread st else if k < 256 then no_thread
     else (main_thread # other_thread st # replicate 254 no_thread) ! k)"
  by (auto simp: nth_Cons')

lemma one_thread_live: "live 0 one_thread = {}"
proof -
  have "j \<notin> live 0 one_thread" for j
  proof
    assume j: "j \<in> live 0 one_thread"
    then have "j < 256" by (simp add: live_def one_thread_def)
    then have "pths one_thread ! j = (if j = 0 then main_thread else no_thread)" unfolding one_thread_def machine_simps by (subst thread_nth) simp
    with j show False by (auto simp: live_def one_thread_def main_thread_def no_thread_def split: if_splits)
  qed
  then show ?thesis by blast
qed

lemma two_threads_nth: "j < 256 \<Longrightarrow> pths (two_threads st) ! j = (if j = 0 then main_thread else if j = 1 then other_thread st else no_thread)"
  unfolding two_threads_def machine_simps by (subst thread_nth) simp

lemma two_threads_live: "st \<noteq> UNUSED \<Longrightarrow> live 0 (two_threads st) = {1}"
proof -
  assume st: "st \<noteq> UNUSED"
  have l: "length (pths (two_threads st)) = 256" "t_pid (tprocs (two_threads st) ! 0) = 1"
    by (simp_all add: two_threads_def the_proc_def)
  have "j \<in> live 0 (two_threads st) \<longleftrightarrow> j = 1" for j
    using two_threads_nth [of j st] two_threads_nth [of 1 st] st unfolding live_def l
    by (cases "j < 256") (auto simp: main_thread_def no_thread_def other_thread_def)
  then show ?thesis by blast
qed

lemma the_proc_simps [simp]:
  "t_pgdir (the_proc d sz) = Some d" "t_stacksz (the_proc d sz) = 1" "t_sz (the_proc d sz) = sz" "t_freed (the_proc d sz) = 0"
  "t_assign (the_proc d sz) = 2" "t_tf (the_proc d sz) = Some 350" "t_idx (the_proc d sz) = 0" "t_tid (the_proc d sz) = MAINTH" "t_pid (the_proc d sz) = 1"
  "fr_elems (the_proc d sz) = []" "fr_good (the_proc d sz)" "stk_len (the_proc d sz) = 2"
  by (simp_all add: the_proc_def no_proc_def fr_elems_def fr_good_def stk_len_def)

lemma one_thread_ok: "stacks_ok 0 one_thread"
proof -
  have n: "npages 4096 = 1" by (simp add: npages_def)
  have "stk_inv (the_proc one_page 4096) {} Q small_machine one_page" for Q
    unfolding stk_inv_def using one_page_ok by (simp add: area_ok_def areas_def apart_def n mapped_def one_page_def)
  moreover have "tprocs one_thread ! 0 = the_proc one_page 4096" "tkm one_thread = small_machine" "length (tprocs one_thread) = 64"
    "length (pths one_thread) = NTHRD" by (simp_all add: one_thread_def)
  ultimately show ?thesis unfolding stacks_ok_def one_thread_live by auto
qed

lemma two_threads_ok: "st \<noteq> UNUSED \<Longrightarrow> stacks_ok 0 (two_threads st)"
proof -
  assume st: "st \<noteq> UNUSED"
  have n: "npages 12288 = 3" by (simp add: npages_def)
  have q: "q_th_sz (other_thread st) = 12288" "q_kstack (other_thread st) = Some 351" by (simp_all add: other_thread_def)
  have b: "stk_base (the_proc three_pages 12288) (other_thread st) = 1" by (simp add: stk_base_def q)
  have o: "own three_pages sl \<noteq> Some 351" for sl by (cases sl) (auto simp: three_pages_def)
  have "351 \<notin> avail three_pages small_machine" using o small_kmem(2) by (auto simp: avail_def ran_def)
  moreover have "page_ok small_machine 351" by (simp add: page_ok_def small_kmem)
  moreover have m: "mapped three_pages v \<longleftrightarrow> v < 3" for v by (auto simp: mapped_def three_pages_def split: if_splits)
  moreover have "pths (two_threads st) ! 1 = other_thread st" using two_threads_nth [of 1 st] by simp
  ultimately have "stk_inv (the_proc three_pages 12288) {1} (\<lambda>j. pths (two_threads st) ! j) small_machine three_pages"
    unfolding stk_inv_def using three_pages_ok by (simp add: area_ok_def areas_def apart_def n b q)
  moreover have "tprocs (two_threads st) ! 0 = the_proc three_pages 12288" "tkm (two_threads st) = small_machine" "length (tprocs (two_threads st)) = 64"
    "length (pths (two_threads st)) = NTHRD" by (simp_all add: two_threads_def)
  ultimately show ?thesis unfolding stacks_ok_def two_threads_live [OF st] by auto
qed

text \<open>After the second thread is joined.\<close>

definition hole_proc :: tproc where
  "hole_proc = (the_proc one_page 12288)\<lparr>t_freed_sz := (replicate NTHRD 0)[0 := 4096], t_back := 1, t_freed := 1\<rparr>"

definition hole_machine :: tk where
  "hole_machine = machine hole_proc (main_thread # replicate 255 no_thread)"

lemma hole_machine_ok: "stacks_ok 0 hole_machine"
proof -
  have n: "npages 12288 = 3" by (simp add: npages_def)
  have f: "fr_elems hole_proc = [4096]" "fr_good hole_proc" "stk_len hole_proc = 2"
    by (simp_all add: hole_proc_def the_proc_def no_proc_def fr_elems_def fr_good_def stk_len_def)
  have p: "t_pgdir hole_proc = Some one_page" "t_stacksz hole_proc = 1" "t_sz hole_proc = 12288" "t_tf hole_proc = Some 350" "t_pid hole_proc = t_pid (the_proc one_page 4096)"
    by (simp_all add: hole_proc_def)
  have "mapped one_page v \<longleftrightarrow> v = 0" for v by (auto simp: mapped_def one_page_def split: if_splits)
  then have "stk_inv hole_proc {} Q small_machine one_page" for Q
    unfolding stk_inv_def f p n using one_page_ok f(2) by (simp add: area_ok_def areas_def apart_def n)
  moreover have "live 0 hole_machine = live 0 one_thread" by (simp add: live_def hole_machine_def one_thread_def p(5))
  ultimately show ?thesis unfolding stacks_ok_def one_thread_live by (auto simp: hole_machine_def)
qed

section \<open>The theorems on these machines\<close>


theorem thread_join_reaps_witness:
  "\<exists>s'. thread_join 2 0 (two_threads THZOMBIE) = Inr (Joined 7, s') \<and> stacks_ok 0 s' \<and> live 0 s' = {} \<and> fr_elems (tprocs s' ! 0) = [4096] \<and>
    351 \<in> set (kfl (tkm s'))"
proof -
  let ?s = "two_threads THZOMBIE" and ?q = "other_thread THZOMBIE"
  have q: "pths ?s ! 1 = ?q" "pths ?s ! 0 = main_thread" using two_threads_nth [of 1] two_threads_nth [of 0] by simp_all
  have p: "tprocs ?s ! 0 = the_proc three_pages 12288" by (simp add: two_threads_def)
  have f: "q_tid ?q = 2" "q_state ?q = THZOMBIE" "q_joiner ?q = Some 0" "q_retval ?q = 7" "q_kstack ?q = Some 351" "q_th_sz ?q = 12288"
    "q_tid main_thread = MAINTH" by (simp_all add: other_thread_def main_thread_def)
  have b: "stk_base (the_proc three_pages 12288) ?q = 1" by (simp add: stk_base_def f)
  have u: "x = 1" if "x < 256" "q_pid (pths ?s ! x) = 1" "q_tid (pths ?s ! x) = 2" for x
    using that two_threads_nth [of x THZOMBIE] by (auto simp: main_thread_def no_thread_def split: if_splits)
  have n: "length (pths ?s) = 256" by (simp add: two_threads_def)
  have l: "1 \<in> live 0 ?s" by (simp add: two_threads_live)
  have o: "stacks_ok 0 ?s" by (simp add: two_threads_ok)
  show ?thesis
    using thread_join_reaps [OF o l, of 2 0] u unfolding q p f b n by (simp add: two_threads_live) blast
qed

theorem fork_hole_fails_witness:
  "(\<exists>s'. fork 0 hole_machine = Inr (-1, s')) \<or>
    fork 0 hole_machine \<in> {Inl (Panic ''copyuvm: pte should exist''), Inl (Panic ''copyuvm: page not present'')}"
proof -
  have p: "tprocs hole_machine ! 0 = hole_proc" "tkm hole_machine = small_machine" by (simp_all add: hole_machine_def)
  have f: "t_freed hole_proc = 1" "t_state hole_proc = RUNNING" by (simp_all add: hole_proc_def the_proc_def)
  have k: "kdata small_machine = 260" unfolding small_machine_def by (simp only: kmem.simps)
  show ?thesis using fork_hole_fails [OF hole_machine_ok] unfolding p f k by auto
qed

end
