(* ===== verification/Th_Life.thy ===== *)
theory Th_Life
  imports Th_Example
begin

text \<open>
  The end of a thread: \<open>thread_exit\<close> of a thread whose creator sleeps in \<open>thread_join\<close>, the switch to
  the creator and the rest of its call.
\<close>

text \<open>The process slot holds what the table says of the thread that wears it.\<close>

definition wears :: "nat \<Rightarrow> nat \<Rightarrow> tk \<Rightarrow> bool" where
  "wears i j s \<longleftrightarrow> (let p = tprocs s ! i; q = pths s ! j in
     t_idx p = j \<and> t_pid p = q_pid q \<and> t_tid p = q_tid q \<and> t_th_sz p = q_th_sz q \<and> t_kstack p = q_kstack q \<and> t_joiner p = q_joiner q)"

lemma stk_inv_same:
  assumes "stk_inv p A Q m d" "\<And>j. j \<in> A \<Longrightarrow> q_th_sz (Q' j) = q_th_sz (Q j) \<and> q_kstack (Q' j) = q_kstack (Q j)"
    "t_pgdir p' = t_pgdir p" "t_stacksz p' = t_stacksz p" "t_sz p' = t_sz p" "t_tf p' \<noteq> None"
    "t_freed_sz p' = t_freed_sz p" "t_front p' = t_front p" "t_back p' = t_back p" "t_freed p' = t_freed p"
  shows "stk_inv p' A Q' m d"
proof -
  have l: "stk_len p' = stk_len p" "fr_elems p' = fr_elems p" "fr_good p' = fr_good p"
    using assms(4,7-10) by (simp_all add: stk_len_def fr_elems_def fr_good_def)
  have b: "stk_base p' (Q' j) = stk_base p (Q j)" if "j \<in> A" for j using assms(2) [OF that] l(1) by (simp add: stk_base_def)
  have ar: "area_ok (\<lambda>j. stk_base p (Q j)) A (map (\<lambda>x. x div PGSIZE) (fr_elems p)) (stk_len p) (npages (t_sz p)) (mapped d)"
    using assms(1) by (simp add: stk_inv_def)
  have "area_ok (\<lambda>j. stk_base p' (Q' j)) A (map (\<lambda>x. x div PGSIZE) (fr_elems p)) (stk_len p) (npages (t_sz p)) (mapped d)"
    by (rule area_ok_cong [OF _ refl ar]) (simp add: b)
  moreover have "inj_on (\<lambda>j. q_kstack (Q' j)) A" using assms(1,2) by (simp add: stk_inv_def inj_on_def)
  moreover have "\<forall>j\<in>A. \<exists>k. q_kstack (Q' j) = Some k \<and> page_ok m k \<and> k \<notin> avail d m" using assms(1,2) by (simp add: stk_inv_def)
  moreover have "\<forall>j\<in>A. q_th_sz (Q' j) = (stk_base p' (Q' j) + stk_len p) * PGSIZE" using assms(1,2) b by (simp add: stk_inv_def)
  ultimately show ?thesis using assms(1,3-6) l by (simp add: stk_inv_def)
qed

text \<open>Up to the moment when the woken creator is back in \<open>thread_join\<close>.\<close>

lemma exit_switch:
  assumes "wears i j s" "i < length (tprocs s)" "j < length (pths s)" "o' < length (pths s)" "o' \<noteq> j" "t_tid (tprocs s ! i) \<noteq> MAINTH"
    and "t_joiner (tprocs s ! i) = Some o'" "q_state (pths s ! o') = SLEEPING" "q_chan (pths s ! o') = Some (ChSlot o')"
    and "q_kstack (pths s ! o') = Some k" "t_pgdir (tprocs s ! i) = Some d"
  shows "\<exists>s1 s3. thread_exit v i s = Inr s1 \<and> q_state (pths (mvProcToThread i j s1) ! o') = RUNNABLE \<and>
    dispatch i o' (mvProcToThread i j s1) = Inr s3 \<and> tkm s3 = tkm s \<and> length (tprocs s3) = length (tprocs s) \<and> length (pths s3) = length (pths s) \<and>
    (let p = tprocs s ! i; q = pths s ! o' in
      tprocs s3 ! i = p\<lparr>t_pid := q_pid q, t_th_sz := q_th_sz q, t_kstack := Some k, t_state := RUNNING, t_chan := q_chan q, t_tf := q_tf q,
        t_ctx := q_ctx q, t_tid := q_tid q, t_joiner := q_joiner q, t_idx := o'\<rparr>) \<and>
    q_state (pths s3 ! j) = THZOMBIE \<and> q_retval (pths s3 ! j) = v \<and>
    (\<forall>x<length (pths s). q_pid (pths s3 ! x) = q_pid (pths s ! x) \<and> q_tid (pths s3 ! x) = q_tid (pths s ! x) \<and> q_th_sz (pths s3 ! x) = q_th_sz (pths s ! x) \<and>
      q_kstack (pths s3 ! x) = q_kstack (pths s ! x) \<and> q_joiner (pths s3 ! x) = q_joiner (pths s ! x) \<and>
      (x \<noteq> j \<longrightarrow> (q_state (pths s3 ! x) = UNUSED \<longleftrightarrow> q_state (pths s ! x) = UNUSED)))"
proof -
  let ?w = "\<lambda>q. if q_state q = SLEEPING \<and> q_chan q = Some (ChSlot o') then q\<lparr>q_state := RUNNABLE\<rparr> else q"
  let ?p = "(tprocs s ! i)\<lparr>t_state := THZOMBIE\<rparr>" and ?q = "(pths s ! j)\<lparr>q_retval := v\<rparr>"
  have idx: "t_idx (tprocs s ! i) = j" using assms(1) by (simp add: wears_def Let_def)
  define s1 where "s1 = s\<lparr>pths := map ?w ((pths s)[j := ?q]), tprocs := (tprocs s)[i := ?p]\<rparr>"
  have e: "thread_exit v i s = Inr s1"
    using assms(2,6,7) idx by (simp add: thread_exit_def sched_def wakeup1_def s1_def upd_t_def upd_q_def)
  define s2 where "s2 = mvProcToThread i j s1"
  have p2: "tprocs s2 ! i = ?p" "length (tprocs s2) = length (tprocs s)" "length (pths s2) = length (pths s)" "tkm s2 = tkm s"
    using assms(2) by (simp_all add: s2_def mvProcToThread_def s1_def Let_def)
  have q2: "pths s2 ! x = (if x = j then (?w ?q)\<lparr>q_th_sz := t_th_sz ?p, q_pid := t_pid ?p, q_kstack := t_kstack ?p, q_state := THZOMBIE, q_chan := t_chan ?p,
        q_tf := t_tf ?p, q_ctx := t_ctx ?p, q_ptable := i, q_tid := t_tid ?p, q_joiner := t_joiner ?p\<rparr> else ?w (pths s ! x))" if "x < length (pths s)" for x
    using assms(2,3) that by (simp add: s2_def mvProcToThread_def s1_def upd_q_nth Let_def)
  have o2: "pths s2 ! o' = (pths s ! o')\<lparr>q_state := RUNNABLE\<rparr>" using q2 [OF assms(4)] assms(5,8,9) by simp
  obtain s3 where s3: "dispatch i o' s2 = Inr s3" "tkm s3 = tkm s" "length (tprocs s3) = length (tprocs s)" "pths s3 = pths s2"
    "tprocs s3 ! i = (tprocs s ! i)\<lparr>t_pid := q_pid (pths s ! o'), t_th_sz := q_th_sz (pths s ! o'), t_kstack := Some k, t_state := RUNNING,
        t_chan := q_chan (pths s ! o'), t_tf := q_tf (pths s ! o'), t_ctx := q_ctx (pths s ! o'), t_tid := q_tid (pths s ! o'),
        t_joiner := q_joiner (pths s ! o'), t_idx := o'\<rparr>"
    using assms(2,10,11) p2 o2 by (simp add: dispatch_def mvThreadToProc_def upd_t_nth switchuvm_def Let_def)
  have w: "t_pid (tprocs s ! i) = q_pid (pths s ! j)" "t_tid (tprocs s ! i) = q_tid (pths s ! j)" "t_th_sz (tprocs s ! i) = q_th_sz (pths s ! j)"
    "t_kstack (tprocs s ! i) = q_kstack (pths s ! j)" "t_joiner (tprocs s ! i) = q_joiner (pths s ! j)"
    using assms(1) by (simp_all add: wears_def Let_def)
  have keep: "q_pid (pths s3 ! x) = q_pid (pths s ! x) \<and> q_tid (pths s3 ! x) = q_tid (pths s ! x) \<and> q_th_sz (pths s3 ! x) = q_th_sz (pths s ! x) \<and>
      q_kstack (pths s3 ! x) = q_kstack (pths s ! x) \<and> q_joiner (pths s3 ! x) = q_joiner (pths s ! x) \<and>
      (x \<noteq> j \<longrightarrow> (q_state (pths s3 ! x) = UNUSED \<longleftrightarrow> q_state (pths s ! x) = UNUSED))" if "x < length (pths s)" for x
    unfolding s3(4) q2 [OF that] using w by simp
  have "q_state (pths s3 ! j) = THZOMBIE" "q_retval (pths s3 ! j) = v" using q2 [OF assms(3)] s3(4) by simp_all
  moreover have "q_state (pths s2 ! o') = RUNNABLE" "length (pths s3) = length (pths s)" using o2 p2(3) s3(4) by simp_all
  ultimately show ?thesis
    unfolding Let_def using e s3(1-3,5) keep unfolding s2_def
    by (intro exI [of "\<lambda>s1. \<exists>s3. P s1 s3" s1 for P], intro exI [of _ s3]) blast
qed


text \<open>The second thread of the example runs while the main thread waits for it.\<close>

definition running_proc :: tproc where
  "running_proc = (the_proc three_pages 12288)\<lparr>t_th_sz := 12288, t_kstack := Some 351, t_tf := Some 351, t_ctx := Some 351, t_tid := 2, t_joiner := Some 0, t_idx := 1\<rparr>"

definition waiting_main :: tk where
  "waiting_main = machine running_proc (main_thread\<lparr>q_state := SLEEPING, q_chan := Some (ChSlot 0)\<rparr> # other_thread RUNNABLE # replicate 254 no_thread)"

lemma waiting_main_nth:
  "x < 256 \<Longrightarrow> pths waiting_main ! x = (if x = 0 then main_thread\<lparr>q_state := SLEEPING, q_chan := Some (ChSlot 0)\<rparr> else if x = 1 then other_thread RUNNABLE else no_thread)"
  by (auto simp: waiting_main_def nth_Cons')


end
