(* ===== verification/Th_Types.thy ===== *)
theory Th_Types
  imports Th_Example
begin

text \<open>
  What the tables of Project02-Thread/proc.c may hold in any state the kernel reaches: every pointer into a
  table stays inside it, every machine integer in its range, and no two slots have the same process id. The
  operations are the steps of a relation; the scheduler is the choice of the thread to dress a slot with.
\<close>

section \<open>Typed states\<close>

abbreviation NPROCS :: nat where "NPROCS \<equiv> 64"
abbreviation W32 :: nat where "W32 \<equiv> 4294967296"

definition ref_in :: "nat \<Rightarrow> nat option \<Rightarrow> bool" where
  "ref_in n r \<longleftrightarrow> (case r of None \<Rightarrow> True | Some x \<Rightarrow> x < n)"

definition proc_typed :: "int \<Rightarrow> tproc \<Rightarrow> bool" where
  "proc_typed nx p \<longleftrightarrow> ref_in NPROCS (t_parent_proc p) \<and> ref_in NTHRD (t_parent_th p) \<and> ref_in NTHRD (t_joiner p) \<and>
     t_idx p < NTHRD \<and> t_main p < NTHRD \<and> length (t_ofile p) = 16 \<and> length (t_freed_sz p) = NTHRD \<and> t_front p < NTHRD \<and> t_back p < NTHRD \<and>
     0 \<le> t_pid p \<and> t_pid p < nx \<and> t_sz p < W32 \<and> t_th_sz p < W32 \<and> t_memlimit p < 2147483648 \<and> t_assign p < W32"

definition thread_typed :: "int \<Rightarrow> pthread \<Rightarrow> bool" where
  "thread_typed nx q \<longleftrightarrow> ref_in NTHRD (q_joiner q) \<and> q_ptable q < NPROCS \<and> 0 \<le> q_pid q \<and> q_pid q < nx \<and> q_th_sz q < W32"

definition pids_apart :: "tproc list \<Rightarrow> bool" where
  "pids_apart ps \<longleftrightarrow> (\<forall>i<length ps. \<forall>j<length ps. i \<noteq> j \<longrightarrow> t_pid (ps ! i) = t_pid (ps ! j) \<longrightarrow> t_pid (ps ! i) = 0)"

definition typed :: "tk \<Rightarrow> bool" where
  "typed s \<longleftrightarrow> length (tprocs s) = NPROCS \<and> length (pths s) = NTHRD \<and> tinit s < NPROCS \<and> 1 \<le> tnextpid s \<and>
     (\<forall>p\<in>set (tprocs s). proc_typed (tnextpid s) p) \<and> (\<forall>q\<in>set (pths s). thread_typed (tnextpid s) q) \<and> pids_apart (tprocs s)"

named_theorems typed_intros

lemma ref_in_simps [simp]: "ref_in n None" "ref_in n (Some x) \<longleftrightarrow> x < n"
  by (simp_all add: ref_in_def)

lemma typed_frame [simp]:
  "typed (s\<lparr>tkm := m\<rparr>) = typed s" "typed (s\<lparr>tframe := f\<rparr>) = typed s" "typed (s\<lparr>tctx := c\<rparr>) = typed s"
  "typed (s\<lparr>tfile_ref := r\<rparr>) = typed s" "typed (s\<lparr>tinode_ref := r\<rparr>) = typed s" "typed (s\<lparr>tout := ou\<rparr>) = typed s" "typed (tprint ou s) = typed s"
  by (simp_all add: typed_def tprint_def)

lemma typed_proc: "typed s \<Longrightarrow> i < NPROCS \<Longrightarrow> proc_typed (tnextpid s) (tprocs s ! i)"
  by (simp add: typed_def)

lemma typed_thread: "typed s \<Longrightarrow> j < NTHRD \<Longrightarrow> thread_typed (tnextpid s) (pths s ! j)"
  by (simp add: typed_def)

lemma typed_lengths: "typed s \<Longrightarrow> length (tprocs s) = NPROCS \<and> length (pths s) = NTHRD"
  by (simp add: typed_def)

lemma typed_upd_t:
  assumes "typed s" "i < NPROCS \<Longrightarrow> proc_typed (tnextpid s) (f (tprocs s ! i))" "i < NPROCS \<Longrightarrow> t_pid (f (tprocs s ! i)) \<in> {0, t_pid (tprocs s ! i)}"
  shows "typed (upd_t i f s)"
proof (cases "i < NPROCS")
  case True
  have "proc_typed (tnextpid s) p" if "p \<in> set ((tprocs s)[i := f (tprocs s ! i)])" for p
    using that set_update_subset_insert [of "tprocs s" i "f (tprocs s ! i)"] assms(1,2) True unfolding typed_def by blast
  moreover have "pids_apart ((tprocs s)[i := f (tprocs s ! i)])"
    using assms(1,3) True by (auto simp: typed_def pids_apart_def nth_list_update)
  ultimately show ?thesis using assms(1) by (simp add: typed_def upd_t_def)
next
  case False
  then show ?thesis using assms(1) by (simp add: typed_def upd_t_def list_update_beyond)
qed

lemma typed_upd_q:
  assumes "typed s" "j < NTHRD \<Longrightarrow> thread_typed (tnextpid s) (f (pths s ! j))"
  shows "typed (upd_q j f s)"
proof (cases "j < NTHRD")
  case True
  have "thread_typed (tnextpid s) q" if "q \<in> set ((pths s)[j := f (pths s ! j)])" for q
    using that set_update_subset_insert [of "pths s" j "f (pths s ! j)"] assms True unfolding typed_def by blast
  then show ?thesis using assms(1) by (simp add: typed_def upd_q_def)
next
  case False
  then show ?thesis using assms(1) by (simp add: typed_def upd_q_def list_update_beyond)
qed

text \<open>Updates that touch no typed field of a slot or of an entry, in the forms the operations use.\<close>

lemma typed_map_q:
  assumes "typed s" "\<And>q. thread_typed (tnextpid s) q \<Longrightarrow> thread_typed (tnextpid s) (f q)"
  shows "typed (s\<lparr>pths := map f (pths s)\<rparr>)"
  using assms by (auto simp: typed_def)

lemma typed_wakeup1 [typed_intros]: "typed s \<Longrightarrow> typed (wakeup1 ch s)"
  unfolding wakeup1_def by (rule typed_map_q) (auto simp: thread_typed_def)

lemma typed_set_mem [typed_intros]: "typed s \<Longrightarrow> typed (set_mem i dm s)"
  unfolding set_mem_def by (rule typed_upd_t) (auto dest: typed_proc simp: proc_typed_def)

section \<open>The operations\<close>

lemma typed_allocthread:
  assumes "typed s" "allocthread s = (r, s1)"
  shows "typed s1" "tprocs s1 = tprocs s" "tnextpid s1 = tnextpid s" "tinit s1 = tinit s" "\<And>j. r = Some j \<Longrightarrow> j < NTHRD"
proof -
  show "typed s1" "tprocs s1 = tprocs s" "tnextpid s1 = tnextpid s" "tinit s1 = tinit s"
    using assms unfolding allocthread_def
    by (auto split: option.splits prod.splits intro!: typed_upd_q dest: typed_thread simp: thread_typed_def)
  show "j < NTHRD" if "r = Some j" for j
    using assms that unfolding allocthread_def by (auto split: option.splits prod.splits dest!: find_idx_SomeD simp: typed_def)
qed

text \<open>A new process takes the next id.\<close>

lemma typed_new_pid:
  assumes "typed s" "i < NPROCS" "proc_typed (tnextpid s + 1) p" "t_pid p = tnextpid s"
  shows "typed (s\<lparr>tprocs := (tprocs s)[i := p], tnextpid := tnextpid s + 1\<rparr>)"
proof -
  have up: "proc_typed (tnextpid s + 1) x" if "proc_typed (tnextpid s) x" for x using that by (auto simp: proc_typed_def)
  have uq: "thread_typed (tnextpid s + 1) x" if "thread_typed (tnextpid s) x" for x using that by (auto simp: thread_typed_def)
  have ne: "t_pid (tprocs s ! x) \<noteq> tnextpid s" if "x < NPROCS" for x using typed_proc [OF assms(1) that] by (simp add: proc_typed_def)
  have old: "t_pid (tprocs s ! a) = 0" if "a < NPROCS" "b < NPROCS" "a \<noteq> b" "t_pid (tprocs s ! a) = t_pid (tprocs s ! b)" for a b
    using that assms(1) by (simp add: typed_def pids_apart_def)
  have "pids_apart ((tprocs s)[i := p])"
    unfolding pids_apart_def
  proof (intro allI impI)
    fix a b assume ab: "a < length ((tprocs s)[i := p])" "b < length ((tprocs s)[i := p])" "a \<noteq> b"
      "t_pid ((tprocs s)[i := p] ! a) = t_pid ((tprocs s)[i := p] ! b)"
    have l: "length (tprocs s) = NPROCS" using assms(1) by (simp add: typed_def)
    show "t_pid ((tprocs s)[i := p] ! a) = 0"
      using ab assms(2,4) ne [of a] ne [of b] old [of a b] unfolding length_list_update l nth_list_update
      by (cases "a = i"; cases "b = i") (simp_all add: l)
  qed
  moreover have "proc_typed (tnextpid s + 1) x" if "x \<in> set ((tprocs s)[i := p])" for x
    using that set_update_subset_insert [of "tprocs s" i p] assms(1,3) up unfolding typed_def by blast
  ultimately show ?thesis using assms(1) uq unfolding typed_def by simp
qed


lemma typed_allocproc:
  assumes "typed s" "allocproc s = (r, s1)"
  shows "typed s1" "tinit s1 = tinit s" "\<And>i. r = Some i \<Longrightarrow> i < NPROCS"
proof -
  have "typed s1 \<and> tinit s1 = tinit s \<and> (\<forall>i. r = Some i \<longrightarrow> i < NPROCS)"
  proof (cases r)
    case None
    then show ?thesis using assms unfolding allocproc_def
      by (auto split: option.splits prod.splits dest: typed_allocthread(1,4))
  next
    case (Some i)
    obtain j s2 where 1: "find_idx (\<lambda>p. t_state p = UNUSED) (tprocs s) = Some i" "allocthread s = (Some j, s2)"
      and s1: "s1 = upd_t i (new_proc (tnextpid s2) j (q_kstack (pths s2 ! j))) (upd_q j (\<lambda>q. q\<lparr>q_pid := tnextpid s2\<rparr>) (s2\<lparr>tnextpid := tnextpid s2 + 1\<rparr>))"
      using assms(2) Some by (auto simp: allocproc_def split: option.splits prod.splits)
    note a = typed_allocthread [OF assms(1) 1(2)]
    have i: "i < NPROCS" using find_idx_SomeD [OF 1(1)] assms(1) by (simp add: typed_def)
    have n: "1 \<le> tnextpid s2" using a(1) by (simp add: typed_def)
    let ?p = "new_proc (tnextpid s2) j (q_kstack (pths s2 ! j)) (tprocs s2 ! i)"
    have e: "s1 = upd_q j (\<lambda>q. q\<lparr>q_pid := tnextpid s2\<rparr>) (s2\<lparr>tprocs := (tprocs s2)[i := ?p], tnextpid := tnextpid s2 + 1\<rparr>)"
      unfolding s1 by (simp add: upd_t_def upd_q_def)
    have "proc_typed (tnextpid s2 + 1) ?p"
      using typed_proc [OF a(1) i] a(5) n by (simp add: proc_typed_def new_proc_def)
    from typed_new_pid [OF a(1) i this] have "typed (s2\<lparr>tprocs := (tprocs s2)[i := ?p], tnextpid := tnextpid s2 + 1\<rparr>)" by (simp add: new_proc_def)
    then have "typed s1" unfolding e by (rule typed_upd_q) (use typed_thread [OF a(1)] n in \<open>simp_all add: thread_typed_def\<close>)
    then show ?thesis using Some i a(4) by (simp add: s1)
  qed
  then show "typed s1" "tinit s1 = tinit s" "\<And>i. r = Some i \<Longrightarrow> i < NPROCS" by auto
qed

lemma typed_mvProcToThread [typed_intros]:
  assumes "typed s" "i < NPROCS"
  shows "typed (mvProcToThread i j s)"
  unfolding mvProcToThread_def Let_def
  by (rule typed_upd_q) (use assms typed_proc [OF assms] in \<open>simp_all add: thread_typed_def proc_typed_def\<close>)

lemma typed_clearProc [typed_intros]: "typed s \<Longrightarrow> typed (clearProc i s)"
  unfolding clearProc_def by (rule typed_upd_t) (auto dest: typed_proc simp: proc_typed_def)

lemma typed_dispatch [typed_intros]:
  assumes "typed s" "j < NTHRD" "q_pid (pths s ! j) = t_pid (tprocs s ! i)" "dispatch i j s = Inr s'"
  shows "typed s'"
proof -
  have "typed (mvThreadToProc j i s)"
    unfolding mvThreadToProc_def Let_def
    by (rule typed_upd_t) (use assms(2,3) typed_thread [OF assms(1,2)] in \<open>auto intro: assms(1) dest: typed_proc [OF assms(1)] simp: proc_typed_def thread_typed_def\<close>)
  then have "typed (upd_t i (\<lambda>p. p\<lparr>t_state := RUNNING\<rparr>) (mvThreadToProc j i s))"
    by (rule typed_upd_t) (auto dest: typed_proc [OF \<open>typed (mvThreadToProc j i s)\<close>] simp: proc_typed_def)
  then show ?thesis using assms(4) by (auto simp: dispatch_def Let_def res_simps)
qed

text \<open>Steps that change the state or the channel of a slot only.\<close>

lemma typed_state [typed_intros]:
  "typed s \<Longrightarrow> typed (upd_t i (\<lambda>p. p\<lparr>t_state := st\<rparr>) s)" "typed s \<Longrightarrow> typed (upd_t i (\<lambda>p. p\<lparr>t_chan := ch, t_state := st\<rparr>) s)"
  "typed s \<Longrightarrow> typed (upd_t i (\<lambda>p. p\<lparr>t_chan := ch\<rparr>) s)" "typed s \<Longrightarrow> typed (upd_t i (\<lambda>p. p\<lparr>t_killed := b\<rparr>) s)"
  "typed s \<Longrightarrow> typed (upd_q j (\<lambda>q. q\<lparr>q_state := st\<rparr>) s)" "typed s \<Longrightarrow> typed (upd_q j (\<lambda>q. q\<lparr>q_retval := v\<rparr>) s)"
  by (rule typed_upd_t typed_upd_q; auto dest: typed_proc typed_thread simp: proc_typed_def thread_typed_def)+

lemma sched_Inr: "sched i s = Inr s' \<Longrightarrow> s' = s"
  by (auto simp: sched_def res_simps)

lemma typed_yield [typed_intros]: "typed s \<Longrightarrow> yield i s = Inr s' \<Longrightarrow> typed s'"
  by (auto simp: yield_def dest!: sched_Inr intro: typed_intros)

lemma typed_sleep_begin [typed_intros]: "typed s \<Longrightarrow> sleep_begin ch i s = Inr s' \<Longrightarrow> typed s'"
  by (auto simp: sleep_begin_def dest!: sched_Inr intro: typed_intros)

lemma typed_sleep_end [typed_intros]: "typed s \<Longrightarrow> typed (sleep_end i s)"
  by (auto simp: sleep_end_def intro: typed_intros)

lemma typed_wakeup [typed_intros]: "typed s \<Longrightarrow> typed (wakeup ch s)"
  by (simp add: wakeup_def typed_wakeup1)

lemma typed_kill [typed_intros]: "typed s \<Longrightarrow> kill pid s = (r, s') \<Longrightarrow> typed s'"
proof -
  assume a: "typed s" "kill pid s = (r, s')"
  have "typed (upd_t i (\<lambda>p. p\<lparr>t_killed := True, t_state := (if t_state p = SLEEPING then RUNNABLE else t_state p)\<rparr>) s)" for i
    by (rule typed_upd_t) (use a(1) typed_proc [OF a(1), of i] in \<open>auto simp: proc_typed_def\<close>)
  from typed_map_q [OF this] have
    "typed (upd_t i (\<lambda>p. p\<lparr>t_killed := True, t_state := (if t_state p = SLEEPING then RUNNABLE else t_state p)\<rparr>) s
      \<lparr>pths := map (\<lambda>q. if q_pid q = pid then q\<lparr>q_state := (if q_tid q = MAINTH then RUNNABLE else THZOMBIE)\<rparr> else q)
        (pths (upd_t i (\<lambda>p. p\<lparr>t_killed := True, t_state := (if t_state p = SLEEPING then RUNNABLE else t_state p)\<rparr>) s))\<rparr>)" for i
    by (auto simp: thread_typed_def)
  then show "typed s'" using a by (auto simp: kill_def Let_def split: option.splits)
qed

lemma typed_setmemorylimit [typed_intros]:
  assumes "typed s" "limit < 2147483648" "setmemorylimit pid limit s = (r, s')"
  shows "typed s'"
proof -
  have "typed (upd_t i (\<lambda>p. p\<lparr>t_memlimit := nat limit\<rparr>) s)" for i
    by (rule typed_upd_t) (use assms(1,2) typed_proc [OF assms(1), of i] in \<open>auto simp: proc_typed_def\<close>)
  then show ?thesis using assms by (auto simp: setmemorylimit_def split: if_splits option.splits)
qed

subsection \<open>Memory\<close>

lemma alloc_loop_ret: "alloc_loop a b vs d m = Inr (r, dm) \<Longrightarrow> r = 0 \<or> r = b"
  by (induction a b vs d m rule: alloc_loop.induct)
    (auto simp: res_simps simp del: mappages.simps split: option.splits if_splits prod.splits)

lemma allocuvm_ret: "allocuvm a b d m = Inr (r, dm) \<Longrightarrow> r \<in> {0, a, b}"
  by (auto simp: allocuvm_def split: if_splits dest: alloc_loop_ret)

lemma deallocuvm_ret: "deallocuvm a b d m = Inr (r, dm) \<Longrightarrow> r \<in> {a, b}"
  by (auto simp: deallocuvm_def res_simps split: if_splits prod.splits)

lemma typed_sizes:
  "typed s \<Longrightarrow> z < W32 \<Longrightarrow> typed (upd_t i (\<lambda>p. p\<lparr>t_sz := z\<rparr>) s)" "typed s \<Longrightarrow> z < W32 \<Longrightarrow> typed (upd_q j (\<lambda>q. q\<lparr>q_th_sz := z\<rparr>) s)"
  by (rule typed_upd_t typed_upd_q; auto dest: typed_proc typed_thread simp: proc_typed_def thread_typed_def)+

lemma typed_growproc [typed_intros]:
  assumes "typed s" "i < NPROCS" "growproc n i s = Inr (r, s')"
  shows "typed s'"
proof -
  have sz: "t_sz (tprocs s ! i) < W32" using typed_proc [OF assms(1,2)] by (simp add: proc_typed_def)
  have w: "wrap32 x < W32" for x by (simp add: wrap32_def)
  have "z < W32" if "(if n > 0 then allocuvm (t_sz (tprocs s ! i)) (wrap32 x) d m else if n < 0 then deallocuvm (t_sz (tprocs s ! i)) (wrap32 x) d m
      else Inr (t_sz (tprocs s ! i), d, m)) = Inr (z, dm)" for x z d m dm
    using that sz w [of x] by (auto dest: allocuvm_ret deallocuvm_ret split: if_splits)
  then have bound: "z < W32" if "(if n > 0 then allocuvm (t_sz (tprocs s ! i)) (wrap32 x) d m else if n < 0 then deallocuvm (t_sz (tprocs s ! i)) (wrap32 x) d m
      else Inr (t_sz (tprocs s ! i), d, m)) = Inr (z, dm)" for x z d m dm using that by blast
  show ?thesis
  proof (cases "t_memlimit (tprocs s ! i) \<noteq> 0 \<and> wrap32 (t_sz (tprocs s ! i) + uint_of_int n) > t_memlimit (tprocs s ! i)")
    case True
    then show ?thesis using assms by (simp add: growproc_def Let_def)
  next
    case False
    obtain d x where 1: "(if n > 0 then allocuvm (t_sz (tprocs s ! i)) (wrap32 (t_sz (tprocs s ! i) + uint_of_int n)) d (tkm s)
        else if n < 0 then deallocuvm (t_sz (tprocs s ! i)) (wrap32 (t_sz (tprocs s ! i) + uint_of_int n)) d (tkm s)
        else Inr (t_sz (tprocs s ! i), d, tkm s)) = Inr x"
      and y: "(case x of (sz', dm) \<Rightarrow> if n \<noteq> 0 \<and> sz' = 0 then Inr (- 1, set_mem i dm s)
         else bindR (switchuvm (t_kstack (tprocs (upd_t i (t_sz_update (\<lambda>_. sz')) (set_mem i dm s)) ! i)) (t_pgdir (tprocs (upd_t i (t_sz_update (\<lambda>_. sz')) (set_mem i dm s)) ! i)))
           (\<lambda>_. Inr (int_of_uint (t_sz (tprocs s ! i)), upd_t i (t_sz_update (\<lambda>_. sz')) (set_mem i dm s)))) = Inr (r, s')"
      using assms(3) unfolding growproc_def Let_def if_not_P [OF False] deref_eq_Inr bindR_eq_Inr [where m = "If _ _ _"] by blast
    obtain z dm where x: "x = (z, dm)" by (cases x)
    then have 2: "s' = set_mem i dm s \<or> s' = upd_t i (\<lambda>p. p\<lparr>t_sz := z\<rparr>) (set_mem i dm s)"
      using y by (auto simp: res_simps split: if_split_asm)
    show ?thesis using 2 bound [OF 1 [unfolded x]] assms(1) by (auto intro!: typed_sizes typed_set_mem)
  qed
qed

lemma typed_set_frame: "typed s \<Longrightarrow> set_frame k f s = Inr s' \<Longrightarrow> typed s' \<and> tprocs s' = tprocs s \<and> pths s' = pths s \<and> tnextpid s' = tnextpid s \<and> tinit s' = tinit s"
  by (auto simp: set_frame_def res_simps)

lemma typed_userinit:
  assumes "typed s" "userinit code root s = Inr s'"
  shows "typed s'"
proof -
  obtain i s1 d m dm where 1: "allocproc s = (Some i, s1)" "setupkvm (tkm s1) = Inr (Some d, m)" "inituvm code d m = Inr dm"
    using assms(2) by (auto simp: userinit_def res_simps split: option.splits prod.splits)
  note a = typed_allocproc [OF assms(1) 1(1)]
  have i: "i < NPROCS" using a(3) by simp
  have "typed (s1\<lparr>tinit := i\<rparr>)" using a(1) i by (simp add: typed_def)
  then have t: "typed (set_mem i dm (s1\<lparr>tinit := i\<rparr>))" by (rule typed_set_mem)
  let ?f = "\<lambda>p. p\<lparr>t_name := safestr ''initcode'' 55, t_parent_proc := Some i, t_parent_th := Some (t_idx p),
      t_cwd := Some root, t_freed_sz := replicate NTHRD 0, t_sz := PGSIZE, t_th_sz := PGSIZE, t_state := RUNNABLE, t_joiner := Some (t_idx p)\<rparr>"
  define s2 where "s2 = upd_t i ?f (set_mem i dm (s1\<lparr>tinit := i\<rparr>))"
  have t2: "typed s2" unfolding s2_def
    by (rule typed_upd_t [OF t]) (use typed_proc [OF t i] in \<open>simp_all add: proc_typed_def\<close>)
  obtain f s3 where 3: "set_frame (t_tf (tprocs s2 ! i)) f s2 = Inr s3" "s' = clearProc i (mvProcToThread i (t_idx (tprocs s3 ! i)) s3)"
    using assms(2) unfolding userinit_def 1(1) prod.case option.case 1(2) bindR_Inr 1(3) Let_def s2_def [symmetric] bindR_eq_Inr by blast
  show ?thesis unfolding 3(2) using typed_set_frame [OF t2 3(1)] i by (intro typed_clearProc typed_mvProcToThread) simp_all
qed

subsection \<open>Fork\<close>

lemma typed_tdup_files: "tdup_files fs s = Inr s' \<Longrightarrow> typed s \<Longrightarrow> typed s' \<and> tprocs s' = tprocs s \<and> pths s' = pths s \<and> tnextpid s' = tnextpid s"
  by (induction fs s rule: tdup_files.induct) (auto simp: res_simps)

lemma length_copy_freed: "length (copy_freed front xs n) = NTHRD"
proof -
  have "length (fold (\<lambda>i ys. ys[(front + i) mod NTHRD := xs ! ((front + i) mod NTHRD)]) is ys) = length ys" for "is" :: "nat list" and ys
    by (induction "is" arbitrary: ys) auto
  then show ?thesis by (simp add: copy_freed_def)
qed

lemma typed_fork_threads:
  "fork_threads cur np js s = Inr (ok, s') \<Longrightarrow> typed s \<Longrightarrow> cur < NPROCS \<Longrightarrow> np < NPROCS \<Longrightarrow> set js \<subseteq> {..<NTHRD} \<Longrightarrow> typed s'"
proof (induction js arbitrary: s)
  case (Cons j js)
  let ?th = "pths s ! j"
  show ?case
  proof (cases "q_pid ?th = t_pid (tprocs s ! cur) \<and> q_tid ?th \<noteq> MAINTH")
    case True
    obtain r s1 where a: "allocthread s = (r, s1)" by (cases "allocthread s")
    note t = typed_allocthread [OF Cons.prems(2) a]
    show ?thesis
    proof (cases r)
      case None
      then show ?thesis using Cons.prems(1) True a t(1) by (auto intro: typed_intros)
    next
      case (Some n)
      then obtain c f nc s2 where f: "set_frame (q_tf (pths s1 ! n)) f
          (upd_q n (\<lambda>q. q\<lparr>q_th_sz := q_th_sz ?th, q_pid := t_pid (tprocs s1 ! np), q_state := q_state ?th, q_chan := q_chan ?th,
             q_ptable := np, q_tid := q_tid ?th, q_joiner := Some (t_main (tprocs s1 ! np)), q_retval := q_retval ?th\<rparr>)
           (s1\<lparr>tctx := (tctx s1)(nc := c)\<rparr>)) = Inr s2" "fork_threads cur np js s2 = Inr (ok, s')"
        using Cons.prems(1) True a by (auto simp: res_simps Let_def)
      have "typed (upd_q n (\<lambda>q. q\<lparr>q_th_sz := q_th_sz ?th, q_pid := t_pid (tprocs s1 ! np), q_state := q_state ?th, q_chan := q_chan ?th,
             q_ptable := np, q_tid := q_tid ?th, q_joiner := Some (t_main (tprocs s1 ! np)), q_retval := q_retval ?th\<rparr>)
           (s1\<lparr>tctx := (tctx s1)(nc := c)\<rparr>))"
        by (rule typed_upd_q)
          (use t(1) typed_proc [OF t(1) Cons.prems(4)] typed_thread [OF Cons.prems(2), of j] Cons.prems(4,5) in \<open>simp_all add: thread_typed_def proc_typed_def\<close>)
      from typed_set_frame [OF this f(1)] show ?thesis using Cons.IH [OF f(2)] Cons.prems by simp
    qed
  next
    case False
    then have "fork_threads cur np js s = Inr (ok, s')" using Cons.prems(1) by auto
    then show ?thesis using Cons.IH Cons.prems by simp
  qed
qed simp

lemma typed_fork_rest:
  assumes "typed s" "cur < NPROCS" "np < NPROCS" "fork_rest cur np s = Inr (r, s')"
  shows "typed s'"
proof -
  have l: "set [0..<length (pths s)] \<subseteq> {..<NTHRD}" using assms(1) by (auto simp: typed_def)
  have main: "typed s'" if "fork_threads cur np [0..<length (pths s)] (mvProcToThread np (t_idx (tprocs s ! np)) s) = Inr (ok, s')" for ok
    by (rule typed_fork_threads [OF that typed_mvProcToThread [OF assms(1,3)] assms(2,3) l])
  have "typed (upd_t np (\<lambda>p. p\<lparr>t_assign := 1, t_tid := MAINTH, t_joiner := Some (t_idx (tprocs s ! cur))\<rparr>) s)"
    by (rule typed_upd_t)
      (use assms(1) typed_proc [OF assms(1,2)] typed_proc [OF assms(1,3)] in \<open>simp_all add: proc_typed_def\<close>)
  then have own: "typed (clearProc np (mvProcToThread np j (upd_t np (\<lambda>p. p\<lparr>t_assign := 1, t_tid := MAINTH, t_joiner := Some (t_idx (tprocs s ! cur))\<rparr>) s)))" for j
    using assms(3) by (intro typed_clearProc typed_mvProcToThread)
  show ?thesis
  proof (cases "t_tid (tprocs s ! cur) \<noteq> MAINTH")
    case True
    then show ?thesis using assms(4) own by (auto simp: fork_rest_def Let_def)
  next
    case False
    then show ?thesis using assms(4) main unfolding fork_rest_def Let_def if_not_P [OF False] bindR_eq_Inr by auto
  qed
qed

lemma typed_fork [typed_intros]:
  assumes "typed s" "cur < NPROCS" "fork cur s = Inr (r, s')"
  shows "typed s'"
proof -
  obtain x s1 where a: "allocproc s = (x, s1)" by (cases "allocproc s")
  note t = typed_allocproc [OF assms(1) a]
  show ?thesis
  proof (cases x)
    case None
    then show ?thesis using assms(3) a t(1) by (simp add: fork_def)
  next
    case (Some np)
    have np: "np < NPROCS" using t(3) Some by simp
    obtain d pd m where c: "t_pgdir (tprocs s1 ! cur) = Some d" "copyuvm d (t_sz (tprocs s1 ! cur)) (tkm s1) = Inr (pd, m)"
      using assms(3) unfolding fork_def a Some prod.case option.case Let_def deref_eq_Inr bindR_eq_Inr by auto
    show ?thesis
    proof (cases pd)
      case None
      have "typed (upd_t np (\<lambda>p. p\<lparr>t_pgdir := None, t_kstack := None, t_state := UNUSED\<rparr>) s1)"
        by (rule typed_upd_t) (use t(1) typed_proc [OF t(1) np] in \<open>simp_all add: proc_typed_def\<close>)
      moreover have "upd_t np f (s1\<lparr>tkm := m1\<rparr>) = (upd_t np f s1)\<lparr>tkm := m1\<rparr>" for f m1 by (simp add: upd_t_def)
      ultimately show ?thesis using assms(3) a Some c None by (auto simp: fork_def Let_def res_simps)
    next
      case (Some cp)
      let ?par = "tprocs s1 ! cur"
      let ?f = "\<lambda>ip p. p\<lparr>t_pgdir := Some cp, t_parent_proc := Some cur, t_parent_th := Some (t_idx ?par), t_sz := t_sz ?par,
                  t_ofile := map2 (\<lambda>f g. if f = None then g else f) (t_ofile ?par) (t_ofile p), t_cwd := Some ip,
                  t_name := safestr (t_name ?par) 55, t_memlimit := t_memlimit ?par, t_assign := t_assign ?par, t_stacksz := t_stacksz ?par,
                  t_th_sz := t_th_sz ?par, t_state := RUNNABLE, t_chan := t_chan ?par, t_killed := t_killed ?par, t_tid := t_tid ?par,
                  t_front := t_front ?par, t_back := t_back ?par, t_freed := t_freed ?par,
                  t_freed_sz := copy_freed (t_front ?par) (t_freed_sz ?par) (t_freed ?par)\<rparr>"
      obtain f s2 s3 ip where f: "set_frame (t_tf (tprocs s1 ! np)) f (s1\<lparr>tkm := m\<rparr>) = Inr s2" "tdup_files (t_ofile ?par) s2 = Inr s3"
        "fork_rest cur np (upd_t np (?f ip) (s3\<lparr>tinode_ref := (tinode_ref s3)(ip := tinode_ref s3 ip + 1)\<rparr>)) = Inr (r, s')"
        using assms(3) unfolding fork_def a \<open>x = Some np\<close> prod.case option.case Let_def c(1) deref_Some c(2) bindR_Inr Some
          deref_eq_Inr bindR_eq_Inr by blast
      have "typed (s1\<lparr>tkm := m\<rparr>)" using t(1) by simp
      from typed_set_frame [OF this f(1)] have s2: "typed s2" "tprocs s2 = tprocs s1" by simp_all
      from typed_tdup_files [OF f(2) s2(1)] have s3: "typed s3" "tprocs s3 = tprocs s1" using s2 by simp_all
      have "typed (upd_t np (?f ip) (s3\<lparr>tinode_ref := (tinode_ref s3)(ip := tinode_ref s3 ip + 1)\<rparr>))"
        by (rule typed_upd_t)
          (use s3 typed_proc [OF s3(1) np] typed_proc [OF s3(1) assms(2)] assms(2) in \<open>simp_all add: proc_typed_def length_copy_freed\<close>)
      from typed_fork_rest [OF this assms(2) np f(3)] show ?thesis .
    qed
  qed
qed

subsection \<open>Exit and wait\<close>

lemma typed_tclose_files: "tclose_files fs s = Inr s' \<Longrightarrow> typed s \<Longrightarrow> typed s'"
  by (induction fs s rule: tclose_files.induct) (auto simp: res_simps)

lemma typed_reparent: "typed s \<Longrightarrow> typed (reparent cur is s)"
proof (induction "is" arbitrary: s)
  case (Cons i "is")
  have "tinit s < NPROCS" using Cons.prems by (simp add: typed_def)
  then have "typed (upd_t i (\<lambda>p. p\<lparr>t_parent_proc := Some (tinit s), t_parent_th := t_parent_th (tprocs s ! tinit s)\<rparr>) s)"
    by (intro typed_upd_t)
      (use Cons.prems typed_proc [OF Cons.prems, of i] typed_proc [OF Cons.prems, of "tinit s"] in \<open>simp_all add: proc_typed_def\<close>)
  then show ?case using Cons by (simp add: Let_def typed_wakeup1)
qed simp

lemma typed_exit [typed_intros]:
  assumes "typed s" "exit cur s = Inr s'"
  shows "typed s'"
proof -
  obtain s1 ip where 1: "tclose_files (t_ofile (tprocs s ! cur)) s = Inr s1" "t_cwd (tprocs s1 ! cur) = Some ip"
    using assms(2) unfolding exit_def guardR_eq_Inr bindR_eq_Inr deref_eq_Inr by blast
  define s2 where "s2 = upd_t cur (\<lambda>p. p\<lparr>t_cwd := None, t_ofile := map (\<lambda>_. None) (t_ofile p)\<rparr>)
    (s1\<lparr>tinode_ref := (tinode_ref s1)(ip := tinode_ref s1 ip - 1)\<rparr>)"
  have t1: "typed s1" by (rule typed_tclose_files [OF 1(1) assms(1)])
  have "typed s2" unfolding s2_def
    by (rule typed_upd_t) (use t1 typed_proc [OF t1, of cur] in \<open>simp_all add: proc_typed_def\<close>)
  then have "typed (upd_t cur (\<lambda>p. p\<lparr>t_state := ZOMBIE\<rparr>) (reparent cur is (wakeup1 ch s2)))" for "is" ch
    by (intro typed_state typed_reparent typed_wakeup1)
  from typed_map_q [OF this] have "typed (upd_t cur (\<lambda>p. p\<lparr>t_state := ZOMBIE\<rparr>) (reparent cur is (wakeup1 ch s2))
     \<lparr>pths := map (\<lambda>q. if q_pid q = pid then q\<lparr>q_state := THZOMBIE\<rparr> else q) (pths (upd_t cur (\<lambda>p. p\<lparr>t_state := ZOMBIE\<rparr>) (reparent cur is (wakeup1 ch s2))))\<rparr>)" for "is" ch pid
    by (auto simp: thread_typed_def)
  then show ?thesis
    using assms(2) unfolding exit_def guardR_eq_Inr 1(1) bindR_Inr 1(2) deref_Some Let_def s2_def [symmetric] by (auto dest!: sched_Inr)
qed

lemma typed_deleteThread: "deleteThread j s = Inr s' \<Longrightarrow> typed s \<Longrightarrow> typed s' \<and> tprocs s' = tprocs s"
  by (auto simp: deleteThread_def res_simps thread_typed_def typed_def upd_q_def dest!: set_update_subset_insert [THEN subsetD])

lemma typed_reap_threads: "reap_threads pid js s = Inr s' \<Longrightarrow> typed s \<Longrightarrow> typed s'"
  by (induction js arbitrary: s) (auto simp: res_simps split: if_splits dest: typed_deleteThread)

lemma typed_wait [typed_intros]:
  assumes "typed s" "wait cur s = Inr (r, s')"
  shows "typed s'"
proof (cases "find_idx (\<lambda>p. t_parent_th p = Some (t_idx (tprocs s ! cur)) \<and> t_state p = ZOMBIE) (tprocs s)")
  case None
  then show ?thesis using assms by (auto simp: wait_def Let_def res_simps split: if_splits dest: typed_sleep_begin)
next
  case (Some i)
  let ?f = "\<lambda>p. p\<lparr>t_name := [], t_parent_proc := None, t_parent_th := None, t_memlimit := 0, t_assign := 0, t_stacksz := 0,
            t_freed_sz := replicate NTHRD 0, t_front := 0, t_back := 0, t_freed := 0, t_pid := 0, t_sz := 0, t_state := UNUSED, t_chan := None,
            t_killed := False, t_tid := 0, t_joiner := None, t_idx := 0\<rparr>"
  obtain s1 m where 1: "reap_threads (t_pid (tprocs s ! i)) [0..<length (pths s)] s = Inr s1" "s' = upd_t i ?f (s1\<lparr>tkm := m\<rparr>)"
    using assms(2) Some by (auto simp: wait_def Let_def res_simps)
  have t: "typed s1" by (rule typed_reap_threads [OF 1(1) assms(1)])
  have "1 \<le> tnextpid s1" using t by (simp add: typed_def)
  then show ?thesis unfolding 1(2)
    by (intro typed_upd_t) (use t typed_proc [OF t, of i] in \<open>simp_all add: proc_typed_def\<close>)
qed

subsection \<open>Threads\<close>

lemma typed_pthread_fork:
  assumes "typed s" "cur < NPROCS" "pthread_fork cur s = Inr (x, s')"
  shows "typed s'" "\<And>n. x = Some n \<Longrightarrow> n < NTHRD"
proof -
  obtain r s1 where a: "allocthread s = (r, s1)" by (cases "allocthread s")
  note t = typed_allocthread [OF assms(1) a]
  have "typed s' \<and> (\<forall>n. x = Some n \<longrightarrow> n < NTHRD)"
  proof (cases r)
    case None
    then show ?thesis using assms(3) a t(1) by (auto simp: pthread_fork_def)
  next
    case (Some n)
    define s2 where "s2 = upd_t cur (\<lambda>p. p\<lparr>t_assign := wrap32 (t_assign p + 1)\<rparr>) s1"
    have t2: "typed s2" unfolding s2_def
      by (rule typed_upd_t) (use t(1) typed_proc [OF t(1) assms(2)] in \<open>simp_all add: proc_typed_def wrap32_def\<close>)
    obtain f s3 where 3: "set_frame (q_tf (pths s2 ! n)) f (upd_q n (\<lambda>q. q\<lparr>q_pid := t_pid (tprocs s2 ! cur), q_tid := t_assign (tprocs s2 ! cur), q_ptable := cur\<rparr>) s2) = Inr s3"
      "s' = s3" "x = Some n"
      using assms(3) a Some by (auto simp: pthread_fork_def Let_def res_simps s2_def)
    have "typed (upd_q n (\<lambda>q. q\<lparr>q_pid := t_pid (tprocs s2 ! cur), q_tid := t_assign (tprocs s2 ! cur), q_ptable := cur\<rparr>) s2)"
      by (rule typed_upd_q) (use t2 typed_proc [OF t2 assms(2)] typed_thread [OF t2, of n] assms(2) in \<open>simp_all add: proc_typed_def thread_typed_def\<close>)
    from typed_set_frame [OF this 3(1)] show ?thesis using 3 t(5) [OF Some] by simp
  qed
  then show "typed s'" "\<And>n. x = Some n \<Longrightarrow> n < NTHRD" by auto
qed

lemma typed_pthread_exec:
  assumes "typed s" "pthread_exec th start arg cur s = Inr (r, s')"
  shows "typed s'"
proof (cases "t_memlimit (tprocs s ! cur) \<noteq> 0 \<and>
    wrap32 (round_up (if t_freed (tprocs s ! cur) \<noteq> 0 then t_freed_sz (tprocs s ! cur) ! t_front (tprocs s ! cur) else t_sz (tprocs s ! cur)) * PGSIZE
      + (t_stacksz (tprocs s ! cur) + 1) * PGSIZE) > t_memlimit (tprocs s ! cur)")
  case True
  show ?thesis using assms unfolding pthread_exec_def Let_def if_P [OF True] by auto
next
  case False
  let ?a = "round_up (if t_freed (tprocs s ! cur) \<noteq> 0 then t_freed_sz (tprocs s ! cur) ! t_front (tprocs s ! cur) else t_sz (tprocs s ! cur)) * PGSIZE"
  let ?b = "wrap32 (?a + (t_stacksz (tprocs s ! cur) + 1) * PGSIZE)"
  obtain d z d1 m1 where al: "allocuvm ?a ?b d (tkm s) = Inr (z, d1, m1)"
    and rest: "(if z = 0 then Inr (-1, set_mem cur (d1, m1) s)
          else bindR (clearpteu (sub32 z ((t_stacksz (tprocs s ! cur) + 1) * PGSIZE)) d1) (\<lambda>d2.
            bindR (copyout d2 (sub32 z 8) (le32 4294967295 @ le32 arg) m1) (\<lambda>(c, m2).
              let s1 = set_mem cur (d2, m2) s in
              if c < 0 then Inr (-1, s1)
              else let s2 = upd_q th (\<lambda>q. q\<lparr>q_th_sz := z\<rparr>)
                     (upd_t cur (\<lambda>p. if t_freed p \<noteq> 0 then snd (fr_pop p) else p\<lparr>t_sz := z\<rparr>) s1)
                   in deref ''pthread_exec: tf'' (q_tf (pths s2 ! th)) (\<lambda>k.
                        Inr (0, s2\<lparr>tframe := (tframe s2)(k := (tframe s2 k)\<lparr>tf_eip := start, tf_esp := sub32 z 8\<rparr>)\<rparr>))))) = Inr (r, s')"
    using assms(2) unfolding pthread_exec_def Let_def if_not_P [OF False] deref_eq_Inr bindR_eq_Inr [where m = "allocuvm _ _ _ _"] by auto
  have "?a < W32" by (simp add: round_up_def wrap32_def)
  then have z: "z < W32" using allocuvm_ret [OF al] by (auto simp: wrap32_def)
  have "typed (upd_t cur (\<lambda>p. if t_freed p \<noteq> 0 then snd (fr_pop p) else p\<lparr>t_sz := z\<rparr>) (set_mem cur dm s))" for dm
    by (rule typed_upd_t)
      (use z typed_set_mem [OF assms(1), of cur dm] in \<open>auto dest!: typed_proc [OF typed_set_mem [OF assms(1), of cur dm]] simp: proc_typed_def fr_pop_def\<close>)
  then have "typed (upd_q th (\<lambda>q. q\<lparr>q_th_sz := z\<rparr>) (upd_t cur (\<lambda>p. if t_freed p \<noteq> 0 then snd (fr_pop p) else p\<lparr>t_sz := z\<rparr>) (set_mem cur dm s)))" for dm
    by (rule typed_sizes(2) [OF _ z])
  then show ?thesis using rest typed_set_mem [OF assms(1)] by (auto simp: res_simps Let_def split: if_split_asm)
qed

lemma typed_thread_create [typed_intros]:
  assumes "typed s" "cur < NPROCS" "thread_create start arg cur s = Inr (r, t, s')"
  shows "typed s'"
proof -
  obtain x s1 where 1: "pthread_fork cur s = Inr (x, s1)" using assms(3) unfolding thread_create_def bindR_eq_Inr by auto
  note f = typed_pthread_fork [OF assms(1,2) 1]
  show ?thesis
  proof (cases x)
    case None
    then show ?thesis using assms(3) 1 f(1) by (simp add: thread_create_def)
  next
    case (Some n)
    obtain c s2 where 2: "pthread_exec n start arg cur s1 = Inr (c, s2)"
      using assms(3) unfolding thread_create_def 1 bindR_Inr Some prod.case option.case bindR_eq_Inr by auto
    have t2: "typed s2" by (rule typed_pthread_exec [OF f(1) 2])
    have "typed (upd_q n (\<lambda>q. q\<lparr>q_pid := t_pid (tprocs s2 ! cur), q_state := RUNNABLE, q_ptable := cur, q_joiner := Some (t_idx (tprocs s2 ! cur))\<rparr>) s2)"
      by (rule typed_upd_q) (use t2 typed_proc [OF t2 assms(2)] typed_thread [OF t2, of n] assms(2) in \<open>simp_all add: proc_typed_def thread_typed_def\<close>)
    then show ?thesis using assms(3) typed_state(5) [OF t2] unfolding thread_create_def 1 bindR_Inr Some prod.case option.case 2
      by (auto simp: res_simps Let_def split: if_split_asm)
  qed
qed

lemma typed_thread_exit [typed_intros]:
  assumes "typed s" "thread_exit v cur s = Inr s'"
  shows "typed s'"
proof -
  have "typed (snd (kill pid s))" for pid by (rule typed_kill [OF assms(1), of pid "fst (kill pid s)"]) simp
  then show ?thesis using assms by (auto simp: thread_exit_def Let_def dest!: sched_Inr intro!: typed_wakeup1 typed_state split: if_split_asm)
qed

lemma typed_join_reap:
  assumes "typed s" "cur < NPROCS" "join_reap j cur s = Inr (r, s')"
  shows "typed s'"
proof -
  let ?lo = "sub32 (q_th_sz (pths s ! j)) ((t_stacksz (tprocs s ! cur) + 1) * PGSIZE)"
  let ?g = "\<lambda>q. q\<lparr>q_pid := 0, q_kstack := None, q_state := UNUSED, q_chan := None, q_ptable := 0, q_tid := 0, q_joiner := None\<rparr>"
  have "1 \<le> tnextpid s" using assms(1) by (simp add: typed_def)
  then have q: "typed (upd_q j ?g (s\<lparr>tkm := m\<rparr>))" for m
    by (intro typed_upd_q) (use assms(1) typed_thread [OF assms(1), of j] in \<open>simp_all add: thread_typed_def\<close>)
  have "typed (upd_t cur (fr_push ?lo) (upd_q j ?g (s\<lparr>tkm := m\<rparr>)))" for m
    by (rule typed_upd_t [OF q]) (use typed_proc [OF q assms(2), of m] in \<open>simp_all add: proc_typed_def fr_push_def\<close>)
  then have "typed (upd_q j (\<lambda>q. q\<lparr>q_th_sz := 0\<rparr>) (set_mem cur dm (upd_t cur (fr_push ?lo) (upd_q j ?g (s\<lparr>tkm := m\<rparr>)))))" for m dm
    by (intro typed_sizes(2) typed_set_mem) simp_all
  then show ?thesis using assms(3) unfolding join_reap_def Let_def deref_eq_Inr bindR_eq_Inr by auto
qed

lemma typed_thread_join [typed_intros]:
  assumes "typed s" "cur < NPROCS" "thread_join t cur s = Inr (r, s')"
  shows "typed s'"
  using assms by (auto simp: thread_join_def res_simps split: if_split_asm option.splits dest: typed_join_reap typed_sleep_begin)

subsection \<open>Exec\<close>

lemma typed_delete_others: "delete_others i js s = Inr s' \<Longrightarrow> typed s \<Longrightarrow> i < NPROCS \<Longrightarrow> typed s'"
proof (induction js arbitrary: s)
  case (Cons j js)
  let ?s = "s\<lparr>tprocs := map (\<lambda>c. if t_parent_th c = Some j then c\<lparr>t_parent_th := Some (t_idx (tprocs s ! i))\<rparr> else c) (tprocs s)\<rparr>"
  have "proc_typed (tnextpid s) (tprocs s ! i)" by (rule typed_proc [OF Cons.prems(2,3)])
  then have "typed ?s" using Cons.prems(2) by (auto simp: typed_def proc_typed_def pids_apart_def)
  then show ?case using Cons by (auto simp: Let_def res_simps split: if_split_asm dest: typed_deleteThread)
qed simp

lemma typed_deleteThreads: "deleteThreads i s = Inr s' \<Longrightarrow> typed s \<Longrightarrow> i < NPROCS \<Longrightarrow> typed s'"
  unfolding deleteThreads_def bindR_eq_Inr
  by (auto dest!: typed_delete_others intro!: typed_upd_t dest: typed_proc simp: proc_typed_def)

lemma typed_exec_commit:
  assumes "typed s" "cur < NPROCS" "sz < W32" "exec_commit stk path entry sp sz d cur s = Inr (r, s')"
  shows "typed s'"
proof -
  let ?f = "\<lambda>p. p\<lparr>t_pgdir := Some d, t_memlimit := 0, t_assign := 1, t_stacksz := stk, t_freed_sz := replicate NTHRD 0,
                t_front := 0, t_back := 0, t_freed := 0, t_sz := sz, t_main := t_idx p, t_th_sz := sz, t_tid := MAINTH\<rparr>"
  have t: "typed (upd_t cur (\<lambda>p. p\<lparr>t_name := nm\<rparr>) s)" for nm
    by (rule typed_upd_t) (use assms(1) typed_proc [OF assms(1), of cur] in \<open>simp_all add: proc_typed_def\<close>)
  obtain s1 where 1: "deleteThreads cur (upd_t cur (\<lambda>p. p\<lparr>t_name := safestr (last_name path) 55\<rparr>) s) = Inr s1"
    using assms(4) unfolding exec_commit_def bindR_eq_Inr by blast
  have t1: "typed s1" by (rule typed_deleteThreads [OF 1 t assms(2)])
  have "typed (upd_t cur ?f s1)"
    by (rule typed_upd_t) (use t1 typed_proc [OF t1 assms(2)] assms(3) in \<open>simp_all add: proc_typed_def\<close>)
  then show ?thesis using assms(4) unfolding exec_commit_def 1 bindR_Inr Let_def deref_eq_Inr bindR_eq_Inr by auto
qed

lemma typed_exec_bad: "exec_bad d m s = Inr (r, s') \<Longrightarrow> typed s \<Longrightarrow> typed s'"
  by (auto simp: exec_bad_def res_simps)

lemma load_segs_ret: "load_segs rd n off sz d m = Inr (Some z, dm) \<Longrightarrow> sz < W32 \<Longrightarrow> z < W32"
proof (induction rd n off sz d m rule: load_segs.induct)
  case (2 rd n off sz d m)
  have a: "r < W32" if "allocuvm sz (wrap32 x) d m = Inr (r, y)" for r x y
    using allocuvm_ret [OF that] 2(4) by (auto simp: wrap32_def)
  show ?case using 2 by (auto simp: Let_def res_simps split: if_split_asm dest: a)
qed simp

lemma typed_exec_stack:
  assumes "typed s" "cur < NPROCS" "exec_stack stk path argv entry sz0 d m cur s = Inr (r, s')"
  shows "typed s'"
proof -
  obtain z d1 m1 where al: "allocuvm (round_up sz0 * PGSIZE) (wrap32 (round_up sz0 * PGSIZE + (stk + 1) * PGSIZE)) d m = Inr (z, d1, m1)"
    using assms(3) unfolding exec_stack_def Let_def bindR_eq_Inr [where m = "allocuvm _ _ _ _"] by auto
  have "round_up sz0 * PGSIZE < W32" by (simp add: round_up_def wrap32_def)
  then have z: "z < W32" using allocuvm_ret [OF al] by (auto simp: wrap32_def)
  show ?thesis
  proof (cases "z = 0")
    case True
    then show ?thesis using assms(1,3) unfolding exec_stack_def Let_def al bindR_Inr by (auto dest: typed_exec_bad)
  next
    case False
    obtain d2 x m2 where 2: "clearpteu (sub32 z ((stk + 1) * PGSIZE)) d1 = Inr d2" "push_args argv 0 z d2 m1 = Inr (x, m2)"
      using assms(3) False unfolding exec_stack_def Let_def al bindR_Inr prod.case if_not_P [OF False] bindR_eq_Inr by auto
    show ?thesis
    proof (cases x)
      case None
      then show ?thesis using assms(1,3) False unfolding exec_stack_def Let_def al bindR_Inr prod.case if_not_P [OF False] 2 None option.case
        by (auto dest: typed_exec_bad)
    next
      case (Some y)
      obtain sp ps where y: "y = (sp, ps)" by (cases y)
      have t: "typed (s\<lparr>tkm := m3\<rparr>)" for m3 using assms(1) by simp
      show ?thesis
        using assms(3) unfolding exec_stack_def Let_def al bindR_Inr prod.case if_not_P [OF False] 2 Some option.case y bindR_eq_Inr
        by (auto split: if_split_asm dest: typed_exec_bad [OF _ assms(1)] typed_exec_commit [OF t assms(2) z])
    qed
  qed
qed

lemma typed_exec_image [typed_intros]:
  assumes "typed s" "cur < NPROCS" "exec_image stk path argv prog cur s = Inr (r, s')"
  shows "typed s'"
proof (cases prog)
  case None
  then show ?thesis using assms by (simp add: exec_image_def)
next
  case (Some rd)
  let ?s = "upd_t cur (\<lambda>p. p\<lparr>t_state := RUNNING\<rparr>) s"
  have t: "typed ?s" by (rule typed_state(1) [OF assms(1)])
  show ?thesis
  proof (cases "length (rd 0 52) \<noteq> 52 \<or> field (rd 0 52) 0 4 \<noteq> 1179403647")
    case True
    show ?thesis using assms(3) t unfolding exec_image_def Some option.case Let_def if_P [OF True] by auto
  next
    case False
    obtain pd m where 1: "setupkvm (tkm ?s) = Inr (pd, m)"
      using assms(3) unfolding exec_image_def Some option.case Let_def if_not_P [OF False] bindR_eq_Inr by auto
    note run = assms(3) [unfolded exec_image_def Some option.case Let_def if_not_P [OF False] 1 bindR_Inr prod.case]
    show ?thesis
    proof (cases pd)
      case None
      then show ?thesis using run t by auto
    next
      case (Some d)
      show ?thesis
        using run [unfolded Some option.case bindR_eq_Inr] t
        by (auto split: option.splits dest: typed_exec_bad typed_exec_stack [OF t assms(2)])
    qed
  qed
qed

lemma typed_exec2 [typed_intros]: "typed s \<Longrightarrow> cur < NPROCS \<Longrightarrow> exec2 path argv n prog cur s = Inr (r, s') \<Longrightarrow> typed s'"
  by (auto simp: exec2_def split: if_split_asm dest: typed_exec_image)

section \<open>The steps of the kernel\<close>

text \<open>A slot is dressed with a runnable thread of its process, and undressed into the entry of the thread that wore it.\<close>

inductive tstep :: "tk \<Rightarrow> tk \<Rightarrow> bool" where
  start: "userinit code root s = Inr s' \<Longrightarrow> tstep s s'"
| grow: "i < NPROCS \<Longrightarrow> growproc n i s = Inr (r, s') \<Longrightarrow> tstep s s'"
| fork: "i < NPROCS \<Longrightarrow> fork i s = Inr (r, s') \<Longrightarrow> tstep s s'"
| exec: "i < NPROCS \<Longrightarrow> exec_image stk path argv prog i s = Inr (r, s') \<Longrightarrow> tstep s s'"
| exec2: "i < NPROCS \<Longrightarrow> exec2 path argv n prog i s = Inr (r, s') \<Longrightarrow> tstep s s'"
| exit: "i < NPROCS \<Longrightarrow> exit i s = Inr s' \<Longrightarrow> tstep s s'"
| wait: "i < NPROCS \<Longrightarrow> wait i s = Inr (w, s') \<Longrightarrow> tstep s s'"
| kill: "kill pid s = (r, s') \<Longrightarrow> tstep s s'"
| limit: "limit < 2147483648 \<Longrightarrow> setmemorylimit pid limit s = (r, s') \<Longrightarrow> tstep s s'"
| create: "i < NPROCS \<Longrightarrow> thread_create start arg i s = Inr (r, t, s') \<Longrightarrow> tstep s s'"
| thexit: "i < NPROCS \<Longrightarrow> thread_exit v i s = Inr s' \<Longrightarrow> tstep s s'"
| join: "i < NPROCS \<Longrightarrow> thread_join t i s = Inr (j, s') \<Longrightarrow> tstep s s'"
| yield: "i < NPROCS \<Longrightarrow> yield i s = Inr s' \<Longrightarrow> tstep s s'"
| sleep: "i < NPROCS \<Longrightarrow> sleep_begin ch i s = Inr s' \<Longrightarrow> tstep s s'"
| woken: "i < NPROCS \<Longrightarrow> tstep s (sleep_end i s)"
| wakeup: "tstep s (wakeup ch s)"
| dress: "i < NPROCS \<Longrightarrow> j < NTHRD \<Longrightarrow> q_pid (pths s ! j) = t_pid (tprocs s ! i) \<Longrightarrow> q_state (pths s ! j) = RUNNABLE \<Longrightarrow>
    dispatch i j s = Inr s' \<Longrightarrow> tstep s s'"
| undress: "i < NPROCS \<Longrightarrow> tstep s (mvProcToThread i (t_idx (tprocs s ! i)) s)"
| dust: "i < NPROCS \<Longrightarrow> tstep s (clearProc i s)"

lemma tstep_typed: "tstep s s' \<Longrightarrow> typed s \<Longrightarrow> typed s'"
  by (induction rule: tstep.induct) (auto intro: typed_userinit typed_growproc typed_fork typed_exec_image typed_exec2 typed_exit typed_wait typed_kill
    typed_setmemorylimit typed_thread_create typed_thread_exit typed_thread_join typed_yield typed_sleep_begin typed_sleep_end typed_wakeup typed_dispatch
    typed_mvProcToThread typed_clearProc)

lemma boot_typed: "typed (boot_tk m)"
  by (simp add: typed_def boot_tk_def proc_typed_def thread_typed_def no_proc_def no_thread_def pids_apart_def)


lemma one_thread_typed: "typed one_thread"
proof -
  have "proc_typed 2 (the_proc d 4096)" "proc_typed 2 no_proc" "thread_typed 2 main_thread" "thread_typed 2 no_thread" for d
    by (simp_all add: proc_typed_def thread_typed_def the_proc_def no_proc_def main_thread_def no_thread_def)
  moreover have "pids_apart (the_proc d 4096 # replicate 63 no_proc)" for d
    by (auto simp: pids_apart_def nth_Cons' the_proc_def no_proc_def)
  ultimately show ?thesis by (simp add: typed_def one_thread_def machine_def)
qed


end
