(* ===== verification/Th_Info.thy ===== *)
theory Th_Info
  imports Th_State "HOL-Library.Signed_Division"
begin

text \<open>
  The process listing of Project02-Thread/proc.c, \<open>procInfo\<close>: the slots that are in use, sorted by
  process id with a bubble sort of their indices, one row each. The width of a number is found by dividing
  by ten until nothing is left; the loop is a partial function, so its end is proved and not assumed.
\<close>

section \<open>Definitions\<close>

definition listed :: "tk \<Rightarrow> nat list" where
  "listed s = filter (\<lambda>i. t_pid (tprocs s ! i) \<noteq> 0 \<and> t_state (tprocs s ! i) \<in> {RUNNABLE, RUNNING, SLEEPING}) [0..<length (tprocs s)]"

definition bubble_step :: "('a \<Rightarrow> 'k::linorder) \<Rightarrow> nat \<Rightarrow> 'a list \<Rightarrow> 'a list" where
  "bubble_step key j xs =
     (if key (xs ! (j - 1)) > key (xs ! j) then xs[j - 1 := xs ! j, j := xs ! (j - 1)] else xs)"

definition bubble_pass :: "('a \<Rightarrow> 'k::linorder) \<Rightarrow> 'a list \<Rightarrow> 'a list" where
  "bubble_pass key xs = fold (bubble_step key) [1..<length xs] xs"

definition bubble_sort :: "('a \<Rightarrow> 'k::linorder) \<Rightarrow> 'a list \<Rightarrow> 'a list" where
  "bubble_sort key xs = (bubble_pass key ^^ length xs) xs"

partial_function (option) count_digits :: "int \<Rightarrow> nat \<Rightarrow> nat option" where
  "count_digits x len = (if x = 0 then Some len else count_digits (x sdiv 10) (len + 1))"

declare count_digits.simps [code]

definition cell :: "nat \<Rightarrow> nat \<Rightarrow> out \<Rightarrow> out list" where
  "cell width len x = [x] @ replicate (width - (len + 1)) (OStr '' '') @ [OStr ''| '']"

definition num_cell :: "nat \<Rightarrow> int \<Rightarrow> int \<Rightarrow> out list option" where
  "num_cell width n x = Option.bind (count_digits n 0) (\<lambda>len. Some (cell width len (ONum x)))"

definition info_row :: "tproc \<Rightarrow> out list option" where
  "info_row p =
     (let name = safestr (t_name p) 55 in
      Option.bind (num_cell 12 (if t_pid p = 0 then 1 else t_pid p) (t_pid p)) (\<lambda>pid.
      Option.bind (num_cell 15 (int (t_stacksz p)) (int_of_uint (t_stacksz p))) (\<lambda>stk.
      Option.bind (num_cell 18 (int (t_sz p)) (int_of_uint (t_sz p))) (\<lambda>sz.
      Option.bind (num_cell 16 (if t_memlimit p = 0 then 1 else int (t_memlimit p)) (int_of_uint (t_memlimit p))) (\<lambda>lim.
      Some ([OStr ''| ''] @ cell 18 (length name) (OStr name) @ pid @ stk @ sz @ lim @ [OStr [CHR 10]]))))))"

fun info_rows :: "nat list \<Rightarrow> tk \<Rightarrow> out list option" where
  "info_rows [] s = Some []"
| "info_rows (i # is) s =
     Option.bind (info_row (tprocs s ! i)) (\<lambda>r. Option.bind (info_rows is s) (\<lambda>rs. Some (r @ rs)))"

definition info_head :: "out list" where
  "info_head =
     [OStr (''|------------------------------Process Information----------------------------------|'' @ [CHR 10]),
      OStr (''|-------name-------|----pid-----|--stack pages--|--current memory--|--memory limit--|'' @ [CHR 10]),
      OStr (''|------------------|------------|---------------|------------------|----------------|'' @ [CHR 10])]"

definition procInfo :: "tk \<Rightarrow> tk option" where
  "procInfo s = Option.bind (info_rows (bubble_sort (\<lambda>i. t_pid (tprocs s ! i)) (listed s)) s)
     (\<lambda>rows. Some (tprint (info_head @ rows @ [last info_head]) s))"

section \<open>The sort\<close>

text \<open>One pass, on the list instead of its indices.\<close>

fun sift :: "('a \<Rightarrow> 'k::linorder) \<Rightarrow> 'a list \<Rightarrow> 'a list" where
  "sift key (x # y # xs) = (if key x > key y then y # sift key (x # xs) else x # sift key (y # xs))"
| "sift key xs = xs"

lemma length_sift [simp]: "length (sift key xs) = length xs"
  by (induction key xs rule: sift.induct) auto

lemma fold_bubble:
  "fold (bubble_step key) [length as + 1..<length as + length xs] (as @ xs) = as @ sift key xs"
proof (induction key xs arbitrary: as rule: sift.induct)
  case (1 key x y xs)
  have u: "[length as + 1..<length as + length (x # y # xs)] = (length as + 1) # [length as + 2..<length as + length (x # y # xs)]"
    by (subst upt_rec) auto
  have s: "bubble_step key (length as + 1) (as @ x # y # xs) = as @ (if key x > key y then y # x # xs else x # y # xs)"
    by (simp add: bubble_step_def nth_append list_update_append)
  show ?case
  proof (cases "key x > key y")
    case True
    then show ?thesis using "1.IH"(1) [OF True, of "as @ [y]"] unfolding u fold_simps(2) o_apply s by simp
  next
    case False
    then show ?thesis using "1.IH"(2) [OF False, of "as @ [x]"] unfolding u fold_simps(2) o_apply s by simp
  qed
qed auto

lemma bubble_pass_sift: "bubble_pass key xs = sift key xs"
  using fold_bubble [of key "[]" xs] by (simp add: bubble_pass_def)

lemma mset_sift [simp]: "mset (sift key xs) = mset xs"
  by (induction key xs rule: sift.induct) auto

lemma set_sift [simp]: "set (sift key xs) = set xs"
  by (metis mset_sift set_mset_mset)

text \<open>Equal keys keep their order.\<close>

lemma filter_sift: "filter (\<lambda>x. key x = k) (sift key xs) = filter (\<lambda>x. key x = k) xs"
  by (induction key xs rule: sift.induct) auto

text \<open>The largest key sinks to the end, past a sorted rest of larger ones.\<close>

lemma sift_max: "xs \<noteq> [] \<Longrightarrow> \<exists>zs m. sift key xs = zs @ [m] \<and> (\<forall>z\<in>set xs. key z \<le> key m)"
proof (induction key xs rule: sift.induct)
  case (1 key x y xs)
  show ?case
  proof (cases "key x > key y")
    case True
    from "1.IH"(1) [OF True] obtain zs m where "sift key (x # xs) = zs @ [m]" "\<forall>z\<in>set (x # xs). key z \<le> key m" by auto
    then show ?thesis using True by (intro exI [of _ "y # zs"] exI [of _ m]) auto
  next
    case False
    from "1.IH"(2) [OF False] obtain zs m where "sift key (y # xs) = zs @ [m]" "\<forall>z\<in>set (y # xs). key z \<le> key m" by auto
    then show ?thesis using False by (intro exI [of _ "x # zs"] exI [of _ m]) auto
  qed
qed auto

lemma sift_sorted: "sorted (map key ys) \<Longrightarrow> sift key ys = ys"
  by (induction key ys rule: sift.induct) auto

lemma sift_append:
  "sorted (map key ys) \<Longrightarrow> \<forall>x\<in>set xs. \<forall>y\<in>set ys. key x \<le> key y \<Longrightarrow> sift key (xs @ ys) = sift key xs @ ys"
  by (induction key xs rule: sift.induct) (auto simp: sift_sorted)

lemma passes_sorted:
  "k \<le> length xs \<Longrightarrow> \<exists>as bs. (sift key ^^ k) xs = as @ bs \<and> length bs = k \<and> sorted (map key bs) \<and> (\<forall>x\<in>set as. \<forall>y\<in>set bs. key x \<le> key y)"
proof (induction k)
  case (Suc k)
  then obtain as bs where ih: "(sift key ^^ k) xs = as @ bs" "length bs = k" "sorted (map key bs)" "\<forall>x\<in>set as. \<forall>y\<in>set bs. key x \<le> key y"
    by auto
  have "length ((sift key ^^ k) xs) = length xs" by (induction k) auto
  then have "as \<noteq> []" using ih(1,2) Suc.prems by auto
  from sift_max [OF this, of key] obtain zs m where z: "sift key as = zs @ [m]" "\<forall>x\<in>set as. key x \<le> key m" by blast
  have sub: "set (zs @ [m]) = set as" using z(1) set_sift by metis
  have "(sift key ^^ Suc k) xs = zs @ m # bs" using sift_append [OF ih(3,4)] ih(1) z(1) by simp
  moreover have "\<forall>x\<in>set zs. \<forall>y\<in>set (m # bs). key x \<le> key y" using sub z(2) ih(4) by auto
  moreover have "sorted (map key (m # bs))" using sub ih(3,4) by auto
  ultimately show ?case using ih(2) by (intro exI [of _ zs] exI [of _ "m # bs"]) simp
qed auto

lemma bubble_sort_key: "bubble_sort key xs = sort_key key xs"
proof -
  have e: "bubble_sort key xs = (sift key ^^ length xs) xs" unfolding bubble_sort_def bubble_pass_sift [abs_def] ..
  obtain as bs where a: "(sift key ^^ length xs) xs = as @ bs" "length bs = length xs" "sorted (map key bs)"
    using passes_sorted [of "length xs" xs key] by auto
  have m: "mset ((sift key ^^ k) xs) = mset xs" for k by (induction k) auto
  have f: "filter (\<lambda>x. key x = v) ((sift key ^^ k) xs) = filter (\<lambda>x. key x = v) xs" for k v
    by (induction k) (auto simp: filter_sift)
  have "length as + length bs = length xs" using m [of "length xs"] unfolding a(1) by (metis length_append size_mset)
  then have "as = []" using a(2) by simp
  then have b: "(sift key ^^ length xs) xs = bs" using a(1) by simp
  have "sort_key key xs = bs"
  proof (rule properties_for_sort_key [OF _ _ a(3)])
    show "mset bs = mset xs" using m [of "length xs"] unfolding b .
    show "filter (\<lambda>x. key k = key x) bs = filter (\<lambda>x. key k = key x) xs" for k
      using f [of "key k" "length xs"] unfolding b by (simp add: eq_commute)
  qed
  then show ?thesis using e b by simp
qed

section \<open>The widths\<close>

definition dlen :: "nat \<Rightarrow> nat" where
  "dlen n = (LEAST k. n < 10 ^ k)"

lemma dlen_0 [simp]: "dlen 0 = 0"
  by (simp add: dlen_def)

lemma dlen_div: "0 < n \<Longrightarrow> dlen n = Suc (dlen (n div 10))"
proof -
  assume n: "0 < n"
  have ex: "n < 10 ^ n" by (induction n) auto
  have "(LEAST k. n < 10 ^ k) = Suc (LEAST k. n < 10 ^ Suc k)"
    by (rule Least_Suc [of "\<lambda>k. n < 10 ^ k", OF ex]) (use n in simp)
  also have "(LEAST k. n < 10 ^ Suc k) = (LEAST k. n div 10 < 10 ^ k)"
    by (rule arg_cong [of _ _ Least]) (auto simp: div_less_iff_less_mult mult.commute)
  finally show ?thesis by (simp add: dlen_def)
qed

lemma count_digits_dlen: "count_digits x len = Some (len + dlen (nat \<bar>x\<bar>))"
proof (induction "nat \<bar>x\<bar>" arbitrary: x len rule: less_induct)
  case less
  show ?case
  proof (cases "x = 0")
    case False
    have a: "\<bar>x sdiv 10\<bar> = \<bar>x\<bar> div 10" using False by (simp add: signed_divide_int_def abs_mult abs_sgn_eq)
    have "nat \<bar>x sdiv 10\<bar> < nat \<bar>x\<bar>" unfolding a using False by simp
    from less [OF this] have "count_digits (x sdiv 10) (len + 1) = Some (len + 1 + dlen (nat \<bar>x\<bar> div 10))"
      unfolding a by (simp add: nat_div_distrib)
    then show ?thesis using False by (subst count_digits.simps) (simp add: dlen_div)
  qed (simp add: count_digits.simps)
qed

text \<open>The row of a process.\<close>

definition row_of :: "tproc \<Rightarrow> out list" where
  "row_of p = [OStr ''| ''] @ cell 18 (length (safestr (t_name p) 55)) (OStr (safestr (t_name p) 55)) @
     cell 12 (max 1 (dlen (nat \<bar>t_pid p\<bar>))) (ONum (t_pid p)) @ cell 15 (dlen (t_stacksz p)) (ONum (int_of_uint (t_stacksz p))) @
     cell 18 (dlen (t_sz p)) (ONum (int_of_uint (t_sz p))) @ cell 16 (max 1 (dlen (t_memlimit p))) (ONum (int_of_uint (t_memlimit p))) @
     [OStr [CHR 10]]"

lemma info_row_eq: "info_row p = Some (row_of p)"
proof -
  have p: "dlen n = max 1 (dlen n)" if "0 < n" for n using that by (simp add: dlen_div)
  have 1: "dlen 1 = 1" by (simp add: dlen_div)
  show ?thesis
    using p [of "nat \<bar>t_pid p\<bar>"] p [of "t_memlimit p"] 1
    by (simp add: info_row_def row_of_def num_cell_def count_digits_dlen Let_def)
qed

text \<open>C23: \<open>procInfo\<close> ends in every state, whatever the process ids and sizes are: it prints the heading, one row for each slot
  in use, in the order of the process ids, and the closing line, and changes nothing else. Each number is followed by blanks up to the width of its column,
  computed from the number of its decimal digits.\<close>

theorem procInfo_returns:
  "procInfo s = Some (tprint (info_head @ concat (map (\<lambda>i. row_of (tprocs s ! i)) (sort_key (\<lambda>i. t_pid (tprocs s ! i)) (listed s))) @ [last info_head]) s)"
proof -
  have "info_rows is s = Some (concat (map (\<lambda>i. row_of (tprocs s ! i)) is))" for "is"
    by (induction "is") (simp_all add: info_row_eq)
  then show ?thesis by (simp add: procInfo_def bubble_sort_key)
qed

end
