(* ===== verification/Th_Sys.thy ===== *)
theory Th_Sys
  imports Th_Example Th_Info
begin

text \<open>
  System calls of Project02-Thread: syscall.c, sysproc.c, the fetching of the arguments of \<open>exec\<close> and
  \<open>exec2\<close> in sysfile.c, and the system call path of trap.c. The kernel reads and writes user memory through the
  page table of the process; a page that is missing is a fault in kernel mode, on which \<open>trap\<close> panics. The
  bit that keeps user code off a page does not bind the kernel.

  The calls that work on files are the argument \<open>other\<close> of the dispatcher, the program files the
  argument \<open>progs\<close>.
\<close>

section \<open>User memory seen by the kernel\<close>

definition kread :: "pgdir \<Rightarrow> kmem \<Rightarrow> nat \<Rightarrow> byte res" where
  "kread d m va = (case pd_pte d (va div PGSIZE) of
     None \<Rightarrow> Inl (Panic ''trap'') | Some e \<Rightarrow> Inr (pmem m (pte_page e) (va mod PGSIZE)))"

fun kread_list :: "pgdir \<Rightarrow> kmem \<Rightarrow> nat list \<Rightarrow> byte list res" where
  "kread_list d m [] = Inr []"
| "kread_list d m (a # as) = bindR (kread d m a) (\<lambda>b. bindR (kread_list d m as) (\<lambda>bs. Inr (b # bs)))"

text \<open>A store through a pointer that was not checked. At \<open>KERNBASE\<close> and above it hits the kernel itself.\<close>

fun kstore :: "pgdir \<Rightarrow> nat \<Rightarrow> byte list \<Rightarrow> kmem \<Rightarrow> kmem res" where
  "kstore d va [] m = Inr m"
| "kstore d va (b # bs) m =
     (if va \<ge> KERNPAGE * PGSIZE then Inl (Overrun ''store into the kernel'')
      else case pd_pte d (va div PGSIZE) of
             None \<Rightarrow> Inl (Panic ''trap'')
           | Some e \<Rightarrow> kstore d (va + 1) bs
               (m\<lparr>pmem := (pmem m)(pte_page e := (pmem m (pte_page e))(va mod PGSIZE := b))\<rparr>))"

section \<open>Arguments\<close>

definition fetchint :: "nat \<Rightarrow> nat \<Rightarrow> tk \<Rightarrow> nat option res" where
  "fetchint addr cur s =
     (let p = tprocs s ! cur in
      if addr \<ge> t_sz p \<or> wrap32 (addr + 4) > t_sz p then Inr None
      else deref ''fetchint: pgdir'' (t_pgdir p) (\<lambda>d.
        bindR (kread_list d (tkm s) [addr..<addr + 4]) (\<lambda>bs. Inr (Some (field bs 0 4)))))"

function str_at :: "pgdir \<Rightarrow> kmem \<Rightarrow> nat \<Rightarrow> nat \<Rightarrow> byte list option res" where
  "str_at d m a ep =
     (if ep \<le> a then Inr None
      else bindR (kread d m a) (\<lambda>c.
        if c = 0 then Inr (Some [])
        else bindR (str_at d m (a + 1) ep) (\<lambda>r. Inr (map_option (Cons c) r))))"
  by pat_completeness auto
termination by (relation "measure (\<lambda>(d, m, a, ep). ep - a)") auto

declare str_at.simps [simp del]

text \<open>The string itself stands for the pointer and the length that are returned.\<close>

definition fetchstr :: "nat \<Rightarrow> nat \<Rightarrow> tk \<Rightarrow> byte list option res" where
  "fetchstr addr cur s =
     (let p = tprocs s ! cur in
      if addr \<ge> t_sz p then Inr None
      else deref ''fetchstr: pgdir'' (t_pgdir p) (\<lambda>d. str_at d (tkm s) addr (t_sz p)))"

definition argint :: "nat \<Rightarrow> nat \<Rightarrow> tk \<Rightarrow> nat option res" where
  "argint n cur s = deref ''argint: tf'' (t_tf (tprocs s ! cur)) (\<lambda>k. fetchint (wrap32 (tf_esp (tframe s k) + 4 + 4 * n)) cur s)"

definition argptr :: "nat \<Rightarrow> int \<Rightarrow> nat \<Rightarrow> tk \<Rightarrow> nat option res" where
  "argptr n len cur s =
     bindR (argint n cur s) (\<lambda>r. Inr (case r of
       None \<Rightarrow> None
     | Some i \<Rightarrow> let sz = t_sz (tprocs s ! cur) in
         if len < 0 \<or> i \<ge> sz \<or> wrap32 (i + nat len) > sz then None else Some i))"

definition argstr :: "nat \<Rightarrow> nat \<Rightarrow> tk \<Rightarrow> byte list option res" where
  "argstr n cur s = bindR (argint n cur s) (\<lambda>r. case r of None \<Rightarrow> Inr None | Some a \<Rightarrow> fetchstr a cur s)"

section \<open>The calls\<close>

text \<open>A call returns to the user, has put the caller to sleep and is made again when it is woken, or never returns.\<close>

datatype sysret = Ret int | Blocked | Gone

type_synonym call = "nat \<Rightarrow> tk \<Rightarrow> (sysret \<times> tk) res"

definition with_int :: "nat \<Rightarrow> (nat \<Rightarrow> call) \<Rightarrow> call" where
  "with_int n f cur s = bindR (argint n cur s) (\<lambda>r. case r of None \<Rightarrow> Inr (Ret (-1), s) | Some v \<Rightarrow> f v cur s)"

definition sys_fork :: call where
  "sys_fork cur s = bindR (fork cur s) (\<lambda>(r, s1). Inr (Ret r, s1))"

definition sys_exit :: call where
  "sys_exit cur s = bindR (exit cur s) (\<lambda>s1. Inr (Gone, s1))"

definition sys_wait :: call where
  "sys_wait cur s = bindR (wait cur s) (\<lambda>(w, s1).
     Inr (case w of Reaped pid \<Rightarrow> Ret pid | NoChild \<Rightarrow> Ret (-1) | TAsleep \<Rightarrow> Blocked, s1))"

definition sys_kill :: call where
  "sys_kill = with_int 0 (\<lambda>pid cur s. let (r, s1) = kill (int_of_uint pid) s in Inr (Ret r, s1))"

definition sys_getpid :: call where
  "sys_getpid cur s = Inr (Ret (t_pid (tprocs s ! cur)), s)"

definition sys_sbrk :: call where
  "sys_sbrk = with_int 0 (\<lambda>n cur s. bindR (growproc (int_of_uint n) cur s) (\<lambda>(r, s1). Inr (Ret r, s1)))"

text \<open>\<open>ticks0\<close> is the counter when the call began; the comparison is unsigned.\<close>

definition sys_sleep :: "nat \<Rightarrow> nat \<Rightarrow> call" where
  "sys_sleep ticks0 ticks = with_int 0 (\<lambda>n cur s.
     if sub32 ticks ticks0 < n
     then (if t_killed (tprocs s ! cur) then Inr (Ret (-1), s)
           else bindR (sleep_begin (Some ChTicks) cur s) (\<lambda>s1. Inr (Blocked, s1)))
     else Inr (Ret 0, s))"

definition sys_setmemorylimit :: call where
  "sys_setmemorylimit = with_int 0 (\<lambda>pid. with_int 1 (\<lambda>limit cur s.
     let (r, s1) = setmemorylimit (int_of_uint pid) (int_of_uint limit) s in Inr (Ret r, s1)))"

definition sys_thread_create :: call where
  "sys_thread_create = with_int 0 (\<lambda>thread. with_int 1 (\<lambda>start. with_int 2 (\<lambda>arg cur s.
     bindR (thread_create start arg cur s) (\<lambda>(r, t, s1).
       case t of
         None \<Rightarrow> Inr (Ret r, s1)
       | Some tid \<Rightarrow> deref ''thread_create: pgdir'' (t_pgdir (tprocs s1 ! cur)) (\<lambda>d.
           bindR (kstore d thread (le32 tid) (tkm s1)) (\<lambda>m. Inr (Ret r, s1\<lparr>tkm := m\<rparr>)))))))"

definition sys_thread_exit :: call where
  "sys_thread_exit = with_int 0 (\<lambda>retval cur s. bindR (thread_exit retval cur s) (\<lambda>s1. Inr (Gone, s1)))"

text \<open>The value is stored before the stack of the thread is unmapped, so the store is made on the memory as it was.\<close>

definition sys_thread_join :: call where
  "sys_thread_join = with_int 0 (\<lambda>thread. with_int 1 (\<lambda>retval cur s.
     bindR (thread_join thread cur s) (\<lambda>(r, s1).
       case r of
         JoinFail \<Rightarrow> Inr (Ret (-1), s1)
       | JoinAsleep \<Rightarrow> Inr (Blocked, s1)
       | Joined v \<Rightarrow> deref ''thread_join: pgdir'' (t_pgdir (tprocs s ! cur)) (\<lambda>d.
           bindR (kstore d retval (le32 v) (tkm s)) (\<lambda>m.
           bindR (thread_join thread cur (s\<lparr>tkm := m\<rparr>)) (\<lambda>(_, s2). Inr (Ret 0, s2)))))))"

definition sys_procInfo :: call where
  "sys_procInfo cur s = (case procInfo s of None \<Rightarrow> Inl (Hang ''procInfo'') | Some s1 \<Rightarrow> Inr (Ret 0, s1))"

fun exec_args :: "nat \<Rightarrow> nat \<Rightarrow> nat \<Rightarrow> nat \<Rightarrow> tk \<Rightarrow> byte list list option res" where
  "exec_args 0 i uargv cur s = Inr None"
| "exec_args (Suc n) i uargv cur s =
     bindR (fetchint (wrap32 (uargv + 4 * i)) cur s) (\<lambda>r. case r of
       None \<Rightarrow> Inr None
     | Some uarg \<Rightarrow>
         if uarg = 0 then Inr (Some [])
         else bindR (fetchstr uarg cur s) (\<lambda>t. case t of
           None \<Rightarrow> Inr None
         | Some a \<Rightarrow> bindR (exec_args n (i + 1) uargv cur s) (\<lambda>as. Inr (map_option (Cons a) as))))"

definition to_string :: "byte list \<Rightarrow> string" where
  "to_string bs = map (\<lambda>b. char_of (unat b)) bs"

definition sys_exec :: "(byte list \<Rightarrow> (nat \<Rightarrow> nat \<Rightarrow> byte list) option) \<Rightarrow> call" where
  "sys_exec progs cur s = bindR (argstr 0 cur s) (\<lambda>path. case path of
     None \<Rightarrow> Inr (Ret (-1), s)
   | Some p \<Rightarrow> with_int 1 (\<lambda>uargv cur s. bindR (exec_args 32 0 uargv cur s) (\<lambda>argv. case argv of
       None \<Rightarrow> Inr (Ret (-1), s)
     | Some as \<Rightarrow> bindR (exec (to_string p) as (progs p) cur s) (\<lambda>(r, s1). Inr (Ret r, s1)))) cur s)"

definition sys_exec2 :: "(byte list \<Rightarrow> (nat \<Rightarrow> nat \<Rightarrow> byte list) option) \<Rightarrow> call" where
  "sys_exec2 progs cur s = bindR (argstr 0 cur s) (\<lambda>path. case path of
     None \<Rightarrow> Inr (Ret (-1), s)
   | Some p \<Rightarrow> with_int 1 (\<lambda>uargv. with_int 2 (\<lambda>stk cur s. bindR (exec_args 32 0 uargv cur s) (\<lambda>argv. case argv of
       None \<Rightarrow> Inr (Ret (-1), s)
     | Some as \<Rightarrow> bindR (exec2 (to_string p) as (int_of_uint stk) (progs p) cur s) (\<lambda>(r, s1). Inr (Ret r, s1))))) cur s)"

section \<open>The dispatcher\<close>

definition call_of :: "(nat \<Rightarrow> call) \<Rightarrow> (byte list \<Rightarrow> (nat \<Rightarrow> nat \<Rightarrow> byte list) option) \<Rightarrow> nat \<Rightarrow> nat \<Rightarrow> nat \<Rightarrow> call" where
  "call_of other progs ticks0 ticks num =
     (if num = 1 then sys_fork else if num = 2 then sys_exit else if num = 3 then sys_wait else if num = 6 then sys_kill
      else if num = 7 then sys_exec progs else if num = 11 then sys_getpid else if num = 12 then sys_sbrk
      else if num = 13 then sys_sleep ticks0 ticks else if num = 14 then (\<lambda>cur s. Inr (Ret (int_of_uint ticks), s))
      else if num = 22 then sys_setmemorylimit else if num = 23 then sys_exec2 progs else if num = 24 then sys_thread_create
      else if num = 25 then sys_thread_exit else if num = 26 then sys_thread_join else if num = 27 then sys_procInfo else other num)"

definition set_eax :: "int \<Rightarrow> nat \<Rightarrow> tk \<Rightarrow> tk res" where
  "set_eax r cur s = deref ''syscall: tf'' (t_tf (tprocs s ! cur)) (\<lambda>k.
     Inr (s\<lparr>tframe := (tframe s)(k := (tframe s k)\<lparr>tf_eax := uint_of_int r\<rparr>)\<rparr>))"

definition syscall :: "(nat \<Rightarrow> call) \<Rightarrow> (byte list \<Rightarrow> (nat \<Rightarrow> nat \<Rightarrow> byte list) option) \<Rightarrow> nat \<Rightarrow> nat \<Rightarrow> call" where
  "syscall other progs ticks0 ticks cur s =
     (let p = tprocs s ! cur in
      deref ''syscall: tf'' (t_tf p) (\<lambda>k.
        let num = int_of_uint (tf_eax (tframe s k)) in
        if 0 < num \<and> num < 28
        then bindR (call_of other progs ticks0 ticks (nat num) cur s) (\<lambda>(r, s1).
               case r of Ret v \<Rightarrow> bindR (set_eax v cur s1) (\<lambda>s2. Inr (r, s2)) | _ \<Rightarrow> Inr (r, s1))
        else bindR (set_eax (-1) cur (tprint [ONum (t_pid p), OStr '' '', OStr (t_name p), OStr '': unknown sys call '', ONum num, OStr [CHR 10]] s))
               (\<lambda>s1. Inr (Ret (-1), s1))))"

text \<open>The system call path of \<open>trap\<close>, up to the return to the user.\<close>

definition trap_syscall :: "(nat \<Rightarrow> call) \<Rightarrow> (byte list \<Rightarrow> (nat \<Rightarrow> nat \<Rightarrow> byte list) option) \<Rightarrow> nat \<Rightarrow> nat \<Rightarrow> nat \<Rightarrow> call" where
  "trap_syscall other progs ticks0 ticks tf cur s =
     (if t_killed (tprocs s ! cur) then sys_exit cur s
      else bindR (syscall other progs ticks0 ticks cur (upd_t cur (\<lambda>p. p\<lparr>t_tf := Some tf\<rparr>) s)) (\<lambda>(r, s1).
        case r of
          Ret v \<Rightarrow> if t_killed (tprocs s1 ! cur) then sys_exit cur s1 else Inr (r, s1)
        | _ \<Rightarrow> Inr (r, s1)))"

section \<open>Checked arguments\<close>

text \<open>Every page below the size of the process is mapped.\<close>

definition no_hole :: "tproc \<Rightarrow> bool" where
  "no_hole p \<longleftrightarrow> t_sz p < 2147483648 \<and> (\<exists>d. t_pgdir p = Some d \<and> (\<forall>v<npages (t_sz p). mapped d v))"

lemma kread_mapped: "mapped d (a div PGSIZE) \<Longrightarrow> \<exists>b. kread d m a = Inr b"
  by (auto simp: kread_def mapped_def)

lemma below_npages: "a < sz \<Longrightarrow> a div PGSIZE < npages sz"
proof -
  assume "a < sz"
  then have "(a + PGSIZE) div PGSIZE \<le> npages sz" unfolding npages_def by (intro div_le_mono) simp
  then show ?thesis by simp
qed

lemma kread_list_mapped: "\<forall>a\<in>set as. mapped d (a div PGSIZE) \<Longrightarrow> \<exists>bs. kread_list d m as = Inr bs"
proof (induction as)
  case (Cons a as)
  then obtain b bs where "kread d m a = Inr b" "kread_list d m as = Inr bs" using kread_mapped [of d a m] by auto
  then show ?case by simp
qed simp

text \<open>The bytes of a string, its terminator included, lie before \<open>ep\<close>.\<close>

definition holds_str :: "pgdir \<Rightarrow> kmem \<Rightarrow> nat \<Rightarrow> nat \<Rightarrow> byte list \<Rightarrow> bool" where
  "holds_str d m a ep t \<longleftrightarrow> a + length t < ep \<and> 0 \<notin> set t \<and> kread d m (a + length t) = Inr 0 \<and>
     (\<forall>i<length t. kread d m (a + i) = Inr (t ! i))"

lemma str_at_mapped:
  assumes "\<forall>x. a \<le> x \<and> x < ep \<longrightarrow> mapped d (x div PGSIZE)"
  shows "\<exists>r. str_at d m a ep = Inr r \<and> (case r of None \<Rightarrow> \<forall>x. a \<le> x \<and> x < ep \<longrightarrow> kread d m x \<noteq> Inr 0 | Some t \<Rightarrow> holds_str d m a ep t)"
  using assms
proof (induction d m a ep rule: str_at.induct)
  case (1 d m a ep)
  show ?case
  proof (cases "ep \<le> a")
    case True
    then show ?thesis by (subst str_at.simps) auto
  next
    case False
    then obtain c where c: "kread d m a = Inr c" using "1.prems" kread_mapped [of d a m] by auto
    show ?thesis
    proof (cases "c = 0")
      case True
      then have "str_at d m a ep = Inr (Some [])" using False c by (subst str_at.simps) simp
      then show ?thesis using False True c by (simp add: holds_str_def)
    next
      case nz: False
      from "1.IH" [OF False c nz] "1.prems" obtain r where r: "str_at d m (a + 1) ep = Inr r"
        "case r of None \<Rightarrow> \<forall>x. a + 1 \<le> x \<and> x < ep \<longrightarrow> kread d m x \<noteq> Inr 0 | Some t \<Rightarrow> holds_str d m (a + 1) ep t" by auto
      have e: "str_at d m a ep = Inr (map_option (Cons c) r)" using False c nz r(1) by (subst str_at.simps) simp
      show ?thesis
      proof (cases r)
        case None
        have "kread d m x \<noteq> Inr 0" if "a \<le> x" "x < ep" for x
          using that r(2) None c nz by (cases "x = a") auto
        then show ?thesis using e None by auto
      next
        case (Some t)
        then have "holds_str d m a ep (c # t)" using r(2) c nz
          by (auto simp: holds_str_def nth_Cons split: nat.splits)
        then show ?thesis using e Some by simp
      qed
    qed
  qed
qed

lemma fetchint_mapped:
  assumes "no_hole (tprocs s ! cur)"
  shows "\<exists>r. fetchint a cur s = Inr r"
proof -
  obtain d where d: "t_pgdir (tprocs s ! cur) = Some d" "\<forall>v<npages (t_sz (tprocs s ! cur)). mapped d v" "t_sz (tprocs s ! cur) < 2147483648"
    using assms by (auto simp: no_hole_def)
  show ?thesis
  proof (cases "a \<ge> t_sz (tprocs s ! cur) \<or> wrap32 (a + 4) > t_sz (tprocs s ! cur)")
    case False
    moreover have "wrap32 (a + 4) = a + 4" using False d(3) by (intro wrap32_small) simp
    ultimately have "a + 4 \<le> t_sz (tprocs s ! cur)" by simp
    then have "\<forall>x\<in>set [a..<a + 4]. mapped d (x div PGSIZE)" using below_npages d(2) by simp
    from kread_list_mapped [OF this, of "tkm s"] obtain bs where "kread_list d (tkm s) [a..<a + 4] = Inr bs" by blast
    then show ?thesis using False d(1) by (simp add: fetchint_def Let_def)
  qed (auto simp: fetchint_def Let_def)
qed

text \<open>C10: as long as every page below the size of a process is mapped, the kernel never faults on a system call
  argument, whatever the user's stack pointer and arguments are: a pointer it accepts for \<open>len\<close> bytes has all of them below the
  size of the process and mapped, and a string it accepts lies there with its terminator.\<close>

theorem arguments_checked:
  assumes "no_hole (tprocs s ! cur)" "t_tf (tprocs s ! cur) \<noteq> None" "len < 2147483648"
  shows "\<exists>i q t. argint n cur s = Inr i \<and> argptr n len cur s = Inr q \<and> argstr n cur s = Inr t \<and>
    (\<forall>a. q = Some a \<longrightarrow> int a + len \<le> int (t_sz (tprocs s ! cur)) \<and>
      (\<forall>d x. t_pgdir (tprocs s ! cur) = Some d \<and> a \<le> x \<and> int x < int a + len \<longrightarrow> mapped d (x div PGSIZE))) \<and>
    (\<forall>bs d. t = Some bs \<and> t_pgdir (tprocs s ! cur) = Some d \<longrightarrow> (\<exists>a. i = Some a \<and> holds_str d (tkm s) a (t_sz (tprocs s ! cur)) bs))"
proof -
  let ?sz = "t_sz (tprocs s ! cur)"
  obtain d where d: "t_pgdir (tprocs s ! cur) = Some d" "\<forall>v<npages ?sz. mapped d v" "?sz < 2147483648"
    using assms(1) by (auto simp: no_hole_def)
  have map: "mapped d (x div PGSIZE)" if "x < ?sz" for x using that below_npages d(2) by blast
  obtain k where k: "t_tf (tprocs s ! cur) = Some k" using assms(2) by blast
  obtain i where i: "argint n cur s = Inr i" using fetchint_mapped [OF assms(1)] k by (auto simp: argint_def)
  have q: "\<exists>q. argptr n len cur s = Inr q \<and> (\<forall>a. q = Some a \<longrightarrow> int a + len \<le> int ?sz)"
  proof (cases "\<exists>a. i = Some a \<and> 0 \<le> len \<and> a < ?sz \<and> wrap32 (a + nat len) \<le> ?sz")
    case True
    then obtain a where a: "i = Some a" "0 \<le> len" "a < ?sz" "wrap32 (a + nat len) \<le> ?sz" by blast
    have "wrap32 (a + nat len) = a + nat len" using a(3) d(3) assms(3) by (intro wrap32_small) linarith
    then show ?thesis using i a by (simp add: argptr_def Let_def)
  qed (use i in \<open>auto simp: argptr_def Let_def split: option.splits\<close>)
  have t: "\<exists>t. argstr n cur s = Inr t \<and> (\<forall>bs. t = Some bs \<longrightarrow> (\<exists>a. i = Some a \<and> holds_str d (tkm s) a ?sz bs))"
  proof (cases i)
    case (Some a)
    have "\<exists>r. str_at d (tkm s) a ?sz = Inr r \<and>
      (case r of None \<Rightarrow> \<forall>x. a \<le> x \<and> x < ?sz \<longrightarrow> kread d (tkm s) x \<noteq> Inr 0 | Some t \<Rightarrow> holds_str d (tkm s) a ?sz t)"
      by (rule str_at_mapped) (use map in blast)
    then show ?thesis using i Some d(1) by (auto simp: argstr_def fetchstr_def Let_def split: option.splits)
  qed (use i in \<open>simp add: argstr_def\<close>)
  from q t obtain q t where "argptr n len cur s = Inr q" "\<forall>a. q = Some a \<longrightarrow> int a + len \<le> int ?sz" "argstr n cur s = Inr t"
    "\<forall>bs. t = Some bs \<longrightarrow> (\<exists>a. i = Some a \<and> holds_str d (tkm s) a ?sz bs)" by blast
  moreover have "mapped d (x div PGSIZE)" if "q = Some a" "a \<le> x" "int x < int a + len" for a x
    using map [of x] calculation(2) that by fastforce
  ultimately show ?thesis using i d(1) by (intro exI [of _ i] exI [of _ q] exI [of _ t]) auto
qed

theorem arguments_checked_witness:
  "\<exists>i q t. argint 0 0 one_thread = Inr i \<and> argptr 0 8 0 one_thread = Inr q \<and> argstr 0 0 one_thread = Inr t \<and> (\<forall>a. q = Some a \<longrightarrow> a + 8 \<le> 4096)"
proof -
  have p: "tprocs one_thread ! 0 = the_proc one_page 4096" by (simp add: one_thread_def)
  have "npages 4096 = 1" by (simp add: npages_def)
  then have "no_hole (tprocs one_thread ! 0)" "t_tf (tprocs one_thread ! 0) \<noteq> None" unfolding p by (simp_all add: no_hole_def mapped_def one_page_def)
  from arguments_checked [OF this, of 8 0] obtain i q t where "argint 0 0 one_thread = Inr i" "argptr 0 8 0 one_thread = Inr q" "argstr 0 0 one_thread = Inr t"
    "\<forall>a. q = Some a \<longrightarrow> int a + 8 \<le> int (t_sz (tprocs one_thread ! 0))" by auto
  then show ?thesis unfolding p by (intro exI [of _ i] exI [of _ q] exI [of _ t]) fastforce
qed

text \<open>C17: after \<open>thread_join\<close>, until the freed stack is reused, the check of the pointers is not enough: there is an address
  below the size of the process, which \<open>fetchint\<close> and \<open>fetchstr\<close> accept, at which the kernel faults and panics.\<close>

theorem hole_faults:
  assumes "stacks_ok i s" "t_freed (tprocs s ! i) \<noteq> 0"
  shows "\<exists>a<t_sz (tprocs s ! i). fetchstr a i s = Inl (Panic ''trap'') \<and> fetchint a i s = Inl (Panic ''trap'')"
proof -
  let ?p = "tprocs s ! i"
  from stack_hole [OF assms] obtain d v where v: "t_pgdir ?p = Some d" "t_sz ?p < 2147483648" "v + 1 < npages (t_sz ?p)" "\<not> mapped d v" by blast
  then have n: "pd_pte d v = None" and lt: "v * PGSIZE + PGSIZE < t_sz ?p" by (simp_all add: mapped_def npages_def)
  have k: "kread d (tkm s) (v * PGSIZE) = Inl (Panic ''trap'')" using n by (simp add: kread_def)
  have "str_at d (tkm s) (v * PGSIZE) (t_sz ?p) = Inl (Panic ''trap'')" using k lt by (subst str_at.simps) simp
  moreover have "kread_list d (tkm s) [v * PGSIZE..<v * PGSIZE + 4] = Inl (Panic ''trap'')" using k by (simp add: upt_rec [of "v * PGSIZE"])
  ultimately show ?thesis using v(1,2) lt by (intro exI [of _ "v * PGSIZE"]) (simp add: fetchstr_def fetchint_def Let_def)
qed

theorem hole_faults_witness:
  "\<exists>a<12288. fetchstr a 0 hole_machine = Inl (Panic ''trap'')"
proof -
  have p: "tprocs hole_machine ! 0 = hole_proc" by (simp add: hole_machine_def)
  have "t_freed hole_proc = 1" "t_sz hole_proc = 12288" by (simp_all add: hole_proc_def)
  then show ?thesis using hole_faults [OF hole_machine_ok] unfolding p by auto
qed

end
