(* ===== verification/Digits.thy ===== *)
theory Digits
  imports C_String
begin

text \<open>
  Numbers as digits: the conversion in \<open>printint\<close>, which console.c and the user library's printf.c share
  but for the table of digits, the \<open>atoi\<close> of ulib.c, and the positional notation they are
  compared with.
\<close>

section \<open>The conversions\<close>

text \<open>The tables \<open>"0123456789abcdef"\<close> (letters from 87 on) and \<open>"0123456789ABCDEF"\<close> (from 55 on).\<close>

definition digit :: "nat \<Rightarrow> nat \<Rightarrow> byte" where
  "digit alpha d = of_nat (if d < 10 then 48 + d else alpha + d)"

text \<open>The loop that fills \<open>buf[16]\<close>, from the lowest digit.\<close>

function digits_loop :: "(nat \<Rightarrow> byte) \<Rightarrow> nat \<Rightarrow> nat \<Rightarrow> byte list \<Rightarrow> byte list res" where
  "digits_loop table base x buf =
     (if length buf < 16
      then (if x div base = 0 then Inr (buf @ [table (x mod base)])
            else digits_loop table base (x div base) (buf @ [table (x mod base)]))
      else Inl (Overrun ''buf''))"
  by pat_completeness auto
termination by (relation "measure (\<lambda>(table, base, x, buf). 16 - length buf)") auto

declare digits_loop.simps [simp del]

definition int_chars :: "(nat \<Rightarrow> byte) \<Rightarrow> int \<Rightarrow> nat \<Rightarrow> bool \<Rightarrow> byte list res" where
  "int_chars table xx base sign =
     (let neg = sign \<and> xx < 0;
          x = (if neg then uint_of_int (- xx) else uint_of_int xx)
      in bindR (digits_loop table base x []) (\<lambda>buf.
         guardR (neg \<longrightarrow> length buf < 16) (Overrun ''buf'') (Inr (if neg then buf @ [45] else buf))))"

text \<open>\<open>n * 10 + *s++ - '0'\<close> in an \<open>int\<close>, as the machine computes it.\<close>

fun atoi_loop :: "int \<Rightarrow> byte list \<Rightarrow> int" where
  "atoi_loop n [] = n"
| "atoi_loop n (c # s) =
     (if 48 \<le> c \<and> c \<le> 57 then atoi_loop (int_of_uint (uint_of_int (n * 10 + uint c - 48))) s else n)"

definition atoi :: "byte list \<Rightarrow> int" where
  "atoi s = atoi_loop 0 s"

section \<open>Positional notation\<close>

text \<open>The reference: the digits of a number, the highest first.\<close>

fun numeral_in :: "nat \<Rightarrow> nat \<Rightarrow> nat list" where
  "numeral_in base x = (if x < base \<or> base < 2 then [x] else numeral_in base (x div base) @ [x mod base])"

declare numeral_in.simps [simp del]

definition value_of :: "nat \<Rightarrow> nat list \<Rightarrow> nat" where
  "value_of base ds = foldl (\<lambda>v d. v * base + d) 0 ds"

lemma numeral_in_value: "value_of base (numeral_in base x) = x"
proof (induction base x rule: numeral_in.induct)
  case (1 base x)
  then show ?case by (subst numeral_in.simps) (auto simp: value_of_def)
qed

lemma numeral_in_less: "2 \<le> base \<Longrightarrow> d \<in> set (numeral_in base x) \<Longrightarrow> d < base"
proof (induction base x rule: numeral_in.induct)
  case (1 base x)
  then show ?case by (subst (asm) (2) numeral_in.simps) (auto split: if_splits)
qed

lemma length_numeral_in: "0 < k \<Longrightarrow> n < 10 ^ k \<Longrightarrow> length (numeral_in 10 n) \<le> k"
proof (induction k arbitrary: n)
  case (Suc k)
  have "0 < k" if "\<not> n < 10" using Suc.prems(2) that by (cases k) auto
  then show ?case
    using Suc.IH [of "n div 10"] Suc.prems(2) by (subst numeral_in.simps) (auto simp: less_mult_imp_div_less mult.commute)
qed simp

text \<open>The buffer gets the digits from the lowest on, and 16 places are enough for 16 digits.\<close>

lemma digits_loop_eq:
  assumes "2 \<le> base" "x < base ^ k" "0 < k" "length buf + k \<le> 16"
  shows "digits_loop table base x buf = Inr (buf @ rev (map table (numeral_in base x)))"
  using assms(2-)
proof (induction k arbitrary: x buf)
  case (Suc k)
  have l: "length buf < 16" using Suc.prems by simp
  show ?case
  proof (cases "x < base")
    case True
    then show ?thesis using l by (simp add: digits_loop.simps [of table base x] numeral_in.simps [of base x])
  next
    case False
    then have d: "x div base \<noteq> 0" "x div base < base ^ k" "0 < k"
      using Suc.prems(1) assms(1) by (auto simp: div_eq_0_iff less_mult_imp_div_less mult.commute intro: gr0I)
    then have "digits_loop table base (x div base) (buf @ [table (x mod base)])
      = Inr (buf @ [table (x mod base)] @ rev (map table (numeral_in base (x div base))))"
      using Suc.IH [of "x div base" "buf @ [table (x mod base)]"] Suc.prems by simp
    then show ?thesis using l d False assms(1)
      by (simp add: digits_loop.simps [of table base x] numeral_in.simps [of base x])
  qed
qed simp

definition signed_numeral :: "(nat \<Rightarrow> byte) \<Rightarrow> int \<Rightarrow> byte list" where
  "signed_numeral table x = (if x < 0 then [45] else []) @ map table (numeral_in 10 (nat \<bar>x\<bar>))"

lemma uint_of_int_nat: "0 \<le> x \<Longrightarrow> x < 2 ^ 32 \<Longrightarrow> uint_of_int x = nat x"
  by (simp add: uint_of_int_def)

text \<open>Ten digits and a sign; the most negative number included, whose negation fits an \<open>uint\<close> only.\<close>

lemma int_chars_decimal:
  assumes "- (2 ^ 31) \<le> x" "x < 2 ^ 31"
  shows "int_chars table x 10 True = Inr (rev (signed_numeral table x))"
proof -
  have u: "(if x < 0 then uint_of_int (- x) else uint_of_int x) = nat \<bar>x\<bar>"
    using assms by (simp add: uint_of_int_nat)
  have "nat \<bar>x\<bar> < 10 ^ 10" using assms by simp
  then have d: "digits_loop table 10 (nat \<bar>x\<bar>) [] = Inr (rev (map table (numeral_in 10 (nat \<bar>x\<bar>))))"
    using digits_loop_eq [of 10 "nat \<bar>x\<bar>" 10 "[]" table] by simp
  from length_numeral_in [OF _ \<open>nat \<bar>x\<bar> < 10 ^ 10\<close>] have "length (numeral_in 10 (nat \<bar>x\<bar>)) < 16" by simp
  then show ?thesis using u d by (auto simp: int_chars_def signed_numeral_def)
qed

lemma int_chars_hex:
  assumes "a < 2 ^ 32"
  shows "int_chars table (int_of_uint a) 16 False = Inr (rev (map table (numeral_in 16 a)))"
proof -
  have "uint_of_int (int_of_uint a) = a" using assms by (simp add: uint_of_int_def int_of_uint_def)
  moreover have "digits_loop table 16 a [] = Inr (rev (map table (numeral_in 16 a)))"
    using digits_loop_eq [of 16 a 8 "[]" table] assms by simp
  ultimately show ?thesis by (simp add: int_chars_def)
qed

text \<open>What \<open>atoi\<close> makes of digits: their value, as long as it is an \<open>int\<close>.\<close>

lemma uint_digit: "d < 10 \<Longrightarrow> uint (digit alpha d) = 48 + int d"
proof -
  assume d: "d < 10"
  then have "digit alpha d = word_of_nat (48 + d)" by (simp add: digit_def)
  then show ?thesis using d by (simp add: unsigned_of_nat take_bit_eq_mod del: of_nat_add)
qed

lemma foldl_mono: "v \<le> foldl (\<lambda>v d. v * 10 + d) v ds" for v :: nat
proof (induction ds arbitrary: v)
  case (Cons d ds)
  show ?case using Cons.IH [of "v * 10 + d"] by (simp add: order_trans [rotated])
qed simp

lemma atoi_loop_digits:
  assumes "set ds \<subseteq> {..<10}" "foldl (\<lambda>v d. v * 10 + d) v ds < 2 ^ 31"
    "rest = [] \<or> \<not> (48 \<le> hd rest \<and> hd rest \<le> 57)"
  shows "atoi_loop (int v) (map (digit alpha) ds @ rest) = int (foldl (\<lambda>v d. v * 10 + d) v ds)"
  using assms
proof (induction ds arbitrary: v)
  case Nil
  then show ?case by (cases rest) auto
next
  case (Cons d ds)
  have mono: "v * 10 + d \<le> foldl (\<lambda>v d. v * 10 + d) (v * 10 + d) ds"
    by (rule foldl_mono)
  have d: "d < 10" using Cons.prems(1) by simp
  have u: "uint (digit alpha d) = 48 + int d" by (rule uint_digit [OF d])
  have c: "48 \<le> digit alpha d \<and> digit alpha d \<le> 57" using u d by (simp add: word_le_def)
  have "int_of_uint (uint_of_int (int v * 10 + uint (digit alpha d) - 48)) = int (v * 10 + d)"
    using mono Cons.prems(2) u by (simp add: uint_of_int_def int_of_uint_def)
  then show ?case using c Cons.IH [of "v * 10 + d"] Cons.prems by simp
qed

text \<open>What \<open>printint\<close> prints of a non-negative \<open>int\<close>, \<open>atoi\<close> reads back, with either table of
  digits and whatever follows that is not a digit.\<close>

theorem printint_atoi:
  assumes "0 \<le> x" "x < 2 ^ 31" "rest = [] \<or> \<not> (48 \<le> hd rest \<and> hd rest \<le> 57)"
  shows "\<exists>buf. int_chars (digit alpha) x 10 True = Inr buf \<and> atoi (rev buf @ rest) = x"
proof -
  let ?ds = "numeral_in 10 (nat x)"
  have v: "foldl (\<lambda>v d. v * 10 + d) 0 ?ds = nat x" using numeral_in_value [of 10 "nat x"] by (simp add: value_of_def)
  have "set ?ds \<subseteq> {..<10}" using numeral_in_less [of 10 _ "nat x"] by auto
  then have "atoi (map (digit alpha) ?ds @ rest) = x"
    using atoi_loop_digits [of ?ds 0 rest alpha] assms v by (simp add: atoi_def)
  then show ?thesis using int_chars_decimal [of x "digit alpha"] assms by (simp add: signed_numeral_def)
qed

theorem printint_atoi_witness:
  "\<exists>buf. int_chars (digit 55) 2147483647 10 True = Inr buf \<and> atoi (rev buf @ [32, 55]) = 2147483647"
  by (rule printint_atoi) simp_all

end
