(* ===== verification/Console.thy ===== *)
theory Console
  imports Digits Ring
begin

text \<open>
  The console, console.c of Project02-Thread (the three copies differ in layout and comments only):
  formatted output, the text screen behind it, and the line editing of the input with its ring of 128
  characters and three free-running counters. The screen is the video memory as a list of
  cells with the cursor register of the controller; the serial line is the list of the bytes sent. The lock
  of the console is a flag, so that taking it twice is the panic of \<open>acquire\<close>.
\<close>

section \<open>The screen\<close>

abbreviation BACKSPACE :: int where "BACKSPACE \<equiv> 256"

record cons =
  locking :: bool
  cons_lock :: bool
  panicked :: bool
  crt :: "16 word list"
  cursor :: nat
  uart :: bool
  serial :: "byte list"

definition cons_acquire :: "cons \<Rightarrow> cons res" where
  "cons_acquire cs = guardR (\<not> cons_lock cs) (Panic ''acquire'') (Inr (cs\<lparr>cons_lock := True\<rparr>))"

definition cons_release :: "cons \<Rightarrow> cons res" where
  "cons_release cs = guardR (cons_lock cs) (Panic ''release'') (Inr (cs\<lparr>cons_lock := False\<rparr>))"

definition uartputc :: "int \<Rightarrow> cons \<Rightarrow> cons" where
  "uartputc c cs = (if uart cs then cs\<lparr>serial := serial cs @ [word_of_int c]\<rparr> else cs)"

definition attr :: "int \<Rightarrow> 16 word" where
  "attr c = or (word_of_int (c mod 256)) 1792"

definition crt_store :: "nat \<Rightarrow> 16 word \<Rightarrow> cons \<Rightarrow> cons res" where
  "crt_store p v cs = guardR (p < length (crt cs)) (Overrun ''crt'') (Inr (cs\<lparr>crt := (crt cs)[p := v]\<rparr>))"

text \<open>\<open>memmove\<close> of the 23 lower lines and \<open>memset\<close> of what follows the new position.\<close>

definition scroll :: "nat \<Rightarrow> cons \<Rightarrow> (nat \<times> cons) res" where
  "scroll pos cs = guardR (24 * 80 \<le> length (crt cs) \<and> pos - 80 \<le> 24 * 80) (Overrun ''crt'')
     (let pos' = pos - 80;
          up = take (23 * 80) (drop 80 (crt cs)) @ drop (23 * 80) (crt cs)
      in Inr (pos', cs\<lparr>crt := take pos' up @ replicate (24 * 80 - pos') 0 @ drop (24 * 80) up\<rparr>))"

definition cgaputc :: "int \<Rightarrow> cons \<Rightarrow> cons res" where
  "cgaputc c cs =
     (let pos = cursor cs in
      bindR (if c = 10 then Inr (pos + (80 - pos mod 80), cs)
             else if c = BACKSPACE then Inr (if pos > 0 then pos - 1 else pos, cs)
             else bindR (crt_store pos (attr c) cs) (\<lambda>cs. Inr (pos + 1, cs))) (\<lambda>(pos, cs).
      guardR (\<not> pos > 25 * 80) (Panic ''pos under/overflow'')
     (bindR (if pos div 80 \<ge> 24 then scroll pos cs else Inr (pos, cs)) (\<lambda>(pos, cs).
      crt_store pos (attr 32) (cs\<lparr>cursor := pos mod 65536\<rparr>)))))"

definition consputc :: "int \<Rightarrow> cons \<Rightarrow> cons res" where
  "consputc c cs =
     (if panicked cs then Inl (Hang ''panicked'')
      else cgaputc c (if c = BACKSPACE then uartputc 8 (uartputc 32 (uartputc 8 cs)) else uartputc c cs))"

fun consputs :: "int list \<Rightarrow> cons \<Rightarrow> cons res" where
  "consputs [] cs = Inr cs"
| "consputs (c # s) cs = bindR (consputc c cs) (consputs s)"

section \<open>Formatted output\<close>

definition printint :: "int \<Rightarrow> nat \<Rightarrow> bool \<Rightarrow> cons \<Rightarrow> cons res" where
  "printint xx base sign cs = bindR (int_chars (digit 87) xx base sign) (\<lambda>buf. consputs (map sint (rev buf)) cs)"

text \<open>The arguments are the words behind the format on the stack; \<open>strs\<close> is the memory: the bytes at
  an address.\<close>

definition null_str :: "byte list" where
  "null_str = [40, 110, 117, 108, 108, 41]"

fun cprintf_loop :: "(nat \<Rightarrow> byte list) \<Rightarrow> byte list \<Rightarrow> nat list \<Rightarrow> cons \<Rightarrow> cons res" where
  "cprintf_loop strs [] args cs = Inr cs"
| "cprintf_loop strs [c] args cs = (if c = 0 \<or> c = 37 then Inr cs else consputc (uint c) cs)"
| "cprintf_loop strs (c # d # fmt) args cs =
     (if c = 0 then Inr cs
      else if c \<noteq> 37 then bindR (consputc (uint c) cs) (cprintf_loop strs (d # fmt) args)
      else if d = 0 then Inr cs
      else if d \<in> {100, 120, 112, 115}
      then (case args of
              [] \<Rightarrow> Inl (Overrun ''argp'')
            | a # args \<Rightarrow>
                bindR (if d = 100 then printint (int_of_uint a) 10 True cs
                       else if d = 115 then consputs (map sint (c_str (if a = 0 then null_str else strs a))) cs
                       else printint (int_of_uint a) 16 False cs)
                  (cprintf_loop strs fmt args))
      else if d = 37 then bindR (consputc 37 cs) (cprintf_loop strs fmt args)
      else bindR (consputs [37, uint d] cs) (cprintf_loop strs fmt args))"

definition cprintf :: "(nat \<Rightarrow> byte list) \<Rightarrow> byte list option \<Rightarrow> nat list \<Rightarrow> cons \<Rightarrow> cons res" where
  "cprintf strs fmt args cs =
     (let lk = locking cs in
      bindR (if lk then cons_acquire cs else Inr cs) (\<lambda>cs.
      case fmt of
        None \<Rightarrow> Inl (Panic ''null fmt'')
      | Some f \<Rightarrow> bindR (cprintf_loop strs f args cs) (\<lambda>cs. if lk then cons_release cs else Inr cs)))"

text \<open>What \<open>panic\<close> leaves behind before it loops for ever: \<open>lapicid\<close> and the return
  addresses \<open>pcs\<close> come from the processor.\<close>

definition panic_msg :: "byte list" where
  "panic_msg = map (of_nat \<circ> of_char) ''lapicid %d: panic: ''"

fun print_pcs :: "(nat \<Rightarrow> byte list) \<Rightarrow> nat list \<Rightarrow> cons \<Rightarrow> cons res" where
  "print_pcs strs [] cs = Inr cs"
| "print_pcs strs (pc # pcs) cs = bindR (cprintf strs (Some [32, 37, 112]) [pc] cs) (print_pcs strs pcs)"

definition cons_panic :: "(nat \<Rightarrow> byte list) \<Rightarrow> nat \<Rightarrow> nat list \<Rightarrow> byte list \<Rightarrow> cons \<Rightarrow> cons res" where
  "cons_panic strs lapicid pcs s cs =
     bindR (cprintf strs (Some panic_msg) [lapicid] (cs\<lparr>locking := False\<rparr>)) (\<lambda>cs.
     bindR (cprintf strs (Some s) [] cs) (\<lambda>cs.
     bindR (cprintf strs (Some [10]) [] cs) (\<lambda>cs.
     bindR (print_pcs strs (take 10 pcs) cs) (\<lambda>cs.
     Inr (cs\<lparr>panicked := True\<rparr>)))))"

definition consoleinit :: "cons \<Rightarrow> cons" where
  "consoleinit cs = cs\<lparr>cons_lock := False, locking := True\<rparr>"

section \<open>Input\<close>

abbreviation INPUT_BUF :: nat where "INPUT_BUF \<equiv> 128"

record input =
  i_buf :: "byte list"
  i_r :: "32 word"
  i_w :: "32 word"
  i_e :: "32 word"

function kill_line :: "input \<Rightarrow> cons \<Rightarrow> (input \<times> cons) res" where
  "kill_line inp cs =
     (if i_e inp \<noteq> i_w inp \<and> i_buf inp ! (unat (i_e inp - 1) mod INPUT_BUF) \<noteq> 10
      then bindR (consputc BACKSPACE cs) (kill_line (inp\<lparr>i_e := i_e inp - 1\<rparr>))
      else Inr (inp, cs))"
  by pat_completeness auto
termination
proof (relation "measure (\<lambda>(inp, _). unat (i_e inp - i_w inp))")
  fix inp :: input
  assume "i_e inp \<noteq> i_w inp \<and> i_buf inp ! (unat (i_e inp - 1) mod INPUT_BUF) \<noteq> 10"
  then have "i_e inp - i_w inp \<noteq> 0" by simp
  then have "unat (i_e inp - i_w inp - 1) < unat (i_e inp - i_w inp)"
    by (metis unat_minus_one unat_gt_0 diff_less zero_less_one)
  moreover have "i_e inp - i_w inp - 1 = i_e inp - 1 - i_w inp" by simp
  ultimately show "((inp\<lparr>i_e := i_e inp - 1\<rparr>, x), inp, cs) \<in> measure (\<lambda>(inp, _). unat (i_e inp - i_w inp))"
    for x cs by simp
qed simp

declare kill_line.simps [simp del]

text \<open>One character of the loop: whether \<open>procdump\<close> is asked for, whether readers are woken.\<close>

definition console_key :: "int \<Rightarrow> bool \<times> bool \<times> input \<times> cons \<Rightarrow> (bool \<times> bool \<times> input \<times> cons) res" where
  "console_key c = (\<lambda>(dump, woken, inp, cs).
     if c = 16 then Inr (True, woken, inp, cs)
     else if c = 21 then bindR (kill_line inp cs) (\<lambda>(inp, cs). Inr (dump, woken, inp, cs))
     else if c = 8 \<or> c = 127
     then (if i_e inp \<noteq> i_w inp
           then bindR (consputc BACKSPACE cs) (\<lambda>cs. Inr (dump, woken, inp\<lparr>i_e := i_e inp - 1\<rparr>, cs))
           else Inr (dump, woken, inp, cs))
     else if c \<noteq> 0 \<and> unat (i_e inp - i_r inp) < INPUT_BUF
     then let c = (if c = 13 then 10 else c);
              inp = inp\<lparr>i_buf := (i_buf inp)[unat (i_e inp) mod INPUT_BUF := word_of_int c], i_e := i_e inp + 1\<rparr>
          in bindR (consputc c cs) (\<lambda>cs.
             if c = 10 \<or> c = 4 \<or> i_e inp = i_r inp + 128
             then Inr (dump, True, inp\<lparr>i_w := i_e inp\<rparr>, cs)
             else Inr (dump, woken, inp, cs))
     else Inr (dump, woken, inp, cs))"

text \<open>The successive results of \<open>getc\<close>, up to the first negative one.\<close>

fun key_loop :: "int list \<Rightarrow> bool \<times> bool \<times> input \<times> cons \<Rightarrow> (bool \<times> bool \<times> input \<times> cons) res" where
  "key_loop [] s = Inr s"
| "key_loop (c # keys) s = (if c < 0 then Inr s else bindR (console_key c s) (key_loop keys))"

definition consoleintr :: "int list \<Rightarrow> input \<Rightarrow> cons \<Rightarrow> (bool \<times> bool \<times> input \<times> cons) res" where
  "consoleintr keys inp cs =
     bindR (cons_acquire cs) (\<lambda>cs.
     bindR (key_loop keys (False, False, inp, cs)) (\<lambda>(dump, woken, inp, cs).
     bindR (cons_release cs) (\<lambda>cs. Inr (dump, woken, inp, cs))))"

text \<open>A read of \<open>target\<close> bytes with \<open>n\<close> still to come and \<open>dst\<close> already copied. A call that sleeps
  is resumed with the \<open>n\<close> and \<open>dst\<close> it has reached.\<close>

fun consoleread_loop :: "bool \<Rightarrow> nat \<Rightarrow> nat \<Rightarrow> byte list \<Rightarrow> input \<Rightarrow> (nat \<times> byte list \<times> input) outcome" where
  "consoleread_loop killed target 0 dst inp = Returns (int target) (0, dst, inp)"
| "consoleread_loop killed target (Suc n) dst inp =
     (if i_r inp = i_w inp
      then (if killed then Returns (-1) (Suc n, dst, inp) else Sleeps (Suc n, dst, inp))
      else let c = i_buf inp ! (unat (i_r inp) mod INPUT_BUF);
               inp' = inp\<lparr>i_r := i_r inp + 1\<rparr>
           in if c = 4
              then Returns (int target - int (Suc n))
                     (Suc n, dst, if Suc n < target then inp'\<lparr>i_r := i_r inp' - 1\<rparr> else inp')
              else if c = 10 then Returns (int target - int n) (n, dst @ [c], inp')
              else consoleread_loop killed target n (dst @ [c]) inp')"

definition consoleread :: "bool \<Rightarrow> nat \<Rightarrow> nat \<Rightarrow> byte list \<Rightarrow> input \<Rightarrow> cons \<Rightarrow> ((nat \<times> byte list \<times> input) outcome \<times> cons) res" where
  "consoleread killed target n dst inp cs =
     bindR (cons_acquire cs) (\<lambda>cs.
     bindR (cons_release cs) (\<lambda>cs. Inr (consoleread_loop killed target n dst inp, cs)))"

definition consolewrite :: "byte list \<Rightarrow> cons \<Rightarrow> (int \<times> cons) res" where
  "consolewrite bs cs =
     bindR (cons_acquire cs) (\<lambda>cs.
     bindR (consputs (map uint bs) cs) (\<lambda>cs.
     bindR (cons_release cs) (\<lambda>cs. Inr (int (length bs), cs))))"

end
