(* ===== verification/Console_Props.thy ===== *)
theory Console_Props
  imports Console
begin

text \<open>
  Properties of the console: the screen is a scrolling terminal and no output leaves the video
  memory; integers are printed in their decimal notation; the input is a line discipline, stated on
  two lists without ring and counters.
\<close>

section \<open>The screen as a terminal\<close>

definition screen_ok :: "cons \<Rightarrow> bool" where
  "screen_ok cs \<longleftrightarrow> cursor cs < 25 * 80 \<and> length (crt cs) = 25 * 80 \<and> \<not> panicked cs"

text \<open>The reference: 24 lines of 80 cells with a cursor. At the end of the last line the first line
  leaves and an empty one enters.\<close>

definition term_put :: "int \<Rightarrow> 16 word list \<times> nat \<Rightarrow> 16 word list \<times> nat" where
  "term_put c = (\<lambda>(scr, pos).
     let (scr, pos) = (if c = 10 then (scr, pos + (80 - pos mod 80))
                       else if c = BACKSPACE then (scr, pos - 1)
                       else (scr[pos := attr c], pos + 1));
         (scr, pos) = (if pos < 24 * 80 then (scr, pos) else (drop 80 scr @ replicate 80 0, pos - 80))
     in (scr[pos := attr 32], pos))"

definition view :: "cons \<Rightarrow> 16 word list \<times> nat" where
  "view cs = (take (24 * 80) (crt cs), cursor cs)"

definition same_mode :: "cons \<Rightarrow> cons \<Rightarrow> bool" where
  "same_mode cs cs' \<longleftrightarrow> locking cs' = locking cs \<and> cons_lock cs' = cons_lock cs \<and> uart cs' = uart cs"

lemma newline_eq: "pos + (80 - pos mod 80) = 80 * (pos div 80 + 1)" for pos :: nat
proof -
  define q r where "q = pos div 80" and "r = pos mod 80"
  have "pos = 80 * q + r" "r < 80" by (simp_all add: q_def r_def)
  then show ?thesis unfolding q_def [symmetric] r_def [symmetric] by simp
qed

lemma newline_bounds:
  "pos < 2000 \<Longrightarrow> pos + (80 - pos mod 80) \<le> (2000 :: nat)"
  "pos < 1920 \<Longrightarrow> pos + (80 - pos mod 80) \<le> (1920 :: nat)"
  unfolding newline_eq by auto

lemma scroll_ok:
  assumes "length (crt cs) = 2000" "1920 \<le> pos" "pos \<le> 2000"
  obtains cs' where "scroll pos cs = Inr (pos - 80, cs')" "length (crt cs') = 2000" "same_mode cs cs'"
    "panicked cs' = panicked cs" "pos = 1920 \<Longrightarrow> take 1920 (crt cs') = drop 80 (take 1920 (crt cs)) @ replicate 80 0"
    "cursor cs' = cursor cs"
proof -
  let ?up = "take 1840 (drop 80 (crt cs)) @ drop 1840 (crt cs)"
  let ?cs = "cs\<lparr>crt := take (pos - 80) ?up @ replicate (2000 - pos) 0 @ drop 1920 ?up\<rparr>"
  have "pos - 80 \<le> 1920" using assms by simp
  then have s: "scroll pos cs = Inr (pos - 80, ?cs)" using assms by (simp add: scroll_def Let_def)
  show thesis by (rule that [OF s]) (use assms in \<open>auto simp: same_mode_def take_drop\<close>)
qed

text \<open>The character, then the scrolling, then the blank under the cursor.\<close>

definition put_char :: "int \<Rightarrow> nat \<Rightarrow> 16 word list \<Rightarrow> 16 word list \<times> nat" where
  "put_char c pos scr =
     (if c = 10 then (scr, pos + (80 - pos mod 80))
      else if c = BACKSPACE then (scr, pos - 1) else (scr[pos := attr c], pos + 1))"

lemma cgaputc_ok:
  assumes "cursor cs < 2000" "length (crt cs) = 2000"
  obtains cs' where "cgaputc c cs = Inr cs'" "cursor cs' < 2000" "length (crt cs') = 2000" "panicked cs' = panicked cs"
    "same_mode cs cs'" "cursor cs < 1920 \<Longrightarrow> cursor cs' < 1920 \<and> view cs' = term_put c (view cs)"
proof -
  obtain scr pos where p: "put_char c (cursor cs) (crt cs) = (scr, pos)" by force
  let ?c1 = "cs\<lparr>crt := scr\<rparr>"
  have b: "pos \<le> 2000" "length scr = 2000" "cursor cs < 1920 \<Longrightarrow> pos \<le> 1920"
    using p assms newline_bounds [of "cursor cs"] by (auto simp: put_char_def split: if_splits)
  have v: "put_char c (cursor cs) (take 1920 (crt cs)) = (take 1920 scr, pos)" if "cursor cs < 1920"
    using p that by (auto simp: put_char_def take_update_swap split: if_splits)
  have 1: "cgaputc c cs =
     bindR (if pos div 80 \<ge> 24 then scroll pos ?c1 else Inr (pos, ?c1)) (\<lambda>(pos, cs).
       crt_store pos (attr 32) (cs\<lparr>cursor := pos mod 65536\<rparr>))"
  proof -
    have "(if c = 10 then Inr (cursor cs + (80 - cursor cs mod 80), cs)
           else if c = BACKSPACE then Inr (if cursor cs > 0 then cursor cs - 1 else cursor cs, cs)
           else bindR (crt_store (cursor cs) (attr c) cs) (\<lambda>cs'. Inr (cursor cs + 1, cs'))) = Inr (pos, ?c1)"
      using p assms by (auto simp: put_char_def crt_store_def)
    then show ?thesis using b(1) by (simp add: cgaputc_def)
  qed
  have t: "term_put c (view cs) = (let (scr, pos) = (if pos < 1920 then (take 1920 scr, pos)
       else (drop 80 (take 1920 scr) @ replicate 80 0, pos - 80)) in (scr[pos := attr 32], pos))" if "cursor cs < 1920"
    using v [OF that] by (simp add: term_put_def view_def put_char_def)
  show thesis
  proof (cases "pos < 1920")
    case True
    then have "pos div 80 < 24" by auto
    then have "cgaputc c cs = Inr (?c1\<lparr>crt := scr[pos := attr 32], cursor := pos\<rparr>)"
      using b True by (simp add: 1 crt_store_def)
    then show thesis by (rule that) (use b t True in \<open>auto simp: same_mode_def view_def take_update_swap\<close>)
  next
    case False
    then have d: "24 \<le> pos div 80" and lt: "pos - 80 < 2000" using b by auto
    obtain c2 where c2: "scroll pos ?c1 = Inr (pos - 80, c2)" "length (crt c2) = 2000" "same_mode ?c1 c2"
      "panicked c2 = panicked ?c1" "pos = 1920 \<Longrightarrow> take 1920 (crt c2) = drop 80 (take 1920 scr) @ replicate 80 0"
      by (rule scroll_ok [of ?c1 pos]) (use b False in auto)
    have "cgaputc c cs = Inr (c2\<lparr>crt := (crt c2)[pos - 80 := attr 32], cursor := pos - 80\<rparr>)"
      using b d c2 lt by (simp add: 1 crt_store_def)
    then show thesis by (rule that) (use b t c2 False in \<open>auto simp: same_mode_def view_def take_update_swap\<close>)
  qed
qed

lemma consputc_ok:
  assumes "screen_ok cs"
  obtains cs' where "consputc c cs = Inr cs'" "screen_ok cs'" "same_mode cs cs'"
    "cursor cs < 24 * 80 \<Longrightarrow> cursor cs' < 24 * 80 \<and> view cs' = term_put c (view cs)"
proof -
  let ?u = "if c = BACKSPACE then uartputc 8 (uartputc 32 (uartputc 8 cs)) else uartputc c cs"
  have u: "cursor ?u = cursor cs" "crt ?u = crt cs" "panicked ?u = panicked cs" "same_mode cs ?u" "view ?u = view cs"
    by (simp_all add: uartputc_def same_mode_def view_def)
  obtain cs' where g: "cgaputc c ?u = Inr cs'" "cursor cs' < 2000" "length (crt cs') = 2000" "panicked cs' = panicked ?u"
    "same_mode ?u cs'" "cursor ?u < 1920 \<Longrightarrow> cursor cs' < 1920 \<and> view cs' = term_put c (view ?u)"
    by (rule cgaputc_ok [of ?u c]) (use assms u in \<open>auto simp: screen_ok_def\<close>)
  have "consputc c cs = Inr cs'" using g assms by (simp add: consputc_def screen_ok_def)
  then show thesis
    by (rule that) (use g u assms in \<open>simp_all add: screen_ok_def same_mode_def\<close>)
qed

lemma consputs_ok:
  assumes "screen_ok cs"
  obtains cs' where "consputs s cs = Inr cs'" "screen_ok cs'" "same_mode cs cs'"
    "cursor cs < 24 * 80 \<Longrightarrow> cursor cs' < 24 * 80 \<and> view cs' = fold term_put s (view cs)"
  using assms
proof (induction s arbitrary: cs thesis)
  case Nil
  then show ?case by (simp add: same_mode_def)
next
  case (Cons c s)
  obtain c1 where 1: "consputc c cs = Inr c1" "screen_ok c1" "same_mode cs c1"
    "cursor cs < 24 * 80 \<Longrightarrow> cursor c1 < 24 * 80 \<and> view c1 = term_put c (view cs)"
    by (rule consputc_ok [OF Cons.prems(2), of c]) blast
  obtain c2 where 2: "consputs s c1 = Inr c2" "screen_ok c2" "same_mode c1 c2"
    "cursor c1 < 24 * 80 \<Longrightarrow> cursor c2 < 24 * 80 \<and> view c2 = fold term_put s (view c1)"
    by (rule Cons.IH [OF _ 1(2)]) blast
  show ?case by (rule Cons.prems(1) [of c2]) (use 1 2 in \<open>auto simp: same_mode_def\<close>)
qed

section \<open>The line discipline\<close>

text \<open>The reference: the characters a reader can have, and the line being typed.\<close>

record tty =
  ready :: "byte list"
  line :: "byte list"

definition tty_key :: "int \<Rightarrow> tty \<Rightarrow> tty" where
  "tty_key c t =
     (if c = 16 then t
      else if c = 21 then t\<lparr>line := []\<rparr>
      else if c = 8 \<or> c = 127 then t\<lparr>line := butlast (line t)\<rparr>
      else if c = 0 \<or> INPUT_BUF \<le> length (ready t) + length (line t) then t
      else let l = line t @ [if c = 13 then 10 else word_of_int c]
           in if c \<in> {4, 10, 13} \<or> length (ready t) + length l = INPUT_BUF
              then \<lparr>ready = ready t @ l, line = []\<rparr> else t\<lparr>line := l\<rparr>)"

definition tty_echo :: "int \<Rightarrow> tty \<Rightarrow> int list" where
  "tty_echo c t =
     (if c = 16 then []
      else if c = 21 then replicate (length (line t)) BACKSPACE
      else if c = 8 \<or> c = 127 then (if line t = [] then [] else [BACKSPACE])
      else if c = 0 \<or> INPUT_BUF \<le> length (ready t) + length (line t) then []
      else [if c = 13 then 10 else c])"

text \<open>A read takes up to \<open>n\<close> bytes, a newline ends it, and an end-of-file character ends it
  too: consumed when the read has no bytes yet, left for the next read otherwise.\<close>

fun tty_read :: "bool \<Rightarrow> nat \<Rightarrow> nat \<Rightarrow> byte list \<Rightarrow> byte list \<Rightarrow> (nat \<times> byte list \<times> byte list) outcome" where
  "tty_read killed target 0 dst rd = Returns (int target) (0, dst, rd)"
| "tty_read killed target (Suc n) dst [] = (if killed then Returns (-1) (Suc n, dst, []) else Sleeps (Suc n, dst, []))"
| "tty_read killed target (Suc n) dst (c # rd) =
     (if c = 4 then Returns (int target - int (Suc n)) (Suc n, dst, if Suc n < target then c # rd else rd)
      else if c = 10 then Returns (int target - int n) (n, dst @ [c], rd)
      else tty_read killed target n (dst @ [c]) rd)"

definition tty_of :: "input \<Rightarrow> tty" where
  "tty_of inp = \<lparr>ready = ring_list INPUT_BUF (i_buf inp) (unat (i_r inp)) (unat (i_w inp - i_r inp)),
     line = ring_list INPUT_BUF (i_buf inp) (unat (i_w inp)) (unat (i_e inp - i_w inp))\<rparr>"

definition input_ok :: "input \<Rightarrow> bool" where
  "input_ok inp \<longleftrightarrow> length (i_buf inp) = INPUT_BUF \<and>
     unat (i_w inp - i_r inp) + unat (i_e inp - i_w inp) \<le> INPUT_BUF \<and> 10 \<notin> set (line (tty_of inp))"

lemma unat_add_wrap: "unat (a + b) = wrap32 (unat a + unat b)" for a b :: "32 word"
  by (simp add: unat_word_ariths wrap32_def)

lemma unat_u32: "unat x < 4294967296" for x :: "32 word"
  using unsigned_less [of x] by simp

lemma lengths [simp]:
  "length (ready (tty_of inp)) = unat (i_w inp - i_r inp)"
  "length (line (tty_of inp)) = unat (i_e inp - i_w inp)"
  by (simp_all add: tty_of_def)

lemma room_sum:
  assumes "input_ok inp"
  shows "unat (i_e inp - i_r inp) = unat (i_w inp - i_r inp) + unat (i_e inp - i_w inp)"
proof -
  have "i_e inp - i_r inp = (i_w inp - i_r inp) + (i_e inp - i_w inp)" by simp
  then have "unat (i_e inp - i_r inp) = wrap32 (unat (i_w inp - i_r inp) + unat (i_e inp - i_w inp))"
    by (metis unat_add_wrap)
  then show ?thesis using assms by (simp add: input_ok_def)
qed

lemma window_step:
  assumes "a \<noteq> (b :: 32 word)"
  shows "unat (a - b) = Suc (unat (a - 1 - b))" "unat (a - 1) = wrap32 (unat b + unat (a - 1 - b))"
proof -
  have "a - b \<noteq> 0" using assms by simp
  then have "unat (a - b - 1) = unat (a - b) - 1" "0 < unat (a - b)"
    by (simp_all add: unat_minus_one unat_gt_0)
  moreover have "a - b - 1 = a - 1 - b" by simp
  ultimately show "unat (a - b) = Suc (unat (a - 1 - b))" by simp
  have "a - 1 = b + (a - 1 - b)" by simp
  then show "unat (a - 1) = wrap32 (unat b + unat (a - 1 - b))" by (metis unat_add_wrap)
qed

lemma erase_last:
  assumes "i_e inp \<noteq> i_w inp"
  shows "line (tty_of inp) = line (tty_of (inp\<lparr>i_e := i_e inp - 1\<rparr>)) @ [i_buf inp ! (unat (i_e inp - 1) mod INPUT_BUF)]"
    "ready (tty_of (inp\<lparr>i_e := i_e inp - 1\<rparr>)) = ready (tty_of inp)"
  by (simp_all add: tty_of_def window_step [OF assms] ring_list_snoc)

lemma erase_ok:
  assumes "input_ok inp" "i_e inp \<noteq> i_w inp"
  shows "input_ok (inp\<lparr>i_e := i_e inp - 1\<rparr>)" "i_buf inp ! (unat (i_e inp - 1) mod INPUT_BUF) \<noteq> 10"
  using assms(1) window_step [OF assms(2)] erase_last [OF assms(2)] by (auto simp: input_ok_def)

lemma kill_line_eq:
  assumes "input_ok inp"
  shows "kill_line inp cs = bindR (consputs (replicate (unat (i_e inp - i_w inp)) BACKSPACE) cs)
     (\<lambda>cs. Inr (inp\<lparr>i_e := i_w inp\<rparr>, cs))"
  using assms
proof (induction "unat (i_e inp - i_w inp)" arbitrary: inp cs)
  case 0
  then have "i_e inp = i_w inp" by (simp add: unat_eq_zero)
  then show ?case by (simp add: kill_line.simps [of inp])
next
  case (Suc n)
  then have ne: "i_e inp \<noteq> i_w inp" by auto
  have n: "n = unat (i_e inp - 1 - i_w inp)" using Suc.hyps(2) window_step [OF ne] by simp
  have IH: "kill_line (inp\<lparr>i_e := i_e inp - 1\<rparr>)
    = (\<lambda>cs. bindR (consputs (replicate n BACKSPACE) cs) (\<lambda>cs. Inr (inp\<lparr>i_e := i_w inp\<rparr>, cs)))"
    using Suc.hyps(1) [of "inp\<lparr>i_e := i_e inp - 1\<rparr>"] erase_ok(1) [OF Suc.prems ne] n by (simp add: fun_eq_iff)
  show ?case using IH erase_ok(2) [OF Suc.prems ne] ne Suc.hyps(2) [symmetric]
    by (simp add: kill_line.simps [of inp] bindR_assoc)
qed

lemma clear_line:
  assumes "input_ok inp"
  shows "input_ok (inp\<lparr>i_e := i_w inp\<rparr>)" "tty_of (inp\<lparr>i_e := i_w inp\<rparr>) = (tty_of inp)\<lparr>line := []\<rparr>"
  using assms by (auto simp: input_ok_def tty_of_def)

text \<open>Both parts are pieces of one window of the ring.\<close>

lemma one_window:
  assumes "unat (i_e inp - i_r inp) = unat (i_w inp - i_r inp) + unat (i_e inp - i_w inp)"
  shows "ready (tty_of inp) @ line (tty_of inp) = ring_list INPUT_BUF (i_buf inp) (unat (i_r inp)) (unat (i_e inp - i_r inp))"
  using ring_list_append [of INPUT_BUF "i_buf inp" "unat (i_r inp)" "unat (i_w inp - i_r inp)" "unat (i_e inp - i_w inp)"]
  by (simp add: assms tty_of_def flip: unat_add_wrap)

text \<open>A character is entered, then perhaps the line is delivered.\<close>

definition enter :: "byte \<Rightarrow> input \<Rightarrow> input" where
  "enter b inp = inp\<lparr>i_buf := (i_buf inp)[unat (i_e inp) mod INPUT_BUF := b], i_e := i_e inp + 1\<rparr>"

lemma enter_tty:
  assumes "input_ok inp" "unat (i_e inp - i_r inp) < INPUT_BUF"
  shows "tty_of (enter b inp) = (tty_of inp)\<lparr>line := line (tty_of inp) @ [b]\<rparr>"
    "length (i_buf (enter b inp)) = INPUT_BUF" "i_w (enter b inp) = i_w inp" "i_r (enter b inp) = i_r inp"
    "unat (i_e (enter b inp) - i_w inp) = Suc (unat (i_e inp - i_w inp))"
    "unat (i_e (enter b inp) - i_r inp) = Suc (unat (i_e inp - i_r inp))"
proof -
  let ?n = "unat (i_e inp - i_w inp)"
  show l: "length (i_buf (enter b inp)) = INPUT_BUF" "i_w (enter b inp) = i_w inp" "i_r (enter b inp) = i_r inp"
    using assms by (simp_all add: enter_def input_ok_def)
  have w: "unat (i_e inp - x + 1) = Suc (unat (i_e inp - x))" if "unat (i_e inp - x) < 128" for x
    using that by (simp add: unat_add_wrap)
  have n: "?n < 128" using assms room_sum [OF assms(1)] by simp
  show r: "unat (i_e (enter b inp) - i_w inp) = Suc ?n" "unat (i_e (enter b inp) - i_r inp) = Suc (unat (i_e inp - i_r inp))"
    using w [OF n] w [OF assms(2)] by (simp_all add: enter_def algebra_simps)
  let ?m = "unat (i_e inp - i_r inp)" and ?t = "tty_of (enter b inp)"
  have e: "unat (i_e inp) = wrap32 (unat (i_r inp) + ?m)" by (simp flip: unat_add_wrap)
  have "ring_list INPUT_BUF (i_buf (enter b inp)) (unat (i_r inp)) (Suc ?m)
      = ring_list INPUT_BUF (i_buf inp) (unat (i_r inp)) ?m @ [b]"
    using ring_list_put [of INPUT_BUF "i_buf inp" ?m "unat (i_r inp)" b] assms
    by (simp add: input_ok_def enter_def e)
  then have "ready ?t @ line ?t = ready (tty_of inp) @ line (tty_of inp) @ [b]"
    using one_window [of inp] one_window [of "enter b inp"] room_sum [OF assms(1)] r l by simp
  then show "?t = (tty_of inp)\<lparr>line := line (tty_of inp) @ [b]\<rparr>"
    using l by (simp add: append_eq_append_conv)
qed

lemma deliver:
  assumes "unat (i_e inp - i_r inp) = unat (i_w inp - i_r inp) + unat (i_e inp - i_w inp)"
  shows "tty_of (inp\<lparr>i_w := i_e inp\<rparr>) = \<lparr>ready = ready (tty_of inp) @ line (tty_of inp), line = []\<rparr>"
  using one_window [OF assms] by (simp add: tty_of_def)

lemma room_ready:
  assumes "input_ok inp"
  shows "unat (i_e inp - i_r inp) < INPUT_BUF \<longleftrightarrow> \<not> INPUT_BUF \<le> length (ready (tty_of inp)) + length (line (tty_of inp))"
  using room_sum [OF assms] by (simp add: not_le)

lemma consputs_none [simp]: "consputs [] = Inr"
  by (rule ext) simp

lemma key_enter:
  assumes "input_ok inp" "unat (i_e inp - i_r inp) < INPUT_BUF" "0 < c" "c < 256"
    and c': "c' = (if c = 13 then 10 else c)"
  defines "i1 \<equiv> enter (word_of_int c') inp"
  defines "commit \<equiv> c' = 10 \<or> c' = 4 \<or> i_e i1 = i_r i1 + 128"
  defines "i2 \<equiv> if commit then i1\<lparr>i_w := i_e i1\<rparr> else i1"
  assumes "c \<notin> {8, 16, 21, 127}"
  shows "input_ok i2" "tty_of i2 = tty_key c (tty_of inp)"
    "commit \<longleftrightarrow> ready (tty_key c (tty_of inp)) \<noteq> ready (tty_of inp)"
proof -
  note E = enter_tty [OF assms(1,2), of "word_of_int c'", folded i1_def]
  have sum: "unat (i_e i1 - i_r i1) = unat (i_w i1 - i_r i1) + unat (i_e i1 - i_w i1)"
    using E room_sum [OF assms(1)] by simp
  have full: "i_e i1 = i_r i1 + 128 \<longleftrightarrow> unat (i_w inp - i_r inp) + Suc (unat (i_e inp - i_w inp)) = 128"
  proof -
    have "i_e i1 = i_r i1 + 128 \<longleftrightarrow> i_e i1 - i_r i1 = 128" by (auto simp: algebra_simps)
    also have "\<dots> \<longleftrightarrow> unat (i_e i1 - i_r i1) = 128" by (simp add: word_unat_eq_iff)
    finally show ?thesis using sum E by simp
  qed
  have "uint (word_of_int c' :: byte) = c'" using assms(3,4) c' by (simp add: uint_word_of_int)
  then have ch: "(word_of_int c' :: byte) = 10 \<longleftrightarrow> c' = 10" by (auto simp: word_uint_eq_iff)
  have commit: "commit \<longleftrightarrow> c \<in> {4, 10, 13} \<or> unat (i_w inp - i_r inp) + Suc (unat (i_e inp - i_w inp)) = 128"
    unfolding commit_def full using c' by auto
  show k: "tty_of i2 = tty_key c (tty_of inp)"
    using commit E(1) deliver [OF sum] assms(2,3,9) c' room_ready [OF assms(1)]
    by (auto simp: i2_def tty_key_def)
  show "commit \<longleftrightarrow> ready (tty_key c (tty_of inp)) \<noteq> ready (tty_of inp)"
    unfolding k [symmetric] using E(1) deliver [OF sum] by (simp add: i2_def)
  show "input_ok i2"
  proof (cases commit)
    case True
    then show ?thesis using deliver [OF sum] E sum room_sum [OF assms(1)] assms(2)
      by (simp add: i2_def input_ok_def)
  next
    case False
    then have "c' \<noteq> 10" by (simp add: commit_def)
    then show ?thesis using False E sum room_sum [OF assms(1)] assms(1,2) ch
      by (simp add: i2_def input_ok_def)
  qed
qed

lemma console_key_eq:
  assumes "input_ok inp" "0 \<le> c" "c < 256"
  obtains inp' where "input_ok inp'" "tty_of inp' = tty_key c (tty_of inp)"
    "\<And>dump woken cs. console_key c (dump, woken, inp, cs) =
       bindR (consputs (tty_echo c (tty_of inp)) cs) (\<lambda>cs. Inr (dump \<or> c = 16,
         woken \<or> ready (tty_key c (tty_of inp)) \<noteq> ready (tty_of inp), inp', cs))"
proof -
  consider "c = 16" | "c = 21" | "c = 8 \<or> c = 127" | "c \<notin> {8, 16, 21, 127}" "c = 0 \<or> \<not> unat (i_e inp - i_r inp) < INPUT_BUF"
    | "c \<notin> {8, 16, 21, 127}" "0 < c" "unat (i_e inp - i_r inp) < INPUT_BUF"
    using assms(2) by fastforce
  then show thesis
  proof cases
    case 1
    show thesis by (rule that [of inp]) (use assms 1 in \<open>simp_all add: tty_key_def console_key_def tty_echo_def\<close>)
  next
    case 2
    show thesis
      by (rule that [of "inp\<lparr>i_e := i_w inp\<rparr>"])
        (use clear_line [OF assms(1)] kill_line_eq [OF assms(1)] 2 in \<open>simp_all add: tty_key_def console_key_def tty_echo_def bindR_assoc\<close>)
  next
    case 3
    show thesis
    proof (cases "i_e inp = i_w inp")
      case True
      then have "line (tty_of inp) = []" by (simp add: tty_of_def)
      then show thesis using 3 assms True
        by (intro that [of inp]) (auto simp: tty_key_def console_key_def tty_echo_def)
    next
      case False
      note E = erase_ok(1) [OF assms(1) False] erase_last [OF False]
      have l: "line (tty_of inp) \<noteq> []" unfolding E(2) by simp
      have t: "tty_of (inp\<lparr>i_e := i_e inp - 1\<rparr>) = tty_key c (tty_of inp)"
        unfolding tty_key_def using 3 E(2,3) by auto
      show thesis
        by (rule that [of "inp\<lparr>i_e := i_e inp - 1\<rparr>"])
          (use 3 False l t E in \<open>auto simp: console_key_def tty_echo_def tty_key_def\<close>)
    qed
  next
    case 4
    show thesis
      by (rule that [of inp])
        (use 4 assms(1) room_ready [OF assms(1)] in \<open>auto simp: tty_key_def console_key_def tty_echo_def\<close>)
  next
    case 5
    note K = key_enter [OF assms(1) 5(3,2) assms(3) refl 5(1)]
    show thesis
      by (rule that [OF K(1,2)])
        (use 5 room_ready [OF assms(1)] K(3) in \<open>auto simp: console_key_def tty_echo_def enter_def Let_def\<close>)
  qed
qed

text \<open>An interrupt with several characters.\<close>

fun tty_echoes :: "int list \<Rightarrow> tty \<Rightarrow> int list" where
  "tty_echoes [] t = []"
| "tty_echoes (c # keys) t = tty_echo c t @ tty_echoes keys (tty_key c t)"

lemma key_ready: "\<exists>zs. ready (tty_key c t) = ready t @ zs"
  by (cases "c = 16"; cases "c = 21"; cases "c = 8 \<or> c = 127") (auto simp: tty_key_def Let_def)

lemma keys_ready: "\<exists>zs. ready (fold tty_key keys t) = ready t @ zs"
proof (induction keys arbitrary: t)
  case (Cons c keys)
  then show ?case using key_ready [of c t] by (metis append.assoc fold_simps(2))
qed simp

lemma consputs_append: "consputs (xs @ ys) = (\<lambda>cs. bindR (consputs xs cs) (consputs ys))"
proof (induction xs)
  case (Cons c xs)
  show ?case by (rule ext) (simp add: Cons.IH bindR_assoc)
qed simp

lemma key_loop_eq:
  assumes "input_ok inp" "set keys \<subseteq> {0..<256}"
  obtains inp' where "input_ok inp'" "tty_of inp' = fold tty_key keys (tty_of inp)"
    "\<And>dump woken cs. key_loop keys (dump, woken, inp, cs) =
       bindR (consputs (tty_echoes keys (tty_of inp)) cs) (\<lambda>cs. Inr (dump \<or> 16 \<in> set keys,
         woken \<or> ready (fold tty_key keys (tty_of inp)) \<noteq> ready (tty_of inp), inp', cs))"
  using assms
proof (induction keys arbitrary: inp thesis)
  case Nil
  then show ?case by simp
next
  case (Cons c keys)
  then have c: "0 \<le> c" "c < 256" by auto
  let ?t = "tty_key c (tty_of inp)"
  obtain i1 where 1: "input_ok i1" "tty_of i1 = ?t"
    "\<And>dump woken cs. console_key c (dump, woken, inp, cs) =
       bindR (consputs (tty_echo c (tty_of inp)) cs) (\<lambda>cs. Inr (dump \<or> c = 16, woken \<or> ready ?t \<noteq> ready (tty_of inp), i1, cs))"
    by (rule console_key_eq [OF Cons.prems(2) c]) blast
  obtain i2 where 2: "input_ok i2" "tty_of i2 = fold tty_key keys ?t"
    "\<And>dump woken cs. key_loop keys (dump, woken, i1, cs) =
       bindR (consputs (tty_echoes keys ?t) cs) (\<lambda>cs. Inr (dump \<or> 16 \<in> set keys,
         woken \<or> ready (fold tty_key keys ?t) \<noteq> ready ?t, i2, cs))"
    using Cons.IH [OF _ 1(1)] Cons.prems(3) unfolding 1(2) by auto
  have "ready ?t \<noteq> ready (tty_of inp) \<or> ready (fold tty_key keys ?t) \<noteq> ready ?t \<longleftrightarrow>
    ready (fold tty_key keys ?t) \<noteq> ready (tty_of inp)"
    using key_ready [of c "tty_of inp"] keys_ready [of keys ?t] by auto
  then show ?case using 1 2 c
    by (intro Cons.prems(1) [OF 2(1)]) (simp_all add: bindR_assoc consputs_append disj_assoc)
qed

text \<open>A read, from the start or resumed after a sleep.\<close>

lemma consoleread_loop_tty:
  assumes "input_ok inp"
  shows "map_outcome (\<lambda>(m, d, i). (m, d, ready (tty_of i))) (consoleread_loop killed target n dst inp)
      = tty_read killed target n dst (ready (tty_of inp)) \<and>
    (\<forall>(m, d, i) \<in> set_outcome (consoleread_loop killed target n dst inp). input_ok i \<and> line (tty_of i) = line (tty_of inp))"
  using assms
proof (induction n arbitrary: dst inp)
  case (Suc n)
  show ?case
  proof (cases "i_r inp = i_w inp")
    case True
    then show ?thesis using Suc.prems by (simp add: tty_of_def)
  next
    case False
    let ?i = "inp\<lparr>i_r := i_r inp + 1\<rparr>"
    have w: "unat (i_w inp - i_r inp) = Suc (unat (i_w inp - (i_r inp + 1)))"
      using window_step(1) [of "i_w inp" "i_r inp"] False by (simp add: algebra_simps)
    have r: "ready (tty_of inp) = i_buf inp ! (unat (i_r inp) mod INPUT_BUF) # ready (tty_of ?i)"
      using ring_list_Cons [of "unat (i_w inp - i_r inp)" "unat (i_r inp)" INPUT_BUF "i_buf inp"] w
        unat_u32 [of "i_r inp"]
      by (simp add: tty_of_def unat_add_wrap [of _ 1])
    have i: "input_ok ?i" using Suc.prems w by (simp add: input_ok_def tty_of_def)
    have l: "line (tty_of ?i) = line (tty_of inp)" by (simp add: tty_of_def)
    show ?thesis using Suc.IH [OF i] Suc.prems False r i l by (simp add: Let_def)
  qed
qed simp

section \<open>Interrupts and reads in any order\<close>

text \<open>What happens at the console: an interrupt delivers characters, a reader starts a read or goes on
  with one that slept. The answer is the wake-up, or the state of the read.\<close>

datatype con_op = Typed "int list" | Reading bool nat nat "byte list"

datatype answer = Interrupt bool bool | Got "(nat \<times> byte list) outcome"

definition fst_outcome :: "(nat \<times> byte list \<times> 'a) outcome \<Rightarrow> (nat \<times> byte list) outcome" where
  "fst_outcome = map_outcome (\<lambda>(n, d, _). (n, d))"

definition rest_outcome :: "(nat \<times> byte list \<times> 'a) outcome \<Rightarrow> 'a" where
  "rest_outcome x = (case x of Returns _ (_, _, s) \<Rightarrow> s | Sleeps (_, _, s) \<Rightarrow> s)"

fun con_step :: "con_op \<Rightarrow> input \<times> cons \<Rightarrow> (answer \<times> input \<times> cons) res" where
  "con_step (Typed keys) (inp, cs) =
     bindR (consoleintr keys inp cs) (\<lambda>(dump, woken, inp, cs). Inr (Interrupt dump woken, inp, cs))"
| "con_step (Reading killed target n dst) (inp, cs) =
     bindR (consoleread killed target n dst inp cs) (\<lambda>(x, cs). Inr (Got (fst_outcome x), rest_outcome x, cs))"

fun tty_step :: "con_op \<Rightarrow> tty \<Rightarrow> answer \<times> int list \<times> tty" where
  "tty_step (Typed keys) t =
     (let t' = fold tty_key keys t
      in (Interrupt (16 \<in> set keys) (ready t' \<noteq> ready t), tty_echoes keys t, t'))"
| "tty_step (Reading killed target n dst) t =
     (let x = tty_read killed target n dst (ready t)
      in (Got (fst_outcome x), [], t\<lparr>ready := rest_outcome x\<rparr>))"

fun con_run :: "con_op list \<Rightarrow> input \<times> cons \<Rightarrow> (answer list \<times> input \<times> cons) res" where
  "con_run [] s = Inr ([], s)"
| "con_run (op # ops) s = bindR (con_step op s) (\<lambda>(a, s). bindR (con_run ops s) (\<lambda>(as, s). Inr (a # as, s)))"

fun tty_run :: "con_op list \<Rightarrow> tty \<Rightarrow> answer list \<times> int list \<times> tty" where
  "tty_run [] t = ([], [], t)"
| "tty_run (op # ops) t =
     (let (a, es, t) = tty_step op t; (as, es', t) = tty_run ops t in (a # as, es @ es', t))"

definition typed_bytes :: "con_op \<Rightarrow> bool" where
  "typed_bytes op \<longleftrightarrow> (case op of Typed keys \<Rightarrow> set keys \<subseteq> {0..<256} | Reading _ _ _ _ \<Rightarrow> True)"

definition con_ok :: "input \<Rightarrow> cons \<Rightarrow> bool" where
  "con_ok inp cs \<longleftrightarrow> input_ok inp \<and> screen_ok cs \<and> \<not> cons_lock cs \<and> cursor cs < 24 * 80"

lemma con_step_ok:
  assumes "con_ok inp cs" "typed_bytes op" "tty_step op (tty_of inp) = (a, es, t)"
  obtains inp' cs' where "con_step op (inp, cs) = Inr (a, inp', cs')" "con_ok inp' cs'" "tty_of inp' = t"
    "view cs' = fold term_put es (view cs)"
proof (cases op)
  case (Typed keys)
  let ?c = "cs\<lparr>cons_lock := True\<rparr>"
  have c: "screen_ok ?c" "view ?c = view cs" "cursor ?c < 24 * 80"
    using assms(1) by (simp_all add: con_ok_def screen_ok_def view_def)
  have i: "input_ok inp" "set keys \<subseteq> {0..<256}"
    using assms(1,2) Typed by (simp_all add: con_ok_def typed_bytes_def)
  obtain inp' where k: "input_ok inp'" "tty_of inp' = fold tty_key keys (tty_of inp)"
    "\<And>dump woken cs. key_loop keys (dump, woken, inp, cs) =
       bindR (consputs (tty_echoes keys (tty_of inp)) cs) (\<lambda>cs. Inr (dump \<or> 16 \<in> set keys,
         woken \<or> ready (fold tty_key keys (tty_of inp)) \<noteq> ready (tty_of inp), inp', cs))"
    by (rule key_loop_eq [OF i]) blast
  obtain cs' where o': "consputs (tty_echoes keys (tty_of inp)) ?c = Inr cs'" "screen_ok cs'" "same_mode ?c cs'"
    "cursor ?c < 24 * 80 \<Longrightarrow> cursor cs' < 24 * 80 \<and> view cs' = fold term_put (tty_echoes keys (tty_of inp)) (view ?c)"
    by (rule consputs_ok [OF c(1)]) blast
  show thesis
    by (rule that [of inp' "cs'\<lparr>cons_lock := False\<rparr>"])
      (use assms k o' c Typed in \<open>auto simp: con_ok_def consoleintr_def cons_acquire_def cons_release_def
        same_mode_def screen_ok_def view_def Let_def\<close>)
next
  case (Reading killed target n dst)
  let ?x = "consoleread_loop killed target n dst inp"
  have i: "input_ok inp" using assms(1) by (simp add: con_ok_def)
  note R = consoleread_loop_tty [OF i, of killed target n dst]
  have f: "fst_outcome (tty_read killed target n dst (ready (tty_of inp))) = fst_outcome ?x"
    "rest_outcome (tty_read killed target n dst (ready (tty_of inp))) = ready (tty_of (rest_outcome ?x))"
    unfolding conjunct1 [OF R, symmetric] by (cases ?x; auto simp: fst_outcome_def rest_outcome_def)+
  have r: "input_ok (rest_outcome ?x)" "line (tty_of (rest_outcome ?x)) = line (tty_of inp)"
    using conjunct2 [OF R] by (cases ?x; auto simp: rest_outcome_def)+
  show thesis
    by (rule that [of "rest_outcome ?x" "cs\<lparr>cons_lock := False\<rparr>"])
      (use assms r f Reading in \<open>auto simp: con_ok_def consoleread_def cons_acquire_def cons_release_def
        screen_ok_def view_def Let_def\<close>)
qed

text \<open>C11: the console is a line discipline: under any interleaving of interrupts and reads, with the counters
  wrapping around, the ring behaves as the two lists of the reference, every answer (wake-ups, process listings, results and bytes of reads, sleeping) is
  the reference's, the echo on the screen is the one of the reference on a scrolling terminal, and nothing
  overruns, panics or keeps the lock.\<close>

theorem console_line_discipline:
  assumes "con_ok inp cs" "\<forall>op \<in> set ops. typed_bytes op"
    "tty_run ops (tty_of inp) = (as, es, t)"
  shows "\<exists>inp' cs'. con_run ops (inp, cs) = Inr (as, inp', cs') \<and> con_ok inp' cs' \<and> tty_of inp' = t \<and>
    view cs' = fold term_put es (view cs)"
  using assms
proof (induction ops arbitrary: inp cs as es)
  case (Cons op ops)
  obtain a e1 t1 where s: "tty_step op (tty_of inp) = (a, e1, t1)" by (metis prod_cases3)
  obtain as' e2 where r: "tty_run ops t1 = (as', e2, t)" "as = a # as'" "es = e1 @ e2"
    using Cons.prems(3) s by (auto split: prod.splits)
  obtain i1 c1 where 1: "con_step op (inp, cs) = Inr (a, i1, c1)" "con_ok i1 c1" "tty_of i1 = t1"
    "view c1 = fold term_put e1 (view cs)"
    by (rule con_step_ok [OF Cons.prems(1) _ s]) (use Cons.prems(2) in auto)
  show ?case using Cons.IH [OF 1(2), of as' e2] Cons.prems(2) 1 r by auto
qed simp

definition wrapping_input :: input where
  "wrapping_input = \<lparr>i_buf = replicate INPUT_BUF 0, i_r = - 1, i_w = - 1, i_e = - 1\<rparr>"

definition blank_console :: cons where
  "blank_console = \<lparr>locking = True, cons_lock = False, panicked = False, crt = replicate (25 * 80) 0,
     cursor = 0, uart = True, serial = []\<rparr>"

lemma blank_console_ok: "con_ok wrapping_input blank_console" "tty_of wrapping_input = \<lparr>ready = [], line = []\<rparr>"
  by (simp_all add: con_ok_def input_ok_def screen_ok_def tty_of_def wrapping_input_def blank_console_def)

text \<open>"hi", a deletion, "!" and the end of the line; the reader gets "h!" and the newline.\<close>

theorem console_line_discipline_witness:
  "\<exists>inp' cs'. con_run [Typed [104, 105, 127, 33, 13], Reading False 10 10 []] (wrapping_input, blank_console) =
     Inr ([Interrupt False True, Got (Returns 3 (7, [104, 33, 10]))], inp', cs') \<and> con_ok inp' cs'"
proof -
  have "tty_run [Typed [104, 105, 127, 33, 13], Reading False 10 10 []] \<lparr>ready = [], line = []\<rparr> =
     ([Interrupt False True, Got (Returns 3 (7, [104, 33, 10]))], [104, 105, BACKSPACE, 33, 10], \<lparr>ready = [], line = []\<rparr>)"
    by code_simp
  then show ?thesis
    using console_line_discipline [OF blank_console_ok(1),
        of "[Typed [104, 105, 127, 33, 13], Reading False 10 10 []]"] blank_console_ok(2)
    by (simp add: typed_bytes_def) blast
qed

section \<open>Formatted output\<close>

text \<open>How many arguments a format takes.\<close>

fun directives :: "byte list \<Rightarrow> nat" where
  "directives (c # d # fmt) =
     (if c = 0 then 0 else if c \<noteq> 37 then directives (d # fmt) else if d = 0 then 0
      else (if d \<in> {100, 120, 112, 115} then 1 else 0) + directives fmt)"
| "directives _ = 0"

text \<open>A piece of output that succeeds.\<close>

definition outputs :: "cons res \<Rightarrow> cons \<Rightarrow> bool" where
  "outputs m cs \<longleftrightarrow> (\<exists>cs'. m = Inr cs' \<and> screen_ok cs' \<and> same_mode cs cs')"

lemma outputs_done: "screen_ok cs \<Longrightarrow> outputs (Inr cs) cs"
  by (simp add: outputs_def same_mode_def)

lemma outputs_bind:
  assumes "outputs m cs" "\<And>c. m = Inr c \<Longrightarrow> screen_ok c \<Longrightarrow> outputs (f c) c"
  shows "outputs (bindR m f) cs"
  using assms by (fastforce simp: outputs_def same_mode_def)

lemma outputs_consputc: "screen_ok cs \<Longrightarrow> outputs (consputc c cs) cs"
  using consputc_ok [of cs c] by (metis outputs_def)

lemma outputs_consputs: "screen_ok cs \<Longrightarrow> outputs (consputs s cs) cs"
  using consputs_ok [of cs s] by (metis outputs_def)

lemma int_of_uint_range: "a < 2 ^ 32 \<Longrightarrow> - (2 ^ 31) \<le> int_of_uint a \<and> int_of_uint a < 2 ^ 31"
  by (simp add: int_of_uint_def)

lemma printint_decimal:
  "a < 2 ^ 32 \<Longrightarrow> printint (int_of_uint a) 10 True cs = consputs (map sint (signed_numeral (digit 87) (int_of_uint a))) cs"
  using int_chars_decimal int_of_uint_range by (simp add: printint_def)

lemma printint_hex:
  "a < 2 ^ 32 \<Longrightarrow> printint (int_of_uint a) 16 False cs = consputs (map sint (map (digit 87) (numeral_in 16 a))) cs"
  by (simp add: printint_def int_chars_hex)

lemma cprintf_loop_ok:
  assumes "screen_ok cs" "directives fmt \<le> length args" "set args \<subseteq> {..<2 ^ 32}"
  shows "outputs (cprintf_loop strs fmt args cs) cs"
  using assms
proof (induction strs fmt args cs rule: cprintf_loop.induct)
  case (1 strs args cs)
  then show ?case by (simp add: outputs_done)
next
  case (2 strs c args cs)
  then show ?case by (simp add: outputs_done outputs_consputc)
next
  case (3 strs c d fmt args cs)
  consider "c = 0 \<or> c = 37 \<and> d = 0" | "c \<noteq> 0" "c \<noteq> 37" | "c = 37" "d \<in> {100, 120, 112, 115}"
    | "c = 37" "d = 37" | "c = 37" "d \<notin> {0, 37, 100, 120, 112, 115}"
    by auto
  then show ?case
  proof cases
    case 1
    then show ?thesis using 3 by (auto simp: outputs_done)
  next
    case 2
    have "outputs (bindR (consputc (uint c) cs) (cprintf_loop strs (d # fmt) args)) cs"
      by (rule outputs_bind [OF outputs_consputc], use 3 in simp, rule "3.IH"(1)) (use "3.prems" 2 in simp_all)
    then show ?thesis using 2 by simp
  next
    case d: 3
    have nz: "d \<noteq> 0" "c \<noteq> 0" using d by auto
    obtain a as where a: "args = a # as" "a < 2 ^ 32" "directives fmt \<le> length as" "set as \<subseteq> {..<2 ^ 32}"
      using "3.prems" d nz by (cases args) auto
    let ?p = "if d = 100 then printint (int_of_uint a) 10 True cs
              else if d = 115 then consputs (map sint (c_str (if a = 0 then null_str else strs a))) cs
              else printint (int_of_uint a) 16 False cs"
    have p: "outputs ?p cs"
      using outputs_consputs [OF "3.prems"(1)] printint_decimal [OF a(2)] printint_hex [OF a(2)] by simp
    have "outputs (bindR ?p (cprintf_loop strs fmt as)) cs"
      by (rule outputs_bind [OF p], rule "3.IH"(2)) (use d a nz in simp_all)
    then show ?thesis using d a(1) nz by simp
  next
    case 4
    have "outputs (bindR (consputc 37 cs) (cprintf_loop strs fmt args)) cs"
      by (rule outputs_bind [OF outputs_consputc], use 3 in simp, rule "3.IH"(3)) (use "3.prems" 4 in simp_all)
    then show ?thesis using 4 by simp
  next
    case 5
    have "outputs (bindR (consputs [37, uint d] cs) (cprintf_loop strs fmt args)) cs"
      by (rule outputs_bind [OF outputs_consputs], use 3 in simp, rule "3.IH"(4)) (use "3.prems" 5 in simp_all)
    then show ?thesis using 5 by simp
  qed
qed

text \<open>C30: formatted output stays on the screen: with as many arguments as the format takes, \<open>cprintf\<close> returns on
  every format, whatever the cursor, its number buffer is never exceeded, no cell outside the 25 lines is
  written, and the lock is free again.\<close>

theorem cprintf_in_bounds:
  assumes "screen_ok cs" "\<not> cons_lock cs" "directives fmt \<le> length args" "set args \<subseteq> {..<2 ^ 32}"
  shows "\<exists>cs'. cprintf strs (Some fmt) args cs = Inr cs' \<and> screen_ok cs' \<and> \<not> cons_lock cs'"
proof -
  let ?c = "if locking cs then cs\<lparr>cons_lock := True\<rparr> else cs"
  have "screen_ok ?c" using assms(1) by (simp add: screen_ok_def)
  from cprintf_loop_ok [OF this assms(3,4), of strs] obtain c2 where
    "cprintf_loop strs fmt args ?c = Inr c2" "screen_ok c2" "same_mode ?c c2"
    by (auto simp: outputs_def)
  then show ?thesis using assms(2)
    by (cases "locking cs") (auto simp: cprintf_def cons_acquire_def cons_release_def same_mode_def screen_ok_def)
qed

theorem cprintf_in_bounds_witness:
  "\<exists>cs'. cprintf (\<lambda>_. []) (Some [37, 100, 37, 115, 37, 113]) [4294967295, 0] blank_console = Inr cs' \<and> screen_ok cs' \<and>
     \<not> cons_lock cs'"
  by (rule cprintf_in_bounds) (use blank_console_ok in \<open>simp_all add: con_ok_def\<close>)

text \<open>Output in the panic, where the lock is not taken.\<close>

lemma cprintf_unlocked:
  assumes "screen_ok cs" "\<not> locking cs" "directives fmt \<le> length args" "set args \<subseteq> {..<2 ^ 32}"
  shows "outputs (cprintf strs (Some fmt) args cs) cs"
  using cprintf_loop_ok [OF assms(1,3,4), of strs] assms(2) by (auto simp: cprintf_def outputs_def)

lemma print_pcs_ok:
  assumes "screen_ok cs" "\<not> locking cs" "set pcs \<subseteq> {..<2 ^ 32}"
  shows "outputs (print_pcs strs pcs cs) cs"
  using assms
proof (induction pcs arbitrary: cs)
  case Nil
  then show ?case by (simp add: outputs_done)
next
  case (Cons pc pcs)
  have "outputs (cprintf strs (Some [32, 37, 112]) [pc] cs) cs"
    by (rule cprintf_unlocked) (use Cons.prems in simp_all)
  then obtain c1 where 1: "cprintf strs (Some [32, 37, 112]) [pc] cs = Inr c1" "screen_ok c1" "same_mode cs c1"
    by (auto simp: outputs_def)
  then have "outputs (print_pcs strs pcs c1) c1"
    using Cons.prems by (intro Cons.IH) (simp_all add: same_mode_def)
  then show ?case using 1 by (auto simp: outputs_def same_mode_def)
qed

text \<open>\<open>panic\<close> reports even when the console lock is held, by this or another processor, and freezes the machine:
  after it no character is printed any more, on any processor.\<close>

theorem panic_freezes:
  assumes "screen_ok cs" "directives msg = 0" "lapicid < 2 ^ 32" "set pcs \<subseteq> {..<2 ^ 32}"
  shows "\<exists>cs'. cons_panic strs lapicid pcs msg cs = Inr cs' \<and> (\<forall>c. consputc c cs' = Inl (Hang ''panicked''))"
proof -
  let ?c = "cs\<lparr>locking := False\<rparr>"
  have c: "screen_ok ?c" "\<not> locking ?c" using assms(1) by (simp_all add: screen_ok_def)
  have "directives panic_msg = 1" unfolding panic_msg_def by code_simp
  then obtain c1 where 1: "cprintf strs (Some panic_msg) [lapicid] ?c = Inr c1" "screen_ok c1" "same_mode ?c c1"
    using cprintf_unlocked [OF c, of panic_msg "[lapicid]" strs] assms(3) by (auto simp: outputs_def)
  then obtain c2 where 2: "cprintf strs (Some msg) [] c1 = Inr c2" "screen_ok c2" "same_mode c1 c2"
    using cprintf_unlocked [of c1 msg "[]" strs] assms(2) by (auto simp: outputs_def same_mode_def)
  then obtain c3 where 3: "cprintf strs (Some [10]) [] c2 = Inr c3" "screen_ok c3" "same_mode c2 c3"
    using cprintf_unlocked [of c2 "[10]" "[]" strs] 1 by (auto simp: outputs_def same_mode_def)
  have "set (take 10 pcs) \<subseteq> {..<2 ^ 32}" using assms(4) set_take_subset [of 10 pcs] by auto
  then obtain c4 where 4: "print_pcs strs (take 10 pcs) c3 = Inr c4"
    using print_pcs_ok [of c3 "take 10 pcs" strs] 1 2 3 by (auto simp: outputs_def same_mode_def)
  show ?thesis using 1 2 3 4 by (simp add: cons_panic_def consputc_def)
qed

theorem panic_freezes_witness:
  "\<exists>cs'. cons_panic (\<lambda>_. []) 0 (replicate 10 0) [115, 99, 104, 101, 100] (blank_console\<lparr>cons_lock := True\<rparr>) = Inr cs' \<and>
     (\<forall>c. consputc c cs' = Inl (Hang ''panicked''))"
  by (rule panic_freezes) (use blank_console_ok in \<open>simp_all add: con_ok_def screen_ok_def\<close>)

end
