(* ===== verification/Grep.thy ===== *)
theory Grep
  imports C_String
begin

text \<open>
  The user command grep.c (the same file in the three projects): the recursive matcher, and the
  loop that cuts what \<open>read\<close> delivers into lines. Patterns and lines are C strings, the list of the bytes
  before the terminator. The file is the list of the pieces its writers wrote: \<open>read\<close> returns at most one of
  them, and what does not fit is left for the next call.
\<close>

section \<open>The matcher\<close>

lemma char_at_tl: "char_at p \<noteq> 0 \<Longrightarrow> length (tl p) < length p"
  by (cases p) (simp_all add: char_at_def)

function (sequential) matchhere :: "byte list \<Rightarrow> byte list \<Rightarrow> bool"
  and matchstar :: "byte \<Rightarrow> byte list \<Rightarrow> byte list \<Rightarrow> bool" where
  "matchhere re text =
     (if char_at re = 0 then True
      else if char_at (tl re) = 42 then matchstar (char_at re) (drop 2 re) text
      else if char_at re = 36 \<and> char_at (tl re) = 0 then char_at text = 0
      else if char_at text \<noteq> 0 \<and> (char_at re = 46 \<or> char_at re = char_at text)
      then matchhere (tl re) (tl text)
      else False)"
| "matchstar c re text =
     (if matchhere re text then True
      else if char_at text \<noteq> 0 \<and> (char_at text = c \<or> c = 46) then matchstar c re (tl text)
      else False)"
  by pat_completeness auto

termination
proof (relation "measure (case_sum (\<lambda>(re, text). 2 * (length re + length text))
    (\<lambda>(c, re, text). Suc (2 * (length re + length text))))", goal_cases)
  case (2 re t)
  then have "2 \<le> length re" by (cases re; cases "tl re") (simp_all add: char_at_def)
  then show ?case by simp
next
  case (3 re t)
  then show ?case using char_at_tl [of re] char_at_tl [of t] by simp
next
  case (5 c re t)
  then show ?case using char_at_tl [of t] by simp
qed simp_all

declare matchhere.simps [simp del] matchstar.simps [simp del]

fun match_any :: "byte list \<Rightarrow> byte list \<Rightarrow> bool" where
  "match_any re [] = matchhere re []"
| "match_any re (c # text) = (matchhere re (c # text) \<or> match_any re text)"

definition match :: "byte list \<Rightarrow> byte list \<Rightarrow> bool" where
  "match re text = (if char_at re = 94 then matchhere (tl re) text else match_any re text)"

section \<open>Cutting the input into lines\<close>

text \<open>\<open>strchr(p, c)\<close> as the offset of the character in the string.\<close>

definition strchr :: "byte list \<Rightarrow> byte \<Rightarrow> nat option" where
  "strchr p c = find_idx (\<lambda>x. x = c) (c_str p)"

lemma strchr_bound: "strchr p c = Some k \<Longrightarrow> k < length p"
  using length_takeWhile_le [of "\<lambda>c. c \<noteq> 0" p]
  by (auto simp: strchr_def c_str_def dest!: find_idx_SomeD)

function grep_lines :: "byte list \<Rightarrow> byte list \<Rightarrow> byte list \<times> byte list" where
  "grep_lines pattern p =
     (case strchr p 10 of
        None \<Rightarrow> (p, [])
      | Some q \<Rightarrow>
          let (rest, out) = grep_lines pattern (drop (Suc q) p)
          in (rest, (if match pattern (take q p) then take (Suc q) p else []) @ out))"
  by pat_completeness auto
termination by (relation "measure (\<lambda>(pattern, p). length p)") (auto dest: strchr_bound)

declare grep_lines.simps [simp del]

fun read_piece :: "nat \<Rightarrow> byte list list \<Rightarrow> byte list \<times> byte list list" where
  "read_piece n [] = ([], [])"
| "read_piece n (x # xs) = (take n x, if length x \<le> n then xs else drop n x # xs)"

text \<open>\<open>buf[1024]\<close> holds the \<open>m\<close> bytes of \<open>held\<close>.\<close>

lemma read_piece_less:
  "read_piece n xs = (c, ys) \<Longrightarrow> c \<noteq> [] \<Longrightarrow> sum_list (map length ys) < sum_list (map length xs)"
  by (cases xs) (auto split: if_splits)

function grep_loop :: "byte list \<Rightarrow> byte list \<Rightarrow> byte list list \<Rightarrow> byte list" where
  "grep_loop pattern held pieces =
     (let (c, pieces') = read_piece (1024 - length held - 1) pieces in
      if c = [] then []
      else let buf = held @ c;
               (p, out) = grep_lines pattern buf;
               held' = (if length p = length buf then [] else p)
           in out @ grep_loop pattern held' pieces')"
  by pat_completeness auto
termination
  by (relation "measure (\<lambda>(_, _, pieces). sum_list (map length pieces))")
    (auto intro: read_piece_less [OF sym])

declare grep_loop.simps [simp del]

definition grep :: "byte list \<Rightarrow> byte list list \<Rightarrow> byte list" where
  "grep pattern pieces = grep_loop pattern [] pieces"

text \<open>The command: the files it is given, up to the first that cannot be opened, or the standard input. Standard
  output and standard error are separate.\<close>

fun grep_files :: "byte list \<Rightarrow> (byte list \<Rightarrow> byte list list option) \<Rightarrow> byte list list \<Rightarrow> byte list" where
  "grep_files pattern open_file [] = []"
| "grep_files pattern open_file (f # fs) =
     (case open_file f of
        None \<Rightarrow> map (of_nat \<circ> of_char) ''grep: cannot open '' @ f @ [10]
      | Some pieces \<Rightarrow> grep pattern pieces @ grep_files pattern open_file fs)"

definition grep_main :: "byte list list \<Rightarrow> byte list list \<Rightarrow> (byte list \<Rightarrow> byte list list option) \<Rightarrow> byte list \<times> byte list" where
  "grep_main argv stdin open_file =
     (if length argv \<le> 1 then ([], map (of_nat \<circ> of_char) ''usage: grep pattern [file ...]'' @ [10])
      else if length argv \<le> 2 then (grep (argv ! 1) stdin, [])
      else (grep_files (argv ! 1) open_file (drop 2 argv), []))"

section \<open>The matcher and its language\<close>

text \<open>The reference: a pattern is a list of items, its language what they spell, with anchors at the
  two ends.\<close>

datatype item = One byte | Many byte

definition fits :: "byte \<Rightarrow> byte \<Rightarrow> bool" where
  "fits r c \<longleftrightarrow> r = 46 \<or> r = c"

fun items :: "byte list \<Rightarrow> item list \<times> bool" where
  "items [] = ([], False)"
| "items [r] = (if r = 36 then ([], True) else ([One r], False))"
| "items (r # s # re) =
     (if s = 42 then map_prod ((#) (Many r)) id (items re) else map_prod ((#) (One r)) id (items (s # re)))"

fun lang :: "item list \<Rightarrow> byte list set" where
  "lang [] = {[]}"
| "lang (One r # is) = {c # w | c w. fits r c \<and> w \<in> lang is}"
| "lang (Many r # is) = {u @ w | u w. (\<forall>c \<in> set u. fits r c) \<and> w \<in> lang is}"

definition begins :: "item list \<times> bool \<Rightarrow> byte list \<Rightarrow> bool" where
  "begins = (\<lambda>(is, at_end) text. \<exists>u v. text = u @ v \<and> u \<in> lang is \<and> (at_end \<longrightarrow> v = []))"

definition regex_matches :: "byte list \<Rightarrow> byte list \<Rightarrow> bool" where
  "regex_matches re text \<longleftrightarrow>
     (if re \<noteq> [] \<and> hd re = 94 then begins (items (tl re)) text
      else \<exists>p t. text = p @ t \<and> begins (items re) t)"

lemma begins_I: "u \<in> lang is \<Longrightarrow> (e \<longrightarrow> v = []) \<Longrightarrow> begins (is, e) (u @ v)"
  by (auto simp: begins_def)

lemma begins_E:
  assumes "begins (is, e) t"
  obtains u v where "t = u @ v" "u \<in> lang is" "e \<longrightarrow> v = []"
  using assms by (auto simp: begins_def)

lemma lang_Many_I: "\<forall>c \<in> set u. fits r c \<Longrightarrow> w \<in> lang is \<Longrightarrow> u @ w \<in> lang (Many r # is)"
  by auto

lemma begins_Nil: "begins ([], e) t \<longleftrightarrow> (e \<longrightarrow> t = [])"
  by (auto simp: begins_def)

lemma begins_One:
  "begins (One r # is, e) t \<longleftrightarrow> (\<exists>c t'. t = c # t' \<and> fits r c \<and> begins (is, e) t')"
proof
  assume "begins (One r # is, e) t"
  then obtain u v where u: "t = u @ v" "u \<in> lang (One r # is)" "e \<longrightarrow> v = []" by (rule begins_E)
  then obtain c w where "u = c # w" "fits r c" "w \<in> lang is" by auto
  then show "\<exists>c t'. t = c # t' \<and> fits r c \<and> begins (is, e) t'" using u begins_I [of w "is" e v] by simp
next
  assume "\<exists>c t'. t = c # t' \<and> fits r c \<and> begins (is, e) t'"
  then obtain c t' where t: "t = c # t'" "fits r c" "begins (is, e) t'" by blast
  from t(3) obtain u v where "t' = u @ v" "u \<in> lang is" "e \<longrightarrow> v = []" by (rule begins_E)
  with t have "t = (c # u) @ v" "fits r c" "u \<in> lang is" "e \<longrightarrow> v = []" by simp_all
  then show "begins (One r # is, e) t" using begins_I [of "c # u" "One r # is" e v] by simp
qed

lemma begins_Many:
  "begins (Many r # is, e) t \<longleftrightarrow>
     begins (is, e) t \<or> (\<exists>c t'. t = c # t' \<and> fits r c \<and> begins (Many r # is, e) t')"
proof
  assume "begins (Many r # is, e) t"
  then obtain u v where u: "t = u @ v" "u \<in> lang (Many r # is)" "e \<longrightarrow> v = []" by (rule begins_E)
  then obtain x w where x: "u = x @ w" "\<forall>c \<in> set x. fits r c" "w \<in> lang is" by auto
  show "begins (is, e) t \<or> (\<exists>c t'. t = c # t' \<and> fits r c \<and> begins (Many r # is, e) t')"
  proof (cases x)
    case Nil
    then show ?thesis using u x begins_I [of w "is" e v] by simp
  next
    case (Cons c x')
    have "x' @ w \<in> lang (Many r # is)" using x Cons by auto
    then show ?thesis using begins_I [of "x' @ w" "Many r # is" e v] u x Cons by simp
  qed
next
  assume "begins (is, e) t \<or> (\<exists>c t'. t = c # t' \<and> fits r c \<and> begins (Many r # is, e) t')"
  then show "begins (Many r # is, e) t"
  proof
    assume "begins (is, e) t"
    then obtain u v where u: "t = u @ v" "u \<in> lang is" "e \<longrightarrow> v = []" by (rule begins_E)
    have "[] @ u \<in> lang (Many r # is)" by (rule lang_Many_I) (use u in simp_all)
    then show ?thesis using begins_I [of u "Many r # is" e v] u by simp
  next
    assume "\<exists>c t'. t = c # t' \<and> fits r c \<and> begins (Many r # is, e) t'"
    then obtain c t' where t: "t = c # t'" "fits r c" "begins (Many r # is, e) t'" by blast
    from t(3) obtain u v where v: "t' = u @ v" "u \<in> lang (Many r # is)" "e \<longrightarrow> v = []" by (rule begins_E)
    from v(2) obtain x w where "u = x @ w" "\<forall>c \<in> set x. fits r c" "w \<in> lang is" by auto
    then have u: "t = (c # x @ w) @ v" "fits r c" "\<forall>c \<in> set x. fits r c" "w \<in> lang is" "e \<longrightarrow> v = []"
      using t(1,2) v(1,3) by simp_all
    have "(c # x) @ w \<in> lang (Many r # is)" by (rule lang_Many_I) (use u in simp_all)
    then show ?thesis using begins_I [of "c # x @ w" "Many r # is" e v] u by simp
  qed
qed

text \<open>The two functions of the matcher decide it.\<close>

lemma c_string_tl: "0 \<notin> set p \<Longrightarrow> p = [] \<or> p = char_at p # tl p \<and> char_at p \<noteq> 0"
  by (cases p) (auto simp: char_at_def)

lemma matcher_sound:
  "0 \<notin> set re \<Longrightarrow> 0 \<notin> set t \<Longrightarrow> matchhere re t \<longleftrightarrow> begins (items re) t"
  "0 \<notin> set re \<Longrightarrow> 0 \<notin> set t \<Longrightarrow> matchstar c re t \<longleftrightarrow> begins (map_prod ((#) (Many c)) id (items re)) t"
proof (induction re t and c re t rule: matchhere_matchstar.induct)
  case (1 re t)
  show ?case
  proof (cases re)
    case Nil
    then show ?thesis by (simp add: matchhere.simps [of "[]"] char_at_def begins_Nil)
  next
    case r: (Cons r re')
    show ?thesis
    proof (cases re')
      case Nil
      then show ?thesis using "1.prems" r
        by (cases t) (auto simp: matchhere.simps [of "[r]"] matchhere.simps [of "[]"] char_at_def begins_One begins_Nil fits_def)
    next
      case s: (Cons s re'')
      obtain "is" e where i: "items (s # re'') = (is, e)" by force
      show ?thesis
      proof (cases "s = 42")
        case True
        then show ?thesis using 1 r s by (simp add: matchhere.simps [of "r # 42 # re''"] char_at_def id_def)
      next
        case False
        have "matchhere re' (tl t) = begins (items re') (tl t)" if "t \<noteq> []" "fits r (hd t)"
          using "1.IH"(2) "1.prems" that r s False by (cases t) (auto simp: char_at_def fits_def)
        then show ?thesis using "1.prems" r s False i
          by (cases t) (auto simp: matchhere.simps [of "r # s # re''"] char_at_def begins_One fits_def)
      qed
    qed
  qed
next
  case (2 c re t)
  obtain "is" e where i: "items re = (is, e)" by force
  have tl: "0 \<notin> set (tl t)" using "2.prems"(2) by (cases t) auto
  show ?case
    using 2 tl i begins_Many [of c "is" e t] by (cases t) (auto simp: matchstar.simps [of c re] char_at_def fits_def)
qed

lemma match_any_iff: "match_any re s \<longleftrightarrow> (\<exists>p t. s = p @ t \<and> matchhere re t)"
proof (induction s)
  case (Cons c s)
  then show ?case by (auto simp: Cons_eq_append_conv)
qed simp

text \<open>C31: the matcher decides the language of the pattern: for patterns and lines without a zero byte, \<open>match\<close>
  answers yes exactly when some part of the line, at its beginning after a caret and at its end before a final
  dollar sign, is spelled by the items of the pattern.\<close>

theorem match_regex:
  assumes "0 \<notin> set re" "0 \<notin> set s"
  shows "match re s \<longleftrightarrow> regex_matches re s"
proof (cases "re \<noteq> [] \<and> hd re = 94")
  case True
  then have "0 \<notin> set (tl re)" "char_at re = 94" using assms(1) by (cases re; simp add: char_at_def)+
  then show ?thesis using True matcher_sound(1) [of "tl re" s] assms(2) by (simp add: match_def regex_matches_def)
next
  case False
  then have "char_at re \<noteq> 94" by (cases re) (simp_all add: char_at_def)
  then have "match re s \<longleftrightarrow> (\<exists>p t. s = p @ t \<and> matchhere re t)" by (simp add: match_def match_any_iff)
  also have "\<dots> \<longleftrightarrow> (\<exists>p t. s = p @ t \<and> begins (items re) t)" 
    using matcher_sound(1) [OF assms(1)] assms(2) by (metis Un_iff set_append)
  finally show ?thesis using False by (auto simp: regex_matches_def)
qed

theorem match_regex_witness: "match [97, 46, 42, 99, 36] [120, 97, 98, 98, 99] \<longleftrightarrow> regex_matches [97, 46, 42, 99, 36] [120, 97, 98, 98, 99]"
  by (rule match_regex) simp_all

section \<open>The lines\<close>

text \<open>The reference: the complete lines of a text and what is left after the last newline.\<close>

fun lines_from :: "byte list \<Rightarrow> byte list \<Rightarrow> byte list list \<times> byte list" where
  "lines_from acc [] = ([], acc)"
| "lines_from acc (c # s) =
     (if c = 10 then (let (ls, r) = lines_from [] s in (acc # ls, r)) else lines_from (acc @ [c]) s)"

definition complete_lines :: "byte list \<Rightarrow> byte list list" where
  "complete_lines s = fst (lines_from [] s)"

definition selected :: "(byte list \<Rightarrow> bool) \<Rightarrow> byte list list \<Rightarrow> byte list" where
  "selected P ls = concat (map (\<lambda>l. l @ [10]) (filter P ls))"

lemma lines_from_none: "10 \<notin> set s \<Longrightarrow> lines_from acc s = ([], acc @ s)"
  by (induction s arbitrary: acc) auto

lemma lines_from_one:
  "10 \<notin> set l \<Longrightarrow> lines_from acc (l @ 10 # s) = (let (ls, r) = lines_from [] s in ((acc @ l) # ls, r))"
  by (induction l arbitrary: acc) auto

lemma lines_from_rest: "10 \<notin> set acc \<Longrightarrow> 10 \<notin> set (snd (lines_from acc s))"
  by (induction s arbitrary: acc) (auto simp: case_prod_beta)

lemma lines_from_append:
  "lines_from acc (x @ y) =
     (let (ls, r) = lines_from acc x; (ls', r') = lines_from r y in (ls @ ls', r'))"
  by (induction x arbitrary: acc) (auto simp: case_prod_beta Let_def)

lemma lines_from_acc: "10 \<notin> set acc \<Longrightarrow> lines_from acc s = lines_from [] (acc @ s)"
  by (simp add: lines_from_append lines_from_none)

lemma lines_from_length: "length (snd (lines_from acc s)) \<le> length acc + length s"
proof (induction s arbitrary: acc)
  case (Cons c s)
  then show ?case using Cons.IH [of "[]"] Cons.IH [of "acc @ [c]"] by (auto simp: case_prod_beta)
qed simp

lemma complete_lines_set: "l \<in> set (complete_lines s) \<Longrightarrow> set l \<subseteq> set s"
proof -
  have "l \<in> set (fst (lines_from acc s)) \<Longrightarrow> set l \<subseteq> set acc \<union> set s" for acc
  proof (induction s arbitrary: acc)
    case (Cons c s)
    then show ?case using Cons.IH [of "[]"] Cons.IH [of "acc @ [c]"] by (auto simp: case_prod_beta split: if_splits)
  qed simp
  from this [of "[]"] show "l \<in> set (complete_lines s) \<Longrightarrow> set l \<subseteq> set s" by (simp add: complete_lines_def)
qed

lemma grep_lines_eq:
  assumes "0 \<notin> set p"
  shows "grep_lines pattern p = (snd (lines_from [] p), selected (match pattern) (complete_lines p))"
  using assms
proof (induction pattern p rule: grep_lines.induct)
  case (1 pattern p)
  have c: "c_str p = p" using 1(2) by (auto simp: c_str_def takeWhile_eq_all_conv)
  show ?case
  proof (cases "strchr p 10")
    case None
    then have "10 \<notin> set p" by (auto simp: strchr_def c find_idx_None)
    then show ?thesis using None
      by (simp add: grep_lines.simps [of pattern p] lines_from_none complete_lines_def selected_def)
  next
    case (Some q)
    then have q: "q < length p" "p ! q = 10" "\<forall>j<q. p ! j \<noteq> 10"
      by (auto simp: strchr_def c find_idx_Some)
    have "10 \<notin> set (take q p)" using q by (auto simp: in_set_conv_nth)
    moreover have p: "p = take q p @ 10 # drop (Suc q) p" using q id_take_nth_drop [of q p] by simp
    ultimately have l: "lines_from [] p = (let (ls, r) = lines_from [] (drop (Suc q) p) in (take q p # ls, r))"
      by (metis lines_from_one append_Nil)
    have "0 \<notin> set (drop (Suc q) p)" using 1(2) by (auto dest: in_set_dropD)
    moreover have "take (Suc q) p = take q p @ [10]" using q by (simp add: take_Suc_conv_app_nth)
    ultimately show ?thesis using 1(1) [OF Some] Some l
      by (simp add: grep_lines.simps [of pattern p] complete_lines_def selected_def case_prod_beta Let_def)
  qed
qed

text \<open>A file is one piece; a writer that ends each piece with a newline is a terminal or a program
  that writes lines.\<close>

fun line_pieces :: "byte list list \<Rightarrow> bool" where
  "line_pieces [] = True"
| "line_pieces [x] = (x \<noteq> [])"
| "line_pieces (x # y # xs) = (x \<noteq> [] \<and> last x = 10 \<and> line_pieces (y # xs))"

lemma line_pieces_Cons: "line_pieces (x # xs) \<longleftrightarrow> x \<noteq> [] \<and> (xs \<noteq> [] \<longrightarrow> last x = 10) \<and> line_pieces xs"
  by (cases xs) auto

lemma line_pieces_drop:
  "line_pieces (x # xs) \<Longrightarrow> n < length x \<Longrightarrow> line_pieces (drop n x # xs)"
  by (auto simp: line_pieces_Cons last_drop)

lemma no_complete_line: "complete_lines s = [] \<longleftrightarrow> 10 \<notin> set s"
proof
  assume "complete_lines s = []"
  then show "10 \<notin> set s"
  proof (rule contrapos_pp)
    assume "\<not> 10 \<notin> set s"
    then obtain l r where "s = l @ 10 # r" "10 \<notin> set l" by (metis split_list_first)
    then show "complete_lines s \<noteq> []"
      using lines_from_one [of l "[]" r] by (simp add: complete_lines_def case_prod_beta Let_def)
  qed
qed (simp add: complete_lines_def lines_from_none)

lemma complete_lines_append:
  "complete_lines (x @ y) = complete_lines x @ complete_lines (snd (lines_from [] x) @ y)"
  using lines_from_append [of "[]" x y] lines_from_acc [OF lines_from_rest, of "[]" x y]
  by (simp add: complete_lines_def case_prod_beta Let_def)

text \<open>The rest of a buffer of at most 1023 bytes is shorter than the buffer when it holds a line.\<close>

lemma rest_length:
  "length (snd (lines_from [] s)) \<le> length s" "10 \<in> set s \<Longrightarrow> length (snd (lines_from [] s)) < length s"
proof -
  show "length (snd (lines_from [] s)) \<le> length s" using lines_from_length [of "[]" s] by simp
  assume "10 \<in> set s"
  then obtain l r where "s = l @ 10 # r" "10 \<notin> set l" by (metis split_list_first)
  then show "length (snd (lines_from [] s)) < length s"
    using lines_from_one [of l "[]" r] lines_from_length [of "[]" r] by (simp add: case_prod_beta Let_def)
qed

lemma lines_from_set: "set (snd (lines_from acc s)) \<subseteq> set acc \<union> set s"
proof (induction s arbitrary: acc)
  case (Cons c s)
  then show ?case using Cons.IH [of "[]"] Cons.IH [of "acc @ [c]"] by (auto simp: case_prod_beta)
qed simp

lemma long_line:
  assumes "10 \<notin> set b" "10 \<in> set s"
  shows "\<exists>l \<in> set (complete_lines (b @ s)). length b \<le> length l"
proof -
  obtain l r where s: "s = l @ 10 # r" "10 \<notin> set l" using assms(2) by (metis split_list_first)
  then have "lines_from [] ((b @ l) @ 10 # r) = (let (ls, r) = lines_from [] r in (([] @ b @ l) # ls, r))"
    using assms(1) by (subst lines_from_one) auto
  then have "b @ l \<in> set (complete_lines (b @ s))" by (simp add: s complete_lines_def case_prod_beta Let_def)
  then show ?thesis by (metis length_append le_add1)
qed

text \<open>Dropping a full buffer without a newline, or the last one, loses no line.\<close>

lemma dropped_rest:
  assumes "10 \<notin> set b" "ps = [] \<or> length b = 1023" "\<forall>l \<in> set (complete_lines (b @ concat ps)). length l < 1023"
  shows "complete_lines (b @ concat ps) = complete_lines (concat ps)"
proof (cases "10 \<in> set (concat ps)")
  case True
  then show ?thesis using long_line [OF assms(1) True] assms(2,3) by (auto simp: not_less [symmetric])
next
  case False
  then show ?thesis using assms(1) no_complete_line [of "b @ concat ps"] no_complete_line [of "concat ps"] by simp
qed

lemma grep_loop_lines:
  assumes "0 \<notin> set held" "0 \<notin> set (concat pieces)" "10 \<notin> set held" "length held < 1023" "line_pieces pieces"
    "\<forall>l \<in> set (complete_lines (held @ concat pieces)). length l < 1023"
  shows "grep_loop pattern held pieces = selected (match pattern) (complete_lines (held @ concat pieces))"
  using assms
proof (induction pattern held pieces rule: grep_loop.induct)
  case (1 pattern held pieces)
  let ?n = "1023 - length held"
  show ?case
  proof (cases pieces)
    case Nil
    then show ?thesis using no_complete_line [of held] "1.prems"(3)
      by (simp add: grep_loop.simps [of pattern held] selected_def)
  next
    case (Cons x xs)
    define c ps where "c = take ?n x" and "ps = (if length x \<le> ?n then xs else drop ?n x # xs)"
    let ?buf = "held @ c" and ?r = "snd (lines_from [] (held @ c))"
    let ?held = "if length ?r = length ?buf then [] else ?r"
    have x: "x \<noteq> []" using "1.prems"(5) Cons by (simp add: line_pieces_Cons)
    have rd: "read_piece (1024 - length held - 1) pieces = (c, ps)" "c \<noteq> []"
      using x "1.prems"(4) Cons by (auto simp: c_def ps_def)
    have cat: "c @ concat ps = concat pieces" using Cons by (simp add: c_def ps_def)
    have z: "0 \<notin> set ?buf" "0 \<notin> set (concat ps)"
      using "1.prems"(1,2) by (auto simp: cat [symmetric])
    have l: "grep_lines pattern ?buf = (?r, selected (match pattern) (complete_lines ?buf))"
      by (rule grep_lines_eq [OF z(1)])
    have len: "length ?buf \<le> 1023" using "1.prems"(4) by (simp add: c_def)
    have step: "grep_loop pattern held pieces = selected (match pattern) (complete_lines ?buf) @ grep_loop pattern ?held ps"
      using rd l by (simp add: grep_loop.simps [of pattern held] Let_def)
    have ps: "line_pieces ps"
      using "1.prems"(5) Cons line_pieces_drop [of x xs ?n] by (simp add: ps_def line_pieces_Cons)
    have all: "complete_lines (held @ concat pieces) = complete_lines ?buf @ complete_lines (?r @ concat ps)"
      using complete_lines_append [of ?buf "concat ps"] cat by simp
    have rest: "complete_lines (?held @ concat ps) = complete_lines (?r @ concat ps)"
    proof (cases "length ?r = length ?buf")
      case True
      then have n: "10 \<notin> set ?buf" using rest_length(2) [of ?buf] by auto
      then have r: "?r = ?buf" "complete_lines ?buf = []" by (simp_all add: lines_from_none no_complete_line)
      have "ps = [] \<or> length ?buf = 1023"
      proof (cases "length x \<le> ?n")
        case True
        then have "c = x" by (simp add: c_def)
        then have "last x \<noteq> 10" using last_in_set [OF x] n by auto
        then show ?thesis using "1.prems"(5) Cons True by (auto simp: line_pieces_Cons ps_def)
      qed (use "1.prems"(4) in \<open>simp add: c_def\<close>)
      then have "complete_lines (?buf @ concat ps) = complete_lines (concat ps)"
        using dropped_rest [OF n, of ps] "1.prems"(6) unfolding all r by simp
      then show ?thesis using True r(1) by simp
    qed simp
    have h: "0 \<notin> set ?held" "10 \<notin> set ?held" "length ?held < 1023"
      using lines_from_rest [of "[]" ?buf] lines_from_set [of "[]" ?buf] z(1) rest_length(1) [of ?buf] len by auto
    have lim: "\<forall>l \<in> set (complete_lines (?held @ concat ps)). length l < 1023"
      using "1.prems"(6) unfolding all rest by auto
    have "grep_loop pattern ?held ps = selected (match pattern) (complete_lines (?held @ concat ps))"
      by (rule "1.IH" [OF rd(1) [symmetric] refl rd(2) refl l [symmetric] refl refl])
        (fact h(1) z(2) h(2,3) ps lim)+
    then show ?thesis unfolding step all rest by (simp add: selected_def)
  qed
qed

text \<open>Grep prints exactly the complete lines its pattern matches, in order: for an input without
  zero bytes whose complete lines have less than 1023 bytes, read from a file or from a writer that writes whole lines, whatever
  the sizes of the pieces.\<close>

theorem grep_prints_matches:
  assumes "0 \<notin> set pattern" "0 \<notin> set (concat pieces)" "line_pieces pieces"
    "\<forall>l \<in> set (complete_lines (concat pieces)). length l < 1023"
  shows "grep pattern pieces = selected (regex_matches pattern) (complete_lines (concat pieces))"
proof -
  have "filter (match pattern) (complete_lines (concat pieces)) = filter (regex_matches pattern) (complete_lines (concat pieces))"
    using match_regex [OF assms(1)] complete_lines_set [of _ "concat pieces"] assms(2) by (intro filter_cong) auto
  then show ?thesis
    using grep_loop_lines [of "[]" pieces pattern] assms by (simp add: grep_def selected_def)
qed

theorem grep_prints_matches_witness:
  "grep [98, 36] [[97, 98, 10], [98, 97, 10]] = selected (regex_matches [98, 36]) [[97, 98], [98, 97]]"
proof -
  have "complete_lines (concat [[97, 98, 10], [98, 97, 10]]) = [[97, 98], [98, 97]]" by (simp add: complete_lines_def)
  then show ?thesis using grep_prints_matches [of "[98, 36]" "[[97, 98, 10], [98, 97, 10]]"] by simp
qed

text \<open>A line that arrives in two pieces is lost in part: when a read brings no newline after
  a finished line, the bytes it brought are dropped, and the rest of the line is matched and printed as if it were a
  line.\<close>

theorem grep_drops_split_line:
  assumes "x \<noteq> []" "length x < 1023" "length y < 1023" "set x \<inter> {0, 10} = {}" "set y \<inter> {0, 10} = {}"
  shows "grep pattern [x, y @ [10]] = (if match pattern y then y @ [10] else []) \<and>
    complete_lines (concat [x, y @ [10]]) = [x @ y]"
proof (intro conjI)
  have l: "complete_lines (u @ [10]) = [u]" if "10 \<notin> set u" for u
    using lines_from_one [OF that, of "[]" "[]"] by (simp add: complete_lines_def)
  have "complete_lines x = []" using assms(4) by (simp add: no_complete_line)
  then have "grep_lines pattern x = (x, [])"
    using assms(4) grep_lines_eq [of x pattern] by (simp add: lines_from_none selected_def)
  then have "grep_loop pattern [] [x, y @ [10]] = grep_loop pattern [] [y @ [10]]"
    using assms(1,2) by (simp add: grep_loop.simps [of pattern "[]" "[x, y @ [10]]"])
  also have "\<dots> = selected (match pattern) (complete_lines ([] @ concat [y @ [10]]))"
    by (rule grep_loop_lines) (use assms l [of y] in auto)
  finally show "grep pattern [x, y @ [10]] = (if match pattern y then y @ [10] else [])"
    using assms(5) l [of y] by (simp add: grep_def selected_def)
  show "complete_lines (concat [x, y @ [10]]) = [x @ y]"
    using l [of "x @ y"] assms(4,5) by simp
qed

theorem grep_drops_split_line_witness:
  "grep [98] [[97, 98], [99, 10]] = [] \<and> complete_lines (concat [[97, 98], [99, 10]]) = [[97, 98, 99]]"
proof -
  have "\<not> match [98] [99]" by code_simp
  then show ?thesis using grep_drops_split_line [of "[97, 98]" "[99]" "[98]"] by simp
qed

end
