(* ===== verification/Spinlock.thy ===== *)
theory Spinlock
  imports Kernel_Prelude
begin

text \<open>
  Spin locks, spinlock.c of Project02-Thread (the three copies differ in comments): the operations on the
  state of one processor, \<open>acquire\<close> and \<open>release\<close> cut at the instructions other processors can see between, and all
  interleavings of any number of processors on any number of locks. The atomic steps between an
  \<open>acquire\<close> and its \<open>release\<close> that the other theories use rest on this.
\<close>

section \<open>The processor and the lock\<close>

record cpu =
  ncli :: int
  intena :: bool
  if_flag :: bool

record spinlock =
  locked :: bool
  lk_cpu :: "nat option"

definition initlock :: spinlock where
  "initlock = \<lparr>locked = False, lk_cpu = None\<rparr>"

definition pushcli :: "cpu \<Rightarrow> cpu" where
  "pushcli c = c\<lparr>if_flag := False, intena := (if ncli c = 0 then if_flag c else intena c), ncli := ncli c + 1\<rparr>"

definition popcli :: "cpu \<Rightarrow> cpu res" where
  "popcli c = guardR (\<not> if_flag c) (Panic ''popcli - interruptible'')
     (let c = c\<lparr>ncli := ncli c - 1\<rparr> in
      guardR (\<not> ncli c < 0) (Panic ''popcli'')
        (Inr (if ncli c = 0 \<and> intena c then c\<lparr>if_flag := True\<rparr> else c)))"

text \<open>\<open>holding\<close> reads the lock between a \<open>pushcli\<close> and a \<open>popcli\<close>.\<close>

definition holding :: "nat \<Rightarrow> spinlock \<Rightarrow> cpu \<Rightarrow> (bool \<times> cpu) res" where
  "holding i lk c = bindR (popcli (pushcli c)) (\<lambda>c. Inr (locked lk \<and> lk_cpu lk = Some i, c))"

text \<open>The parts of \<open>acquire\<close>: up to the test, one round of the \<open>xchg\<close> loop, and the note of the processor.\<close>

definition acquire_begin :: "nat \<Rightarrow> spinlock \<Rightarrow> cpu \<Rightarrow> cpu res" where
  "acquire_begin i lk c =
     bindR (holding i lk (pushcli c)) (\<lambda>(h, c). guardR (\<not> h) (Panic ''acquire'') (Inr c))"

definition acquire_xchg :: "spinlock \<Rightarrow> bool \<times> spinlock" where
  "acquire_xchg lk = (\<not> locked lk, lk\<lparr>locked := True\<rparr>)"

definition acquire_note :: "nat \<Rightarrow> spinlock \<Rightarrow> spinlock" where
  "acquire_note i lk = lk\<lparr>lk_cpu := Some i\<rparr>"

text \<open>The parts of \<open>release\<close>: the test and the clearing of the note, the store that frees the lock, and \<open>popcli\<close>.\<close>

definition release_begin :: "nat \<Rightarrow> spinlock \<Rightarrow> cpu \<Rightarrow> (spinlock \<times> cpu) res" where
  "release_begin i lk c =
     bindR (holding i lk c) (\<lambda>(h, c). guardR h (Panic ''release'') (Inr (lk\<lparr>lk_cpu := None\<rparr>, c)))"

definition release_store :: "spinlock \<Rightarrow> spinlock" where
  "release_store lk = lk\<lparr>locked := False\<rparr>"

section \<open>Processors and locks together\<close>

text \<open>Where a processor is: outside the two functions, in the loop of \<open>acquire\<close>, between the exchange and
  the note, between the note and the store of \<open>release\<close>, or before its \<open>popcli\<close>. The list \<open>held\<close> of the locks
  a processor has is not part of the code.\<close>

datatype phase = Outside | Spinning nat | Taken nat | Leaving nat | Left

record smp =
  cpus :: "nat \<Rightarrow> cpu"
  locks :: "nat \<Rightarrow> spinlock"
  phase :: "nat \<Rightarrow> phase"
  held :: "nat \<Rightarrow> nat list"

definition boot_smp :: smp where
  "boot_smp = \<lparr>cpus = (\<lambda>_. \<lparr>ncli = 0, intena = False, if_flag = False\<rparr>), locks = (\<lambda>_. initlock),
     phase = (\<lambda>_. Outside), held = (\<lambda>_. [])\<rparr>"

text \<open>The steps. A processor that holds no lock may change its interrupt flag, as \<open>sti\<close> in the scheduler
  and the return to a user program do. It releases locks it holds, in any order, and takes locks it does not
  hold.\<close>

inductive smp_step :: "smp \<Rightarrow> smp \<Rightarrow> bool" where
  begin_acquire: "\<lbrakk>phase s i = Outside; l \<notin> set (held s i); acquire_begin i (locks s l) (cpus s i) = Inr c\<rbrakk> \<Longrightarrow>
    smp_step s (s\<lparr>cpus := (cpus s)(i := c), phase := (phase s)(i := Spinning l)\<rparr>)"
| xchg: "\<lbrakk>phase s i = Spinning l; acquire_xchg (locks s l) = (got, lk)\<rbrakk> \<Longrightarrow>
    smp_step s (s\<lparr>locks := (locks s)(l := lk), phase := (phase s)(i := if got then Taken l else Spinning l)\<rparr>)"
| note_cpu: "phase s i = Taken l \<Longrightarrow>
    smp_step s (s\<lparr>locks := (locks s)(l := acquire_note i (locks s l)), phase := (phase s)(i := Outside),
      held := (held s)(i := l # held s i)\<rparr>)"
| begin_release: "\<lbrakk>phase s i = Outside; l \<in> set (held s i); release_begin i (locks s l) (cpus s i) = Inr (lk, c)\<rbrakk> \<Longrightarrow>
    smp_step s (s\<lparr>cpus := (cpus s)(i := c), locks := (locks s)(l := lk), phase := (phase s)(i := Leaving l),
      held := (held s)(i := remove1 l (held s i))\<rparr>)"
| store: "phase s i = Leaving l \<Longrightarrow>
    smp_step s (s\<lparr>locks := (locks s)(l := release_store (locks s l)), phase := (phase s)(i := Left)\<rparr>)"
| finish_release: "\<lbrakk>phase s i = Left; popcli (cpus s i) = Inr c\<rbrakk> \<Longrightarrow>
    smp_step s (s\<lparr>cpus := (cpus s)(i := c), phase := (phase s)(i := Outside)\<rparr>)"
| set_if: "\<lbrakk>phase s i = Outside; held s i = []\<rbrakk> \<Longrightarrow>
    smp_step s (s\<lparr>cpus := (cpus s)(i := (cpus s i)\<lparr>if_flag := b\<rparr>)\<rparr>)"

inductive_cases smp_stepE: "smp_step s t"

text \<open>The lock a processor is in the middle of, and those it keeps others from.\<close>

definition inside :: "phase \<Rightarrow> nat list" where
  "inside p = (case p of Taken l \<Rightarrow> [l] | Leaving l \<Rightarrow> [l] | _ \<Rightarrow> [])"

definition owns :: "smp \<Rightarrow> nat \<Rightarrow> nat list" where
  "owns s i = inside (phase s i) @ held s i"

definition depth :: "phase \<Rightarrow> nat" where
  "depth p = (if p = Outside then 0 else 1)"

definition cpu_ok :: "smp \<Rightarrow> nat \<Rightarrow> bool" where
  "cpu_ok s i \<longleftrightarrow> ncli (cpus s i) = int (length (held s i) + depth (phase s i)) \<and>
     (0 < ncli (cpus s i) \<longrightarrow> \<not> if_flag (cpus s i)) \<and> distinct (owns s i)"

definition lock_ok :: "smp \<Rightarrow> nat \<Rightarrow> bool" where
  "lock_ok s l \<longleftrightarrow> (locked (locks s l) \<longleftrightarrow> (\<exists>i. l \<in> set (owns s i))) \<and>
     (\<forall>i. lk_cpu (locks s l) = Some i \<longleftrightarrow> l \<in> set (held s i)) \<and>
     (\<forall>i j. l \<in> set (owns s i) \<longrightarrow> l \<in> set (owns s j) \<longrightarrow> i = j)"

definition smp_ok :: "smp \<Rightarrow> bool" where
  "smp_ok s \<longleftrightarrow> (\<forall>i. cpu_ok s i) \<and> (\<forall>l. lock_ok s l)"

lemma boot_smp_ok: "smp_ok boot_smp"
  by (simp add: smp_ok_def cpu_ok_def lock_ok_def boot_smp_def owns_def inside_def depth_def initlock_def)

lemma push_pop:
  assumes "0 < ncli c \<longrightarrow> \<not> if_flag c" "0 \<le> ncli c"
  obtains c' where "popcli (pushcli c) = Inr c'" "ncli c' = ncli c" "if_flag c' = if_flag c"
    "0 < ncli c \<Longrightarrow> intena c' = intena c"
  using assms by (auto simp: popcli_def pushcli_def Let_def)

text \<open>A step of processor \<open>i\<close> on lock \<open>l\<close>.\<close>

lemma smp_ok_frame:
  assumes "smp_ok s" "\<And>j. j \<noteq> i \<Longrightarrow> cpus t j = cpus s j \<and> phase t j = phase s j \<and> held t j = held s j"
    "\<And>k. k \<noteq> l \<Longrightarrow> locks t k = locks s k \<and> (k \<in> set (owns t i) \<longleftrightarrow> k \<in> set (owns s i)) \<and>
       (k \<in> set (held t i) \<longleftrightarrow> k \<in> set (held s i))"
    "cpu_ok t i" "lock_ok t l"
  shows "smp_ok t"
  unfolding smp_ok_def
proof (intro conjI allI)
  have o': "owns t j = owns s j" if "j \<noteq> i" for j using assms(2) [OF that] by (simp add: owns_def)
  fix j
  show "cpu_ok t j"
  proof (cases "j = i")
    case False
    then show ?thesis using assms(1) assms(2) [OF False] o' [OF False] by (auto simp: smp_ok_def cpu_ok_def)
  qed (use assms(4) in simp)
  fix k
  show "lock_ok t k"
  proof (cases "k = l")
    case False
    have own: "k \<in> set (owns t j) \<longleftrightarrow> k \<in> set (owns s j)" for j using assms(3) [OF False] o' by (cases "j = i") auto
    have held: "k \<in> set (held t j) \<longleftrightarrow> k \<in> set (held s j)" for j
      using assms(2,3) [of j] assms(3) [OF False] by (cases "j = i") auto
    show ?thesis using assms(1) assms(3) [OF False] own held by (simp add: smp_ok_def lock_ok_def)
  qed (use assms(5) in simp)
qed

text \<open>The lock after a step of \<open>i\<close> that has it or takes it: nobody else has it.\<close>

lemma lock_okI:
  assumes "\<And>j. j \<noteq> i \<Longrightarrow> l \<notin> set (owns t j)" "locked (locks t l) \<longleftrightarrow> l \<in> set (owns t i)"
    "lk_cpu (locks t l) = (if l \<in> set (held t i) then Some i else None)"
  shows "lock_ok t l"
  unfolding lock_ok_def
proof (intro conjI allI impI)
  show "locked (locks t l) \<longleftrightarrow> (\<exists>j. l \<in> set (owns t j))" using assms(1,2) by metis
  have "l \<notin> set (held t j)" if "j \<noteq> i" for j using assms(1) [OF that] by (simp add: owns_def)
  then show "lk_cpu (locks t l) = Some j \<longleftrightarrow> l \<in> set (held t j)" for j
    by (cases "j = i") (simp_all add: assms(3))
  show "j = k" if "l \<in> set (owns t j)" "l \<in> set (owns t k)" for j k using assms(1) that by metis
qed

lemma owns_unique: "smp_ok s \<Longrightarrow> l \<in> set (owns s i) \<Longrightarrow> l \<in> set (owns s j) \<Longrightarrow> i = j"
  unfolding smp_ok_def lock_ok_def by blast

lemma locked_iff: "smp_ok s \<Longrightarrow> locked (locks s l) \<longleftrightarrow> (\<exists>i. l \<in> set (owns s i))"
  unfolding smp_ok_def lock_ok_def by blast

lemma noted_iff: "smp_ok s \<Longrightarrow> lk_cpu (locks s l) = Some i \<longleftrightarrow> l \<in> set (held s i)"
  unfolding smp_ok_def lock_ok_def by blast

lemma cpu_okD: "smp_ok s \<Longrightarrow> cpu_ok s i"
  unfolding smp_ok_def by blast

text \<open>\<open>holding\<close> is exact although it reads the lock without holding it, and the bookkeeping of \<open>pushcli\<close> and
  \<open>popcli\<close> never panics.\<close>

lemma holding_exact:
  assumes "smp_ok s" "phase s i = Outside"
  obtains c where "holding i (locks s l) (cpus s i) = Inr (l \<in> set (held s i), c)" "ncli c = ncli (cpus s i)"
    "if_flag c = if_flag (cpus s i)" "0 < ncli (cpus s i) \<Longrightarrow> intena c = intena (cpus s i)"
proof -
  have c: "0 < ncli (cpus s i) \<longrightarrow> \<not> if_flag (cpus s i)" "0 \<le> ncli (cpus s i)"
    using cpu_okD [OF assms(1), of i] by (simp_all add: cpu_ok_def)
  obtain c' where p: "popcli (pushcli (cpus s i)) = Inr c'" "ncli c' = ncli (cpus s i)"
    "if_flag c' = if_flag (cpus s i)" "0 < ncli (cpus s i) \<Longrightarrow> intena c' = intena (cpus s i)"
    by (rule push_pop [OF c]) blast
  have "locked (locks s l) \<and> lk_cpu (locks s l) = Some i \<longleftrightarrow> l \<in> set (held s i)"
    using noted_iff [OF assms(1)] locked_iff [OF assms(1)] by (auto simp: owns_def)
  then show thesis using p that by (simp add: holding_def)
qed

lemma noted_none: "smp_ok s \<Longrightarrow> (\<And>i. l \<notin> set (held s i)) \<Longrightarrow> lk_cpu (locks s l) = None"
  using noted_iff [of s l] by (cases "lk_cpu (locks s l)") auto

lemmas step_simps = cpu_ok_def owns_def inside_def depth_def

lemma step_ok:
  assumes "smp_ok s" "smp_step s t"
  shows "smp_ok t"
  using assms(2)
proof cases
  case (begin_acquire i l c)
  let ?p = "pushcli (cpus s i)"
  have k: "cpu_ok s i" by (rule cpu_okD [OF assms(1)])
  have n: "0 < ncli ?p \<longrightarrow> \<not> if_flag ?p" "0 \<le> ncli ?p" "ncli ?p = ncli (cpus s i) + 1"
    using k by (simp_all add: pushcli_def cpu_ok_def)
  obtain c' where "popcli (pushcli ?p) = Inr c'" "ncli c' = ncli ?p" "if_flag c' = if_flag ?p"
    by (rule push_pop [OF n(1,2)]) blast
  then have c: "ncli c = ncli (cpus s i) + 1" "\<not> if_flag c"
    using begin_acquire(4) n(3) by (auto simp: acquire_begin_def holding_def bindR_eq_Inr guardR_eq_Inr pushcli_def)
  have o': "owns t j = owns s j" "held t j = held s j" for j
    using begin_acquire by (auto simp: owns_def inside_def)
  have "lock_ok t l" using assms(1) o' begin_acquire(1) by (simp add: smp_ok_def lock_ok_def)
  then show ?thesis
    by (rule smp_ok_frame [OF assms(1), where i = i and l = l, rotated -1])
      (use begin_acquire(1,2) c k o' in \<open>auto simp: step_simps\<close>)
next
  case (xchg i l got lk)
  have k: "cpu_ok s i" by (rule cpu_okD [OF assms(1)])
  show ?thesis
  proof (cases "locked (locks s l)")
    case True
    then have "lk = locks s l" "\<not> got" using xchg(3) by (auto simp: acquire_xchg_def)
    then have "t = s" using xchg by (simp add: fun_upd_idem)
    then show ?thesis using assms(1) by simp
  next
    case False
    then have lk: "lk = (locks s l)\<lparr>locked := True\<rparr>" "got" using xchg(3) by (auto simp: acquire_xchg_def)
    have free: "l \<notin> set (owns s j)" "l \<notin> set (held s j)" for j
      using locked_iff [OF assms(1), of l] False by (auto simp: owns_def)
    have "lock_ok t l"
      by (rule lock_okI [of i])
        (use xchg(1,2) lk free noted_none [OF assms(1) free(2)] in \<open>auto simp: owns_def inside_def\<close>)
    then show ?thesis
      by (rule smp_ok_frame [OF assms(1), where i = i and l = l, rotated -1])
        (use xchg(1,2) lk free k in \<open>auto simp: step_simps\<close>)
  qed
next
  case (note_cpu i l)
  have k: "cpu_ok s i" by (rule cpu_okD [OF assms(1)])
  have o': "l \<in> set (owns s i)" using note_cpu by (simp add: owns_def inside_def)
  then have free: "l \<notin> set (owns s j)" if "j \<noteq> i" for j
    using owns_unique [OF assms(1), of l i j] that by auto
  have "locked (locks s l)" using locked_iff [OF assms(1)] o' by blast
  then have "lock_ok t l"
    by (intro lock_okI [of i]) (use note_cpu free o' in \<open>auto simp: owns_def inside_def acquire_note_def\<close>)
  then show ?thesis
    by (rule smp_ok_frame [OF assms(1), where i = i and l = l, rotated -1])
      (use note_cpu k in \<open>auto simp: step_simps\<close>)
next
  case (begin_release i l lk c)
  have k: "cpu_ok s i" by (rule cpu_okD [OF assms(1)])
  obtain c' where "holding i (locks s l) (cpus s i) = Inr (l \<in> set (held s i), c')" "ncli c' = ncli (cpus s i)"
    "if_flag c' = if_flag (cpus s i)"
    by (rule holding_exact [OF assms(1) begin_release(2), of l]) blast
  then have c: "ncli c = ncli (cpus s i)" "if_flag c = if_flag (cpus s i)" "lk = (locks s l)\<lparr>lk_cpu := None\<rparr>"
    using begin_release(3,4) by (auto simp: release_begin_def guardR_eq_Inr)
  have o': "l \<in> set (owns s i)" "distinct (held s i)" using begin_release k by (simp_all add: owns_def cpu_ok_def)
  then have free: "l \<notin> set (owns s j)" if "j \<noteq> i" for j
    using owns_unique [OF assms(1), of l i j] that by auto
  have len: "length (held s i) = Suc (length (remove1 l (held s i)))"
    using begin_release(3) by (simp add: length_remove1) (metis Suc_pred length_pos_if_in_set)
  have "locked (locks s l)" using locked_iff [OF assms(1)] o'(1) by blast
  then have "lock_ok t l"
    by (intro lock_okI [of i]) (use begin_release(1) c(3) free o' in \<open>auto simp: owns_def inside_def\<close>)
  then show ?thesis
    by (rule smp_ok_frame [OF assms(1), where i = i and l = l, rotated -1])
      (use begin_release(1,2) c k o' len in \<open>auto simp: step_simps\<close>)
next
  case (store i l)
  have k: "cpu_ok s i" by (rule cpu_okD [OF assms(1)])
  have o': "l \<in> set (owns s i)" "l \<notin> set (held s i)" using store k by (auto simp: step_simps)
  then have free: "l \<notin> set (owns s j)" "l \<notin> set (held s j)" if "j \<noteq> i" for j
    using owns_unique [OF assms(1), of l i j] that by (auto simp: owns_def)
  have "lk_cpu (locks s l) = None" by (rule noted_none [OF assms(1)]) (metis o'(2) free(2))
  then have "lock_ok t l"
    by (intro lock_okI [of i]) (use store free o' in \<open>auto simp: owns_def inside_def release_store_def\<close>)
  then show ?thesis
    by (rule smp_ok_frame [OF assms(1), where i = i and l = l, rotated -1])
      (use store k in \<open>auto simp: step_simps\<close>)
next
  case (finish_release i c)
  have k: "cpu_ok s i" by (rule cpu_okD [OF assms(1)])
  have c: "ncli c = ncli (cpus s i) - 1" "0 < ncli c \<longrightarrow> \<not> if_flag c"
    using finish_release(3) by (auto simp: popcli_def guardR_eq_Inr Let_def split: if_splits)
  have o': "owns t j = owns s j" "held t j = held s j" "locks t = locks s" for j
    using finish_release(1,2) by (auto simp: owns_def inside_def)
  have "lock_ok t 0" using assms(1) o' by (simp add: smp_ok_def lock_ok_def)
  then show ?thesis
    by (rule smp_ok_frame [OF assms(1), where i = i and l = 0, rotated -1])
      (use finish_release(1,2) c k o' in \<open>auto simp: step_simps\<close>)
next
  case (set_if i b)
  have k: "cpu_ok s i" by (rule cpu_okD [OF assms(1)])
  have o': "owns t j = owns s j" "held t j = held s j" "locks t = locks s" for j
    using set_if(1) by (auto simp: owns_def inside_def)
  have "lock_ok t 0" using assms(1) o' by (simp add: smp_ok_def lock_ok_def)
  then show ?thesis
    by (rule smp_ok_frame [OF assms(1), where i = i and l = 0, rotated -1])
      (use set_if k o' in \<open>auto simp: step_simps\<close>)
qed

inductive reachable :: "smp \<Rightarrow> bool" where
  boot: "reachable boot_smp"
| step: "reachable s \<Longrightarrow> smp_step s t \<Longrightarrow> reachable t"

lemma reachable_ok: "reachable s \<Longrightarrow> smp_ok s"
  by (induction rule: reachable.induct) (simp_all add: boot_smp_ok step_ok)

text \<open>C20: mutual exclusion: in every interleaving of any number of processors taking and releasing locks, no lock is
  between the exchange of its \<open>acquire\<close> and the store of its \<open>release\<close> on two processors, and a processor that
  has a lock takes no interrupt.\<close>

theorem spinlock_mutex:
  assumes "reachable s"
  shows "(\<forall>i j l. l \<in> set (owns s i) \<and> l \<in> set (owns s j) \<longrightarrow> i = j) \<and> (\<forall>i. owns s i \<noteq> [] \<longrightarrow> \<not> if_flag (cpus s i))"
proof (intro conjI allI impI)
  note ok = reachable_ok [OF assms]
  show "i = j" if "l \<in> set (owns s i) \<and> l \<in> set (owns s j)" for i j l using owns_unique [OF ok] that by blast
  fix i
  assume "owns s i \<noteq> []"
  then have "0 < length (held s i) + depth (phase s i)"
    by (cases "held s i") (auto simp: owns_def inside_def depth_def)
  then have "0 < ncli (cpus s i)" using cpu_okD [OF ok, of i] unfolding cpu_ok_def by linarith
  then show "\<not> if_flag (cpus s i)" using cpu_okD [OF ok, of i] by (simp add: cpu_ok_def)
qed

text \<open>Processor 1 takes lock 0 after boot.\<close>

lemma one_holder: "\<exists>s. reachable s \<and> phase s 1 = Outside \<and> held s 1 = [0]"
proof -
  let ?c = "\<lparr>ncli = 1, intena = False, if_flag = False\<rparr>"
  let ?s1 = "boot_smp\<lparr>cpus := (cpus boot_smp)(1 := ?c), phase := (phase boot_smp)(1 := Spinning 0)\<rparr>"
  have "smp_step boot_smp ?s1"
    by (rule begin_acquire) (simp_all add: boot_smp_def acquire_begin_def holding_def pushcli_def popcli_def initlock_def)
  then have 1: "reachable ?s1" using reachable.intros by blast
  have "smp_step ?s1 (?s1\<lparr>locks := (locks ?s1)(0 := initlock\<lparr>locked := True\<rparr>), phase := (phase ?s1)(1 := if True then Taken 0 else Spinning 0)\<rparr>)"
    by (rule xchg) (simp_all add: boot_smp_def acquire_xchg_def initlock_def)
  from reachable.step [OF 1 this] obtain s2 where 2: "reachable s2" "phase s2 1 = Taken 0" "held s2 1 = []"
    by (auto simp: boot_smp_def)
  from reachable.step [OF 2(1) note_cpu [OF 2(2)]] show ?thesis using 2 by (intro exI conjI) auto
qed

theorem spinlock_mutex_witness:
  "\<exists>s. reachable s \<and> owns s 1 = [0] \<and> \<not> if_flag (cpus s 1) \<and> (\<forall>j. 0 \<in> set (owns s j) \<longrightarrow> j = 1)"
proof -
  obtain s where s: "reachable s" "phase s 1 = Outside" "held s 1 = [0]" using one_holder by blast
  then have "owns s 1 = [0]" by (simp add: owns_def inside_def)
  then show ?thesis using spinlock_mutex [OF s(1)] s(1) by (intro exI [of _ s]) auto
qed

text \<open>C35: the panics of the spin locks are exact: a processor outside the lock functions panics in \<open>acquire\<close>
  exactly when it holds the lock itself and in \<open>release\<close> exactly when it does not, whatever the others do at the
  same time, and the final \<open>popcli\<close> never panics.\<close>

theorem spinlock_panics:
  assumes "reachable s"
  shows "(phase s i = Outside \<longrightarrow>
       (acquire_begin i (locks s l) (cpus s i) = Inl (Panic ''acquire'') \<longleftrightarrow> l \<in> set (held s i)) \<and>
       (release_begin i (locks s l) (cpus s i) = Inl (Panic ''release'') \<longleftrightarrow> l \<notin> set (held s i)) \<and>
       (l \<notin> set (held s i) \<longrightarrow> returns (acquire_begin i (locks s l) (cpus s i))) \<and>
       (l \<in> set (held s i) \<longrightarrow> returns (release_begin i (locks s l) (cpus s i)))) \<and>
     (phase s i = Left \<longrightarrow> returns (popcli (cpus s i)))"
proof (intro conjI impI)
  note ok = reachable_ok [OF assms]
  have k: "cpu_ok s i" by (rule cpu_okD [OF ok])
  let ?p = "pushcli (cpus s i)"
  have n: "0 < ncli ?p \<longrightarrow> \<not> if_flag ?p" "0 \<le> ncli ?p" using k by (simp_all add: pushcli_def cpu_ok_def)
  obtain c where "popcli (pushcli ?p) = Inr c" by (rule push_pop [OF n])
  moreover have "locked (locks s l) \<and> lk_cpu (locks s l) = Some i \<longleftrightarrow> l \<in> set (held s i)"
    using noted_iff [OF ok] locked_iff [OF ok] by (auto simp: owns_def)
  ultimately have a: "acquire_begin i (locks s l) (cpus s i) = (if l \<in> set (held s i) then Inl (Panic ''acquire'') else Inr c)"
    by (auto simp: acquire_begin_def holding_def)
  then show "acquire_begin i (locks s l) (cpus s i) = Inl (Panic ''acquire'') \<longleftrightarrow> l \<in> set (held s i)"
    "l \<notin> set (held s i) \<Longrightarrow> returns (acquire_begin i (locks s l) (cpus s i))" by simp_all
  assume o': "phase s i = Outside"
  obtain c' where "holding i (locks s l) (cpus s i) = Inr (l \<in> set (held s i), c')"
    by (rule holding_exact [OF ok o', of l])
  then show "release_begin i (locks s l) (cpus s i) = Inl (Panic ''release'') \<longleftrightarrow> l \<notin> set (held s i)"
    "l \<in> set (held s i) \<Longrightarrow> returns (release_begin i (locks s l) (cpus s i))"
    by (auto simp: release_begin_def)
next
  assume "phase s i = Left"
  then show "returns (popcli (cpus s i))"
    using cpu_okD [OF reachable_ok [OF assms], of i] by (simp add: cpu_ok_def depth_def popcli_def Let_def)
qed

theorem spinlock_panics_witness:
  "\<exists>s. reachable s \<and> acquire_begin 1 (locks s 0) (cpus s 1) = Inl (Panic ''acquire'') \<and>
     release_begin 1 (locks s 7) (cpus s 1) = Inl (Panic ''release'')"
proof -
  obtain s where s: "reachable s" "phase s 1 = Outside" "held s 1 = [0]" using one_holder by blast
  then show ?thesis
    using spinlock_panics [OF s(1), of 1 0] spinlock_panics [OF s(1), of 1 7] by (intro exI [of _ s]) auto
qed

end

