(* ===== verification/Sleeplock.thy ===== *)
theory Sleeplock
  imports Kernel_Prelude
begin

text \<open>
  Sleep locks, sleeplock.c (the same file in the three projects). Each turn of the loop of \<open>acquiresleep\<close> and
  each \<open>releasesleep\<close> is a critical section of the spin lock inside (theory Spinlock), and \<open>sleep\<close> gives that lock up and marks the
  process sleeping in one step, so the steps are those sections.
\<close>

record sleeplock =
  s_locked :: bool
  s_pid :: nat

definition initsleeplock :: sleeplock where
  "initsleeplock = \<lparr>s_locked = False, s_pid = 0\<rparr>"

text \<open>One turn of the loop: the lock, or the process sleeps.\<close>

definition acquire_turn :: "nat \<Rightarrow> sleeplock \<Rightarrow> sleeplock option" where
  "acquire_turn pid lk = (if s_locked lk then None else Some (lk\<lparr>s_locked := True, s_pid := pid\<rparr>))"

definition releasesleep :: "sleeplock \<Rightarrow> sleeplock" where
  "releasesleep lk = lk\<lparr>s_locked := False, s_pid := 0\<rparr>"

definition holdingsleep :: "nat \<Rightarrow> sleeplock \<Rightarrow> bool" where
  "holdingsleep pid lk \<longleftrightarrow> s_locked lk \<and> s_pid lk = pid"

text \<open>What a process is doing with the lock: nothing, about to look at it, asleep on it, or in possession.\<close>

datatype want = Nothing | Looking | Asleep | Owner

definition wake_all :: "(nat \<Rightarrow> want) \<Rightarrow> nat \<Rightarrow> want" where
  "wake_all w p = (if w p = Asleep then Looking else w p)"

text \<open>A process is its pid, which is positive. It releases a lock it has; a sleeper is also woken by \<open>kill\<close>.\<close>

inductive sl_step :: "sleeplock \<times> (nat \<Rightarrow> want) \<Rightarrow> sleeplock \<times> (nat \<Rightarrow> want) \<Rightarrow> bool" where
  call: "0 < p \<Longrightarrow> w p = Nothing \<Longrightarrow> sl_step (lk, w) (lk, w(p := Looking))"
| get: "w p = Looking \<Longrightarrow> acquire_turn p lk = Some lk' \<Longrightarrow> sl_step (lk, w) (lk', w(p := Owner))"
| sleep: "w p = Looking \<Longrightarrow> acquire_turn p lk = None \<Longrightarrow> sl_step (lk, w) (lk, w(p := Asleep))"
| release: "w p = Owner \<Longrightarrow> sl_step (lk, w) (releasesleep lk, wake_all (w(p := Nothing)))"
| killed: "w p = Asleep \<Longrightarrow> sl_step (lk, w) (lk, w(p := Looking))"

inductive sl_reachable :: "sleeplock \<times> (nat \<Rightarrow> want) \<Rightarrow> bool" where
  init: "sl_reachable (initsleeplock, \<lambda>_. Nothing)"
| step: "sl_reachable s \<Longrightarrow> sl_step s t \<Longrightarrow> sl_reachable t"

definition sl_ok :: "sleeplock \<Rightarrow> (nat \<Rightarrow> want) \<Rightarrow> bool" where
  "sl_ok lk w \<longleftrightarrow> w 0 = Nothing \<and> (\<forall>p. w p = Owner \<longleftrightarrow> holdingsleep p lk) \<and> (s_locked lk \<or> (\<forall>p. w p \<noteq> Asleep))"

lemma sl_step_ok:
  assumes "sl_step (lk, w) (lk', w')" "sl_ok lk w"
  shows "sl_ok lk' w'"
  using assms(1)
proof cases
  case (call p)
  then show ?thesis using assms(2) unfolding sl_ok_def by (metis fun_upd_apply less_irrefl want.distinct(3,5,7,9,11))
next
  case (get p)
  then have "lk' = lk\<lparr>s_locked := True, s_pid := p\<rparr>" "\<not> s_locked lk" by (auto simp: acquire_turn_def split: if_splits)
  moreover have "p \<noteq> 0" using get(2) assms(2) unfolding sl_ok_def by (metis want.distinct(1))
  ultimately show ?thesis using get(1) assms(2) by (simp add: sl_ok_def holdingsleep_def)
next
  case (sleep p)
  then have "s_locked lk" by (simp add: acquire_turn_def split: if_splits)
  moreover have "p \<noteq> 0" using sleep(3) assms(2) unfolding sl_ok_def by (metis want.distinct(1))
  moreover have "\<not> holdingsleep p lk" using sleep(3) assms(2) unfolding sl_ok_def by (metis want.distinct(9))
  ultimately show ?thesis using sleep(1,2) assms(2) by (simp add: sl_ok_def)
next
  case (release p)
  have "w q = Owner \<longleftrightarrow> q = p" for q using release(3) assms(2) by (auto simp: sl_ok_def holdingsleep_def)
  then have "wake_all (w(p := Nothing)) q \<noteq> Owner" "wake_all (w(p := Nothing)) q \<noteq> Asleep" for q
    by (auto simp: wake_all_def)
  moreover have "w 0 = Nothing" using assms(2) by (simp add: sl_ok_def)
  then have "wake_all (w(p := Nothing)) 0 = Nothing" by (simp add: wake_all_def)
  ultimately show ?thesis unfolding release(1,2) by (simp add: sl_ok_def holdingsleep_def releasesleep_def)
next
  case (killed p)
  have "p \<noteq> 0" using killed(3) assms(2) unfolding sl_ok_def by (metis want.distinct(3))
  moreover have "\<not> holdingsleep p lk" using killed(3) assms(2) unfolding sl_ok_def by (metis want.distinct(11))
  ultimately show ?thesis using killed(1,2) assms(2) by (auto simp: sl_ok_def)
qed

lemma sl_reachable_ok: "sl_reachable s \<Longrightarrow> sl_ok (fst s) (snd s)"
proof (induction rule: sl_reachable.induct)
  case init
  then show ?case by (simp add: sl_ok_def holdingsleep_def initsleeplock_def)
next
  case (step s t)
  then show ?case using sl_step_ok [of "fst s" "snd s" "fst t" "snd t"] by simp
qed

text \<open>C33: a sleep lock has at most one owner, \<open>holdingsleep\<close> tells who it is, and no wake-up is lost: while a process
  sleeps on the lock some process owns it, and when nobody owns it every process that wants it can take it at its
  next turn.\<close>

theorem sleeplock_ok:
  assumes "sl_reachable (lk, w)"
  shows "(\<forall>p. w p = Owner \<longleftrightarrow> holdingsleep p lk) \<and> (\<forall>p q. w p = Owner \<longrightarrow> w q = Owner \<longrightarrow> p = q) \<and>
    ((\<exists>p. w p = Asleep) \<longrightarrow> (\<exists>q. w q = Owner)) \<and>
    ((\<forall>q. w q \<noteq> Owner) \<longrightarrow> (\<forall>p. w p = Looking \<longrightarrow> acquire_turn p lk \<noteq> None))"
  using sl_reachable_ok [OF assms] by (auto simp: sl_ok_def holdingsleep_def acquire_turn_def)

theorem sleeplock_ok_witness:
  "\<exists>lk w. sl_reachable (lk, w) \<and> w 1 = Owner \<and> w 2 = Asleep \<and> holdingsleep 1 lk \<and> \<not> holdingsleep 2 lk"
proof -
  let ?w = "\<lambda>_. Nothing" and ?l = "initsleeplock\<lparr>s_locked := True, s_pid := 1\<rparr>"
  have a: "acquire_turn 1 initsleeplock = Some ?l" "acquire_turn 2 ?l = None"
    by (simp_all add: acquire_turn_def initsleeplock_def)
  have "sl_reachable (initsleeplock, ?w(1 := Looking))" by (rule step [OF init call]) simp_all
  then have "sl_reachable (?l, ?w(1 := Looking, 1 := Owner))" by (rule step [OF _ get]) (use a in simp_all)
  then have "sl_reachable (?l, ?w(1 := Looking, 1 := Owner, 2 := Looking))" by (rule step [OF _ call]) simp_all
  then have r: "sl_reachable (?l, ?w(1 := Looking, 1 := Owner, 2 := Looking, 2 := Asleep))"
    by (rule step [OF _ sleep]) (use a in simp_all)
  let ?v = "?w(1 := Looking, 1 := Owner, 2 := Looking, 2 := Asleep)"
  have "?v p = Owner \<longleftrightarrow> holdingsleep p ?l" for p using sleeplock_ok [OF r] by blast
  then have "holdingsleep 1 ?l \<and> \<not> holdingsleep 2 ?l" by (metis fun_upd_apply want.distinct(11) numeral_One one_eq_numeral_iff semiring_norm(85))
  then show ?thesis using r by (intro exI [of _ ?l] exI [of _ ?v]) simp
qed

end
