(* ===== verification/Ide.thy ===== *)
theory Ide
  imports Fs_Bytes
begin

text \<open>
  The disk driver, ide.c of Project03-FileSystem (the same file in the three projects): the queue of
  buffers linked through \<open>qnext\<close>, the command registers, the interrupt handler and \<open>iderw\<close> cut where it
  sleeps. The controller is a parameter: \<open>wr\<close> is the disk after a write command with its data, \<open>rd\<close> the
  sector a read command brings. A command stays in \<open>issued\<close> until its interrupt.
\<close>

abbreviation FSSIZE :: nat where "FSSIZE \<equiv> 2500000"

record dbuf =
  d_valid :: bool
  d_dirty :: bool
  d_dev :: nat
  d_blockno :: nat
  d_locked :: bool
  qnext :: "nat option"
  d_data :: blk

text \<open>What \<open>idestart\<close> writes to the ports \<open>0x1f2\<close> to \<open>0x1f7\<close>, and the data it sends.\<close>

record command =
  nsectors :: nat
  lba0 :: nat
  lba1 :: nat
  lba2 :: nat
  drive :: nat
  code :: nat
  sent :: "blk option"

record 'd ide =
  dbufs :: "nat \<Rightarrow> dbuf"
  idequeue :: "nat option"
  havedisk1 :: bool
  issued :: "command option"
  platter :: 'd

definition upd_d :: "nat \<Rightarrow> (dbuf \<Rightarrow> dbuf) \<Rightarrow> 'd ide \<Rightarrow> 'd ide" where
  "upd_d i f s = s\<lparr>dbufs := (dbufs s)(i := f (dbufs s i))\<rparr>"

definition command_for :: "dbuf \<Rightarrow> command" where
  "command_for b =
     \<lparr>nsectors = 1, lba0 = d_blockno b mod 256, lba1 = d_blockno b div 256 mod 256,
      lba2 = d_blockno b div 65536 mod 256,
      drive = 224 + 16 * (d_dev b mod 2) + d_blockno b div 16777216 mod 16,
      code = (if d_dirty b then 48 else 32), sent = (if d_dirty b then Some (d_data b) else None)\<rparr>"

text \<open>A second command while one is under way would lose the interrupt of the first; it is a \<open>Hang\<close> here, and the
  invariant excludes it.\<close>

definition idestart :: "nat option \<Rightarrow> 'd ide \<Rightarrow> 'd ide res" where
  "idestart b s =
     (case b of
        None \<Rightarrow> Inl (Panic ''idestart'')
      | Some i \<Rightarrow>
          guardR (d_blockno (dbufs s i) < FSSIZE) (Panic ''incorrect blockno'')
         (guardR (issued s = None) (Hang ''idewait'')
            (Inr (s\<lparr>issued := Some (command_for (dbufs s i))\<rparr>))))"

text \<open>The end of the command: a write has reached the disk.\<close>

definition complete :: "(command \<Rightarrow> blk \<Rightarrow> 'd \<Rightarrow> 'd) \<Rightarrow> 'd ide \<Rightarrow> 'd ide" where
  "complete wr s =
     (case issued s of
        None \<Rightarrow> s
      | Some c \<Rightarrow> s\<lparr>issued := None, platter := (case sent c of None \<Rightarrow> platter s | Some x \<Rightarrow> wr c x (platter s))\<rparr>)"

text \<open>\<open>bad\<close> is the error bit \<open>idewait(1)\<close> looks at, \<open>c\<close> the command that has ended. The result is the buffer whose sleepers are woken.\<close>

definition ideintr :: "(command \<Rightarrow> 'd \<Rightarrow> blk) \<Rightarrow> bool \<Rightarrow> command option \<Rightarrow> 'd ide \<Rightarrow> (nat option \<times> 'd ide) res" where
  "ideintr rd bad c s =
     (case idequeue s of
        None \<Rightarrow> Inr (None, s)
      | Some i \<Rightarrow>
          let s1 = s\<lparr>idequeue := qnext (dbufs s i)\<rparr>;
              s2 = (if \<not> d_dirty (dbufs s i) \<and> \<not> bad
                    then (case c of None \<Rightarrow> s1 | Some c \<Rightarrow> upd_d i (\<lambda>b. b\<lparr>d_data := rd c (platter s)\<rparr>) s1)
                    else s1);
              s3 = upd_d i (\<lambda>b. b\<lparr>d_valid := True, d_dirty := False\<rparr>) s2
          in bindR (if idequeue s3 \<noteq> None then idestart (idequeue s3) s3 else Inr s3) (\<lambda>s4. Inr (Some i, s4)))"

definition interrupt :: "(command \<Rightarrow> 'd \<Rightarrow> blk) \<Rightarrow> (command \<Rightarrow> blk \<Rightarrow> 'd \<Rightarrow> 'd) \<Rightarrow> bool \<Rightarrow> 'd ide \<Rightarrow> (nat option \<times> 'd ide) res" where
  "interrupt rd wr bad s = ideintr rd bad (issued s) (complete wr s)"

text \<open>The walk to the end of the queue.\<close>

partial_function (option) last_queued :: "(nat \<Rightarrow> dbuf) \<Rightarrow> nat \<Rightarrow> nat option" where
  "last_queued bs i = (case qnext (bs i) of None \<Rightarrow> Some i | Some j \<Rightarrow> last_queued bs j)"

declare last_queued.simps [code]

text \<open>\<open>iderw\<close> up to its loop; \<open>None\<close> if the walk does not end. The loop returns when the buffer is valid and clean.\<close>

definition iderw_begin :: "nat \<Rightarrow> 'd ide \<Rightarrow> 'd ide res option" where
  "iderw_begin b s =
     (let x = dbufs s b in
      if \<not> d_locked x then Some (Inl (Panic ''iderw: buf not locked''))
      else if d_valid x \<and> \<not> d_dirty x then Some (Inl (Panic ''iderw: nothing to do''))
      else if d_dev x \<noteq> 0 \<and> \<not> havedisk1 s then Some (Inl (Panic ''iderw: ide disk 1 not present''))
      else let s1 = upd_d b (\<lambda>x. x\<lparr>qnext := None\<rparr>) s in
           Option.bind (case idequeue s1 of
               None \<Rightarrow> Some (s1\<lparr>idequeue := Some b\<rparr>)
             | Some i \<Rightarrow> Option.bind (last_queued (dbufs s1) i) (\<lambda>l. Some (upd_d l (\<lambda>x. x\<lparr>qnext := Some b\<rparr>) s1)))
             (\<lambda>s2. Some (if idequeue s2 = Some b then idestart (Some b) s2 else Inr s2)))"

definition iderw_done :: "nat \<Rightarrow> 'd ide \<Rightarrow> bool" where
  "iderw_done b s \<longleftrightarrow> d_valid (dbufs s b) \<and> \<not> d_dirty (dbufs s b)"

section \<open>The queue\<close>

fun chain :: "(nat \<Rightarrow> dbuf) \<Rightarrow> nat option \<Rightarrow> nat list \<Rightarrow> bool" where
  "chain bs p [] = (p = None)"
| "chain bs p (i # q) = (p = Some i \<and> chain bs (qnext (bs i)) q)"

lemma chain_cong: "(\<And>i. i \<in> set q \<Longrightarrow> qnext (bs i) = qnext (bs' i)) \<Longrightarrow> chain bs p q = chain bs' p q"
  by (induction q arbitrary: p) auto

lemma last_queued_chain: "chain bs (Some i) q \<Longrightarrow> last_queued bs i = Some (last q)"
proof (induction q arbitrary: i)
  case (Cons j q)
  then show ?case by (cases q) (auto simp: last_queued.simps [of bs j])
qed simp

lemma chain_append:
  assumes "chain bs p q" "q \<noteq> []" "distinct q" "b \<notin> set q" "qnext (bs b) = None"
  shows "chain (bs(last q := (bs (last q))\<lparr>qnext := Some b\<rparr>)) p (q @ [b])"
  using assms
proof (induction q arbitrary: p)
  case (Cons i q)
  show ?case
  proof (cases q)
    case Nil
    then show ?thesis using Cons.prems by auto
  next
    case (Cons j q')
    then have "last (i # q) \<noteq> i" using Cons.prems(3) by auto
    then show ?thesis using Cons.IH [of "qnext (bs i)"] Cons.prems Cons by auto
  qed
qed simp

text \<open>The registers tell drive and sector: what the ATA command set reads in them.\<close>

definition lba_of :: "command \<Rightarrow> nat" where
  "lba_of c = lba0 c + 256 * lba1 c + 65536 * lba2 c + 16777216 * (drive c mod 16)"

definition drive_of :: "command \<Rightarrow> nat" where
  "drive_of c = drive c div 16 mod 2"

lemma command_for_address:
  assumes "d_blockno b < FSSIZE"
  shows "lba_of (command_for b) = d_blockno b" "drive_of (command_for b) = d_dev b mod 2"
proof -
  define n where "n = d_blockno b"
  have a: "n = n mod 256 + 256 * (n div 256)" by simp
  have b: "n div 256 = n div 256 mod 256 + 256 * (n div 65536)"
    using mod_mult_div_eq [of "n div 256" 256] by (simp flip: div_mult2_eq)
  have c: "n div 65536 = n div 65536 mod 256 + 256 * (n div 16777216)"
    using mod_mult_div_eq [of "n div 65536" 256] by (simp flip: div_mult2_eq)
  have "n div 16777216 = 0" using assms by (simp add: n_def)
  then have "n mod 256 + 256 * (n div 256 mod 256) + 65536 * (n div 65536 mod 256) = n"
    "n mod 256 + 256 * (n div 256 mod 256) + 65536 * (n div 65536) = n"
    using a b c by linarith+
  then show "lba_of (command_for b) = d_blockno b"
    using \<open>n div 16777216 = 0\<close> by (simp add: lba_of_def command_for_def n_def)
  have "(224 + 16 * (d_dev b mod 2)) div 16 mod 2 = d_dev b mod 2"
    by (cases "d_dev b mod 2 = 0") (simp_all add: mod2_eq_if split: if_splits)
  then show "drive_of (command_for b) = d_dev b mod 2"
    using \<open>n div 16777216 = 0\<close> by (simp add: drive_of_def command_for_def n_def)
qed

text \<open>A queue \<open>q\<close>: linked in this order, of distinct locked buffers with something to do, and the command of the
  head under way.\<close>

definition request_ok :: "'d ide \<Rightarrow> nat \<Rightarrow> bool" where
  "request_ok s i \<longleftrightarrow> d_locked (dbufs s i) \<and> \<not> iderw_done i s \<and> d_blockno (dbufs s i) < FSSIZE \<and>
     (d_dev (dbufs s i) = 0 \<or> havedisk1 s)"

definition ide_ok :: "'d ide \<Rightarrow> nat list \<Rightarrow> bool" where
  "ide_ok s q \<longleftrightarrow> chain (dbufs s) (idequeue s) q \<and> distinct q \<and> (\<forall>i \<in> set q. request_ok s i) \<and>
     issued s = (case q of [] \<Rightarrow> None | i # _ \<Rightarrow> Some (command_for (dbufs s i)))"

text \<open>The buffers without their place in the queue.\<close>

definition plain :: "(nat \<Rightarrow> dbuf) \<Rightarrow> nat \<Rightarrow> dbuf" where
  "plain bs i = (bs i)\<lparr>qnext := None\<rparr>"

lemma iderw_begin_ok:
  assumes "ide_ok s q" "b \<notin> set q" "request_ok s b"
  obtains s' where "iderw_begin b s = Some (Inr s')" "ide_ok s' (q @ [b])" "platter s' = platter s"
    "plain (dbufs s') = plain (dbufs s)" "havedisk1 s' = havedisk1 s"
proof (cases q)
  case Nil
  let ?s = "upd_d b (\<lambda>x. x\<lparr>qnext := None\<rparr>) s\<lparr>idequeue := Some b, issued := Some (command_for (dbufs s b))\<rparr>"
  have e: "idequeue s = None" "issued s = None" using assms(1) Nil by (simp_all add: ide_ok_def)
  have r: "request_ok ?s b" using assms(3) by (simp add: request_ok_def iderw_done_def upd_d_def)
  have "iderw_begin b s = Some (Inr ?s)"
    using e assms(3) by (simp add: iderw_begin_def request_ok_def iderw_done_def upd_d_def idestart_def command_for_def Let_def)
  moreover have "ide_ok ?s (q @ [b])"
    using r Nil by (simp add: ide_ok_def) (simp add: upd_d_def command_for_def)
  ultimately show thesis by (rule that) (simp_all add: upd_d_def plain_def fun_eq_iff)
next
  case (Cons i q')
  let ?bs = "(dbufs s)(b := (dbufs s b)\<lparr>qnext := None\<rparr>)" and ?l = "last q"
  let ?s = "s\<lparr>dbufs := ?bs(?l := (?bs ?l)\<lparr>qnext := Some b\<rparr>)\<rparr>"
  have "chain (dbufs s) (idequeue s) q = chain ?bs (idequeue s) q"
    by (rule chain_cong) (use assms(2) in auto)
  then have c: "chain ?bs (idequeue s) q" "idequeue s = Some i"
    using assms(1) Cons by (simp_all add: ide_ok_def)
  have "last_queued ?bs i = Some ?l" using c last_queued_chain [of ?bs i q] by simp
  moreover have "i \<noteq> b" using assms(2) Cons by auto
  ultimately have "iderw_begin b s = Some (Inr ?s)"
    using assms(3) c by (auto simp: iderw_begin_def request_ok_def iderw_done_def upd_d_def Let_def)
  moreover have "ide_ok ?s (q @ [b])"
  proof -
    have "chain (dbufs ?s) (idequeue ?s) (q @ [b])"
      using chain_append [OF c(1), of b] assms(1,2) Cons by (simp add: ide_ok_def)
    moreover have "request_ok ?s j \<longleftrightarrow> request_ok s j" for j by (simp add: request_ok_def iderw_done_def)
    ultimately show ?thesis using assms Cons \<open>i \<noteq> b\<close> by (auto simp: ide_ok_def command_for_def)
  qed
  ultimately show thesis by (rule that) (simp_all add: plain_def fun_eq_iff)
qed

section \<open>Requests take effect one by one\<close>

text \<open>What the code relies on of the controller: a write command replaces the sector its registers name, a read command
  brings it.\<close>

definition ata :: "(command \<Rightarrow> 'd \<Rightarrow> blk) \<Rightarrow> (command \<Rightarrow> blk \<Rightarrow> 'd \<Rightarrow> 'd) \<Rightarrow> ('d \<Rightarrow> nat \<times> nat \<Rightarrow> blk) \<Rightarrow> bool" where
  "ata rd wr sector \<longleftrightarrow> (\<forall>c d. rd c d = sector d (drive_of c, lba_of c)) \<and>
     (\<forall>c x d. sector (wr c x d) = (sector d)((drive_of c, lba_of c) := x))"

text \<open>The reference: a transfer at once, as \<open>iderw\<close> of the theory \<open>Bio\<close> makes it.\<close>

definition transfer :: "nat \<Rightarrow> (nat \<Rightarrow> dbuf) \<times> (nat \<times> nat \<Rightarrow> blk) \<Rightarrow> (nat \<Rightarrow> dbuf) \<times> (nat \<times> nat \<Rightarrow> blk)" where
  "transfer i = (\<lambda>(bs, v).
     let b = bs i; a = (d_dev b mod 2, d_blockno b) in
     if d_dirty b then (bs(i := b\<lparr>d_valid := True, d_dirty := False\<rparr>), v(a := d_data b))
     else (bs(i := b\<lparr>d_valid := True, d_data := v a\<rparr>), v))"

lemma interrupt_ok:
  assumes "ide_ok s (i # q)" "ata rd wr sector"
  obtains s' where "interrupt rd wr False s = Inr (Some i, s')" "ide_ok s' q" "iderw_done i s'"
    "(plain (dbufs s'), sector (platter s')) = transfer i (plain (dbufs s), sector (platter s))"
    "havedisk1 s' = havedisk1 s"
proof -
  let ?b = "dbufs s i" and ?c = "command_for (dbufs s i)"
  let ?p = "if d_dirty ?b then wr ?c (d_data ?b) (platter s) else platter s"
  let ?b' = "?b\<lparr>d_valid := True, d_dirty := False, d_data := (if d_dirty ?b then d_data ?b else rd ?c (platter s))\<rparr>"
  let ?s1 = "s\<lparr>dbufs := (dbufs s)(i := ?b'), idequeue := qnext ?b, issued := None, platter := ?p\<rparr>"
  let ?s2 = "case q of [] \<Rightarrow> ?s1 | j # _ \<Rightarrow> ?s1\<lparr>issued := Some (command_for (dbufs s j))\<rparr>"
  have h: "idequeue s = Some i" "chain (dbufs s) (qnext ?b) q" "i \<notin> set q" "distinct q" "issued s = Some ?c"
    "request_ok s i" "\<forall>j \<in> set q. request_ok s j"
    using assms(1) by (simp_all add: ide_ok_def)
  have st: "interrupt rd wr False s = bindR (if qnext ?b \<noteq> None then idestart (qnext ?b) ?s1 else Inr ?s1) (\<lambda>s4. Inr (Some i, s4))"
  proof -
    have c: "complete wr s = s\<lparr>issued := None, platter := ?p\<rparr>"
      using h(5) by (simp add: complete_def command_for_def)
    have "upd_d i (\<lambda>b. b\<lparr>d_valid := True, d_dirty := False\<rparr>)
        (if \<not> d_dirty ?b \<and> \<not> False
         then upd_d i (\<lambda>b. b\<lparr>d_data := rd ?c (platter (complete wr s))\<rparr>) ((complete wr s)\<lparr>idequeue := qnext ?b\<rparr>)
         else (complete wr s)\<lparr>idequeue := qnext ?b\<rparr>) = ?s1"
      by (rule ide.equality) (simp_all add: c upd_d_def fun_eq_iff)
    moreover have "idequeue ?s1 = qnext ?b" "dbufs (complete wr s) = dbufs s" "idequeue (complete wr s) = Some i"
      using h(1) by (simp_all add: c)
    ultimately show ?thesis using h(5) unfolding interrupt_def ideintr_def by (simp only: option.case Let_def)
  qed
  have nx: "qnext ?b = (case q of [] \<Rightarrow> None | j # _ \<Rightarrow> Some j)" using h(2) by (cases q) simp_all
  have r: "request_ok ?s1 j" if "j \<in> set q" for j
    using h(3,7) that by (auto simp: request_ok_def iderw_done_def)
  have 1: "interrupt rd wr False s = Inr (Some i, ?s2)"
  proof (cases q)
    case (Cons j q')
    then have "d_blockno (dbufs s j) < FSSIZE" "j \<noteq> i" using h(3,7) by (auto simp: request_ok_def)
    then show ?thesis using st nx Cons by (simp add: idestart_def)
  qed (use st nx in simp)
  have ch: "chain ((dbufs s)(i := ?b')) (qnext ?b) q"
    using h(2) chain_cong [of q "dbufs s" "(dbufs s)(i := ?b')" "qnext ?b"] h(3) by auto
  have 2: "ide_ok ?s2 q"
    using ch h(3,4) r by (cases q) (auto simp: ide_ok_def request_ok_def iderw_done_def)
  have 3: "dbufs ?s2 = (dbufs s)(i := ?b')" "platter ?s2 = ?p" by (cases q; simp)+
  have "d_blockno ?b < FSSIZE" "d_dirty ?b \<or> \<not> d_valid ?b" using h(6) by (auto simp: request_ok_def iderw_done_def)
  then have 4: "(plain (dbufs ?s2), sector (platter ?s2)) = transfer i (plain (dbufs s), sector (platter s))"
    using assms(2) command_for_address [of ?b] unfolding 3
    by (auto simp: transfer_def plain_def ata_def fun_eq_iff Let_def)
  show thesis by (rule that [OF 1 2 _ 4]) (use 3 in \<open>simp_all add: iderw_done_def split: list.splits\<close>)
qed

datatype ide_op = Submit nat | Interrupt

fun ide_step :: "(command \<Rightarrow> 'd \<Rightarrow> blk) \<Rightarrow> (command \<Rightarrow> blk \<Rightarrow> 'd \<Rightarrow> 'd) \<Rightarrow> ide_op \<Rightarrow> 'd ide \<Rightarrow> 'd ide res option" where
  "ide_step rd wr (Submit b) s = iderw_begin b s"
| "ide_step rd wr Interrupt s = Some (bindR (interrupt rd wr False s) (\<lambda>(_, s). Inr s))"

fun ide_run :: "(command \<Rightarrow> 'd \<Rightarrow> blk) \<Rightarrow> (command \<Rightarrow> blk \<Rightarrow> 'd \<Rightarrow> 'd) \<Rightarrow> ide_op list \<Rightarrow> 'd ide \<Rightarrow> 'd ide res option" where
  "ide_run rd wr [] s = Some (Inr s)"
| "ide_run rd wr (op # ops) s =
     Option.bind (ide_step rd wr op s) (\<lambda>m. case m of Inl e \<Rightarrow> Some (Inl e) | Inr s \<Rightarrow> ide_run rd wr ops s)"

text \<open>The reference: a list of requests and the transfers made, in the order of the requests.\<close>

type_synonym requests = "nat list \<times> (nat \<Rightarrow> dbuf) \<times> (nat \<times> nat \<Rightarrow> blk)"

fun serve :: "ide_op \<Rightarrow> requests \<Rightarrow> requests" where
  "serve (Submit b) (q, x) = (q @ [b], x)"
| "serve Interrupt ([], x) = ([], x)"
| "serve Interrupt (i # q, x) = (q, transfer i x)"

text \<open>The callers of \<open>iderw\<close>: a locked buffer with something to do, not in the queue yet, of a block and a disk that exist.\<close>

fun legal :: "bool \<Rightarrow> ide_op list \<Rightarrow> requests \<Rightarrow> bool" where
  "legal two [] r = True"
| "legal two (op # ops) (q, bs, v) \<longleftrightarrow>
     (case op of
        Submit b \<Rightarrow> b \<notin> set q \<and> d_locked (bs b) \<and> (d_dirty (bs b) \<or> \<not> d_valid (bs b)) \<and> d_blockno (bs b) < FSSIZE \<and>
          (d_dev (bs b) = 0 \<or> two)
      | Interrupt \<Rightarrow> True) \<and> legal two ops (serve op (q, bs, v))"

lemma idle_interrupt:
  assumes "ide_ok s []"
  shows "interrupt rd wr False s = Inr (None, s)"
  using assms by (simp add: ide_ok_def interrupt_def complete_def ideintr_def)

text \<open>C19: requests to the disk take effect one at a time in the order in which \<open>iderw\<close> was called, each as one transfer of its
  buffer: under any interleaving of calls and interrupts the walk along the queue ends, nothing panics, no command is issued while one is
  under way, every interrupt completes the oldest request, and the buffers and the disk are those of the
  reference. So the transfer of the buffer cache's \<open>iderw\<close> may be taken as one step.\<close>

theorem ide_serves_in_order:
  assumes "ata rd wr sector" "ide_ok s q" "legal (havedisk1 s) ops (q, plain (dbufs s), sector (platter s))"
    "fold serve ops (q, plain (dbufs s), sector (platter s)) = (q', bs', v')"
  shows "\<exists>s'. ide_run rd wr ops s = Some (Inr s') \<and> ide_ok s' q' \<and> plain (dbufs s') = bs' \<and> sector (platter s') = v'"
  using assms(2-)
proof (induction ops arbitrary: s q)
  case (Cons op ops)
  show ?case
  proof (cases op)
    case (Submit b)
    have "b \<notin> set q" "request_ok s b"
      using Cons.prems(2) Submit by (auto simp: request_ok_def iderw_done_def plain_def)
    then obtain s1 where 1: "iderw_begin b s = Some (Inr s1)" "ide_ok s1 (q @ [b])" "platter s1 = platter s"
      "plain (dbufs s1) = plain (dbufs s)" "havedisk1 s1 = havedisk1 s"
      by (rule iderw_begin_ok [OF Cons.prems(1)]) blast
    then show ?thesis using Cons.IH [OF 1(2)] Cons.prems(2,3) Submit by simp
  next
    case Interrupt
    note IH = Cons.IH and P = Cons.prems
    show ?thesis
    proof (cases q)
      case Nil
      then show ?thesis using IH P Interrupt idle_interrupt [of s rd wr] by simp
    next
      case (Cons i q1)
      obtain s1 where 1: "interrupt rd wr False s = Inr (Some i, s1)" "ide_ok s1 q1"
        "(plain (dbufs s1), sector (platter s1)) = transfer i (plain (dbufs s), sector (platter s))"
        "havedisk1 s1 = havedisk1 s"
        using interrupt_ok [OF P(1) [unfolded Cons] assms(1)] by metis
      then show ?thesis using IH [OF 1(2)] P(2,3) Interrupt Cons by simp
    qed
  qed
qed simp

text \<open>A write of block 5 and, while it is under way, a read of the same block.\<close>

definition two_buffers :: "(nat \<times> nat \<Rightarrow> blk) ide" where
  "two_buffers =
     (let b = \<lparr>d_valid = False, d_dirty = True, d_dev = 1, d_blockno = 5, d_locked = True, qnext = None, d_data = (\<lambda>_. 7)\<rparr>
      in \<lparr>dbufs = (\<lambda>i. if i = 0 then b else b\<lparr>d_dirty := False, d_data := (\<lambda>_. 0)\<rparr>), idequeue = None, havedisk1 = True,
          issued = None, platter = (\<lambda>_ _. 0)\<rparr>)"

theorem ide_serves_in_order_witness:
  "\<exists>s'. ide_run (\<lambda>c d. d (drive_of c, lba_of c)) (\<lambda>c x d. d((drive_of c, lba_of c) := x))
     [Submit 0, Submit 1, Interrupt, Interrupt] two_buffers = Some (Inr s') \<and> d_data (dbufs s' 1) = (\<lambda>_. 7)"
proof -
  let ?r = "fold serve [Submit 0, Submit 1, Interrupt, Interrupt] ([], plain (dbufs two_buffers), platter two_buffers)"
  have a: "ata (\<lambda>c d. d (drive_of c, lba_of c)) (\<lambda>c x d. d((drive_of c, lba_of c) := x)) (\<lambda>d. d)"
    by (simp add: ata_def)
  have o': "ide_ok two_buffers []" by (simp add: ide_ok_def two_buffers_def Let_def)
  have l: "legal (havedisk1 two_buffers) [Submit 0, Submit 1, Interrupt, Interrupt] ([], plain (dbufs two_buffers), platter two_buffers)"
    by (simp add: two_buffers_def plain_def transfer_def Let_def)
  have d: "d_data (fst (snd ?r) 1) = (\<lambda>_. 7)" by (simp add: two_buffers_def plain_def transfer_def Let_def)
  obtain q' bs' v' where r: "?r = (q', bs', v')" by (metis prod_cases3)
  from ide_serves_in_order [OF a o' l r] obtain s' where
    "ide_run (\<lambda>c d. d (drive_of c, lba_of c)) (\<lambda>c x d. d((drive_of c, lba_of c) := x))
       [Submit 0, Submit 1, Interrupt, Interrupt] two_buffers = Some (Inr s')" "plain (dbufs s') = bs'"
    by blast
  moreover have "d_data (plain (dbufs s') 1) = d_data (dbufs s' 1)" by (simp add: plain_def)
  ultimately show ?thesis using d r by auto
qed

text \<open>When the disk reports an error for a read, the buffer is marked valid all the same, with the bytes it had.\<close>

theorem read_error_valid:
  assumes "idequeue s = Some i" "\<not> d_dirty (dbufs s i)" "interrupt rd wr True s = Inr (w, s')"
  shows "iderw_done i s' \<and> d_data (dbufs s' i) = d_data (dbufs s i)"
proof -
  have c: "dbufs (complete wr s) = dbufs s" "idequeue (complete wr s) = Some i"
    using assms(1) by (auto simp: complete_def split: option.splits)
  have st: "dbufs t' = dbufs t" if "idestart p t = Inr t'" for p and t t' :: "'a ide"
    using that by (auto simp: idestart_def guardR_eq_Inr split: option.splits)
  show ?thesis using assms(2,3) c
    by (auto simp: interrupt_def ideintr_def upd_d_def iderw_done_def Let_def bindR_eq_Inr split: if_splits dest!: st)
qed

end

