(* ===== verification/Ulib.thy ===== *)
theory Ulib
  imports Digits
begin

text \<open>
  What the user programs share: \<open>strcmp\<close>, \<open>gets\<close> and \<open>strlen\<close> of ulib.c and the
  formatted output of printf.c. The input is the list of the bytes \<open>read\<close> still delivers, one at a time; its
  end is the end of the file. The output is the list of the bytes written.
\<close>

definition chars :: "string \<Rightarrow> byte list" where
  "chars s = map (of_nat \<circ> of_char) s"

section \<open>ulib.c\<close>

function strcmp :: "byte list \<Rightarrow> byte list \<Rightarrow> int" where
  "strcmp p q =
     (if char_at p \<noteq> 0 \<and> char_at p = char_at q then strcmp (tl p) (tl q)
      else uint (char_at p) - uint (char_at q))"
  by pat_completeness auto
termination
proof (relation "measure (\<lambda>(p, q). length p)")
  show "((tl p, tl q), p, q) \<in> measure (\<lambda>(p, q). length p)" if "char_at p \<noteq> 0 \<and> char_at p = char_at q" for p q
    using that by (cases p) simp_all
qed simp

declare strcmp.simps [simp del]

fun gets_loop :: "nat \<Rightarrow> nat \<Rightarrow> byte list \<Rightarrow> byte list \<Rightarrow> (byte list \<times> byte list) res" where
  "gets_loop lim i buf inp =
     guardR (i < length buf) (Overrun ''gets: buf'')
       (if i + 1 < lim
        then (case inp of
                [] \<Rightarrow> Inr (buf[i := 0], [])
              | c # inp \<Rightarrow>
                  if c = 10 \<or> c = 13
                  then guardR (i + 1 < length buf) (Overrun ''gets: buf'') (Inr (buf[i := c, i + 1 := 0], inp))
                  else gets_loop lim (i + 1) (buf[i := c]) inp)
        else Inr (buf[i := 0], inp))"

declare gets_loop.simps [simp del]

definition gets :: "byte list \<Rightarrow> nat \<Rightarrow> byte list \<Rightarrow> (byte list \<times> byte list) res" where
  "gets buf lim inp = gets_loop lim 0 buf inp"

section \<open>printf.c\<close>

definition uprintint :: "int \<Rightarrow> nat \<Rightarrow> bool \<Rightarrow> byte list res" where
  "uprintint xx base sign = bindR (int_chars (digit 55) xx base sign) (\<lambda>buf. Inr (rev buf))"

text \<open>The loop with its variable \<open>state\<close>: whether a percent sign came before. \<open>strs\<close> is the memory, \<open>ap\<close> the
  words behind the format.\<close>

fun printf_loop :: "(nat \<Rightarrow> byte list) \<Rightarrow> bool \<Rightarrow> byte list \<Rightarrow> nat list \<Rightarrow> byte list \<Rightarrow> byte list res" where
  "printf_loop strs percent [] ap out = Inr out"
| "printf_loop strs percent (c # fmt) ap out =
     (if c = 0 then Inr out
      else if \<not> percent
      then (if c = 37 then printf_loop strs True fmt ap out else printf_loop strs False fmt ap (out @ [c]))
      else if c = 100 \<or> c = 120 \<or> c = 112 \<or> c = 115 \<or> c = 99
      then (case ap of
              [] \<Rightarrow> Inl (Overrun ''printf: ap'')
            | a # ap \<Rightarrow>
                bindR (if c = 100 then uprintint (int_of_uint a) 10 True
                       else if c = 115 then Inr (c_str (if a = 0 then [40, 110, 117, 108, 108, 41] else strs a))
                       else if c = 99 then Inr [of_nat a]
                       else uprintint (int_of_uint a) 16 False)
                  (\<lambda>w. printf_loop strs False fmt ap (out @ w)))
      else if c = 37 then printf_loop strs False fmt ap (out @ [37])
      else printf_loop strs False fmt ap (out @ [37, c]))"

definition printf :: "(nat \<Rightarrow> byte list) \<Rightarrow> byte list \<Rightarrow> nat list \<Rightarrow> byte list res" where
  "printf strs fmt ap = printf_loop strs False fmt ap []"

section \<open>Lemmas\<close>

lemma strcmp_eq: "strcmp p q = 0 \<longleftrightarrow> c_str p = c_str q"
proof (induction p q rule: strcmp.induct)
  case (1 p q)
  consider "char_at p \<noteq> 0" "char_at p = char_at q" | "char_at p = 0" "char_at q = 0" | "char_at p \<noteq> char_at q"
    by argo
  then show ?case
  proof cases
    case 1
    then have "strcmp p q = strcmp (tl p) (tl q)" by (simp add: strcmp.simps [of p q])
    moreover have "strcmp (tl p) (tl q) = 0 \<longleftrightarrow> c_str (tl p) = c_str (tl q)" using 1 "1.IH" by blast
    ultimately show ?thesis using 1 by (simp add: c_str_char)
  next
    case 2
    then show ?thesis by (simp add: strcmp.simps [of p q] c_str_char0)
  next
    case 3
    then have "c_str p \<noteq> c_str q"
      by (cases "char_at p = 0"; cases "char_at q = 0") (simp_all add: c_str_char c_str_char0)
    then show ?thesis using 3 by (simp add: strcmp.simps [of p q] word_uint_eq_iff)
  qed
qed

text \<open>A line that fits is read whole, with its newline and a terminator; what the buffer held stays behind
  them.\<close>

lemma gets_line:
  assumes "\<forall>c \<in> set line. c \<noteq> 10 \<and> c \<noteq> 13" "nl = 10 \<or> nl = 13" "i + length line + 1 < lim" "lim \<le> length buf"
  shows "gets_loop lim i buf (line @ nl # inp)
    = Inr (take i buf @ line @ nl # 0 # drop (i + length line + 2) buf, inp)"
  using assms
proof (induction line arbitrary: i buf)
  case Nil
  have "i + 1 < length buf" using Nil.prems by simp
  then have "buf[i := nl, Suc i := 0] = take i buf @ nl # 0 # drop (i + 2) buf"
    by (simp add: upd_conv_take_nth_drop take_Suc_conv_app_nth list_update_append)
  then show ?case using Nil.prems by (subst gets_loop.simps) simp
next
  case (Cons c line)
  have "gets_loop lim i buf ((c # line) @ nl # inp) = gets_loop lim (i + 1) (buf[i := c]) (line @ nl # inp)"
    using Cons.prems by (subst gets_loop.simps) simp
  also have "\<dots> = Inr (take (i + 1) (buf[i := c]) @ line @ nl # 0 # drop (i + 1 + length line + 2) (buf[i := c]), inp)"
    by (rule Cons.IH) (use Cons.prems in auto)
  also have "\<dots> = Inr (take i buf @ (c # line) @ nl # 0 # drop (i + length (c # line) + 2) buf, inp)"
    using Cons.prems by (simp add: take_Suc_conv_app_nth)
  finally show ?case .
qed

lemma gets_bounds: "gets_loop lim i buf inp = Inr (buf', inp') \<Longrightarrow> length buf' = length buf"
proof (induction lim i buf inp rule: gets_loop.induct)
  case (1 lim i buf inp)
  show ?case
  proof (cases "\<exists>c r. i + 1 < lim \<and> inp = c # r \<and> \<not> (c = 10 \<or> c = 13)")
    case True
    then obtain c r where c: "i + 1 < lim" "inp = c # r" "\<not> (c = 10 \<or> c = 13)" by blast
    then have "gets_loop lim (i + 1) (buf[i := c]) r = Inr (buf', inp')"
      using "1.prems" by (simp add: gets_loop.simps [of lim i] guardR_eq_Inr)
    then show ?thesis using "1.IH" [OF c] by simp
  next
    case False
    then show ?thesis using "1.prems"
      by (simp add: gets_loop.simps [of lim i]) (auto simp: guardR_eq_Inr split: if_splits list.splits)
  qed
qed

lemma printf_chars:
  assumes "\<forall>c \<in> set w. c \<noteq> 0 \<and> c \<noteq> 37"
  shows "printf_loop strs False (w @ fmt) ap out = printf_loop strs False fmt ap (out @ w)"
  using assms by (induction w arbitrary: out) auto

lemma uprintint_dec:
  assumes "- (2 ^ 31) \<le> x" "x < 2 ^ 31"
  shows "uprintint (int_of_uint (uint_of_int x)) 10 True = Inr (signed_numeral (digit 55) x)"
proof -
  have "x mod 4294967296 = (if x < 0 then x + 4294967296 else x)"
    using assms mod_add_self2 [of x 4294967296] mod_pos_pos_trivial [of "x + 4294967296" 4294967296]
    by (cases "x < 0") simp_all
  then have "int_of_uint (uint_of_int x) = x"
    using assms by (simp add: int_of_uint_def uint_of_int_def nat_less_iff)
  then show ?thesis using int_chars_decimal [OF assms] by (simp add: uprintint_def)
qed

lemma printf_s:
  "a \<noteq> 0 \<Longrightarrow> printf_loop strs False (37 # 115 # fmt) (a # ap) out = printf_loop strs False fmt ap (out @ c_str (strs a))"
  by simp

end
