(* ===== verification/Pmanager.thy ===== *)
theory Pmanager
  imports Ulib Th_Proc Th_Info
begin

text \<open>
  The process manager, pmanager.c of Project02-Thread: a user program that reads a line, splits it at the
  first blanks and asks the kernel. What it asks for is a \<open>request\<close>; the kernel is a function
  that answers the last request of the history. A process goes on as parent or child by the answer to \<open>Fork\<close>. The
  arrays of a round live on the stack and hold any bytes when it starts: they are the \<open>frame\<close>.
\<close>

section \<open>The program\<close>

datatype request =
    Write int byte
  | ProcInfo
  | Kill int
  | Fork
  | Wait
  | Exec2 "byte list" "nat list" int
  | SetMemoryLimit int int
  | Exit

type_synonym history = "request list"
type_synonym answers = "history \<Rightarrow> int"

text \<open>How a round ends for the process that runs it: at the next prompt, by \<open>exit\<close>, or in the program
  \<open>exec2\<close> started.\<close>

datatype pm_end = Again | Ended | Replaced

record frame =
  f_buf :: "byte list"
  f_argv :: "nat list"
  f_cmd :: "byte list"
  f_cpid :: "byte list"
  f_cstacksz :: "byte list"
  f_cmemlim :: "byte list"
  f_cpath :: "byte list"
  f_path_at :: nat

definition nbuf :: nat where "nbuf = 250"

function split_loop :: "byte list \<Rightarrow> byte list \<Rightarrow> nat \<Rightarrow> nat \<Rightarrow> nat \<Rightarrow> (byte list \<times> nat) res" where
  "split_loop str buf idx i st =
     (if i < nbuf
      then guardR (i < length buf) (Overrun ''strSplit: buf'') (guardR (st < length str) (Overrun ''strSplit: str'')
             (if buf ! i = 32 \<or> buf ! i = 10 then Inr (str[st := 0], i + 1)
              else split_loop (str[st := buf ! i]) buf idx (i + 1) (st + 1)))
      else Inr (str, idx))"
  by pat_completeness auto
termination by (relation "measure (\<lambda>(str, buf, idx, i, st). nbuf - i)") auto

declare split_loop.simps [simp del]

definition strSplit :: "byte list \<Rightarrow> byte list \<Rightarrow> nat \<Rightarrow> (byte list \<times> nat) res" where
  "strSplit str buf idx = split_loop str buf idx idx 0"

definition say :: "int \<Rightarrow> byte list \<Rightarrow> nat list \<Rightarrow> history \<Rightarrow> history res" where
  "say fd fmt ap h = bindR (printf (\<lambda>_. []) fmt ap) (\<lambda>out. Inr (h @ map (Write fd) out))"

text \<open>One \<open>%s\<close>: the array has to hold a terminator. In the same way \<open>atoi\<close> has to meet a byte that is no digit.\<close>

definition say_str :: "int \<Rightarrow> byte list \<Rightarrow> byte list \<Rightarrow> history \<Rightarrow> history res" where
  "say_str fd fmt s h =
     guardR (0 \<in> set s) (Overrun ''printf: s'')
       (bindR (printf (\<lambda>_. s) fmt [1]) (\<lambda>out. Inr (h @ map (Write fd) out)))"

definition number :: "byte list \<Rightarrow> (int \<Rightarrow> 'a res) \<Rightarrow> 'a res" where
  "number s f = guardR (\<exists>c \<in> set s. \<not> (48 \<le> c \<and> c \<le> 57)) (Overrun ''atoi: s'') (f (atoi s))"

definition pm_panic :: "byte list \<Rightarrow> history \<Rightarrow> (pm_end \<times> history) res" where
  "pm_panic s h = Inr (Ended, h @ map (Write 2) (s @ [10]) @ [Exit])"

definition fork1 :: "answers \<Rightarrow> history \<Rightarrow> (int \<Rightarrow> history \<Rightarrow> (pm_end \<times> history) res) \<Rightarrow> (pm_end \<times> history) res" where
  "fork1 k h f =
     (let h = h @ [Fork]; pid = k h in if pid = -1 then pm_panic (chars ''fork'') h else f pid h)"

definition pm_kill :: "answers \<Rightarrow> frame \<Rightarrow> byte list \<Rightarrow> nat \<Rightarrow> history \<Rightarrow> (pm_end \<times> history) res" where
  "pm_kill k fr buf idx h =
     bindR (strSplit (f_cpid fr) buf idx) (\<lambda>(cpid, idx).
     bindR (say_str 2 (chars ''KILL Process : %s'' @ [10]) cpid h) (\<lambda>h.
     number cpid (\<lambda>pid.
       let h = h @ [Kill pid] in
       bindR (say 2 (if k h < 0 then chars ''kill Process : %d failed'' @ [10]
                     else chars ''kill Process : %d succeed'' @ [10]) [uint_of_int pid] h)
         (\<lambda>h. Inr (Again, h)))))"

definition pm_execute :: "answers \<Rightarrow> frame \<Rightarrow> byte list \<Rightarrow> nat \<Rightarrow> history \<Rightarrow> (pm_end \<times> history) res" where
  "pm_execute k fr buf idx h =
     fork1 k h (\<lambda>pid h.
       if pid = 0
       then fork1 k h (\<lambda>pid h.
              if pid = 0
              then bindR (strSplit (f_cpath fr) buf idx) (\<lambda>(cpath, idx).
                   bindR (strSplit (f_cstacksz fr) buf idx) (\<lambda>(cstacksz, idx).
                   number cstacksz (\<lambda>stacksz.
                     let h = h @ [Exec2 cpath ((f_argv fr)[0 := f_path_at fr]) stacksz] in
                     if k h = -1
                     then bindR (say_str 2 (chars ''EXECUTE Process in %s failed'' @ [10]) cpath h) (\<lambda>h. Inr (Ended, h @ [Exit]))
                     else Inr (Replaced, h))))
              else Inr (Ended, h @ [Exit]))
       else Inr (Again, h @ [Wait]))"

definition pm_memlim :: "answers \<Rightarrow> frame \<Rightarrow> byte list \<Rightarrow> nat \<Rightarrow> history \<Rightarrow> (pm_end \<times> history) res" where
  "pm_memlim k fr buf idx h =
     bindR (strSplit (f_cpid fr) buf idx) (\<lambda>(cpid, idx).
     bindR (strSplit (f_cmemlim fr) buf idx) (\<lambda>(cmemlim, idx).
     number cpid (\<lambda>pid. number cmemlim (\<lambda>memlim.
       let h = h @ [SetMemoryLimit pid memlim] in
       bindR (say 2 (if k h < 0 then chars ''set process %d'' @ [39] @ chars ''s memory limit : %d failed'' @ [10]
                     else chars ''set process %d'' @ [39] @ chars ''s memory limit : %d succeed'' @ [10])
               [uint_of_int pid, uint_of_int memlim] h)
         (\<lambda>h. Inr (Again, h))))))"

definition pm_command :: "answers \<Rightarrow> frame \<Rightarrow> byte list \<Rightarrow> history \<Rightarrow> (pm_end \<times> history) res" where
  "pm_command k fr buf h =
     bindR (strSplit (f_cmd fr) buf 0) (\<lambda>(cmd, idx).
     guardR (0 \<in> set cmd) (Overrun ''strcmp: cmd'')
      (if strcmp cmd (chars ''list'') = 0 then Inr (Again, h @ [ProcInfo])
       else if strcmp cmd (chars ''kill'') = 0 then pm_kill k fr buf idx h
       else if strcmp cmd (chars ''execute'') = 0 then pm_execute k fr buf idx h
       else if strcmp cmd (chars ''memlim'') = 0 then pm_memlim k fr buf idx h
       else if strcmp cmd (chars ''exit'') = 0
       then bindR (say 2 (chars ''Goodbye Pmanager!'' @ [10]) [] h) (\<lambda>h. Inr (Ended, h @ [Exit]))
       else bindR (say_str 1 (chars ''Wrong Command : %s'' @ [10]) cmd h) (\<lambda>h. Inr (Again, h))))"

definition pm_round :: "answers \<Rightarrow> frame \<Rightarrow> byte list \<Rightarrow> history \<Rightarrow> (pm_end \<times> byte list \<times> history) res" where
  "pm_round k fr inp h =
     bindR (say 2 (chars ''> '') [] h) (\<lambda>h.
     bindR (gets (f_buf fr) nbuf inp) (\<lambda>(buf, inp).
     bindR (pm_command k fr buf h) (\<lambda>(e, h). Inr (e, inp, h))))"

text \<open>The \<open>while (1)\<close>, one frame for each round.\<close>

fun pm_loop :: "answers \<Rightarrow> frame list \<Rightarrow> byte list \<Rightarrow> history \<Rightarrow> (pm_end \<times> byte list \<times> history) res" where
  "pm_loop k [] inp h = Inr (Again, inp, h)"
| "pm_loop k (fr # frs) inp h =
     bindR (pm_round k fr inp h) (\<lambda>(e, inp, h). if e = Again then pm_loop k frs inp h else Inr (e, inp, h))"

definition pmanager :: "answers \<Rightarrow> frame list \<Rightarrow> byte list \<Rightarrow> (pm_end \<times> byte list \<times> history) res" where
  "pmanager k frs inp = bindR (say 2 (chars ''Hello Pmanager!'' @ [10]) [] []) (pm_loop k frs inp)"

definition frame_ok :: "frame \<Rightarrow> bool" where
  "frame_ok fr \<longleftrightarrow> length (f_buf fr) = nbuf \<and> length (f_argv fr) = 10 \<and> length (f_cmd fr) = 10 \<and> length (f_cpid fr) = 20 \<and>
     length (f_cstacksz fr) = 20 \<and> length (f_cmemlim fr) = 20 \<and> length (f_cpath fr) = 55 \<and> f_path_at fr \<noteq> 0"

section \<open>The system calls behind the requests\<close>

text \<open>The calls of the kernel model; \<open>other\<close> answers the rest.\<close>

definition serve :: "(request \<Rightarrow> tk \<Rightarrow> int \<times> tk) \<Rightarrow> request \<Rightarrow> tk \<Rightarrow> int \<times> tk" where
  "serve other r s =
     (case r of
        Kill pid \<Rightarrow> kill pid s
      | SetMemoryLimit pid limit \<Rightarrow> setmemorylimit pid limit s
      | ProcInfo \<Rightarrow> (case procInfo s of Some s \<Rightarrow> (0, s) | None \<Rightarrow> (-1, s))
      | Write fd c \<Rightarrow> (1, s)
      | _ \<Rightarrow> other r s)"

definition served :: "(request \<Rightarrow> tk \<Rightarrow> int \<times> tk) \<Rightarrow> tk \<Rightarrow> history \<Rightarrow> tk" where
  "served other s h = foldl (\<lambda>s r. snd (serve other r s)) s h"

definition kernel_answers :: "(request \<Rightarrow> tk \<Rightarrow> int \<times> tk) \<Rightarrow> tk \<Rightarrow> answers" where
  "kernel_answers other s h = fst (serve other (last h) (served other s (butlast h)))"

section \<open>Splitting\<close>

text \<open>The word in front of the next separator is copied with a terminator if it is shorter than the
  array, and a longer one runs over the end of the array.\<close>

lemma split_loop_word:
  assumes "i + length w < nbuf" "length buf = nbuf" "drop i buf = w @ c # rest"
    "\<forall>x \<in> set w. x \<noteq> 32 \<and> x \<noteq> 10" "c = 32 \<or> c = 10"
  shows "split_loop str buf idx i st =
    (if st + length w < length str
     then Inr (take st str @ w @ 0 # drop (st + length w + 1) str, i + length w + 1)
     else Inl (Overrun ''strSplit: str''))"
  using assms
proof (induction w arbitrary: i st str)
  case Nil
  then have "buf ! i = c" by (metis append_Nil nth_via_drop)
  then show ?case using Nil.prems by (subst split_loop.simps) (simp add: guardR_def upd_conv_take_nth_drop)
next
  case (Cons x w)
  then have x: "buf ! i = x" "drop (Suc i) buf = w @ c # rest" by (auto dest: nth_via_drop simp: drop_Suc drop_tl)
  show ?case
  proof (cases "st < length str")
    case True
    have "split_loop str buf idx i st = split_loop (str[st := x]) buf idx (i + 1) (st + 1)"
      using x(1) Cons.prems True by (subst split_loop.simps) simp
    also have "\<dots> = (if st + 1 + length w < length (str[st := x])
       then Inr (take (st + 1) (str[st := x]) @ w @ 0 # drop (st + 1 + length w + 1) (str[st := x]), i + 1 + length w + 1)
       else Inl (Overrun ''strSplit: str''))"
      by (rule Cons.IH) (use Cons.prems x(2) in auto)
    finally show ?thesis using True by (simp add: take_Suc_conv_app_nth)
  next
    case False
    then show ?thesis using Cons.prems by (subst split_loop.simps) simp
  qed
qed

definition word :: "byte list \<Rightarrow> bool" where
  "word w \<longleftrightarrow> (\<forall>c \<in> set w. c \<noteq> 0 \<and> c \<noteq> 10 \<and> c \<noteq> 13 \<and> c \<noteq> 32)"

lemma strSplit_word:
  assumes "buf = pre @ w @ c # rest" "length buf = nbuf" "word w" "c = 32 \<or> c = 10"
  shows "strSplit str buf (length pre) =
    (if length w < length str then Inr (w @ 0 # drop (length w + 1) str, length pre + length w + 1)
     else Inl (Overrun ''strSplit: str''))"
proof -
  have "length pre + length w < nbuf" using assms(1,2) by simp
  then show ?thesis
    using split_loop_word [of "length pre" w buf c rest str "length pre" 0] assms by (auto simp: strSplit_def word_def)
qed

lemma c_str_word: "word w \<Longrightarrow> c_str (w @ 0 # rest) = w"
  by (induction w) (auto simp: c_str_Cons word_def)

section \<open>The commands\<close>

abbreviation dec :: "int \<Rightarrow> byte list" where "dec \<equiv> signed_numeral (digit 55)"

lemma dec_eq: "0 \<le> x \<Longrightarrow> dec x = map (digit 55) (numeral_in 10 (nat x))"
  by (simp add: signed_numeral_def)

lemma digit_range: "d < 10 \<Longrightarrow> 48 \<le> digit a d \<and> digit a d \<le> 57"
  using uint_digit [of d a] by (simp add: word_le_def)

lemma word_dec: "0 \<le> x \<Longrightarrow> word (dec x)"
  using numeral_in_less [of 10 _ "nat x"] digit_range [of _ 55] by (fastforce simp: word_def dec_eq)

lemma length_dec: "0 \<le> x \<Longrightarrow> x < 2 ^ 31 \<Longrightarrow> length (dec x) \<le> 10"
  using length_numeral_in [of 10 "nat x"] by (simp add: dec_eq)

lemma atoi_dec: "0 \<le> x \<Longrightarrow> x < 2 ^ 31 \<Longrightarrow> atoi (dec x @ 0 # rest) = x"
  using printint_atoi [of x "0 # rest" 55] int_chars_decimal [of x "digit 55"] by auto

lemma number_dec: "0 \<le> x \<Longrightarrow> x < 2 ^ 31 \<Longrightarrow> number (dec x @ 0 # rest) f = f x"
  by (simp add: number_def atoi_dec)

text \<open>What \<open>gets\<close> leaves of a line, and the round on it.\<close>

lemma round_line:
  assumes "frame_ok fr" "\<forall>c \<in> set line. c \<noteq> 10 \<and> c \<noteq> 13" "length line < 249"
  shows "pm_round k fr (line @ 10 # inp) h =
    bindR (pm_command k fr (line @ 10 # 0 # drop (length line + 2) (f_buf fr)) (h @ map (Write 2) (chars ''> '')))
      (\<lambda>(e, h). Inr (e, inp, h))"
  using gets_line [of line 10 0 nbuf "f_buf fr" inp] assms
  by (simp add: pm_round_def say_def printf_def chars_def gets_def frame_ok_def nbuf_def)

lemma command_word:
  assumes "frame_ok fr" "word w" "c = 32 \<or> c = 10" "buf = w @ c # rest" "length buf = nbuf"
  shows "strSplit (f_cmd fr) buf 0 =
    (if length w < 10 then Inr (w @ 0 # drop (length w + 1) (f_cmd fr), length w + 1) else Inl (Overrun ''strSplit: str''))"
  using strSplit_word [of buf "[]" w c rest "f_cmd fr"] assms by (simp add: frame_ok_def)

text \<open>The splits behind the command.\<close>

lemma split_dec:
  assumes "0 \<le> x" "x < 2 ^ 31" "length str = 20" "buf = pre @ dec x @ c # rest" "c = 32 \<or> c = 10" "length buf = nbuf" "i = length pre"
  shows "strSplit str buf i = Inr (dec x @ 0 # drop (length (dec x) + 1) str, i + length (dec x) + 1)"
  using strSplit_word [of buf pre "dec x" c rest str] word_dec [of x] length_dec [of x] assms by auto

lemma pm_kill_line:
  assumes "frame_ok fr" "0 \<le> pid" "pid < 2 ^ 31" "buf = pre @ dec pid @ 10 # rest" "length buf = nbuf" "i = length pre"
  shows "pm_kill k fr buf i h =
    (let h = h @ map (Write 2) (chars ''KILL Process : '' @ dec pid @ [10]) @ [Kill pid]
     in Inr (Again, h @ map (Write 2) (chars ''kill Process : '' @ dec pid @
          chars (if k h < 0 then '' failed'' else '' succeed'') @ [10])))"
proof -
  have s: "strSplit (f_cpid fr) buf i = Inr (dec pid @ 0 # drop (length (dec pid) + 1) (f_cpid fr), i + length (dec pid) + 1)"
    using split_dec [of pid "f_cpid fr" buf pre 10 rest i] assms by (simp add: frame_ok_def)
  have n: "number (dec pid @ 0 # r) f = f pid" for r and f :: "int \<Rightarrow> (pm_end \<times> history) res"
    using number_dec assms by blast
  have u: "uprintint (int_of_uint (uint_of_int pid)) 10 True = Inr (dec pid)"
    using uprintint_dec [of pid] assms(2,3) by simp
  show ?thesis unfolding pm_kill_def s
    by (simp add: say_str_def say_def printf_def chars_def c_str_word [OF word_dec [OF assms(2)]] n u Let_def)
qed

lemma pm_memlim_line:
  assumes "frame_ok fr" "0 \<le> pid" "pid < 2 ^ 31" "0 \<le> n" "n < 2 ^ 31"
    "buf = pre @ dec pid @ 32 # dec n @ 10 # rest" "length buf = nbuf" "i = length pre"
  shows "pm_memlim k fr buf i h =
    (let h = h @ [SetMemoryLimit pid n]
     in Inr (Again, h @ map (Write 2) (chars ''set process '' @ dec pid @ [39] @ chars ''s memory limit : '' @ dec n @
          chars (if k h < 0 then '' failed'' else '' succeed'') @ [10])))"
proof -
  have s: "strSplit (f_cpid fr) buf i = Inr (dec pid @ 0 # drop (length (dec pid) + 1) (f_cpid fr), i + length (dec pid) + 1)"
    using split_dec [of pid "f_cpid fr" buf pre 32 "dec n @ 10 # rest" i] assms by (simp add: frame_ok_def)
  have t: "strSplit (f_cmemlim fr) buf (i + length (dec pid) + 1)
    = Inr (dec n @ 0 # drop (length (dec n) + 1) (f_cmemlim fr), i + length (dec pid) + 1 + length (dec n) + 1)"
    by (rule split_dec [where pre = "pre @ dec pid @ [32]" and rest = rest and c = 10]) (use assms in \<open>auto simp: frame_ok_def\<close>)
  have n: "number (dec x @ 0 # r) f = f x" if "0 \<le> x" "x < 2 ^ 31" for r x and f :: "int \<Rightarrow> (pm_end \<times> history) res"
    using number_dec that by blast
  show ?thesis unfolding pm_memlim_def s bindR_Inr prod.case t n [OF assms(2,3)] n [OF assms(4,5)]
    using assms(2-5) by (simp add: say_def printf_def chars_def uprintint_dec Let_def)
qed

lemma pm_execute_line:
  assumes "frame_ok fr" "word path" "length path < 55" "0 \<le> n" "n < 2 ^ 31"
    "buf = pre @ path @ 32 # dec n @ 10 # rest" "length buf = nbuf" "i = length pre"
  shows "pm_execute k fr buf i h = fork1 k h (\<lambda>pid h.
    if pid = 0
    then fork1 k h (\<lambda>pid h.
      if pid = 0
      then let h = h @ [Exec2 (path @ 0 # drop (length path + 1) (f_cpath fr)) ((f_argv fr)[0 := f_path_at fr]) n]
           in if k h = -1
              then Inr (Ended, h @ map (Write 2) (chars ''EXECUTE Process in '' @ path @ chars '' failed'' @ [10]) @ [Exit])
              else Inr (Replaced, h)
      else Inr (Ended, h @ [Exit]))
    else Inr (Again, h @ [Wait]))"
proof -
  have s: "strSplit (f_cpath fr) buf i = Inr (path @ 0 # drop (length path + 1) (f_cpath fr), i + length path + 1)"
    using strSplit_word [of buf pre path 32 "dec n @ 10 # rest" "f_cpath fr"] assms by (simp add: frame_ok_def)
  have t: "strSplit (f_cstacksz fr) buf (i + length path + 1)
    = Inr (dec n @ 0 # drop (length (dec n) + 1) (f_cstacksz fr), i + length path + 1 + length (dec n) + 1)"
    by (rule split_dec [where pre = "pre @ path @ [32]" and rest = rest and c = 10]) (use assms in \<open>auto simp: frame_ok_def\<close>)
  have n: "number (dec n @ 0 # r) f = f n" for r and f :: "int \<Rightarrow> (pm_end \<times> history) res"
    using number_dec [OF assms(4,5)] by blast
  have y: "say_str 2 (chars ''EXECUTE Process in %s failed'' @ [10]) (path @ 0 # r) h
    = Inr (h @ map (Write 2) (chars ''EXECUTE Process in '' @ path @ chars '' failed'' @ [10]))" for r h
    by (simp add: say_str_def printf_def chars_def c_str_word [OF assms(2)])
  show ?thesis unfolding pm_execute_def s bindR_Inr prod.case t n y by (simp add: Let_def cong: if_cong)
qed

section \<open>Properties\<close>

lemma command_eq:
  assumes "frame_ok fr" "word w" "length w < 10" "c = 32 \<or> c = 10" "length (w @ c # rest) = nbuf"
  shows "pm_command k fr (w @ c # rest) h =
    (let buf = w @ c # rest; idx = length w + 1; cmd = w @ 0 # drop (length w + 1) (f_cmd fr) in
       if w = chars ''list'' then Inr (Again, h @ [ProcInfo])
       else if w = chars ''kill'' then pm_kill k fr buf idx h
       else if w = chars ''execute'' then pm_execute k fr buf idx h
       else if w = chars ''memlim'' then pm_memlim k fr buf idx h
       else if w = chars ''exit''
       then Inr (Ended, h @ map (Write 2) (chars ''Goodbye Pmanager!'' @ [10]) @ [Exit])
       else Inr (Again, h @ map (Write 1) (chars ''Wrong Command : '' @ w @ [10])))"
proof -
  have c: "strcmp (w @ 0 # r) (chars l) = 0 \<longleftrightarrow> w = c_str (chars l)" for r l
    by (simp add: strcmp_eq c_str_word [OF assms(2)])
  have l: "c_str (chars ''list'') = chars ''list''" "c_str (chars ''kill'') = chars ''kill''"
    "c_str (chars ''execute'') = chars ''execute''" "c_str (chars ''memlim'') = chars ''memlim''"
    "c_str (chars ''exit'') = chars ''exit''"
    by (simp_all add: chars_def c_str_Cons)
  have g: "say 2 (chars ''Goodbye Pmanager!'' @ [10]) [] h = Inr (h @ map (Write 2) (chars ''Goodbye Pmanager!'' @ [10]))"
    "say_str 1 (chars ''Wrong Command : %s'' @ [10]) (w @ 0 # r) h
      = Inr (h @ map (Write 1) (chars ''Wrong Command : '' @ w @ [10]))" for r h
    by (simp_all add: say_def say_str_def printf_def chars_def c_str_word [OF assms(2)])
  show ?thesis
    using command_word [OF assms(1,2,4) refl assms(5)] assms(3)
    unfolding pm_command_def by (simp add: c l g Let_def cong: if_cong)
qed

text \<open>What the program asks for, for each of its commands.\<close>

definition prompt :: history where "prompt = map (Write 2) (chars ''> '')"

lemma word_cmds: "word (chars ''list'')" "word (chars ''kill'')" "word (chars ''execute'')" "word (chars ''memlim'')" "word (chars ''exit'')"
  by (simp_all add: word_def chars_def)

lemma served_writes: "served other s (h @ map (Write fd) bs) = served other s h"
  by (induction bs arbitrary: h) (simp_all add: served_def serve_def)

lemma served_snoc: "served other s (h @ [r]) = snd (serve other r (served other s h))"
  by (simp add: served_def)

lemma answers_snoc: "kernel_answers other s (h @ [r]) = fst (serve other r (served other s h))"
  by (simp add: kernel_answers_def)

lemma round_args:
  assumes "frame_ok fr" "word w" "length w < 10" "\<forall>c \<in> set args. c \<noteq> 10 \<and> c \<noteq> 13" "length args < 200"
  shows "\<exists>rest. length (w @ 32 # args @ 10 # rest) = nbuf \<and>
    pm_round k fr (w @ 32 # args @ 10 # inp) h =
      bindR (pm_command k fr (w @ 32 # args @ 10 # rest) (h @ prompt)) (\<lambda>(e, h). Inr (e, inp, h))"
proof -
  let ?l = "w @ 32 # args"
  have "length ?l < 249" "\<forall>c \<in> set ?l. c \<noteq> 10 \<and> c \<noteq> 13" using assms(2-5) by (auto simp: word_def)
  then have "pm_round k fr (?l @ 10 # inp) h =
      bindR (pm_command k fr (?l @ 10 # 0 # drop (length ?l + 2) (f_buf fr)) (h @ prompt)) (\<lambda>(e, h). Inr (e, inp, h))"
    unfolding prompt_def by (intro round_line [OF assms(1)])
  moreover have "length (?l @ 10 # 0 # drop (length ?l + 2) (f_buf fr)) = nbuf"
    using assms by (simp add: frame_ok_def nbuf_def)
  ultimately show ?thesis by (intro exI [of _ "0 # drop (length ?l + 2) (f_buf fr)"]) simp
qed

lemma dec_no_nl: "0 \<le> x \<Longrightarrow> \<forall>c \<in> set (dec x). c \<noteq> 10 \<and> c \<noteq> 13"
  using word_dec [of x] by (auto simp: word_def)

lemma round_kill:
  assumes "frame_ok fr" "0 \<le> pid" "pid < 2 ^ 31"
  shows "pm_round k fr (chars ''kill'' @ 32 # dec pid @ 10 # inp) h =
    (let h = h @ prompt @ map (Write 2) (chars ''KILL Process : '' @ dec pid @ [10]) @ [Kill pid]
     in Inr (Again, inp, h @ map (Write 2) (chars ''kill Process : '' @ dec pid @
          chars (if k h < 0 then '' failed'' else '' succeed'') @ [10])))"
proof -
  let ?w = "chars ''kill''"
  obtain r where r: "length (?w @ 32 # dec pid @ 10 # r) = nbuf"
    "pm_round k fr (?w @ 32 # dec pid @ 10 # inp) h =
      bindR (pm_command k fr (?w @ 32 # dec pid @ 10 # r) (h @ prompt)) (\<lambda>(e, h). Inr (e, inp, h))"
    using round_args [OF assms(1) word_cmds(2) _ dec_no_nl [OF assms(2)]] length_dec [OF assms(2,3)] by (force simp: chars_def)
  have "pm_command k fr (?w @ 32 # dec pid @ 10 # r) (h @ prompt) =
      pm_kill k fr (?w @ 32 # dec pid @ 10 # r) (length ?w + 1) (h @ prompt)"
    by (subst command_eq [OF assms(1) word_cmds(2) _ _ r(1)]) (simp_all add: chars_def)
  then show ?thesis
    using r pm_kill_line [where pre = "?w @ [32]", OF assms] by (simp add: Let_def)
qed

lemma round_memlim:
  assumes "frame_ok fr" "0 \<le> pid" "pid < 2 ^ 31" "0 \<le> n" "n < 2 ^ 31"
  shows "pm_round k fr (chars ''memlim'' @ 32 # dec pid @ 32 # dec n @ 10 # inp) h =
    (let h = h @ prompt @ [SetMemoryLimit pid n]
     in Inr (Again, inp, h @ map (Write 2) (chars ''set process '' @ dec pid @ [39] @ chars ''s memory limit : '' @ dec n @
          chars (if k h < 0 then '' failed'' else '' succeed'') @ [10])))"
proof -
  let ?w = "chars ''memlim''" let ?a = "dec pid @ 32 # dec n"
  have a: "\<forall>c \<in> set ?a. c \<noteq> 10 \<and> c \<noteq> 13" "length ?a < 200"
    using dec_no_nl [OF assms(2)] dec_no_nl [OF assms(4)] length_dec [OF assms(2,3)] length_dec [OF assms(4,5)] by auto
  obtain r where r: "length (?w @ 32 # ?a @ 10 # r) = nbuf"
    "pm_round k fr (?w @ 32 # ?a @ 10 # inp) h =
      bindR (pm_command k fr (?w @ 32 # ?a @ 10 # r) (h @ prompt)) (\<lambda>(e, h). Inr (e, inp, h))"
    using round_args [OF assms(1) word_cmds(4) _ a] by (force simp: chars_def)
  have "pm_command k fr (?w @ 32 # ?a @ 10 # r) (h @ prompt) =
      pm_memlim k fr (?w @ 32 # ?a @ 10 # r) (length ?w + 1) (h @ prompt)"
    by (subst command_eq [OF assms(1) word_cmds(4) _ _ r(1)]) (simp_all add: chars_def)
  then show ?thesis
    using r pm_memlim_line [where pre = "?w @ [32]", OF assms] by (simp add: Let_def)
qed

lemma round_list:
  assumes "frame_ok fr"
  shows "pm_round k fr (chars ''list'' @ 10 # inp) h = Inr (Again, inp, h @ prompt @ [ProcInfo])"
proof -
  let ?w = "chars ''list''" let ?r = "0 # drop (length ?w + 2) (f_buf fr)"
  have "pm_round k fr (?w @ 10 # inp) h = bindR (pm_command k fr (?w @ 10 # ?r) (h @ prompt)) (\<lambda>(e, h). Inr (e, inp, h))"
    unfolding prompt_def by (rule round_line [OF assms]) (simp_all add: chars_def)
  moreover have "length (?w @ 10 # ?r) = nbuf" using assms by (simp add: frame_ok_def nbuf_def chars_def)
  ultimately show ?thesis
    by (subst (asm) command_eq [OF assms word_cmds(1)]) (simp_all add: chars_def Let_def)
qed

text \<open>C15: a line typed at the process manager does in the kernel what it says, whatever bytes the arrays of the program held before: \<open>memlim\<close>
  sets the limit by \<open>setmemorylimit\<close>, \<open>kill\<close> kills the process, \<open>list\<close> prints the table; the number the kernel gets is the one that was typed, the message tells whether the
  call succeeded, and the program waits for the next line.\<close>

theorem pmanager_obeys:
  assumes "frame_ok fr" "0 \<le> pid" "pid < 2 ^ 31" "0 \<le> n" "n < 2 ^ 31"
    and t: "t = served other s h"
  shows "(\<exists>h1. pm_round (kernel_answers other s) fr (chars ''memlim'' @ 32 # dec pid @ 32 # dec n @ 10 # inp) h =
        Inr (Again, inp, h1 @ map (Write 2) (chars (if fst (setmemorylimit pid n t) < 0 then '' failed'' else '' succeed'') @ [10])) \<and>
      served other s h1 = snd (setmemorylimit pid n t)) \<and>
    (\<exists>h1. pm_round (kernel_answers other s) fr (chars ''kill'' @ 32 # dec pid @ 10 # inp) h =
        Inr (Again, inp, h1 @ map (Write 2) (chars (if fst (kill pid t) < 0 then '' failed'' else '' succeed'') @ [10])) \<and>
      served other s h1 = snd (kill pid t)) \<and>
    (\<exists>h1. pm_round (kernel_answers other s) fr (chars ''list'' @ 10 # inp) h = Inr (Again, inp, h1) \<and>
      (procInfo t = Some t' \<longrightarrow> served other s h1 = t'))"
proof (intro conjI)
  have p: "served other s (h @ prompt) = t" by (simp add: prompt_def served_writes t)
  let ?k = "kernel_answers other s"
  let ?h = "h @ prompt @ [SetMemoryLimit pid n]"
  have k: "?k ?h = fst (setmemorylimit pid n t)" "served other s ?h = snd (setmemorylimit pid n t)"
    using answers_snoc [of other s "h @ prompt"] served_snoc [of other s "h @ prompt"] p by (simp_all add: serve_def)
  show "\<exists>h1. pm_round ?k fr (chars ''memlim'' @ 32 # dec pid @ 32 # dec n @ 10 # inp) h =
        Inr (Again, inp, h1 @ map (Write 2) (chars (if fst (setmemorylimit pid n t) < 0 then '' failed'' else '' succeed'') @ [10])) \<and>
      served other s h1 = snd (setmemorylimit pid n t)"
    by (intro exI [of _ "?h @ map (Write 2) (chars ''set process '' @ dec pid @ [39] @ chars ''s memory limit : '' @ dec n)"])
      (simp only: round_memlim [OF assms(1-5)] Let_def k served_writes, simp)
  let ?g = "h @ prompt @ map (Write 2) (chars ''KILL Process : '' @ dec pid @ [10]) @ [Kill pid]"
  have g: "?k ?g = fst (kill pid t)" "served other s ?g = snd (kill pid t)"
    using answers_snoc [of other s "(h @ prompt) @ map (Write 2) (chars ''KILL Process : '' @ dec pid @ [10])"]
      served_snoc [of other s "(h @ prompt) @ map (Write 2) (chars ''KILL Process : '' @ dec pid @ [10])"]
    unfolding served_writes p by (simp_all add: serve_def)
  show "\<exists>h1. pm_round ?k fr (chars ''kill'' @ 32 # dec pid @ 10 # inp) h =
        Inr (Again, inp, h1 @ map (Write 2) (chars (if fst (kill pid t) < 0 then '' failed'' else '' succeed'') @ [10])) \<and>
      served other s h1 = snd (kill pid t)"
    by (intro exI [of _ "?g @ map (Write 2) (chars ''kill Process : '' @ dec pid)"])
      (simp only: round_kill [OF assms(1-3)] Let_def g served_writes, simp)
  show "\<exists>h1. pm_round ?k fr (chars ''list'' @ 10 # inp) h = Inr (Again, inp, h1) \<and> (procInfo t = Some t' \<longrightarrow> served other s h1 = t')"
    using served_snoc [of other s "h @ prompt"] p by (simp add: round_list [OF assms(1)] serve_def)
qed

definition some_frame :: frame where
  "some_frame = \<lparr>f_buf = replicate 250 65, f_argv = replicate 10 65, f_cmd = replicate 10 65, f_cpid = replicate 20 65,
     f_cstacksz = replicate 20 65, f_cmemlim = replicate 20 65, f_cpath = replicate 55 65, f_path_at = 8192\<rparr>"

lemma some_frame_ok: "frame_ok some_frame"
  by (simp add: frame_ok_def some_frame_def nbuf_def)

definition seven :: "kmem \<Rightarrow> tk" where
  "seven m = (boot_tk m)\<lparr>tprocs := no_proc\<lparr>t_pid := 7, t_state := SLEEPING\<rparr> # replicate 63 no_proc\<rparr>"

theorem pmanager_obeys_witness:
  "\<forall>m other. \<exists>h1. pm_round (kernel_answers other (seven m)) some_frame (chars ''memlim'' @ 32 # dec 7 @ 32 # dec 65536 @ 10 # []) [] =
      Inr (Again, [], h1 @ map (Write 2) (chars '' succeed'' @ [10])) \<and>
      t_memlimit (tprocs (served other (seven m) h1) ! 0) = 65536"
proof (intro allI)
  fix m other
  have t: "seven m = served other (seven m) []" by (simp add: served_def)
  have "fst (setmemorylimit 7 65536 (seven m)) = 0" "t_memlimit (tprocs (snd (setmemorylimit 7 65536 (seven m))) ! 0) = 65536"
    by (simp_all add: setmemorylimit_def seven_def boot_tk_def no_proc_def upd_t_def)
  moreover obtain h1 where "pm_round (kernel_answers other (seven m)) some_frame (chars ''memlim'' @ 32 # dec 7 @ 32 # dec 65536 @ 10 # []) [] =
      Inr (Again, [], h1 @ map (Write 2) (chars (if fst (setmemorylimit 7 65536 (seven m)) < 0 then '' failed'' else '' succeed'') @ [10]))"
    "served other (seven m) h1 = snd (setmemorylimit 7 65536 (seven m))"
    using pmanager_obeys [OF some_frame_ok _ _ _ _ t, of 7 65536 "[]"] by auto
  ultimately show "\<exists>h1. pm_round (kernel_answers other (seven m)) some_frame (chars ''memlim'' @ 32 # dec 7 @ 32 # dec 65536 @ 10 # []) [] =
      Inr (Again, [], h1 @ map (Write 2) (chars '' succeed'' @ [10])) \<and>
      t_memlimit (tprocs (served other (seven m) h1) ! 0) = 65536"
    by (intro exI [of _ h1]) simp
qed

text \<open>\<open>execute\<close>: the process that starts the program is the grandchild, its parent leaves at once, and
  the process manager reaps the child and goes on.\<close>

lemma round_execute:
  assumes "frame_ok fr" "word path" "length path < 55" "0 \<le> n" "n < 2 ^ 31"
  shows "pm_round k fr (chars ''execute'' @ 32 # path @ 32 # dec n @ 10 # inp) h =
    bindR (fork1 k (h @ prompt) (\<lambda>pid h.
      if pid = 0
      then fork1 k h (\<lambda>pid h.
        if pid = 0
        then let h = h @ [Exec2 (path @ 0 # drop (length path + 1) (f_cpath fr)) ((f_argv fr)[0 := f_path_at fr]) n]
             in if k h = -1
                then Inr (Ended, h @ map (Write 2) (chars ''EXECUTE Process in '' @ path @ chars '' failed'' @ [10]) @ [Exit])
                else Inr (Replaced, h)
        else Inr (Ended, h @ [Exit]))
      else Inr (Again, h @ [Wait]))) (\<lambda>(e, h). Inr (e, inp, h))"
proof -
  let ?w = "chars ''execute''" let ?a = "path @ 32 # dec n"
  have a: "\<forall>c \<in> set ?a. c \<noteq> 10 \<and> c \<noteq> 13" "length ?a < 200"
    using dec_no_nl [OF assms(4)] length_dec [OF assms(4,5)] assms(2,3) by (auto simp: word_def)
  obtain r where r: "length (?w @ 32 # ?a @ 10 # r) = nbuf"
    "pm_round k fr (?w @ 32 # ?a @ 10 # inp) h =
      bindR (pm_command k fr (?w @ 32 # ?a @ 10 # r) (h @ prompt)) (\<lambda>(e, h). Inr (e, inp, h))"
    using round_args [OF assms(1) word_cmds(3) _ a] by (force simp: chars_def)
  have "pm_command k fr (?w @ 32 # ?a @ 10 # r) (h @ prompt) =
      pm_execute k fr (?w @ 32 # ?a @ 10 # r) (length ?w + 1) (h @ prompt)"
    by (subst command_eq [OF assms(1) word_cmds(3) _ _ r(1)]) (simp_all add: chars_def)
  then show ?thesis
    using r pm_execute_line [where pre = "?w @ [32]", OF assms] by simp
qed

section \<open>Where the program fails\<close>

text \<open>Only \<open>argv[0]\<close> is set: \<open>exec2\<close> gets an array whose other nine pointers are what the stack held, with no
  end mark unless there happened to be one.\<close>

theorem exec2_argv_garbage:
  assumes "frame_ok fr" "word path" "length path < 55" "0 \<le> n" "n < 2 ^ 31" "\<And>h. k (h @ [Fork]) = 0"
  shows "\<exists>e h1 argv rest. pm_round k fr (chars ''execute'' @ 32 # path @ 32 # dec n @ 10 # inp) h
      = Inr (e, inp, h1 @ Exec2 (path @ 0 # drop (length path + 1) (f_cpath fr)) argv n # rest) \<and>
    tl argv = tl (f_argv fr)"
proof -
  let ?h = "((h @ prompt) @ [Fork]) @ [Fork]"
  let ?e = "Exec2 (path @ 0 # drop (length path + 1) (f_cpath fr)) ((f_argv fr)[0 := f_path_at fr]) n"
  have f: "fork1 k h' f = f 0 (h' @ [Fork])" for h' f by (simp add: fork1_def assms(6))
  let ?r = "map (Write 2) (chars ''EXECUTE Process in '' @ path @ chars '' failed'' @ [10]) @ [Exit]"
  have "pm_round k fr (chars ''execute'' @ 32 # path @ 32 # dec n @ 10 # inp) h =
      (if k (?h @ [?e]) = -1 then Inr (Ended, inp, ?h @ ?e # ?r) else Inr (Replaced, inp, ?h @ ?e # []))"
    unfolding round_execute [OF assms(1-5)] f Let_def by simp
  moreover have "tl ((f_argv fr)[0 := f_path_at fr]) = tl (f_argv fr)" by (cases "f_argv fr") simp_all
  ultimately show ?thesis by (cases "k (?h @ [?e]) = -1") (metis (no_types, lifting))+
qed

text \<open>A command of ten characters or more runs over the end of \<open>cmd[10]\<close>.\<close>

theorem long_command_overruns:
  assumes "frame_ok fr" "word w" "10 \<le> length w" "length w < 249"
  shows "pm_round k fr (w @ 10 # inp) h = Inl (Overrun ''strSplit: str'')"
proof -
  let ?r = "0 # drop (length w + 2) (f_buf fr)"
  have "length (w @ 10 # ?r) = nbuf" using assms by (simp add: frame_ok_def nbuf_def)
  then have "strSplit (f_cmd fr) (w @ 10 # ?r) 0 = Inl (Overrun ''strSplit: str'')"
    using command_word [OF assms(1,2) _ refl, of 10 ?r] assms(3) by simp
  then show ?thesis
    using round_line [OF assms(1) _ assms(4), of k inp h] assms(2) by (simp add: word_def pm_command_def)
qed

text \<open>At the end of the input the program goes on for ever: \<open>gets\<close> leaves an empty string, which is no
  command.\<close>

lemma split_loop_keeps:
  "split_loop str buf idx i st = Inr (str', j) \<Longrightarrow> 0 < st \<Longrightarrow> str' ! 0 = str ! 0 \<and> length str' = length str"
proof (induction str buf idx i st rule: split_loop.induct)
  case (1 str buf idx i st)
  show ?case
  proof (cases "i < nbuf \<and> i < length buf \<and> st < length str \<and> \<not> (buf ! i = 32 \<or> buf ! i = 10)")
    case True
    then have "split_loop (str[st := buf ! i]) buf idx (i + 1) (st + 1) = Inr (str', j)"
      using "1.prems"(1) by (simp add: split_loop.simps [of str buf idx i])
    then show ?thesis using "1.IH" True "1.prems"(2) by simp
  next
    case False
    then show ?thesis using "1.prems"
      by (subst (asm) split_loop.simps) (auto simp: guardR_eq_Inr split: if_splits)
  qed
qed

lemma eof_round:
  assumes "frame_ok fr" "pm_round k fr [] h = Inr (e, inp, h')"
  shows "e = Again \<and> inp = []"
proof -
  let ?buf = "(f_buf fr)[0 := 0]"
  have g: "gets (f_buf fr) nbuf [] = Inr (?buf, [])"
    using assms(1) by (simp add: gets_def gets_loop.simps frame_ok_def nbuf_def)
  obtain h1 where c: "pm_command k fr ?buf h1 = Inr (e, h')" "inp = []"
    using assms(2) by (auto simp: pm_round_def g bindR_eq_Inr)
  then obtain cmd idx where s: "strSplit (f_cmd fr) ?buf 0 = Inr (cmd, idx)" "0 \<in> set cmd"
    by (auto simp: pm_command_def bindR_eq_Inr guardR_eq_Inr)
  have b: "0 < length (f_buf fr)" "0 < length (f_cmd fr)" using assms(1) by (simp_all add: frame_ok_def nbuf_def)
  then have "split_loop ((f_cmd fr)[0 := 0]) ?buf 0 1 1 = Inr (cmd, idx)"
    using s(1) by (simp add: strSplit_def split_loop.simps [of "f_cmd fr" ?buf 0 0] nbuf_def)
  then have "cmd ! 0 = 0 \<and> length cmd = length (f_cmd fr)" using split_loop_keeps b by fastforce
  then have e0: "c_str cmd = []" using b by (cases cmd) (auto simp: c_str_Cons)
  have "strcmp cmd (chars ''list'') \<noteq> 0" "strcmp cmd (chars ''kill'') \<noteq> 0" "strcmp cmd (chars ''execute'') \<noteq> 0"
    "strcmp cmd (chars ''memlim'') \<noteq> 0" "strcmp cmd (chars ''exit'') \<noteq> 0"
    unfolding strcmp_eq e0 by (simp_all add: chars_def c_str_Cons)
  then show ?thesis using c s by (auto simp: pm_command_def bindR_eq_Inr)
qed

theorem eof_never_ends:
  assumes "\<forall>fr \<in> set frs. frame_ok fr" "pm_loop k frs [] h = Inr (e, inp, h')"
  shows "e = Again \<and> inp = []"
  using assms
proof (induction frs arbitrary: h)
  case (Cons fr frs)
  then obtain e1 inp1 h1 where 1: "pm_round k fr [] h = Inr (e1, inp1, h1)"
    "(if e1 = Again then pm_loop k frs inp1 h1 else Inr (e1, inp1, h1)) = Inr (e, inp, h')"
    by (auto simp: bindR_eq_Inr)
  then show ?case using eof_round [of fr k h e1 inp1 h1] Cons.IH [of h1] Cons.prems(1) by simp
qed simp

end
