(* ===== verification/Malloc.thy ===== *)
theory Malloc
  imports Kernel_Prelude
begin

text \<open>
  The allocator of the user library, umalloc.c (the same file in the three projects): a circular list of
  free blocks in the order of their addresses, searched first fit from \<open>freep\<close>, with
  neighbours joined by \<open>free\<close>. An address is a natural number; a header takes 8 bytes, and the memory at every
  address is seen as the two fields of a header. Blocks are disjoint pieces of a memory below \<open>2 ^ 31\<close>, so the sums of
  sizes and addresses do not wrap; what the caller passes may, and is kept at 32 bits. A loop that does not end has the value \<open>None\<close>. Whether
  the kernel grants a request of \<open>sbrk\<close> is an argument.
\<close>

section \<open>The program\<close>

record mheap =
  hptr :: "nat \<Rightarrow> nat"
  hsize :: "nat \<Rightarrow> nat"
  freep :: nat
  brk :: nat

definition set_ptr :: "nat \<Rightarrow> nat \<Rightarrow> mheap \<Rightarrow> mheap" where
  "set_ptr p v h = h\<lparr>hptr := (hptr h)(p := v)\<rparr>"

definition set_size :: "nat \<Rightarrow> nat \<Rightarrow> mheap \<Rightarrow> mheap" where
  "set_size p v h = h\<lparr>hsize := (hsize h)(p := v)\<rparr>"

partial_function (option) free_loop :: "mheap \<Rightarrow> nat \<Rightarrow> nat \<Rightarrow> nat option" where
  "free_loop h bp p =
     (if bp > p \<and> bp < hptr h p then Some p
      else if p \<ge> hptr h p \<and> (bp > p \<or> bp < hptr h p) then Some p
      else free_loop h bp (hptr h p))"

definition free_join :: "nat \<Rightarrow> nat \<Rightarrow> mheap \<Rightarrow> mheap" where
  "free_join bp p h =
     (let n = hptr h p;
          h = (if bp + 8 * hsize h bp = n
               then set_ptr bp (hptr h n) (set_size bp (hsize h bp + hsize h n) h)
               else set_ptr bp n h);
          h = (if p + 8 * hsize h p = bp
               then set_ptr p (hptr h bp) (set_size p (hsize h p + hsize h bp) h)
               else set_ptr p bp h)
      in h\<lparr>freep := p\<rparr>)"

definition free :: "nat \<Rightarrow> mheap \<Rightarrow> mheap option" where
  "free ap h = (let bp = ap - 8 in Option.bind (free_loop h bp (freep h)) (\<lambda>p. Some (free_join bp p h)))"

definition sbrk :: "(int \<Rightarrow> nat \<Rightarrow> bool) \<Rightarrow> int \<Rightarrow> mheap \<Rightarrow> nat option \<times> mheap" where
  "sbrk grow n h = (if grow n (brk h) then (Some (brk h), h\<lparr>brk := nat (int (brk h) + n)\<rparr>) else (None, h))"

definition morecore :: "(int \<Rightarrow> nat \<Rightarrow> bool) \<Rightarrow> nat \<Rightarrow> mheap \<Rightarrow> (nat \<times> mheap) option" where
  "morecore grow nu h =
     (let nu = (if nu < 4096 then 4096 else nu);
          (p, h) = sbrk grow (int_of_uint (wrap32 (nu * 8))) h
      in case p of
           None \<Rightarrow> Some (0, h)
         | Some hp \<Rightarrow> Option.bind (free (hp + 8) (set_size hp nu h)) (\<lambda>h. Some (freep h, h)))"

definition take_block :: "nat \<Rightarrow> nat \<Rightarrow> nat \<Rightarrow> mheap \<Rightarrow> nat \<times> mheap" where
  "take_block nunits prevp p h =
     (if hsize h p = nunits then (p + 8, (set_ptr prevp (hptr h p) h)\<lparr>freep := prevp\<rparr>)
      else let rest = hsize h p - nunits;
               q = p + 8 * rest
           in (q + 8, (set_size q nunits (set_size p rest h))\<lparr>freep := prevp\<rparr>))"

partial_function (option) malloc_loop :: "(int \<Rightarrow> nat \<Rightarrow> bool) \<Rightarrow> nat \<Rightarrow> nat \<Rightarrow> nat \<Rightarrow> mheap \<Rightarrow> (nat \<times> mheap) option" where
  "malloc_loop grow nunits prevp p h =
     (if hsize h p \<ge> nunits then Some (take_block nunits prevp p h)
      else if p = freep h
      then Option.bind (morecore grow nunits h) (\<lambda>(p, h).
             if p = 0 then Some (0, h) else malloc_loop grow nunits p (hptr h p) h)
      else malloc_loop grow nunits p (hptr h p) h)"

definition malloc :: "(int \<Rightarrow> nat \<Rightarrow> bool) \<Rightarrow> nat \<Rightarrow> nat \<Rightarrow> mheap \<Rightarrow> (nat \<times> mheap) option" where
  "malloc grow base nbytes h =
     (let nunits = wrap32 (nbytes + 7) div 8 + 1;
          h = (if freep h = 0 then (set_size base 0 (set_ptr base base h))\<lparr>freep := base\<rparr> else h)
      in malloc_loop grow nunits (freep h) (hptr h (freep h)) h)"

section \<open>The free list\<close>

text \<open>A block is its address and its size in units of 8 bytes. The free list is a list of blocks that starts with
  \<open>(base, 0)\<close>; its addresses increase, with a gap between any two blocks.\<close>

type_synonym block = "nat \<times> nat"

fun path :: "(nat \<Rightarrow> nat) \<Rightarrow> nat list \<Rightarrow> nat \<Rightarrow> bool" where
  "path f [] z = True"
| "path f (a # as) z = (f a = hd (as @ [z]) \<and> path f as z)"

definition links :: "mheap \<Rightarrow> block list \<Rightarrow> bool" where
  "links h bs \<longleftrightarrow> path (hptr h) (map fst bs) (fst (hd bs)) \<and> (\<forall>b \<in> set bs. hsize h (fst b) = snd b)"

definition gap :: "block \<Rightarrow> block \<Rightarrow> bool" where
  "gap b c \<longleftrightarrow> fst b + 8 * snd b < fst c"

definition cells :: "block \<Rightarrow> nat set" where
  "cells b = {fst b ..< fst b + 8 * snd b}"

text \<open>A block put in front of a list, joined with the first block if it touches it.\<close>

fun join :: "block \<Rightarrow> block list \<Rightarrow> block list" where
  "join b [] = [b]"
| "join (a, s) ((c, t) # bs) = (if a + 8 * s = c then (a, s + t) # bs else (a, s) # (c, t) # bs)"

lemma path_append: "path f (xs @ ys) z = (path f xs (hd (ys @ [z])) \<and> path f ys z)"
  by (induction xs) (auto simp: hd_append)

lemma path_upd [simp]: "q \<notin> set ns \<Longrightarrow> path (f(q := v)) ns z = path f ns z"
  by (induction ns) auto

lemma path_nth:
  "path f ns z \<Longrightarrow> i < length ns \<Longrightarrow> f (ns ! i) = (if Suc i < length ns then ns ! Suc i else z)"
proof (induction ns arbitrary: i)
  case (Cons a ns)
  then show ?case by (cases i; cases ns) auto
qed simp

lemma join_cells: "\<Union> (cells ` set (join b bs)) = cells b \<union> \<Union> (cells ` set bs)"
proof (cases "(b, bs)" rule: join.cases)
  case (2 a s c t cs)
  have "cells (a, s + t) = cells (a, s) \<union> cells (c, t)" if "a + 8 * s = c"
    using that by (auto simp: cells_def)
  then show ?thesis using 2 by auto
qed simp

lemma hd_join: "fst (hd (join b bs)) = fst b" and join_not_Nil [simp]: "join b bs \<noteq> []"
  by (cases "(b, bs)" rule: join.cases; simp)+

lemma path_next:
  assumes "path f ns (hd ns)" "i < length ns"
  shows "f (ns ! i) = ns ! (Suc i mod length ns)"
proof (cases "Suc i < length ns")
  case False
  then have "Suc i = length ns" using assms(2) by simp
  then show ?thesis using path_nth [OF assms] hd_conv_nth [of ns] assms(2) by (cases ns) auto
qed (use path_nth [OF assms] in simp)

text \<open>The loop of \<open>free\<close> ends from every node of the list, at the last one below the block.\<close>

lemma free_loop_finds:
  assumes p: "path (hptr h) (xs @ p # ys) (hd (xs @ [p]))" and s: "sorted_wrt (<) (xs @ p # ys)"
    and b: "p < bp" "\<forall>y \<in> set ys. bp < y" and i: "q \<in> set (xs @ p # ys)"
  shows "free_loop h bp q = Some p"
proof -
  let ?ns = "xs @ p # ys" let ?n = "length ?ns"
  have first: "?ns ! 0 = hd (xs @ [p])" "?ns ! 0 < bp"
    using s b(1) by (cases xs; simp add: sorted_wrt_append)+
  have nxt: "hptr h (?ns ! i) = ?ns ! (Suc i mod ?n)" if "i < ?n" for i
    by (rule path_next [OF _ that]) (use p in \<open>cases xs; simp\<close>)
  have mono: "?ns ! i < ?ns ! j" if "i < j" "j < ?n" for i j
    using s that by (simp add: sorted_wrt_iff_nth_less)
  have at: "?ns ! length xs = p" by simp
  have above: "bp < ?ns ! i" if "length xs < i" "i < ?n" for i
    using b(2) that by (simp add: nth_append nth_Cons')
  have stop: "free_loop h bp p = Some p"
  proof (cases ys)
    case Nil
    then have "hptr h p = ?ns ! 0" using nxt [of "length xs"] at by simp
    moreover have "?ns ! 0 \<le> p" using mono [of 0 "length xs"] at Nil by (cases "length xs") auto
    ultimately show ?thesis using b(1) by (subst free_loop.simps) simp
  next
    case (Cons y ys')
    then have "hptr h p = y" using nxt [of "length xs"] at by (simp add: nth_append)
    then show ?thesis using b Cons by (subst free_loop.simps) simp
  qed
  have go: "free_loop h bp (?ns ! i) = free_loop h bp (?ns ! (Suc i mod ?n))" if i: "i < ?n" "i \<noteq> length xs" for i
  proof (cases "Suc i < ?n")
    case True
    then have n: "hptr h (?ns ! i) = ?ns ! Suc i" using nxt [OF i(1)] by simp
    have "\<not> (?ns ! i < bp \<and> bp < ?ns ! Suc i)"
    proof (cases "i < length xs")
      case True
      then have "?ns ! Suc i \<le> p" using mono [of "Suc i" "length xs"] at by (cases "Suc i = length xs") auto
      then show ?thesis using b(1) by simp
    qed (use above [of i] i in simp)
    then show ?thesis using mono [of i "Suc i"] True n by (subst free_loop.simps) auto
  next
    case False
    then have l: "Suc i = ?n" using i(1) by simp
    then have n: "hptr h (?ns ! i) = ?ns ! 0" using nxt [OF i(1)] by simp
    have "bp < ?ns ! i" using above [of i] i l by simp
    then show ?thesis using n l first(2) by (subst free_loop.simps) simp
  qed
  have "free_loop h bp (?ns ! i) = Some p" if "i < ?n" "(i + d) mod ?n = length xs" for i d
    using that
  proof (induction d arbitrary: i)
    case (Suc d)
    show ?case
    proof (cases "i = length xs")
      case False
      have "Suc i mod ?n < ?n" by simp
      moreover have "(Suc i mod ?n + d) mod ?n = length xs" using Suc.prems(2) by (simp add: mod_add_left_eq)
      ultimately show ?thesis using Suc.IH [of "Suc i mod ?n"] go [OF Suc.prems(1) False] by simp
    qed (use stop at in simp)
  qed (use stop at in simp)
  moreover obtain i where j: "i < ?n" "?ns ! i = q" using i by (metis in_set_conv_nth)
  moreover have "(i + (?n + length xs - i)) mod ?n = length xs"
  proof -
    have "i + (?n + length xs - i) = length xs + ?n" using j(1) by simp
    moreover have "(length xs + ?n) mod ?n = length xs" unfolding mod_add_self2 by simp
    ultimately show ?thesis by presburger
  qed
  ultimately show ?thesis by blast
qed

text \<open>What the joining in \<open>free\<close> does to the list, one side at a time.\<close>

lemma path_cong: "\<forall>q \<in> set ns. f q = g q \<Longrightarrow> path f ns z = path g ns z"
  by (induction ns) auto

definition attach :: "nat \<Rightarrow> nat \<Rightarrow> mheap \<Rightarrow> mheap" where
  "attach a n h = (if a + 8 * hsize h a = n
     then set_ptr a (hptr h n) (set_size a (hsize h a + hsize h n) h) else set_ptr a n h)"

lemma free_join_eq: "free_join bp p h = (attach p bp (attach bp (hptr h p) h))\<lparr>freep := p\<rparr>" if "p \<noteq> bp"
  using that by (simp add: free_join_def attach_def Let_def)

lemma attach_other: "q \<noteq> a \<Longrightarrow> hptr (attach a n h) q = hptr h q \<and> hsize (attach a n h) q = hsize h q"
  by (simp add: attach_def set_ptr_def set_size_def)

lemma attach_links:
  assumes "path (hptr h) (map fst ys) z" "\<forall>b \<in> set ys. hsize h (fst b) = snd b" "hsize h a = s"
    "a \<notin> fst ` set ys" "ys = [] \<longrightarrow> a + 8 * s \<noteq> z" "n = hd (map fst ys @ [z])"
  shows "path (hptr (attach a n h)) (map fst (join (a, s) ys)) z \<and>
    (\<forall>b \<in> set (join (a, s) ys). hsize (attach a n h) (fst b) = snd b)"
proof (cases ys)
  case Nil
  then show ?thesis using assms by (simp add: attach_def set_ptr_def)
next
  case (Cons y cs)
  then obtain c u where y: "ys = (c, u) # cs" by (cases y) auto
  have a: "a \<notin> set (map fst cs)" "a \<noteq> c" using assms(4) y by (auto simp: image_iff)
  have f: "\<forall>b \<in> set cs. fst b \<noteq> a" using a(1) by auto
  show ?thesis
    using assms a f by (simp add: y attach_def set_ptr_def set_size_def)
qed

lemma join_addrs: "fst ` set (join b bs) \<subseteq> insert (fst b) (fst ` set bs)"
  by (cases "(b, bs)" rule: join.cases) auto

lemma free_join_links:
  assumes l: "links h (xs @ (p, s) # ys)" and d: "distinct (map fst (xs @ (p, s) # ys))"
    and bp: "bp \<notin> fst ` set (xs @ (p, s) # ys)" "hsize h bp = t" "p < bp"
    and base: "bp + 8 * t \<noteq> fst (hd (xs @ [(p, s)]))"
  shows "links (free_join bp p h) (xs @ join (p, s) (join (bp, t) ys))"
proof -
  let ?z = "fst (hd (xs @ [(p, s)]))" let ?j = "join (bp, t) ys"
  let ?h1 = "attach bp (hptr h p) h" let ?h2 = "attach p bp ?h1"
  have z: "fst (hd (xs @ (p, s) # ys)) = ?z" "fst (hd (xs @ join (p, s) ?j)) = ?z"
    using hd_join [of "(p, s)" ?j] by (cases xs; simp)+
  have l': "path (hptr h) (map fst xs) p" "hptr h p = hd (map fst ys @ [?z])" "path (hptr h) (map fst ys) ?z"
    "hsize h p = s" "\<forall>b \<in> set xs. hsize h (fst b) = snd b" "\<forall>b \<in> set ys. hsize h (fst b) = snd b"
    using l unfolding links_def z(1) by (auto simp: path_append)
  have n: "p \<notin> fst ` set ys" "p \<notin> fst ` set xs" "bp \<notin> fst ` set ys" "bp \<notin> fst ` set xs" "p \<noteq> bp"
    using d bp by auto
  have 1: "path (hptr ?h1) (map fst ?j) ?z" "\<forall>b \<in> set ?j. hsize ?h1 (fst b) = snd b"
    using attach_links [of h ys ?z bp t "hptr h p"] l' bp base n by auto
  have "p \<notin> fst ` set ?j" using join_addrs [of "(bp, t)" ys] n by auto
  moreover have "hsize ?h1 p = s" using attach_other [of p bp] n l' by simp
  moreover have "bp = hd (map fst ?j @ [?z])" using hd_join [of "(bp, t)" ys] by (cases ?j) auto
  ultimately have 2: "path (hptr ?h2) (map fst (join (p, s) ?j)) ?z"
      "\<forall>b \<in> set (join (p, s) ?j). hsize ?h2 (fst b) = snd b"
    using attach_links [of ?h1 ?j ?z p s bp] 1 by auto
  have x: "hptr ?h2 (fst b) = hptr h (fst b)" "hsize ?h2 (fst b) = hsize h (fst b)" if "b \<in> set xs" for b
  proof -
    have "fst b \<noteq> p" "fst b \<noteq> bp" using that n by auto
    then show "hptr ?h2 (fst b) = hptr h (fst b)" "hsize ?h2 (fst b) = hsize h (fst b)" by (simp_all add: attach_other)
  qed
  have "path (hptr ?h2) (map fst xs) p"
    using l'(1) path_cong [of "map fst xs" "hptr ?h2" "hptr h" p] x(1) by simp
  moreover have "hd (map fst (join (p, s) ?j) @ [?z]) = p" using hd_join [of "(p, s)" ?j] by (cases "join (p, s) ?j") auto
  ultimately show ?thesis unfolding links_def z(2) free_join_eq [OF n(5)]
    using 2 x(2) l'(5) by (auto simp: path_append)
qed

section \<open>The invariant\<close>

text \<open>\<open>bs\<close> are the free blocks behind \<open>(base, 0)\<close>, \<open>al\<close> the blocks the program holds.\<close>

definition area :: "block set \<Rightarrow> nat set" where "area B = \<Union> (cells ` B)"

definition minv :: "nat \<Rightarrow> mheap \<Rightarrow> block list \<Rightarrow> block set \<Rightarrow> bool" where
  "minv base h bs al \<longleftrightarrow> 0 < base \<and> base + 8 \<le> brk h \<and> links h ((base, 0) # bs) \<and> sorted_wrt gap ((base, 0) # bs) \<and>
     freep h \<in> insert base (fst ` set bs) \<and>
     (\<forall>b \<in> set bs \<union> al. 0 < snd b \<and> base + 8 \<le> fst b \<and> fst b + 8 * snd b \<le> brk h) \<and>
     (\<forall>b \<in> al. hsize h (fst b) = snd b) \<and> area (set bs) \<inter> area al = {} \<and>
     pairwise (\<lambda>b c. cells b \<inter> cells c = {}) al"

lemma gap_trans: "transp gap"
  by (auto simp: transp_def gap_def)

lemma area_simps [simp]: "area {} = {}" "area (insert b B) = cells b \<union> area B" "area (B \<union> C) = area B \<union> area C"
  by (auto simp: area_def)

lemma area_join: "area (set (join b bs)) = cells b \<union> area (set bs)"
  using join_cells by (simp add: area_def)

lemma cells_fst: "0 < snd b \<Longrightarrow> fst b \<in> cells b"
  by (simp add: cells_def)

lemma cells_0 [simp]: "cells (a, 0) = {}"
  by (simp add: cells_def)

lemma minv_block:
  "minv base h bs al \<Longrightarrow> b \<in> set bs \<union> al \<Longrightarrow> 0 < snd b \<and> base + 8 \<le> fst b \<and> fst b + 8 * snd b \<le> brk h"
  by (simp add: minv_def)

lemma cells_below: "cells b \<inter> cells c = {} \<Longrightarrow> 0 < snd c \<Longrightarrow> fst b < fst c \<Longrightarrow> fst b + 8 * snd b \<le> fst c"
  using cells_fst [of c] by (auto simp: cells_def)

text \<open>A sorted list is cut at every address that is not in it.\<close>

lemma cut_sorted:
  assumes "sorted_wrt gap bs" "bp \<notin> fst ` set bs"
  shows "\<exists>xs ys. bs = xs @ ys \<and> (\<forall>x \<in> set xs. fst x < bp) \<and> (\<forall>y \<in> set ys. bp < fst y)"
  using assms
proof (induction bs)
  case (Cons b bs)
  show ?case
  proof (cases "fst b < bp")
    case True
    then obtain xs ys where "bs = xs @ ys" "\<forall>x \<in> set xs. fst x < bp" "\<forall>y \<in> set ys. bp < fst y" using Cons by auto
    then show ?thesis using True by (intro exI [of _ "b # xs"] exI [of _ ys]) simp
  next
    case False
    then have "bp < fst b" using Cons.prems(2) by (auto simp: not_less order_less_le)
    moreover have "\<forall>c \<in> set bs. fst b < fst c" using Cons.prems(1) by (auto simp: gap_def)
    ultimately show ?thesis by (intro exI [of _ "[]"] exI [of _ "b # bs"]) auto
  qed
qed simp

lemma sorted_gap_less: "sorted_wrt gap bs \<Longrightarrow> sorted_wrt (<) (map fst bs)"
  by (induction bs) (auto simp: gap_def)

lemma sorted_join:
  assumes "sorted_wrt gap ys" "\<forall>y \<in> set ys. a + 8 * s \<le> fst y" "0 < s \<or> ys = [] \<or> a < fst (hd ys)"
    "\<forall>y \<in> set ys. 0 < snd y"
  shows "sorted_wrt gap (join (a, s) ys)"
proof (cases ys)
  case (Cons y cs)
  then obtain c u where y: "ys = (c, u) # cs" by (cases y) auto
  have "\<forall>b \<in> set cs. gap (a, s) b" if "a + 8 * s \<le> c" using assms(1) that by (auto simp: y gap_def)
  moreover have "gap (a, s + u) b" if "b \<in> set cs" "a + 8 * s = c" for b using assms(1) that by (auto simp: y gap_def)
  ultimately show ?thesis using assms y by (auto simp: gap_def)
qed simp

lemma join_base: "bs \<noteq> [] \<Longrightarrow> a < fst (hd bs) \<Longrightarrow> join (a, 0) bs = (a, 0) # bs"
  by (cases bs) auto

lemma join_low:
  assumes "\<forall>y \<in> set ys. k < fst y" "k < a"
  shows "\<forall>y \<in> set (join (a, s) ys). k < fst y"
  using assms join_addrs [of "(a, s)" ys] by fastforce

lemma join_size: "\<exists>d \<in> set (join b bs). snd b \<le> snd d" "c \<in> set bs \<Longrightarrow> \<exists>d \<in> set (join b bs). snd c \<le> snd d"
  by (cases "(b, bs)" rule: join.cases; auto)+

lemma join_all:
  assumes "\<forall>y \<in> set ys. P (fst y) (snd y)" "P a s" "\<And>u. P (a + 8 * s) u \<Longrightarrow> P a (s + u)"
  shows "\<forall>y \<in> set (join (a, s) ys). P (fst y) (snd y)"
  using assms by (cases "((a, s), ys)" rule: join.cases) auto

text \<open>A block put in its place in the list, joined with its neighbours.\<close>

lemma put_back:
  assumes so: "sorted_wrt gap ((base, 0) # bs)" and fl: "(base, 0) # bs = xs @ (p, s) # ys"
    and p: "p < bp" "\<forall>y \<in> set ys. bp < fst y" "base < bp" "0 < t"
    and bs: "\<forall>c \<in> set bs. 0 < snd c \<and> cells (bp, t) \<inter> cells c = {} \<and> fst c + 8 * snd c \<le> lim" "bp + 8 * t \<le> lim"
  shows "\<exists>bs'. xs @ join (p, s) (join (bp, t) ys) = (base, 0) # bs' \<and> sorted_wrt gap ((base, 0) # bs') \<and>
    area (set bs') = area (set bs) \<union> cells (bp, t) \<and> p \<in> insert base (fst ` set bs') \<and> (\<exists>d \<in> set bs'. t \<le> snd d) \<and>
    (\<forall>c \<in> set bs'. 0 < snd c \<and> fst c \<in> insert bp (fst ` set bs) \<and> fst c + 8 * snd c \<le> lim)"
proof -
  let ?j = "join (bp, t) ys" let ?fs = "xs @ join (p, s) ?j"
  have ysin: "y \<in> set bs" if "y \<in> set ys" for y
    using fl that p by (cases xs) auto
  have ps: "(p, s) = (base, 0) \<and> xs = [] \<or> (p, s) \<in> set bs \<and> xs \<noteq> [] \<and> hd xs = (base, 0)"
    using fl by (cases xs) auto
  have hi: "bp + 8 * t \<le> fst y" if "y \<in> set ys" for y
    using cells_below [of "(bp, t)" y] bs(1) ysin [OF that] p(2) that by auto
  have lo: "p + 8 * s \<le> bp"
    using ps cells_below [of "(p, s)" "(bp, t)"] bs(1) p by (auto simp: Int_commute)
  have so': "sorted_wrt gap (xs @ (p, s) # ys)" using so fl by simp
  then have sj: "sorted_wrt gap ?j"
    by (intro sorted_join) (use hi p(4) bs(1) ysin in \<open>auto simp: sorted_wrt_append\<close>)
  have jlo: "\<forall>y \<in> set ?j. bp \<le> fst y" using join_addrs [of "(bp, t)" ys] p(2) by fastforce
  have jall: "\<forall>y \<in> set ?j. 0 < snd y \<and> fst y + 8 * snd y \<le> lim"
    using join_all [of ys "\<lambda>a s. 0 < s \<and> a + 8 * s \<le> lim" bp t] bs ysin p(4) by auto
  have jlt: "p < fst (hd ?j)" "?j \<noteq> []" using p(1) by (simp_all add: hd_join)
  have sp: "sorted_wrt gap (join (p, s) ?j)"
    by (rule sorted_join [OF sj]) (use lo jlo jlt jall in \<open>auto intro: order_trans\<close>)
  have "gap x y" if "x \<in> set xs" "y \<in> set (join (p, s) ?j)" for x y
  proof -
    have "fst x + 8 * snd x < p" using so' that(1) by (auto simp: sorted_wrt_append gap_def)
    moreover have "p \<le> fst y" using join_addrs [of "(p, s)" ?j] that(2) jlo p(1) by fastforce
    ultimately show ?thesis by (simp add: gap_def)
  qed
  then have sfs: "sorted_wrt gap ?fs" using so' sp by (simp add: sorted_wrt_append)
  have ja: "fst c \<in> insert bp (fst ` set bs)" if "c \<in> set ?j" for c
    using join_addrs [of "(bp, t)" ys] that ysin by fastforce
  have "area (set ?fs) = area (set ((base, 0) # bs)) \<union> cells (bp, t)"
    unfolding fl by (auto simp: area_join)
  then have ar: "area (set bs') = area (set bs) \<union> cells (bp, t)" if "?fs = (base, 0) # bs'" for bs'
    unfolding that by simp
  have "\<exists>bs'. ?fs = (base, 0) # bs' \<and> p \<in> insert base (fst ` set bs') \<and>
    (\<forall>c \<in> set bs'. 0 < snd c \<and> fst c \<in> insert bp (fst ` set bs) \<and> fst c + 8 * snd c \<le> lim)"
    using ps
  proof (elim disjE conjE)
    assume "(p, s) = (base, 0)" "xs = []"
    then show ?thesis using join_base [OF jlt(2,1)] jall ja by auto
  next
    assume i: "(p, s) \<in> set bs" "xs \<noteq> []" "hd xs = (base, 0)"
    let ?bs = "tl xs @ join (p, s) ?j"
    have xin: "c \<in> set bs" if "c \<in> set (tl xs)" for c using fl i(2) that by (cases xs) auto
    have "0 < s \<and> p + 8 * s \<le> lim" using bs(1) i(1) by fastforce
    then have "\<forall>y \<in> set (join (p, s) ?j). 0 < snd y \<and> fst y + 8 * snd y \<le> lim"
      using join_all [of ?j "\<lambda>a s. 0 < s \<and> a + 8 * s \<le> lim" p s] jall by simp
    moreover have "fst c \<in> insert bp (fst ` set bs)" if "c \<in> set (join (p, s) ?j)" for c
      using join_addrs [of "(p, s)" ?j] that ja i(1) by (auto simp: image_iff) force
    moreover have "p \<in> fst ` set (join (p, s) ?j)"
      using hd_join [of "(p, s)" ?j] by (cases "join (p, s) ?j") auto
    moreover have "?fs = (base, 0) # ?bs" using i(2,3) by (cases xs) auto
    moreover have "\<forall>c \<in> set (tl xs). 0 < snd c \<and> fst c \<in> fst ` set bs \<and> fst c + 8 * snd c \<le> lim"
      using xin bs(1) by blast
    ultimately show ?thesis by (intro exI [of _ ?bs]) (simp add: ball_Un image_Un)
  qed
  then obtain bs' where "?fs = (base, 0) # bs'" "p \<in> insert base (fst ` set bs')"
    "\<forall>c \<in> set bs'. 0 < snd c \<and> fst c \<in> insert bp (fst ` set bs) \<and> fst c + 8 * snd c \<le> lim"
    by blast
  moreover obtain c where c: "c \<in> set ?j" "t \<le> snd c" using join_size(1) [of "(bp, t)" ys] by auto
  moreover obtain d where "d \<in> set ?fs" "t \<le> snd d"
    using join_size(2) [OF c(1), of "(p, s)"] c(2) by (metis Un_iff order_trans set_append)
  ultimately show ?thesis using sfs ar p(4) by (intro exI [of _ bs']) auto
qed

text \<open>\<open>free\<close> of a block the program holds.\<close>

lemma free_frees:
  assumes l: "links h ((base, 0) # bs)" "sorted_wrt gap ((base, 0) # bs)" "freep h \<in> insert base (fst ` set bs)"
    and b: "base < bp" "0 < t" "hsize h bp = t" "bp + 8 * t \<le> lim"
    and bs: "\<forall>c \<in> set bs. 0 < snd c \<and> cells (bp, t) \<inter> cells c = {} \<and> fst c + 8 * snd c \<le> lim"
  shows "\<exists>h' bs'. free (bp + 8) h = Some h' \<and> links h' ((base, 0) # bs') \<and> sorted_wrt gap ((base, 0) # bs') \<and>
    freep h' \<in> insert base (fst ` set bs') \<and> area (set bs') = area (set bs) \<union> cells (bp, t) \<and> (\<exists>d \<in> set bs'. t \<le> snd d) \<and>
    (\<forall>c \<in> set bs'. 0 < snd c \<and> fst c \<in> insert bp (fst ` set bs) \<and> fst c + 8 * snd c \<le> lim) \<and>
    (\<forall>q. q \<notin> insert bp (insert base (fst ` set bs)) \<longrightarrow> hsize h' q = hsize h q) \<and> brk h' = brk h"
proof -
  have "bp \<notin> fst ` set bs"
  proof
    assume "bp \<in> fst ` set bs"
    then obtain c where c: "c \<in> set bs" "fst c = bp" by auto
    then show False using bs cells_fst [of c] cells_fst [of "(bp, t)"] b(2) by auto
  qed
  then obtain xs ys where xy: "(base, 0) # bs = xs @ ys" "\<forall>x \<in> set xs. fst x < bp" "\<forall>y \<in> set ys. bp < fst y"
    using cut_sorted [OF l(2), of bp] b(1) by auto
  have "xs \<noteq> []" using xy(1,3) b(1) by (cases xs) auto
  then obtain xs' p s where xs: "xs = xs' @ [(p, s)]" by (metis append_butlast_last_id surj_pair)
  let ?fl = "xs' @ (p, s) # ys" let ?h = "free_join bp p h"
  have fl: "(base, 0) # bs = ?fl" using xy(1) xs by simp
  have hd: "fst (hd (xs' @ [(p, s)])) = base" using fl by (cases xs') auto
  have bnot: "bp \<notin> fst ` set ?fl" using \<open>bp \<notin> fst ` set bs\<close> b(1) unfolding fl [symmetric] by simp
  have pb: "p < bp" using xy(2) xs by simp
  have so: "sorted_wrt gap ?fl" "links h ?fl" using l fl by simp_all
  have "freep h \<in> fst ` set ((base, 0) # bs)" using l(3) by simp
  then have fp: "freep h \<in> set (map fst xs' @ p # map fst ys)" unfolding fl by (simp add: image_Un)
  have "path (hptr h) (map fst xs' @ p # map fst ys) (hd (map fst xs' @ [p]))"
    using so(2) by (cases xs') (simp_all add: links_def)
  then have f: "free (bp + 8) h = Some ?h"
    using free_loop_finds [of h "map fst xs'" p "map fst ys" bp "freep h"] fp sorted_gap_less [OF so(1)] xy xs
    by (simp add: free_def)
  obtain bs' where bs': "xs' @ join (p, s) (join (bp, t) ys) = (base, 0) # bs'" "sorted_wrt gap ((base, 0) # bs')"
    "area (set bs') = area (set bs) \<union> cells (bp, t)" "p \<in> insert base (fst ` set bs')" "\<exists>d \<in> set bs'. t \<le> snd d"
    "\<forall>c \<in> set bs'. 0 < snd c \<and> fst c \<in> insert bp (fst ` set bs) \<and> fst c + 8 * snd c \<le> lim"
    using put_back [OF l(2) fl pb xy(3) b(1,2) bs b(4)] by blast
  have "links ?h (xs' @ join (p, s) (join (bp, t) ys))"
    by (rule free_join_links)
      (use so hd bnot b pb sorted_gap_less [OF so(1)] in \<open>simp_all add: strict_sorted_iff del: map_append\<close>)
  moreover have "p \<in> insert base (fst ` set bs)" using fl by (cases xs') auto
  ultimately show ?thesis using f bs' pb
    by (intro exI [of _ ?h] exI [of _ bs']) (auto simp: free_join_eq attach_other attach_def set_ptr_def set_size_def)
qed

lemma minv_apart: "minv base h bs al \<Longrightarrow> c \<in> set bs \<Longrightarrow> b \<in> al \<Longrightarrow> cells b \<inter> cells c = {}"
  by (auto simp: minv_def area_def)

lemma minv_addr:
  assumes "minv base h bs al" "b \<in> al"
  shows "fst b \<notin> insert base (fst ` set bs)"
proof -
  have "fst b \<noteq> base" using minv_block [OF assms(1), of b] assms(2) by simp
  moreover have "fst b \<noteq> fst c" if "c \<in> set bs" for c
    using minv_apart [OF assms(1) that assms(2)] minv_block [OF assms(1), of b] minv_block [OF assms(1), of c]
      cells_fst [of b] cells_fst [of c] that assms(2) by auto
  ultimately show ?thesis by auto
qed

theorem free_ok:
  assumes inv: "minv base h bs al" and b: "(bp, t) \<in> al"
  shows "\<exists>h' bs'. free (bp + 8) h = Some h' \<and> minv base h' bs' (al - {(bp, t)}) \<and>
    area (set bs') = area (set bs) \<union> cells (bp, t) \<and> brk h' = brk h"
proof -
  note iv = inv [unfolded minv_def]
  have t: "0 < t" "base + 8 \<le> bp" "bp + 8 * t \<le> brk h" "hsize h bp = t"
    using minv_block [OF inv, of "(bp, t)"] iv b by auto
  have "\<forall>c \<in> set bs. 0 < snd c \<and> cells (bp, t) \<inter> cells c = {} \<and> fst c + 8 * snd c \<le> brk h"
    using minv_block [OF inv] minv_apart [OF inv _ b] by blast
  then obtain h' bs' where f: "free (bp + 8) h = Some h'" "links h' ((base, 0) # bs')" "sorted_wrt gap ((base, 0) # bs')"
    "freep h' \<in> insert base (fst ` set bs')" "area (set bs') = area (set bs) \<union> cells (bp, t)"
    "\<forall>c \<in> set bs'. 0 < snd c \<and> fst c \<in> insert bp (fst ` set bs) \<and> fst c + 8 * snd c \<le> brk h"
    "\<forall>q. q \<notin> insert bp (insert base (fst ` set bs)) \<longrightarrow> hsize h' q = hsize h q" "brk h' = brk h"
    using free_frees [of h base bs bp t "brk h"] iv t by auto
  have ap: "cells (bp, t) \<inter> cells c = {}" if "c \<in> al - {(bp, t)}" for c
    using iv pairwiseD [of "\<lambda>b c. cells b \<inter> cells c = {}" al "(bp, t)" c] b that by blast
  have "base + 8 \<le> fst c" if "c \<in> set bs'" for c
  proof -
    have "fst c = bp \<or> (\<exists>d \<in> set bs. fst c = fst d)" using f(6) that by auto
    then show ?thesis using t(2) minv_block [OF inv] by (metis UnI1)
  qed
  moreover have "hsize h' (fst c) = snd c" if c: "c \<in> al - {(bp, t)}" for c
  proof -
    have "fst c \<noteq> bp" using ap [OF c] cells_fst [of c] cells_fst [of "(bp, t)"] minv_block [OF inv, of c] t(1) c by auto
    then show ?thesis using f(7) minv_addr [OF inv, of c] iv c by auto
  qed
  moreover have "area (set bs') \<inter> area (al - {(bp, t)}) = {}"
    using iv ap f(5) by (auto simp: area_def)
  moreover have "pairwise (\<lambda>b c. cells b \<inter> cells c = {}) (al - {(bp, t)})"
    using iv by (auto simp: pairwise_def)
  moreover have "\<forall>c \<in> al - {(bp, t)}. 0 < snd c \<and> base + 8 \<le> fst c \<and> fst c + 8 * snd c \<le> brk h"
    using minv_block [OF inv] by blast
  ultimately have "minv base h' bs' (al - {(bp, t)})"
    unfolding minv_def using f(2,3,4,6,8) iv by (metis Un_iff)
  then show ?thesis using f by blast
qed

section \<open>Allocation\<close>

lemma free_list_drop:
  assumes l: "links h (xs @ (q, u) # (p, s) # ys)" and d: "distinct (map fst (xs @ (q, u) # (p, s) # ys))"
  shows "links (set_ptr q (hptr h p) h) (xs @ (q, u) # ys)"
proof -
  have z: "fst (hd (xs @ (q, u) # (p, s) # ys)) = fst (hd (xs @ [(q, u)]))" "fst (hd (xs @ (q, u) # ys)) = fst (hd (xs @ [(q, u)]))"
    by (cases xs; simp)+
  show ?thesis using l d unfolding links_def z by (auto simp: path_append set_ptr_def)
qed

lemma free_list_split:
  assumes l: "links h (xs @ (q, u) # (p, s) # ys)" and d: "distinct (map fst (xs @ (q, u) # (p, s) # ys))"
    and new: "a \<notin> fst ` set (xs @ (q, u) # (p, s) # ys)"
  shows "links (set_size a nu (set_size p r h)) (xs @ (q, u) # (p, r) # ys)"
proof -
  have z: "fst (hd (xs @ (q, u) # (p, s') # ys)) = fst (hd (xs @ [(q, u)]))" for s' by (cases xs; simp)
  have o: "fst b \<noteq> p \<and> fst b \<noteq> a" if "b \<in> set xs \<union> set ys" for b
  proof -
    have "fst b \<in> fst ` set xs \<union> fst ` set ys" using that by auto
    then show ?thesis using d new by (auto simp: image_Un)
  qed
  have "\<forall>b \<in> set xs \<union> set ys. hsize h (fst b) = snd b" using l by (auto simp: links_def)
  then have "hsize (set_size a nu (set_size p r h)) (fst b) = snd b" if "b \<in> set xs \<union> set ys" for b
    using o [OF that] that by (simp add: set_size_def)
  then show ?thesis using l d new unfolding links_def z by (auto simp: path_append set_size_def)
qed

text \<open>Taking a block keeps the invariant: the tail of a block that is larger, else the block.\<close>

lemma take_block_free:
  assumes l: "links h (xs @ (q, u) # (p, s) # ys)" "sorted_wrt gap (xs @ (q, u) # (p, s) # ys)" and nu: "0 < nu" "nu \<le> s"
  shows "\<exists>h'. take_block nu q p h = (p + 8 * (s - nu) + 8, h') \<and> hsize h' (p + 8 * (s - nu)) = nu \<and> freep h' = q \<and> brk h' = brk h \<and>
    links h' (xs @ (q, u) # (if s = nu then ys else (p, s - nu) # ys)) \<and>
    sorted_wrt gap (xs @ (q, u) # (if s = nu then ys else (p, s - nu) # ys)) \<and>
    (\<forall>r. r \<noteq> p \<and> r \<noteq> p + 8 * (s - nu) \<longrightarrow> hsize h' r = hsize h r)"
proof -
  have d: "distinct (map fst (xs @ (q, u) # (p, s) # ys))" using sorted_gap_less [OF l(2)] by (simp add: strict_sorted_iff)
  have hp: "hsize h p = s" using l(1) by (simp add: links_def)
  have links_freep: "links (k\<lparr>freep := v\<rparr>) bs = links k bs" for k v bs by (simp add: links_def)
  show ?thesis
  proof (cases "s = nu")
    case True
    then show ?thesis using l hp free_list_drop [OF l(1) d]
      by (auto simp: take_block_def links_freep set_ptr_def sorted_wrt_append)
  next
    case False
    have "p + 8 * (s - nu) \<notin> fst ` set (xs @ (q, u) # (p, s) # ys)"
      using l(2) nu False by (fastforce simp: sorted_wrt_append gap_def)
    then have "links (set_size (p + 8 * (s - nu)) nu (set_size p (s - nu) h)) (xs @ (q, u) # (p, s - nu) # ys)"
      by (rule free_list_split [OF l(1) d])
    moreover have "sorted_wrt gap (xs @ (q, u) # (p, s - nu) # ys)"
      using l(2) by (fastforce simp: sorted_wrt_append gap_def)
    ultimately show ?thesis using hp False
      by (auto simp: take_block_def links_freep set_size_def Let_def)
  qed
qed

lemma take_block_ok:
  assumes inv: "minv base h bs al" and bs: "(base, 0) # bs = xs @ (q, u) # (p, s) # ys" and nu: "0 < nu" "nu \<le> s"
  shows "\<exists>a h' bs'. take_block nu q p h = (a + 8, h') \<and> minv base h' bs' (insert (a, nu) al) \<and> hsize h' a = nu \<and>
    area (set bs) = area (set bs') \<union> cells (a, nu) \<and> cells (a, nu) \<inter> area al = {} \<and> brk h' = brk h"
proof -
  note iv = inv [unfolded minv_def]
  let ?r = "if s = nu then ys else (p, s - nu) # ys"
  define a where "a = p + 8 * (s - nu)"
  obtain h' where h': "take_block nu q p h = (a + 8, h')" "hsize h' a = nu" "freep h' = q" "brk h' = brk h"
    "links h' (xs @ (q, u) # ?r)" "sorted_wrt gap (xs @ (q, u) # ?r)" "\<forall>r. r \<noteq> p \<and> r \<noteq> a \<longrightarrow> hsize h' r = hsize h r"
    using take_block_free [of h xs q u p s ys nu] iv bs nu unfolding a_def by metis
  have pin: "(p, s) \<in> set bs" using bs by (cases xs) auto
  obtain bs' where fl': "(base, 0) # bs' = xs @ (q, u) # ?r" using bs by (cases xs) auto
  have ca: "cells (p, s) = cells (p, s - nu) \<union> cells (a, nu)" "cells (p, s - nu) \<inter> cells (a, nu) = {}" "a \<in> cells (a, nu)"
    using nu by (auto simp: cells_def a_def)
  have sub: "c \<in> set bs \<or> c = (p, s - nu) \<and> nu < s" if "c \<in> set bs'" for c
    using that fl' bs nu by (cases xs; cases "s = nu") auto
  have ar: "area (set bs) = area (set bs') \<union> cells (a, nu)" 
  proof -
    have "area (set ((base, 0) # bs)) = area (set ((base, 0) # bs')) \<union> cells (a, nu)"
      unfolding fl' bs using ca(1) by (auto simp: )
    then show ?thesis by simp
  qed
  have "cells c \<inter> cells (a, nu) = {}" if "c \<in> set (xs @ (q, u) # ?r)" for c
  proof -
    have "sorted_wrt gap (xs @ (q, u) # (p, s) # ys)" using iv bs by simp
    then have "c = (p, s - nu) \<or> fst c + 8 * snd c < p \<or> p + 8 * s < fst c"
      using that by (auto simp: sorted_wrt_append gap_def split: if_splits)
    moreover have "p \<le> a" "a + 8 * nu = p + 8 * s" using nu by (simp_all add: a_def)
    ultimately show ?thesis using ca(2) by (auto simp: cells_def)
  qed
  then have dj: "area (set bs') \<inter> cells (a, nu) = {}" unfolding fl' [symmetric] by (auto simp: area_def)
  have al: "cells (a, nu) \<inter> area al = {}" "area (set bs') \<inter> area al = {}" using ar iv by blast+
  have ps: "0 < s \<and> base + 8 \<le> p \<and> p + 8 * s \<le> brk h" using minv_block [OF inv, of "(p, s)"] pin by simp
  have bb: "\<forall>c \<in> set bs' \<union> insert (a, nu) al. 0 < snd c \<and> base + 8 \<le> fst c \<and> fst c + 8 * snd c \<le> brk h'"
  proof
    fix c assume "c \<in> set bs' \<union> insert (a, nu) al"
    then consider "c \<in> set bs" | "c \<in> al" | "c = (p, s - nu)" "nu < s" | "c = (a, nu)" using sub by blast
    then show "0 < snd c \<and> base + 8 \<le> fst c \<and> fst c + 8 * snd c \<le> brk h'"
      by cases (use minv_block [OF inv, of c] ps nu h'(4) in \<open>auto simp: a_def\<close>)
  qed
  have sz: "hsize h' (fst c) = snd c" if "c \<in> al" for c
  proof -
    have "cells c \<inter> cells (p, s) = {}" by (rule minv_apart [OF inv pin that])
    then have "fst c \<noteq> a" using ca cells_fst [of c] minv_block [OF inv, of c] that by auto
    moreover have "fst c \<noteq> p" using minv_addr [OF inv that] imageI [OF pin, of fst] by auto
    ultimately show ?thesis using h'(7) iv that by simp
  qed
  have "freep h' \<in> fst ` set ((base, 0) # bs')" unfolding fl' h'(3) by simp
  then have "freep h' \<in> insert base (fst ` set bs')" by simp
  moreover have "links h' ((base, 0) # bs')" "sorted_wrt gap ((base, 0) # bs')" unfolding fl' by (rule h')+
  moreover have "area (set bs') \<inter> area (insert (a, nu) al) = {}" using al dj by (simp add: Int_Un_distrib)
  moreover have "pairwise (\<lambda>b c. cells b \<inter> cells c = {}) (insert (a, nu) al)"
    using iv al(1) by (auto simp: pairwise_insert area_def)
  ultimately have "minv base h' bs' (insert (a, nu) al)"
    unfolding minv_def using iv h'(2,4) bb sz by simp
  then show ?thesis using h' ar al by blast
qed

lemma links_new:
  assumes "a \<notin> fst ` set bs" "links h bs"
  shows "links (set_size a n (h\<lparr>brk := k\<rparr>)) bs"
proof -
  have "fst b \<noteq> a" if "b \<in> set bs" for b using assms(1) imageI [OF that, of fst] by auto
  then show ?thesis using assms(2) by (simp add: links_def set_size_def)
qed

text \<open>\<open>morecore\<close> adds the memory at the break to the list.\<close>

lemma morecore_ok:
  assumes inv: "minv base h bs al" and nu: "0 < nu" "nu * 8 < 2 ^ 31"
  shows "(morecore grow nu h = Some (0, h) \<and> \<not> grow (int (8 * max nu 4096)) (brk h)) \<or>
    (\<exists>h' bs'. morecore grow nu h = Some (freep h', h') \<and> minv base h' bs' al \<and> (\<exists>d \<in> set bs'. nu \<le> snd d) \<and>
      area (set bs') = area (set bs) \<union> {brk h ..< brk h'} \<and> brk h < brk h')"
proof -
  note iv = inv [unfolded minv_def]
  define n where "n = (if nu < 4096 then 4096 else nu)"
  have n: "0 < n" "nu \<le> n" "int_of_uint (wrap32 (n * 8)) = int (n * 8)" "n = max nu 4096"
    using nu by (auto simp: n_def int_of_uint_def wrap32_def)
  show ?thesis
  proof (cases "grow (int (n * 8)) (brk h)")
    case False
    then show ?thesis using n unfolding morecore_def n_def [symmetric] by (simp add: sbrk_def mult.commute)
  next
    case True
    let ?b = "brk h" let ?h = "set_size ?b n (h\<lparr>brk := ?b + 8 * n\<rparr>)"
    have m: "morecore grow nu h = Option.bind (free (?b + 8) ?h) (\<lambda>h. Some (freep h, h))"
      unfolding morecore_def n_def [symmetric] n(3) Let_def using True
      by (simp add: sbrk_def mult.commute nat_add_distrib nat_mult_distrib)
    have lt: "fst c < ?b" if "c \<in> set bs" for c using minv_block [OF inv, of c] that by simp
    have nb: "?b \<notin> fst ` set bs" using lt by (metis imageE less_irrefl)
    have "?b \<noteq> base" using iv by simp
    then have "?b \<notin> fst ` set ((base, 0) # bs)" using nb by simp
    then have l: "links ?h ((base, 0) # bs)" using iv links_new by blast
    have pre: "sorted_wrt gap ((base, 0) # bs)" "freep ?h \<in> insert base (fst ` set bs)" "base < ?b" "hsize ?h ?b = n"
      using iv by (simp_all add: set_size_def)
    have "\<forall>c \<in> set bs. 0 < snd c \<and> cells (?b, n) \<inter> cells c = {} \<and> fst c + 8 * snd c \<le> ?b + 8 * n"
    proof
      fix c assume "c \<in> set bs"
      then show "0 < snd c \<and> cells (?b, n) \<inter> cells c = {} \<and> fst c + 8 * snd c \<le> ?b + 8 * n"
        using minv_block [OF inv, of c] by (auto simp: cells_def)
    qed
    note free_frees [OF l pre(1,2,3) n(1) pre(4) order_refl this]
    moreover have "brk ?h = ?b + 8 * n" by (simp add: set_size_def)
    ultimately obtain h' bs' where f: "free (?b + 8) ?h = Some h'" "links h' ((base, 0) # bs')" "sorted_wrt gap ((base, 0) # bs')"
      "freep h' \<in> insert base (fst ` set bs')" "area (set bs') = area (set bs) \<union> cells (?b, n)" "\<exists>d \<in> set bs'. n \<le> snd d"
      "\<forall>c \<in> set bs'. 0 < snd c \<and> fst c \<in> insert ?b (fst ` set bs) \<and> fst c + 8 * snd c \<le> ?b + 8 * n"
      "\<forall>q. q \<notin> insert ?b (insert base (fst ` set bs)) \<longrightarrow> hsize h' q = hsize ?h q" "brk h' = ?b + 8 * n"
      by metis
    have al: "hsize h' (fst c) = snd c" if "c \<in> al" for c
    proof -
      have "fst c \<noteq> ?b" using minv_block [OF inv, of c] that by simp
      then show ?thesis using f(8) minv_addr [OF inv that] iv that by (simp add: set_size_def)
    qed
    have lo: "base + 8 \<le> fst c" if "c \<in> set bs'" for c
    proof -
      have "fst c = ?b \<or> (\<exists>d \<in> set bs. fst c = fst d)" using f(7) that by auto
      then show ?thesis using iv minv_block [OF inv] by (metis UnI1)
    qed
    have "area (set bs') \<inter> area al = {}"
    proof -
      have "cells (?b, n) \<inter> cells c = {}" if "c \<in> al" for c using minv_block [OF inv, of c] that by (auto simp: cells_def)
      then show ?thesis using iv f(5) by (auto simp: area_def)
    qed
    moreover have "\<forall>c \<in> set bs' \<union> al. 0 < snd c \<and> base + 8 \<le> fst c \<and> fst c + 8 * snd c \<le> brk h'"
      using f(7,9) lo minv_block [OF inv] by (metis Un_iff trans_le_add1)
    ultimately have "minv base h' bs' al" unfolding minv_def using iv f(2,3,4,9) al by simp
    moreover have "\<exists>d \<in> set bs'. nu \<le> snd d" using f(6) n(2) by (meson order_trans)
    ultimately show ?thesis using m f(1,5,9) n(1) by (intro disjI2 exI [of _ h'] exI [of _ bs']) (simp add: cells_def)
  qed
qed

text \<open>The search goes once round the list: it takes the first block that is large enough, or asks for more memory at \<open>freep\<close>.\<close>

lemma malloc_loop_walk:
  assumes p: "path (hptr h) ns (hd ns)" "distinct ns" and f: "f < length ns" "freep h = ns ! f"
    and e: "e < length ns"
  shows "(\<exists>i < length ns. nu \<le> hsize h (ns ! (Suc i mod length ns)) \<and>
      malloc_loop grow nu (ns ! ((f + e) mod length ns)) (ns ! (Suc (f + e) mod length ns)) h =
        Some (take_block nu (ns ! i) (ns ! (Suc i mod length ns)) h)) \<or>
    ((\<forall>k. e \<le> k \<and> k < length ns \<longrightarrow> hsize h (ns ! (Suc (f + k) mod length ns)) < nu) \<and>
      malloc_loop grow nu (ns ! ((f + e) mod length ns)) (ns ! (Suc (f + e) mod length ns)) h =
        Option.bind (morecore grow nu h) (\<lambda>(p, h). if p = 0 then Some (0, h) else malloc_loop grow nu p (hptr h p) h))"
  using e
proof (induction "length ns - e" arbitrary: e)
  case (Suc d)
  let ?n = "length ns" let ?q = "ns ! ((f + e) mod ?n)" let ?p = "ns ! (Suc (f + e) mod ?n)"
  have n: "0 < ?n" using f(1) by linarith
  show ?case
  proof (cases "nu \<le> hsize h ?p")
    case True
    then have "malloc_loop grow nu ?q ?p h = Some (take_block nu ?q ?p h)" by (subst malloc_loop.simps) simp
    then show ?thesis using True n by (intro disjI1 exI [of _ "(f + e) mod ?n"]) (simp add: mod_Suc_eq)
  next
    case False
    show ?thesis
    proof (cases "Suc e = ?n")
      case True
      then have "Suc (f + e) mod ?n = f" using f(1) by (simp add: add_Suc_right [symmetric] del: add_Suc_right)
      then have "malloc_loop grow nu ?q ?p h =
          Option.bind (morecore grow nu h) (\<lambda>(p, h). if p = 0 then Some (0, h) else malloc_loop grow nu p (hptr h p) h)"
        using False f(2) by (subst malloc_loop.simps) simp
      moreover have "k = e" if "e \<le> k" "k < ?n" for k using that True by simp
      ultimately show ?thesis using False by (intro disjI2) (auto simp: not_le)
    next
      case no: False
      then have e': "Suc e < ?n" using Suc.prems by simp
      have "Suc (f + e) mod ?n \<noteq> f"
      proof
        assume "Suc (f + e) mod ?n = f"
        then have "(f + Suc e) mod ?n = (f + 0) mod ?n" using f(1) by simp
        then show False using ring_distinct [of 0 "Suc e" ?n f] e' by simp
      qed
      then have "?p \<noteq> freep h" using p(2) f n by (simp add: nth_eq_iff_index_eq)
      moreover have "hptr h ?p = ns ! (Suc (f + Suc e) mod ?n)"
      proof -
        have "hptr h ?p = ns ! (Suc (Suc (f + e) mod ?n) mod ?n)"
          by (rule path_next [OF p(1)]) (use n in simp)
        then show ?thesis by (simp add: mod_Suc_eq)
      qed
      ultimately have s: "malloc_loop grow nu ?q ?p h =
          malloc_loop grow nu (ns ! ((f + Suc e) mod ?n)) (ns ! (Suc (f + Suc e) mod ?n)) h"
        using False by (subst malloc_loop.simps) simp
      then have "d = ?n - Suc e" using Suc.hyps(2) by simp
      from Suc.hyps(1) [OF this e'] show ?thesis
      proof (elim disjE conjE)
        assume a: "\<forall>k. Suc e \<le> k \<and> k < ?n \<longrightarrow> hsize h (ns ! (Suc (f + k) mod ?n)) < nu"
        have "hsize h (ns ! (Suc (f + k) mod ?n)) < nu" if "e \<le> k" "k < ?n" for k
          using a that False by (cases "k = e") auto
        moreover assume "malloc_loop grow nu (ns ! ((f + Suc e) mod ?n)) (ns ! (Suc (f + Suc e) mod ?n)) h =
            Option.bind (morecore grow nu h) (\<lambda>(p, h). if p = 0 then Some (0, h) else malloc_loop grow nu p (hptr h p) h)"
        ultimately show ?thesis unfolding s by blast
      qed (unfold s, rule disjI1)
    qed
  qed
qed simp

lemma malloc_search:
  assumes inv: "minv base h bs al" and nu: "0 < nu"
  shows "(\<exists>xs q u p s ys. (base, 0) # bs = xs @ (q, u) # (p, s) # ys \<and> nu \<le> s \<and>
      malloc_loop grow nu (freep h) (hptr h (freep h)) h = Some (take_block nu q p h)) \<or>
    ((\<forall>b \<in> set bs. snd b < nu) \<and> malloc_loop grow nu (freep h) (hptr h (freep h)) h =
      Option.bind (morecore grow nu h) (\<lambda>(p, h). if p = 0 then Some (0, h) else malloc_loop grow nu p (hptr h p) h))"
proof -
  note iv = inv [unfolded minv_def]
  define fl where "fl = (base, 0) # bs"
  define ns where "ns = map fst fl"
  have so: "links h fl" "sorted_wrt gap fl" using iv by (simp_all add: fl_def)
  have pa: "path (hptr h) ns (hd ns)" using so(1) by (simp add: links_def ns_def fl_def)
  have di: "distinct ns" using sorted_gap_less [OF so(2)] by (simp add: ns_def strict_sorted_iff)
  have "freep h \<in> set ns" using iv by (simp add: ns_def fl_def)
  then obtain f where f: "f < length ns" "freep h = ns ! f" by (metis in_set_conv_nth)
  have n: "0 < length ns" by (simp add: ns_def fl_def)
  have sz: "hsize h (ns ! i) = snd (fl ! i)" if "i < length ns" for i
    using so(1) that by (simp add: links_def ns_def)
  have st: "ns ! ((f + 0) mod length ns) = freep h" "ns ! (Suc (f + 0) mod length ns) = hptr h (freep h)"
    using f path_next [OF pa f(1)] by simp_all
  from malloc_loop_walk [OF pa di f n, of nu grow] show ?thesis unfolding st
  proof (elim disjE exE conjE)
    fix i assume i: "i < length ns" "nu \<le> hsize h (ns ! (Suc i mod length ns))"
      "malloc_loop grow nu (freep h) (hptr h (freep h)) h = Some (take_block nu (ns ! i) (ns ! (Suc i mod length ns)) h)"
    have "ns ! (Suc i mod length ns) \<noteq> base" using i(2) nu so(1) by (auto simp: links_def fl_def)
    then have si: "Suc i < length ns" using i(1) by (cases "Suc i = length ns") (auto simp: ns_def fl_def)
    have "fl = take i fl @ fl ! i # fl ! Suc i # drop (Suc (Suc i)) fl"
      using si Cons_nth_drop_Suc [of i fl] Cons_nth_drop_Suc [of "Suc i" fl] by (simp add: ns_def)
    moreover have "ns ! i = fst (fl ! i)" "ns ! Suc i = fst (fl ! Suc i)" using si by (simp_all add: ns_def)
    moreover have "nu \<le> snd (fl ! Suc i)" using i(2) si sz [OF si] by simp
    ultimately show ?thesis using i(3) si unfolding fl_def [symmetric]
      by (intro disjI1 exI [of _ "take i fl"] exI [of _ "fst (fl ! i)"] exI [of _ "snd (fl ! i)"] exI [of _ "fst (fl ! Suc i)"]
          exI [of _ "snd (fl ! Suc i)"] exI [of _ "drop (Suc (Suc i)) fl"]) simp
  next
    assume a: "\<forall>k. 0 \<le> k \<and> k < length ns \<longrightarrow> hsize h (ns ! (Suc (f + k) mod length ns)) < nu"
    have "hsize h (ns ! j) < nu" if "j < length ns" for j
    proof -
      define k where "k = (if f < j then j - Suc f else j + length ns - Suc f)"
      have k: "k < length ns" "Suc (f + k) = (if f < j then j else j + length ns)" using that f(1) by (auto simp: k_def)
      then have "Suc (f + k) mod length ns = j" using that by simp
      then show ?thesis using a k(1) by auto
    qed
    then have "snd b < nu" if "b \<in> set bs" for b
      using that sz by (metis fl_def in_set_conv_nth length_map list.set_intros(2) ns_def)
    then show ?thesis if "malloc_loop grow nu (freep h) (hptr h (freep h)) h =
        Option.bind (morecore grow nu h) (\<lambda>(p, h). if p = 0 then Some (0, h) else malloc_loop grow nu p (hptr h p) h)"
      using that by blast
  qed
qed

text \<open>Before the first call \<open>freep\<close> is null and there is no list.\<close>

definition mok :: "nat \<Rightarrow> mheap \<Rightarrow> block list \<Rightarrow> block set \<Rightarrow> bool" where
  "mok base h bs al \<longleftrightarrow>
     (if freep h = 0 then 0 < base \<and> base + 8 \<le> brk h \<and> bs = [] \<and> al = {} else minv base h bs al)"

lemma minv_mok: "minv base h bs al \<Longrightarrow> mok base h bs al"
proof -
  assume m: "minv base h bs al"
  have "0 < fst b" if "b \<in> set bs" for b using minv_block [OF m, of b] that by simp
  then have "freep h \<noteq> 0" using m by (auto simp: minv_def)
  then show ?thesis using m by (simp add: mok_def)
qed

lemma malloc_loop_ok:
  assumes inv: "minv base h bs al" and nu: "0 < nu" "nu * 8 < 2 ^ 31"
  shows "\<exists>a h' bs'. malloc_loop grow nu (freep h) (hptr h (freep h)) h = Some (a, h') \<and>
    (if a = 0 then h' = h \<and> bs' = bs \<and> (\<forall>b \<in> set bs. snd b < nu) \<and> \<not> grow (int (8 * max nu 4096)) (brk h)
     else minv base h' bs' (insert (a - 8, nu) al) \<and> hsize h' (a - 8) = nu \<and> cells (a - 8, nu) \<inter> area al = {} \<and>
       8 \<le> a \<and> brk h \<le> brk h' \<and> area (set bs') \<union> cells (a - 8, nu) = area (set bs) \<union> {brk h ..< brk h'})"
    (is "\<exists>a h' bs'. ?l = Some (a, h') \<and> ?P a h' bs'")
proof -
  have take: "\<exists>a h' bs'. take_block nu q p k = (a, h') \<and> a \<noteq> 0 \<and> minv base h' bs' (insert (a - 8, nu) al) \<and>
      hsize h' (a - 8) = nu \<and> cells (a - 8, nu) \<inter> area al = {} \<and> 8 \<le> a \<and> brk h' = brk k \<and>
      area (set bs') \<union> cells (a - 8, nu) = area (set bs1)"
    if i: "minv base k bs1 al" "(base, 0) # bs1 = xs @ (q, u) # (p, s) # ys" "nu \<le> s" for k bs1 xs q u p s ys
  proof -
    obtain a h' bs' where "take_block nu q p k = (a + 8, h')" "minv base h' bs' (insert (a, nu) al)" "hsize h' a = nu"
      "area (set bs1) = area (set bs') \<union> cells (a, nu)" "cells (a, nu) \<inter> area al = {}" "brk h' = brk k"
      using take_block_ok [OF i(1,2) nu(1) i(3)] by blast
    then show ?thesis by (intro exI [of _ "a + 8"] exI [of _ h'] exI [of _ bs']) simp
  qed
  from malloc_search [OF inv nu(1), of grow] show ?thesis
  proof (elim disjE exE conjE)
    fix xs q u p s ys
    assume "(base, 0) # bs = xs @ (q, u) # (p, s) # ys" "nu \<le> s" "?l = Some (take_block nu q p h)"
    then show ?thesis using take [OF inv] by fastforce
  next
    assume none: "\<forall>b \<in> set bs. snd b < nu"
      and l: "?l = Option.bind (morecore grow nu h) (\<lambda>(p, h). if p = 0 then Some (0, h) else malloc_loop grow nu p (hptr h p) h)"
    from morecore_ok [OF inv nu, of grow] show ?thesis
    proof (elim disjE exE conjE)
      assume "morecore grow nu h = Some (0, h)" "\<not> grow (int (8 * max nu 4096)) (brk h)"
      then show ?thesis using l none by simp
    next
      fix h1 bs1
      assume m: "morecore grow nu h = Some (freep h1, h1)" "minv base h1 bs1 al" "\<exists>d \<in> set bs1. nu \<le> snd d"
        "area (set bs1) = area (set bs) \<union> {brk h ..< brk h1}" "brk h < brk h1"
      have "freep h1 \<noteq> 0" using minv_mok [OF m(2)] m(2) minv_block [OF m(2)] by (fastforce simp: minv_def)
      then have l1: "?l = malloc_loop grow nu (freep h1) (hptr h1 (freep h1)) h1" using l m(1) by simp
      from malloc_search [OF m(2) nu(1), of grow] obtain xs q u p s ys where
        t: "(base, 0) # bs1 = xs @ (q, u) # (p, s) # ys" "nu \<le> s"
          "malloc_loop grow nu (freep h1) (hptr h1 (freep h1)) h1 = Some (take_block nu q p h1)"
        using m(3) by (meson not_le)
      obtain a h' bs' where "take_block nu q p h1 = (a, h')" "a \<noteq> 0" "minv base h' bs' (insert (a - 8, nu) al)"
        "hsize h' (a - 8) = nu" "cells (a - 8, nu) \<inter> area al = {}" "8 \<le> a" "brk h' = brk h1"
        "area (set bs') \<union> cells (a - 8, nu) = area (set bs1)"
        using take [OF m(2) t(1,2)] by blast
      then show ?thesis using l1 t(3) m(4,5) by (intro exI [of _ a] exI [of _ h'] exI [of _ bs']) simp
    qed
  qed
qed

lemma malloc_units:
  assumes inv: "mok base h bs al" and nu: "nu = wrap32 (n + 7) div 8 + 1" "nu * 8 < 2 ^ 31"
  shows "\<exists>a h' bs'. malloc grow base n h = Some (a, h') \<and>
    (if a = 0 then minv base h' bs al \<and> brk h' = brk h
     else minv base h' bs' (insert (a - 8, nu) al) \<and> hsize h' (a - 8) = nu \<and> cells (a - 8, nu) \<inter> area al = {} \<and>
       8 \<le> a \<and> brk h \<le> brk h' \<and> area (set bs') \<union> cells (a - 8, nu) = area (set bs) \<union> {brk h ..< brk h'})"
proof -
  define k where "k = (if freep h = 0 then (set_size base 0 (set_ptr base base h))\<lparr>freep := base\<rparr> else h)"
  have k: "minv base k bs al"
  proof (cases "freep h = 0")
    case True
    then show ?thesis using inv by (simp add: mok_def k_def minv_def links_def set_size_def set_ptr_def)
  qed (use inv in \<open>simp add: mok_def k_def\<close>)
  have b: "brk k = brk h" by (simp add: k_def set_size_def set_ptr_def)
  have m: "malloc grow base n h = malloc_loop grow nu (freep k) (hptr k (freep k)) k"
    unfolding malloc_def nu(1) k_def Let_def by simp
  have "0 < nu" using nu(1) by simp
  from malloc_loop_ok [OF k this nu(2), of grow] obtain a h' bs' where
    1: "malloc grow base n h = Some (a, h')" and
    2: "if a = 0 then h' = k \<and> bs' = bs \<and> (\<forall>b \<in> set bs. snd b < nu) \<and> \<not> grow (int (8 * max nu 4096)) (brk k)
     else minv base h' bs' (insert (a - 8, nu) al) \<and> hsize h' (a - 8) = nu \<and> cells (a - 8, nu) \<inter> area al = {} \<and>
       8 \<le> a \<and> brk k \<le> brk h' \<and> area (set bs') \<union> cells (a - 8, nu) = area (set bs) \<union> {brk k ..< brk h'}"
    unfolding m [symmetric] by blast
  show ?thesis
  proof (cases "a = 0")
    case True
    then show ?thesis using 1 2 k b by auto
  next
    case False
    then show ?thesis using 1 2 b by (intro exI [of _ a] exI [of _ h'] exI [of _ bs']) simp
  qed
qed

text \<open>A request that does not wrap gets a block of the rounded size.\<close>

lemma units_fit:
  assumes "n + 16 \<le> 2 ^ 31" "nu = wrap32 (n + 7) div 8 + 1"
  shows "nu * 8 < 2 ^ 31" "n \<le> 8 * (nu - 1)" "8 * (nu - 1) < n + 8"
proof -
  have "nu = (n + 7) div 8 + 1" using assms by simp
  moreover have "n + 7 = 8 * ((n + 7) div 8) + (n + 7) mod 8" "(n + 7) mod 8 < 8" by simp_all
  ultimately show "nu * 8 < 2 ^ 31" "n \<le> 8 * (nu - 1)" "8 * (nu - 1) < n + 8" using assms(1) by linarith+
qed

section \<open>The program and its allocator\<close>

text \<open>Any sequence of calls: allocations, releases of blocks that are held, and a break that is moved up by somebody else. \<open>al\<close> are
  the blocks held, \<open>got\<close> is the memory the allocator was given.\<close>

inductive mstep :: "(int \<Rightarrow> nat \<Rightarrow> bool) \<Rightarrow> nat \<Rightarrow> mheap \<times> block set \<times> nat set \<Rightarrow> mheap \<times> block set \<times> nat set \<Rightarrow> bool"
  for grow base where
  malloc: "malloc grow base n h = Some (a, h') \<Longrightarrow> a \<noteq> 0 \<Longrightarrow> n + 16 \<le> 2 ^ 31 \<Longrightarrow>
    mstep grow base (h, al, got) (h', insert (a - 8, hsize h' (a - 8)) al, got \<union> {brk h ..< brk h'})"
| malloc_none: "malloc grow base n h = Some (0, h') \<Longrightarrow> n + 16 \<le> 2 ^ 31 \<Longrightarrow> mstep grow base (h, al, got) (h', al, got)"
| free: "(bp, t) \<in> al \<Longrightarrow> free (bp + 8) h = Some h' \<Longrightarrow> mstep grow base (h, al, got) (h', al - {(bp, t)}, got)"
| sbrk: "brk h \<le> k \<Longrightarrow> mstep grow base (h, al, got) (h\<lparr>brk := k\<rparr>, al, got)"

definition minv_got :: "nat \<Rightarrow> mheap \<times> block set \<times> nat set \<Rightarrow> bool" where
  "minv_got base = (\<lambda>(h, al, got). \<exists>bs. mok base h bs al \<and> area (set bs) \<union> area al = got)"

lemma minv_brk:
  assumes "minv base h bs al" "brk h \<le> k"
  shows "minv base (h\<lparr>brk := k\<rparr>) bs al"
proof -
  have "\<forall>b \<in> set bs \<union> al. 0 < snd b \<and> base + 8 \<le> fst b \<and> fst b + 8 * snd b \<le> k"
    using minv_block [OF assms(1)] assms(2) by (meson order_trans)
  then show ?thesis using assms unfolding minv_def by (simp add: links_def)
qed

lemma mok_brk: "mok base h bs al \<Longrightarrow> brk h \<le> k \<Longrightarrow> mok base (h\<lparr>brk := k\<rparr>) bs al"
  using minv_brk by (auto simp: mok_def split: if_splits)

lemma mstep_inv:
  assumes "mstep grow base st st'" "minv_got base st"
  shows "minv_got base st'"
  using assms
proof (cases rule: mstep.cases)
  case (malloc n h a h' al got)
  then obtain bs where bs: "mok base h bs al" "area (set bs) \<union> area al = got" using assms(2) by (auto simp: minv_got_def)
  obtain bs' where "minv base h' bs' (insert (a - 8, hsize h' (a - 8)) al)"
    "area (set bs') \<union> cells (a - 8, hsize h' (a - 8)) = area (set bs) \<union> {brk h ..< brk h'}"
    using malloc_units [OF bs(1) refl units_fit(1) [OF malloc(5) refl], of grow] malloc(3,4) by auto
  moreover from this(2) have "area (set bs') \<union> area (insert (a - 8, hsize h' (a - 8)) al) = got \<union> {brk h ..< brk h'}"
    using bs(2) by auto
  ultimately show ?thesis using malloc(2) minv_mok unfolding minv_got_def by blast
next
  case (malloc_none n h h' al got)
  then obtain bs where bs: "mok base h bs al" "area (set bs) \<union> area al = got" using assms(2) by (auto simp: minv_got_def)
  have "minv base h' bs al"
    using malloc_units [OF bs(1) refl units_fit(1) [OF malloc_none(4) refl], of grow] malloc_none(3) by auto
  then show ?thesis using malloc_none(2) bs(2) minv_mok unfolding minv_got_def by blast
next
  case (free bp t al h h' got)
  then obtain bs where bs: "mok base h bs al" "area (set bs) \<union> area al = got" using assms(2) by (auto simp: minv_got_def)
  then have "minv base h bs al" using free(3) by (auto simp: mok_def split: if_splits)
  from free_ok [OF this free(3)] obtain bs' where
    f: "minv base h' bs' (al - {(bp, t)})" "area (set bs') = area (set bs) \<union> cells (bp, t)" using free(4) by auto
  have "area al = cells (bp, t) \<union> area (al - {(bp, t)})" using free(3) by (auto simp: area_def)
  then have "area (set bs') \<union> area (al - {(bp, t)}) = got" using f(2) bs(2) by blast
  then show ?thesis using free(2) f(1) minv_mok unfolding minv_got_def by blast
next
  case (sbrk h k al got)
  then obtain bs where bs: "mok base h bs al" "area (set bs) \<union> area al = got" using assms(2) by (auto simp: minv_got_def)
  then show ?thesis using sbrk(2) mok_brk [OF bs(1) sbrk(3)] unfolding minv_got_def by blast
qed

text \<open>C13: the allocator is sound in every state a program reaches by allocating, releasing what it holds and moving the break up: the blocks
  it holds lie in the memory of the process, apart from each other and from the free list; the free list is a ring in the order of the
  addresses with neighbours joined; held and free blocks together are all the memory the allocator was given; every release returns; and every
  request returns, with null or with \<open>n\<close> bytes inside the new block that touch no block held.\<close>

theorem malloc_sound:
  assumes start: "freep h0 = 0" "0 < base" "base + 8 \<le> brk h0" and run: "(mstep grow base)\<^sup>*\<^sup>* (h0, {}, {}) (h, al, got)"
  shows "(\<forall>b \<in> al. base + 8 \<le> fst b \<and> fst b + 8 * snd b \<le> brk h) \<and> pairwise (\<lambda>b c. cells b \<inter> cells c = {}) al \<and>
    (\<exists>bs. (freep h \<noteq> 0 \<longrightarrow> links h ((base, 0) # bs)) \<and> sorted_wrt gap ((base, 0) # bs) \<and>
       area (set bs) \<inter> area al = {} \<and> area (set bs) \<union> area al = got) \<and>
    (\<forall>b \<in> al. \<exists>h'. free (fst b + 8) h = Some h') \<and>
    (n + 16 \<le> 2 ^ 31 \<longrightarrow> (\<exists>a h'. malloc grow base n h = Some (a, h') \<and>
       (a \<noteq> 0 \<longrightarrow> {a ..< a + n} \<subseteq> cells (a - 8, hsize h' (a - 8)) \<and> {a ..< a + n} \<inter> area al = {})))"
proof -
  have "minv_got base (h, al, got)"
    using run
  proof (induction "(h, al, got)" arbitrary: h al got rule: rtranclp_induct)
    case base
    then show ?case using start by (auto simp: minv_got_def mok_def)
  next
    case (step st)
    then show ?case using mstep_inv [OF step(2)] by (cases st) simp
  qed
  then obtain bs where bs: "mok base h bs al" "area (set bs) \<union> area al = got" by (auto simp: minv_got_def)
  have fr: "\<exists>h'. free (fst b + 8) h = Some h'" if "b \<in> al" for b
  proof -
    have "freep h \<noteq> 0" using bs(1) that by (cases "freep h = 0") (simp_all add: mok_def)
    then have "minv base h bs al" using bs(1) by (simp add: mok_def)
    from free_ok [OF this, of "fst b" "snd b"] show ?thesis using that by auto
  qed
  have al: "\<exists>a h'. malloc grow base n h = Some (a, h') \<and>
      (a \<noteq> 0 \<longrightarrow> {a ..< a + n} \<subseteq> cells (a - 8, hsize h' (a - 8)) \<and> {a ..< a + n} \<inter> area al = {})" if n: "n + 16 \<le> 2 ^ 31"
  proof -
    define nu where "nu = wrap32 (n + 7) div 8 + 1"
    note u = units_fit [OF n nu_def]
    obtain a h' where m: "malloc grow base n h = Some (a, h')"
      "a \<noteq> 0 \<longrightarrow> hsize h' (a - 8) = nu \<and> cells (a - 8, nu) \<inter> area al = {} \<and> 8 \<le> a"
      using malloc_units [OF bs(1) nu_def u(1), of grow] by (auto split: if_splits)
    have "{a ..< a + n} \<subseteq> cells (a - 8, nu)" if "8 \<le> a" using u(2) that nu_def by (auto simp: cells_def)
    then show ?thesis using m by blast
  qed
  show ?thesis
  proof (cases "freep h = 0")
    case True
    then show ?thesis using bs al by (auto simp: mok_def intro: exI [of _ "[]"])
  next
    case False
    then have m: "minv base h bs al" using bs(1) by (simp add: mok_def)
    then show ?thesis using fr al bs(2) minv_block [OF m] by (auto simp: minv_def)
  qed
qed

text \<open>A first request of 100 bytes is cut from the end of the 4096 units the kernel gives.\<close>

definition fresh :: mheap where
  "fresh = \<lparr>hptr = \<lambda>_. 0, hsize = \<lambda>_. 0, freep = 0, brk = 16384\<rparr>"

lemma first_malloc:
  "\<exists>h. malloc (\<lambda>_ _. True) 8192 100 fresh = Some (49048, h) \<and> hsize h 49040 = 14 \<and> brk h = 49152"
proof -
  define k where "k = (set_size 8192 0 (set_ptr 8192 8192 fresh))\<lparr>freep := 8192\<rparr>"
  define g where "g = set_size 16384 4096 (k\<lparr>brk := 49152\<rparr>)"
  define f where "f = free_join 16384 8192 g"
  have "free_loop g 16384 8192 = Some 8192"
    by (subst free_loop.simps) (simp add: g_def k_def set_size_def set_ptr_def)
  then have "morecore (\<lambda>_ _. True) 14 k = Some (8192, f)"
    by (simp add: morecore_def sbrk_def free_def k_def g_def f_def free_join_def Let_def set_size_def set_ptr_def fresh_def int_of_uint_def)
  moreover have "hptr f 8192 = 16384" "hsize f 16384 = 4096" "brk f = 49152"
    by (simp_all add: f_def g_def k_def free_join_def Let_def set_size_def set_ptr_def)
  ultimately have "malloc_loop (\<lambda>_ _. True) 14 8192 8192 k = Some (take_block 14 8192 16384 f)"
    by (subst malloc_loop.simps, subst malloc_loop.simps) (simp add: k_def set_size_def set_ptr_def)
  then have "malloc (\<lambda>_ _. True) 8192 100 fresh = Some (take_block 14 8192 16384 f)"
    by (simp add: malloc_def Let_def k_def set_size_def set_ptr_def fresh_def)
  then show ?thesis using \<open>hsize f 16384 = 4096\<close> \<open>brk f = 49152\<close>
    by (simp add: take_block_def set_size_def Let_def)
qed

theorem malloc_sound_witness:
  "\<exists>h. malloc (\<lambda>_ _. True) 8192 100 fresh = Some (49048, h) \<and> (\<exists>h'. free 49048 h = Some h') \<and>
    (\<exists>a h'. malloc (\<lambda>_ _. True) 8192 5000 h = Some (a, h') \<and> (a \<noteq> 0 \<longrightarrow> {a ..< a + 5000} \<inter> {49040 ..< 49152} = {}))"
proof -
  obtain h where h: "malloc (\<lambda>_ _. True) 8192 100 fresh = Some (49048, h)" "hsize h 49040 = 14" "brk h = 49152"
    using first_malloc by blast
  have "mstep (\<lambda>_ _. True) 8192 (fresh, {}, {}) (h, {(49040, 14)}, {16384 ..< 49152})"
    using mstep.malloc [OF h(1), of "{}" "{}"] h(2,3) by (simp add: fresh_def)
  then have "(mstep (\<lambda>_ _. True) 8192)\<^sup>*\<^sup>* (fresh, {}, {}) (h, {(49040, 14)}, {16384 ..< 49152})" by (rule r_into_rtranclp)
  from malloc_sound [OF _ _ _ this, of 5000] show ?thesis
    using h(1) by (auto simp: fresh_def cells_def)
qed

text \<open>The computation of the units wraps: a request of almost the whole address space is answered with a block that is a header and nothing else.\<close>

theorem malloc_wraps:
  assumes "mok base h bs al" "2 ^ 32 - 7 \<le> n" "n < 2 ^ 32" "malloc grow base n h = Some (a, h')" "a \<noteq> 0"
  shows "hsize h' (a - 8) = 1"
proof -
  have "wrap32 (n + 7) div 8 + 1 = 1"
    using assms(2,3) by (simp add: wrap32_def mod_if)
  then show ?thesis using malloc_units [OF assms(1) refl, of n grow] assms(4,5) by auto
qed

end
