(* ===== verification/Spec2Isabelle.thy ===== *)
theory Spec2Isabelle
  imports Mlfq_Proc_Props Mlfq_Trap Fs_Sys_Props Log_Props Th_Life Th_Types Th_Sys Console_Props Grep Spinlock Sleeplock Ide Pmanager Malloc
begin

text \<open>
  A verification of three xv6 kernels: Project01-MLFQ changes the scheduler, Project02-Thread adds
  threads and a process manager, Project03-FileSystem adds a triple indirect block, symbolic links and a buffered log. Each
  project is a full copy of xv6; a file is modelled in the project that changed it.

  \<^bold>\<open>How the code is represented.\<close> A kernel function is a HOL function on the state it reads and writes, a record
  per subsystem. A call that can panic, deadlock on itself or leave an object returns \<open>fault + 'a\<close> (Kernel_Prelude): \<open>Panic\<close> is
  a call of \<open>panic\<close>, \<open>Hang\<close> a wait for a lock the caller holds, \<open>Overrun\<close> an access outside an object or through a null
  pointer. An \<open>uint\<close> is a \<open>nat\<close> below \<open>2 ^ 32\<close> with \<open>wrap32\<close> and \<open>sub32\<close> where the code can wrap; bytes are 8-bit words; a pointer
  into a table is its index, a null pointer is \<open>None\<close>. Everything between two calls of \<open>acquire\<close> and \<open>release\<close> of one lock is one atomic step (Spinlock shows that this is what the locks give); a
  call that sleeps ends a step and is made again when it is woken. Loops over tables and lists are structural recursions or \<open>function\<close>s
  with a termination proof; the digit loop of \<open>procInfo\<close> is a partial function whose end is a theorem.

  \<^bold>\<open>Shared.\<close> Kernel_Prelude: results, C integers, searches in tables. Kernel_Types: channels, trap frames, sizes. Fifo: the locale
  \<open>bounded_fifo\<close>, the contract of a ring buffer, interpreted on the level queues (Mlfq_State) and on the queue of freed stacks (Th_State).

  \<^bold>\<open>Project01-MLFQ\<close> (proc.c, trap.c). Mlfq_State: process table, three level queues, scheduler lock. Mlfq_Sched: \<open>pickProc\<close>,
  \<open>priorityBoost\<close>, \<open>setPriority\<close>, and \<open>scheduler\<close> cut at its context switch into \<open>sched_pick\<close> and \<open>sched_feedback\<close>. Mlfq_Proc: \<open>fork\<close>, \<open>exit\<close>, \<open>wait\<close>,
  sleeping, \<open>kill\<close>, the password lock and the timer interrupt. Mlfq_Pick and Mlfq_Boost give each operation as a function of the lists of the
  levels; Mlfq_Inv and Mlfq_Steps make the kernel a transition system \<open>kstep\<close> on one CPU and prove its invariant; Mlfq_Props and
  Mlfq_Proc_Props hold the properties: no process is lost or queued twice, the order of the levels, the feedback rule, boosting, the dictator, the life cycle
  of processes, and two defects of the scheduler lock. Mlfq_Trap: the gates of the interrupt table and \<open>trap\<close>, cut where \<open>yield\<close> leaves it, with
  the interrupts 128 to 130 and the calls of sysproc.c that reach the scheduler; a killed process never gets back to its program, and a trap keeps the queues.

  \<^bold>\<open>Project02-Thread\<close> (proc.c, vm.c, kalloc.c, exec.c, syscall.c, sysproc.c). Vm: pages and page directories, with a page table kept as the
  entries of its directory. Vm_Inv: ownership of pages, \<open>vm_ok\<close> (no page has two owners) and \<open>avail\<close> (all pages of one address space and the free list).
  Vm_Props: what allocation, freeing and copying of address spaces keep. Th_State: the tables \<open>ptable\<close> and \<open>pthread_table\<close> and the wearing of a process
  slot by a thread (\<open>mvThreadToProc\<close>, \<open>mvProcToThread\<close>). Th_Proc: processes and the scheduler; Th_Thread: threads and \<open>exec\<close>; Th_Info: \<open>procInfo\<close>; Th_Sys: system calls and their
  arguments. Th_Areas is the geometry of stacks as page intervals, Th_Stacks the invariant \<open>stacks_ok\<close> of a process: the stacks of its live threads are mapped, those of joined
  ones are not, no two overlap. Th_Create, Th_Join and Th_Life show that \<open>thread_create\<close>, \<open>thread_join\<close> and the switch after \<open>thread_exit\<close> keep it and
  do what they promise; Th_Types that all tables stay well typed under any sequence of steps \<open>tstep\<close>; Th_Example holds the machines of the instances.

  \<^bold>\<open>Project03-FileSystem\<close> (fs.c, file.c, sysfile.c, pipe.c, bio.c, log.c, ide.c, string.c). C_String, Fs_Bytes: memory and disk blocks as bytes. Fs_Block: blocks, log room, the bitmap allocator.
  Fs_Bmap: \<open>bmap\<close> with paths through three levels of indirection. Fs_Inode: inodes on disk and in the cache. Fs_Trunc: freeing a tree of blocks. Fs_Rw: reading and writing contents. Fs_Dir: directories, paths, symbolic links.
  Fs_Sys: the file table and the calls. Pipe: the ring buffer of a pipe. In these theories a block is read through a transparent buffer cache; Bio and Log model the cache, the disk and the log themselves and Log_Props proves that
  the cache is transparent and that a commit is atomic under a crash between any two of its disk writes. Ide is the disk driver
  below them, ide.c: its queue serves the requests one by one in order, so that a transfer is one step in Bio. Fs_Alloc and the theories ending in \<open>Props\<close> hold the lemmas and properties: the allocator against the first free block, round trips of
  blocks, inodes and directory entries, bounds of reads, what truncation frees, the balance of inode references on every path of the calls, and the defects of symbolic links.

  \<^bold>\<open>Console\<close> (console.c). Digits: numbers as digits, \<open>printint\<close> and \<open>atoi\<close>. Console: the text screen, \<open>cprintf\<close>, \<open>panic\<close>, and the input with its
  ring (Ring: rings with free-running counters, shared with Pipe). Console_Props: the screen refines a scrolling terminal and the input a line discipline on two lists; output
  never leaves the screen.

  \<^bold>\<open>Locks\<close> (spinlock.c, sleeplock.c). Spinlock cuts \<open>acquire\<close> and \<open>release\<close> at the instructions other processors can see between and proves mutual exclusion for all
  interleavings of any number of processors, that interrupts stay off while a lock is held, and when the functions panic. Sleeplock: one owner and no lost wake-up.

  \<^bold>\<open>User programs.\<close> Grep: the matcher of grep.c decides the language of its pattern; the loop over the buffer prints the matching lines of inputs that arrive in whole
  lines, and loses the beginning of a line that does not. Ulib: \<open>strcmp\<close>, \<open>gets\<close> and the formatted output of ulib.c and printf.c. Pmanager: the process manager
  of Project02, a program that asks a kernel; served by the kernel model it does what a typed line says. Malloc: the allocator of umalloc.c, a ring of free blocks: \<open>minv\<close> is its invariant, \<open>put_back\<close> and
  \<open>take_block_ok\<close> keep it, and the loops, which are partial functions, are proved to return.

  \<^bold>\<open>Bounds.\<close> Links are followed at most ten times, as in the code. The theorems on allocation assume \<open>log_covers\<close>, the room in the log that \<open>begin_op\<close> reserves. The
  theorems on address spaces assume sizes below \<open>KERNBASE\<close> and that the boundary of the kernel's data lies between 1 MB and \<open>PHYSTOP\<close>, as the linker script puts it. Stacks have 1 to 100 pages, the range \<open>exec2\<close> checks.

  \<^bold>\<open>Not modelled.\<close> Boot code, assembly, interrupt controllers, the probing for disks, the keyboard tables and the machine registers (mycpu, seginit, switchkvm): they act on hardware only. In the file system the characters the console delivers are a parameter. The file systems of Project01 and Project02 are those of the original xv6, which Project03
  extends. The remaining user programs, among them the shell, and the tests run on the kernel and are not part of it.
\<close>

end
